(* ===== verification/Prelude.thy ===== *)
theory Prelude
  imports Main "HOL-Library.Word"
begin

unbundle bit_operations_syntax

text \<open>
  Shared vocabulary of the development: the faults a C program can run into, results
  that are either a fault or a value, checked reads and writes of arrays and of heaps
  of structs, and the generic facts the component theories use.

  A C array is a list. Reading or writing it outside its bounds is a fault of the
  model, never an unspecified value. A block of memory that \<^verbatim>\<open>skynet_malloc\<close> has
  returned and nothing has written yet holds \<open>None\<close> in its cells. A pointer is an
  address (a \<open>nat\<close>), \<open>None\<close> is \<^verbatim>\<open>NULL\<close>, and a heap is a map from addresses to structs.
\<close>

section \<open>Faults and results\<close>

datatype fault =
    Assert_failed      \<comment> \<open>\<^verbatim>\<open>assert(...)\<close> aborts the process\<close>
  | Out_of_bounds      \<comment> \<open>an array is read or written outside its bounds\<close>
  | Uninitialised      \<comment> \<open>memory is read before it is written\<close>
  | Null_deref         \<comment> \<open>\<^verbatim>\<open>NULL\<close> is dereferenced\<close>
  | Use_after_free     \<comment> \<open>an address is used that holds no struct\<close>
  | Endless_loop       \<comment> \<open>a loop of the source does not end\<close>
  | Process_exit       \<comment> \<open>\<^verbatim>\<open>exit(1)\<close>\<close>
  | Int_overflow       \<comment> \<open>a signed \<^verbatim>\<open>int\<close> overflows\<close>
  | Lua_error string   \<comment> \<open>\<^verbatim>\<open>luaL_error(L, ...)\<close> raises a Lua error with this format\<close>

type_synonym 'a res = "fault + 'a"
type_synonym byte = "8 word"
type_synonym u16 = "16 word"
type_synonym u32 = "32 word"
type_synonym u64 = "64 word"

named_theorems res_simps \<open>unfolding of results, checked reads and writes\<close>

definition bindR :: "'a res \<Rightarrow> ('a \<Rightarrow> 'b res) \<Rightarrow> 'b res" where
  "bindR m f = (case m of Inl e \<Rightarrow> Inl e | Inr x \<Rightarrow> f x)"

definition assertR :: "bool \<Rightarrow> unit res" where
  "assertR b = (if b then Inr () else Inl Assert_failed)"

definition rd :: "'a list \<Rightarrow> nat \<Rightarrow> 'a res" where
  "rd xs i = (if i < length xs then Inr (xs ! i) else Inl Out_of_bounds)"

definition wr :: "'a list \<Rightarrow> nat \<Rightarrow> 'a \<Rightarrow> 'a list res" where
  "wr xs i v = (if i < length xs then Inr (xs[i := v]) else Inl Out_of_bounds)"

definition memcpyR :: "'a list \<Rightarrow> nat \<Rightarrow> 'a list \<Rightarrow> 'a list res" where
  "memcpyR buf i xs =
     (if i + length xs \<le> length buf then Inr (take i buf @ xs @ drop (i + length xs) buf) else Inl Out_of_bounds)"

definition initialised :: "'a option \<Rightarrow> 'a res" where
  "initialised v = (case v of None \<Rightarrow> Inl Uninitialised | Some x \<Rightarrow> Inr x)"

definition deref :: "(nat \<rightharpoonup> 'a) \<Rightarrow> nat \<Rightarrow> 'a res" where
  "deref h p = (case h p of None \<Rightarrow> Inl Use_after_free | Some x \<Rightarrow> Inr x)"

definition nonnull :: "nat option \<Rightarrow> nat res" where
  "nonnull p = (case p of None \<Rightarrow> Inl Null_deref | Some a \<Rightarrow> Inr a)"

lemma bindR_Inl [simp]: "bindR (Inl e) f = Inl e"
  by (simp add: bindR_def)

lemma bindR_Inr [simp]: "bindR (Inr x) f = f x"
  by (simp add: bindR_def)

lemma bindR_cong [fundef_cong]:
  "m = m' \<Longrightarrow> (\<And>x. m' = Inr x \<Longrightarrow> f x = g x) \<Longrightarrow> bindR m f = bindR m' g"
  by (cases m') simp_all

lemma bindR_assoc: "bindR (bindR m f) g = bindR m (\<lambda>x. bindR (f x) g)"
  by (cases m) simp_all

lemma bindR_eq_Inr [res_simps]: "bindR m f = Inr y \<longleftrightarrow> (\<exists>x. m = Inr x \<and> f x = Inr y)"
  by (cases m) simp_all

lemma bindR_InrE [elim!]:
  assumes "bindR m f = Inr y"
  obtains x where "m = Inr x" and "f x = Inr y"
  using assms by (auto simp: bindR_eq_Inr)

lemma assertR_Inr [simp]: "assertR b = Inr u \<longleftrightarrow> b"
  by (simp add: assertR_def)

lemma assertR_True [simp]: "assertR True = Inr ()"
  by (simp add: assertR_def)

lemma assertR_False [simp]: "assertR False = Inl Assert_failed"
  by (simp add: assertR_def)

lemma rd_ok [simp]: "i < length xs \<Longrightarrow> rd xs i = Inr (xs ! i)"
  by (simp add: rd_def)

lemma rd_Inr [res_simps]: "rd xs i = Inr v \<longleftrightarrow> i < length xs \<and> v = xs ! i"
  by (auto simp: rd_def)

lemma wr_ok [simp]: "i < length xs \<Longrightarrow> wr xs i v = Inr (xs[i := v])"
  by (simp add: wr_def)

lemma wr_Inr [res_simps]: "wr xs i v = Inr ys \<longleftrightarrow> i < length xs \<and> ys = xs[i := v]"
  by (auto simp: wr_def)

lemma memcpyR_ok [simp]:
  "i + length xs \<le> length buf \<Longrightarrow> memcpyR buf i xs = Inr (take i buf @ xs @ drop (i + length xs) buf)"
  by (simp add: memcpyR_def)

lemma initialised_Some [simp]: "initialised (Some x) = Inr x"
  by (simp add: initialised_def)

lemma initialised_Inr [res_simps]: "initialised v = Inr x \<longleftrightarrow> v = Some x"
  by (cases v) (auto simp: initialised_def)

lemma deref_ok [simp]: "h p = Some x \<Longrightarrow> deref h p = Inr x"
  by (simp add: deref_def)

lemma deref_Inr [res_simps]: "deref h p = Inr x \<longleftrightarrow> h p = Some x"
  by (cases "h p") (auto simp: deref_def)

lemma nonnull_Some [simp]: "nonnull (Some a) = Inr a"
  by (simp add: nonnull_def)

lemma nonnull_Inr [res_simps]: "nonnull p = Inr a \<longleftrightarrow> p = Some a"
  by (cases p) (auto simp: nonnull_def)

section \<open>Loops\<close>

text \<open>
  \<open>forR n f s\<close> is \<^verbatim>\<open>for (i=0; i<n; i++)\<close> whose body \<open>f i\<close> updates the state \<open>s\<close> and may
  run into a fault, which ends the loop.
\<close>

fun forR_from :: "nat \<Rightarrow> nat \<Rightarrow> (nat \<Rightarrow> 's \<Rightarrow> 's res) \<Rightarrow> 's \<Rightarrow> 's res" where
  "forR_from i 0 f s = Inr s"
| "forR_from i (Suc n) f s = bindR (f i s) (forR_from (Suc i) n f)"

definition forR :: "nat \<Rightarrow> (nat \<Rightarrow> 's \<Rightarrow> 's res) \<Rightarrow> 's \<Rightarrow> 's res" where
  "forR n f s = forR_from 0 n f s"

lemma forR_from_invariant:
  assumes "\<And>k t. i \<le> k \<Longrightarrow> k < i + n \<Longrightarrow> P k t \<Longrightarrow> \<exists>t'. f k t = Inr t' \<and> P (Suc k) t'"
    and "P i s"
  shows "\<exists>t. forR_from i n f s = Inr t \<and> P (i + n) t"
  using assms
proof (induction n arbitrary: i s)
  case 0
  then show ?case by simp
next
  case (Suc n)
  from Suc.prems(1) [of i s] Suc.prems(2) obtain t where t: "f i s = Inr t" "P (Suc i) t"
    by auto
  have "\<exists>u. forR_from (Suc i) n f t = Inr u \<and> P (Suc i + n) u"
    by (rule Suc.IH) (use Suc.prems t in auto)
  with t show ?case by auto
qed

text \<open>The Hoare rule of a counting loop: an invariant that each round re-establishes
  for the next index holds at the end, and no round faults.\<close>

lemma forR_invariant:
  assumes "P 0 s"
    and "\<And>k t. k < n \<Longrightarrow> P k t \<Longrightarrow> \<exists>t'. f k t = Inr t' \<and> P (Suc k) t'"
  shows "\<exists>t. forR n f s = Inr t \<and> P n t"
  using forR_from_invariant [of 0 n P f s] assms by (simp add: forR_def)

section \<open>FIFO interface\<close>

text \<open>
  What a client of a queue relies on. \<open>items\<close> is the abstract content, oldest first;
  \<open>put\<close> and \<open>get\<close> never fault on a queue that satisfies \<open>inv\<close>.
\<close>

locale fifo =
  fixes put :: "'q \<Rightarrow> 'a \<Rightarrow> 'q res"
    and get :: "'q \<Rightarrow> ('a option \<times> 'q) res"
    and items :: "'q \<Rightarrow> 'a list"
    and inv :: "'q \<Rightarrow> bool"
  assumes put_ok: "inv q \<Longrightarrow> \<exists>q'. put q x = Inr q' \<and> inv q' \<and> items q' = items q @ [x]"
    and get_empty: "inv q \<Longrightarrow> items q = [] \<Longrightarrow>
          \<exists>q'. get q = Inr (None, q') \<and> inv q' \<and> items q' = []"
    and get_first: "inv q \<Longrightarrow> items q = x # xs \<Longrightarrow>
          \<exists>q'. get q = Inr (Some x, q') \<and> inv q' \<and> items q' = xs"
begin

fun puts :: "'q \<Rightarrow> 'a list \<Rightarrow> 'q res" where
  "puts q [] = Inr q"
| "puts q (x # xs) = bindR (put q x) (\<lambda>q'. puts q' xs)"

fun gets :: "'q \<Rightarrow> nat \<Rightarrow> ('a option list \<times> 'q) res" where
  "gets q 0 = Inr ([], q)"
| "gets q (Suc n) = bindR (get q) (\<lambda>(x, q'). bindR (gets q' n) (\<lambda>(xs, q''). Inr (x # xs, q'')))"

lemma puts_ok:
  "inv q \<Longrightarrow> \<exists>q'. puts q xs = Inr q' \<and> inv q' \<and> items q' = items q @ xs"
proof (induction xs arbitrary: q)
  case Nil
  then show ?case by simp
next
  case (Cons x xs)
  obtain q1 where q1: "put q x = Inr q1" "inv q1" "items q1 = items q @ [x]"
    using put_ok [OF Cons.prems] by blast
  from Cons.IH [OF q1(2)] q1 show ?case by auto
qed

lemma gets_ok:
  "inv q \<Longrightarrow> n \<le> length (items q) \<Longrightarrow>
     \<exists>q'. gets q n = Inr (map Some (take n (items q)), q') \<and> inv q' \<and> items q' = drop n (items q)"
proof (induction n arbitrary: q)
  case 0
  then show ?case by simp
next
  case (Suc n)
  then obtain x xs where x: "items q = x # xs" by (cases "items q") auto
  obtain q1 where q1: "get q = Inr (Some x, q1)" "inv q1" "items q1 = xs"
    using get_first [OF Suc.prems(1) x] by blast
  from Suc.IH [OF q1(2)] Suc.prems q1 x show ?case by auto
qed

text \<open>Everything put into an empty queue comes out, in the order it was put in.\<close>

lemma puts_gets:
  assumes "inv q" and "items q = []"
  shows "\<exists>q' q''. puts q xs = Inr q' \<and> gets q' (length xs) = Inr (map Some xs, q'') \<and> items q'' = []"
  using puts_ok [OF assms(1), of xs] assms(2) gets_ok by fastforce

end

section \<open>Dictionary interface\<close>

text \<open>
  What a client of a table with a bounded number of entries relies on. \<open>add s x\<close> enters the
  item \<open>x\<close> under \<open>key x\<close>, with the value \<open>val s x\<close>, which the table may choose itself; a key is added
  at most once, and \<open>room s\<close> more entries fit.
\<close>

locale dict =
  fixes lookup :: "'s \<Rightarrow> 'k \<Rightarrow> 'v option"
    and add :: "'s \<Rightarrow> 'a \<Rightarrow> 's res"
    and key :: "'a \<Rightarrow> 'k"
    and val :: "'s \<Rightarrow> 'a \<Rightarrow> 'v"
    and inv :: "'s \<Rightarrow> bool"
    and room :: "'s \<Rightarrow> nat"
    and key_ok :: "'k \<Rightarrow> bool"
  assumes add_fresh: "inv s \<Longrightarrow> key_ok (key x) \<Longrightarrow> lookup s (key x) = None \<Longrightarrow> 0 < room s \<Longrightarrow>
    \<exists>s'. add s x = Inr s' \<and> inv s' \<and> lookup s' = (lookup s)(key x \<mapsto> val s x) \<and> room s' = room s - 1"
begin

fun adds :: "'s \<Rightarrow> 'a list \<Rightarrow> 's res" where
  "adds s [] = Inr s"
| "adds s (x # xs) = bindR (add s x) (\<lambda>s'. adds s' xs)"

text \<open>Different new keys can be entered one after the other as long as there is room; all of
  them are found afterwards and nothing else has changed.\<close>

lemma adds_ok:
  "inv s \<Longrightarrow> distinct (map key xs) \<Longrightarrow> (\<forall>x \<in> set xs. key_ok (key x) \<and> lookup s (key x) = None) \<Longrightarrow>
   length xs \<le> room s \<Longrightarrow>
   \<exists>s'. adds s xs = Inr s' \<and> inv s' \<and> room s' = room s - length xs \<and>
     dom (lookup s') = dom (lookup s) \<union> key ` set xs \<and>
     (\<forall>k. k \<notin> key ` set xs \<longrightarrow> lookup s' k = lookup s k)"
proof (induction xs arbitrary: s)
  case Nil
  then show ?case by simp
next
  case (Cons x xs)
  obtain s1 where s1: "add s x = Inr s1" "inv s1" "lookup s1 = (lookup s)(key x \<mapsto> val s x)"
      "room s1 = room s - 1"
    using add_fresh [of s x] Cons.prems by auto
  have "\<forall>y \<in> set xs. key_ok (key y) \<and> lookup s1 (key y) = None"
    using Cons.prems s1(3) by (auto simp: image_iff)
  moreover have "length xs \<le> room s1" using Cons.prems(4) s1(4) by simp
  ultimately obtain s2 where s2: "adds s1 xs = Inr s2" "inv s2" "room s2 = room s1 - length xs"
      "dom (lookup s2) = dom (lookup s1) \<union> key ` set xs"
      "\<forall>k. k \<notin> key ` set xs \<longrightarrow> lookup s2 k = lookup s1 k"
    using Cons.IH [OF s1(2)] Cons.prems s1(4) by auto
  then show ?case using s1 by auto
qed

end

section \<open>Words\<close>

text \<open>Filling the low \<open>k\<close> bits and comparing is comparing the rest.\<close>

lemma or_mask_eq_iff:
  fixes a b :: "'a::len word"
  shows "a OR mask k = b OR mask k \<longleftrightarrow> drop_bit k a = drop_bit k b"
proof
  assume eq: "a OR mask k = b OR mask k"
  have "bit (drop_bit k a) n = bit (drop_bit k b) n" for n
    using arg_cong [OF eq, of "\<lambda>w. bit w (k + n)"] by (simp add: bit_simps)
  then show "drop_bit k a = drop_bit k b" by (simp add: bit_eq_iff)
next
  assume eq: "drop_bit k a = drop_bit k b"
  show "a OR mask k = b OR mask k"
  proof (rule bit_word_eqI)
    fix n
    assume "n < LENGTH('a)"
    then show "bit (a OR mask k) n = bit (b OR mask k) n"
      using arg_cong [OF eq, of "\<lambda>w. bit w (n - k)"]
      by (cases "k \<le> n") (auto simp: bit_simps)
  qed
qed

lemma drop_bit_eq_iff_unat:
  fixes a b :: "'a::len word"
  shows "drop_bit k a = drop_bit k b \<longleftrightarrow> unat a div 2 ^ k = unat b div 2 ^ k"
  by (simp only: word_unat_eq_iff unat_drop_bit_eq) (simp add: drop_bit_eq_div)

lemma unat_u32: "unat (x :: u32) < 2 ^ 32"
  using unsigned_less [of x] by simp

lemma unat_and_mask: "unat (x AND mask k :: 'a::len word) = unat x mod 2 ^ k"
  unfolding take_bit_eq_mask [symmetric] unsigned_take_bit_eq by (simp add: take_bit_eq_mod)

section \<open>Lists\<close>

lemma mod_add_wrap: "(a::nat) < n \<Longrightarrow> b < n \<Longrightarrow> (a + b) mod n = (if a + b < n then a + b else a + b - n)"
  by (simp add: mod_if)

end
