(* ===== verification/Mq.thy ===== *)
theory Mq
  imports Prelude
begin

text \<open>
  The message queues of \<^verbatim>\<open>skynet-src/skynet_mq.c\<close>: one growing ring buffer per service
  and the global queue of the service queues that wait for a worker.

  The struct fields \<^verbatim>\<open>cap\<close>, \<^verbatim>\<open>head\<close>, \<^verbatim>\<open>tail\<close> and the overload counters are \<open>nat\<close>s (a
  negative value never arises, and overflowing \<^verbatim>\<open>int\<close> would take a ring of \<open>2 ^ 30\<close>
  messages). The ring itself is a list of cells that are \<open>None\<close> until they are written.
  Service queues are structs in a heap, linked through \<^verbatim>\<open>next\<close> into the global queue.
  Every operation below runs under the queue's spinlock, so it is one atomic step.
\<close>

section \<open>Data\<close>

type_synonym qaddr = nat

text \<open>What a message's \<^verbatim>\<open>data\<close> points to: nothing, bytes, the \<^verbatim>\<open>struct remote_message\<close> that
  \<^verbatim>\<open>skynet_harbor_send\<close> hands to the harbor service (destination name and handle, the
  message and its size), or a \<^verbatim>\<open>struct skynet_socket_message\<close> (type, id, ud and buffer) with the
  bytes that follow it.\<close>

datatype payload =
    Null
  | Bytes "byte list"
  | Remote (remote_name: string) (remote_handle: u32) (remote_data: payload) (remote_sz: u64)
  | Socket_msg (sock_type: int) (sock_id: int) (sock_ud: int) (sock_buffer: "byte list option")
      (sock_pad: "byte list")

record skynet_message =
  msg_source :: u32
  msg_session :: u32
  msg_data :: payload
  msg_sz :: u64

record message_queue =
  mq_handle :: u32
  mq_cap :: nat
  mq_head :: nat
  mq_tail :: nat
  mq_release :: bool
  mq_in_global :: bool
  mq_overload :: nat
  mq_overload_threshold :: nat
  mq_queue :: "skynet_message option list"
  mq_next :: "qaddr option"

record mq_world =
  mqs :: "qaddr \<rightharpoonup> message_queue"
  gq_head :: "qaddr option"
  gq_tail :: "qaddr option"

definition MESSAGE_TYPE_MASK :: u64 where
  "MESSAGE_TYPE_MASK = drop_bit 8 (- 1)"

definition MESSAGE_TYPE_SHIFT :: nat where
  "MESSAGE_TYPE_SHIFT = (8 - 1) * 8"

definition DEFAULT_QUEUE_SIZE :: nat where
  "DEFAULT_QUEUE_SIZE = 64"

definition MQ_OVERLOAD :: nat where
  "MQ_OVERLOAD = 1024"

section \<open>The global queue\<close>

definition skynet_mq_init :: "'a mq_world_scheme \<Rightarrow> 'a mq_world_scheme" where
  "skynet_mq_init w = w\<lparr>gq_head := None, gq_tail := None\<rparr>"

definition set_next :: "'a mq_world_scheme \<Rightarrow> qaddr \<Rightarrow> qaddr option \<Rightarrow> 'a mq_world_scheme res" where
  "set_next w q n = bindR (deref (mqs w) q) (\<lambda>r. Inr (w\<lparr>mqs := (mqs w)(q \<mapsto> r\<lparr>mq_next := n\<rparr>)\<rparr>))"

definition skynet_globalmq_push :: "'a mq_world_scheme \<Rightarrow> qaddr \<Rightarrow> 'a mq_world_scheme res" where
  "skynet_globalmq_push w q =
     bindR (deref (mqs w) q) (\<lambda>r.
     bindR (assertR (mq_next r = None)) (\<lambda>_.
     case gq_tail w of
       Some t \<Rightarrow> bindR (set_next w t (Some q)) (\<lambda>w'. Inr (w'\<lparr>gq_tail := Some q\<rparr>))
     | None \<Rightarrow> Inr (w\<lparr>gq_head := Some q, gq_tail := Some q\<rparr>)))"

definition skynet_globalmq_pop :: "'a mq_world_scheme \<Rightarrow> (qaddr option \<times> 'a mq_world_scheme) res" where
  "skynet_globalmq_pop w =
     (case gq_head w of
        None \<Rightarrow> Inr (None, w)
      | Some mq \<Rightarrow>
          bindR (deref (mqs w) mq) (\<lambda>r.
          let w1 = w\<lparr>gq_head := mq_next r\<rparr> in
          bindR (if gq_head w1 = None
                 then bindR (assertR (Some mq = gq_tail w1)) (\<lambda>_. Inr (w1\<lparr>gq_tail := None\<rparr>))
                 else Inr w1) (\<lambda>w2.
          bindR (set_next w2 mq None) (\<lambda>w3. Inr (Some mq, w3)))))"

section \<open>The ring of one service\<close>

text \<open>The struct that \<^verbatim>\<open>skynet_mq_create\<close> fills in, and the allocation of it at the
  address \<open>q\<close> that \<^verbatim>\<open>skynet_malloc\<close> returns.\<close>

definition new_mq :: "u32 \<Rightarrow> message_queue" where
  "new_mq handle = \<lparr>mq_handle = handle, mq_cap = DEFAULT_QUEUE_SIZE, mq_head = 0, mq_tail = 0,
     mq_release = False, mq_in_global = True, mq_overload = 0,
     mq_overload_threshold = MQ_OVERLOAD,
     mq_queue = replicate DEFAULT_QUEUE_SIZE None, mq_next = None\<rparr>"

definition skynet_mq_create :: "'a mq_world_scheme \<Rightarrow> qaddr \<Rightarrow> u32 \<Rightarrow> 'a mq_world_scheme" where
  "skynet_mq_create w q handle = w\<lparr>mqs := (mqs w)(q \<mapsto> new_mq handle)\<rparr>"

definition skynet_mq_handle :: "message_queue \<Rightarrow> u32" where
  "skynet_mq_handle q = mq_handle q"

definition skynet_mq_length :: "message_queue \<Rightarrow> int" where
  "skynet_mq_length q =
     (let head = int (mq_head q); tail = int (mq_tail q); cap = int (mq_cap q) in
      if head \<le> tail then tail - head else tail + cap - head)"

definition skynet_mq_overload :: "message_queue \<Rightarrow> nat \<times> message_queue" where
  "skynet_mq_overload q =
     (if mq_overload q \<noteq> 0 then (mq_overload q, q\<lparr>mq_overload := 0\<rparr>) else (0, q))"

text \<open>\<^verbatim>\<open>while (length > threshold) { overload = length; threshold *= 2; }\<close>, which does not
  end when the threshold is 0.\<close>

function overload_loop :: "int \<Rightarrow> nat \<Rightarrow> nat \<Rightarrow> (nat \<times> nat) res" where
  "overload_loop len overload threshold =
     (if len > int threshold
      then if threshold = 0 then Inl Endless_loop
           else overload_loop len (nat len) (threshold * 2)
      else Inr (overload, threshold))"
  by pat_completeness auto
termination
  by (relation "measure (\<lambda>(l, v, t). nat l - t)") auto

declare overload_loop.simps [simp del]

definition skynet_mq_pop :: "message_queue \<Rightarrow> (skynet_message option \<times> message_queue) res" where
  "skynet_mq_pop q =
     (if mq_head q \<noteq> mq_tail q then
        bindR (rd (mq_queue q) (mq_head q)) (\<lambda>cell.
        bindR (initialised cell) (\<lambda>message.
        let head = (if mq_head q + 1 \<ge> mq_cap q then 0 else mq_head q + 1);
            l = int (mq_tail q) - int head;
            len = (if l < 0 then l + int (mq_cap q) else l) in
        bindR (overload_loop len (mq_overload q) (mq_overload_threshold q)) (\<lambda>(v, t).
        Inr (Some message, q\<lparr>mq_head := head, mq_overload := v, mq_overload_threshold := t\<rparr>))))
      else Inr (None, q\<lparr>mq_overload_threshold := MQ_OVERLOAD, mq_in_global := False\<rparr>))"

definition expand_queue :: "message_queue \<Rightarrow> message_queue res" where
  "expand_queue q =
     (let new_queue = replicate (mq_cap q * 2) None in
      bindR (forR (mq_cap q)
               (\<lambda>i nq. bindR (rd (mq_queue q) ((mq_head q + i) mod mq_cap q)) (\<lambda>v. wr nq i v))
               new_queue) (\<lambda>nq.
      Inr (q\<lparr>mq_head := 0, mq_tail := mq_cap q, mq_cap := mq_cap q * 2, mq_queue := nq\<rparr>)))"

text \<open>The first half of \<^verbatim>\<open>skynet_mq_push\<close>: store the message at the tail, grow the ring when
  it has become full.\<close>

definition mq_store :: "message_queue \<Rightarrow> skynet_message \<Rightarrow> message_queue res" where
  "mq_store q message =
     bindR (wr (mq_queue q) (mq_tail q) (Some message)) (\<lambda>cells.
     let t = mq_tail q + 1;
         q1 = q\<lparr>mq_queue := cells, mq_tail := (if t \<ge> mq_cap q then 0 else t)\<rparr> in
     if mq_head q1 = mq_tail q1 then expand_queue q1 else Inr q1)"

definition skynet_mq_push :: "'a mq_world_scheme \<Rightarrow> qaddr \<Rightarrow> skynet_message \<Rightarrow> 'a mq_world_scheme res" where
  "skynet_mq_push w q message =
     bindR (deref (mqs w) q) (\<lambda>r.
     bindR (mq_store r message) (\<lambda>r1.
     if \<not> mq_in_global r1
     then skynet_globalmq_push (w\<lparr>mqs := (mqs w)(q \<mapsto> r1\<lparr>mq_in_global := True\<rparr>)\<rparr>) q
     else Inr (w\<lparr>mqs := (mqs w)(q \<mapsto> r1)\<rparr>)))"

section \<open>Release of a queue\<close>

definition skynet_mq_mark_release :: "'a mq_world_scheme \<Rightarrow> qaddr \<Rightarrow> 'a mq_world_scheme res" where
  "skynet_mq_mark_release w q =
     bindR (deref (mqs w) q) (\<lambda>r.
     bindR (assertR (\<not> mq_release r)) (\<lambda>_.
     let w1 = w\<lparr>mqs := (mqs w)(q \<mapsto> r\<lparr>mq_release := True\<rparr>)\<rparr> in
     if \<not> mq_in_global r then skynet_globalmq_push w1 q else Inr w1))"

definition mq_free :: "'a mq_world_scheme \<Rightarrow> qaddr \<Rightarrow> 'a mq_world_scheme res" where
  "mq_free w q =
     bindR (deref (mqs w) q) (\<lambda>r.
     bindR (assertR (mq_next r = None)) (\<lambda>_.
     Inr (w\<lparr>mqs := (mqs w)(q := None)\<rparr>)))"

text \<open>
  \<^verbatim>\<open>_drop_queue\<close> pops the queue until it is empty, hands every message to \<^verbatim>\<open>drop_func\<close> and
  frees the queue. \<^verbatim>\<open>drop_func\<close> works on the whole system, so it maps worlds to worlds.
  \<open>fuel\<close> bounds the rounds; one more than the length of the queue is enough when
  \<^verbatim>\<open>drop_func\<close> leaves the queue alone (\<open>drop_queue_ok\<close>).
\<close>

fun drop_queue :: "nat \<Rightarrow> (skynet_message \<Rightarrow> 'a mq_world_scheme \<Rightarrow> 'a mq_world_scheme res) \<Rightarrow>
    'a mq_world_scheme \<Rightarrow> qaddr \<Rightarrow> 'a mq_world_scheme res" where
  "drop_queue 0 drop_func w q = Inl Endless_loop"
| "drop_queue (Suc fuel) drop_func w q =
     bindR (deref (mqs w) q) (\<lambda>r.
     bindR (skynet_mq_pop r) (\<lambda>(msg, r').
     let w' = w\<lparr>mqs := (mqs w)(q \<mapsto> r')\<rparr> in
     case msg of
       Some m \<Rightarrow> bindR (drop_func m w') (\<lambda>w''. drop_queue fuel drop_func w'' q)
     | None \<Rightarrow> mq_free w' q))"

definition skynet_mq_release :: "(skynet_message \<Rightarrow> 'a mq_world_scheme \<Rightarrow> 'a mq_world_scheme res) \<Rightarrow>
    'a mq_world_scheme \<Rightarrow> qaddr \<Rightarrow> 'a mq_world_scheme res" where
  "skynet_mq_release drop_func w q =
     bindR (deref (mqs w) q) (\<lambda>r.
     if mq_release r
     then drop_queue (Suc (nat (skynet_mq_length r))) drop_func w q
     else skynet_globalmq_push w q)"

section \<open>The ring as a list of messages\<close>

definition mq_len :: "message_queue \<Rightarrow> nat" where
  "mq_len q = (if mq_head q \<le> mq_tail q then mq_tail q - mq_head q
               else mq_tail q + mq_cap q - mq_head q)"

definition mq_at :: "message_queue \<Rightarrow> nat \<Rightarrow> nat" where
  "mq_at q i = (mq_head q + i) mod mq_cap q"

definition mq_items :: "message_queue \<Rightarrow> skynet_message list" where
  "mq_items q = map (\<lambda>i. the (mq_queue q ! mq_at q i)) [0..<mq_len q]"

text \<open>What holds of every queue between two operations: the indices are inside the
  ring, the cells between \<^verbatim>\<open>head\<close> and \<^verbatim>\<open>tail\<close> have been written, the overload threshold is
  positive, so that the overload loop ends.\<close>

definition mq_inv :: "message_queue \<Rightarrow> bool" where
  "mq_inv q \<longleftrightarrow> length (mq_queue q) = mq_cap q \<and> mq_head q < mq_cap q \<and> mq_tail q < mq_cap q \<and>
     0 < mq_overload_threshold q \<and> (\<forall>i < mq_len q. mq_queue q ! mq_at q i \<noteq> None)"

lemma mq_at_less: "mq_inv q \<Longrightarrow> mq_at q i < mq_cap q"
  by (auto simp: mq_inv_def mq_at_def)

lemma mq_len_less: "mq_inv q \<Longrightarrow> mq_len q < mq_cap q"
  by (auto simp: mq_inv_def mq_len_def)

lemma mq_at_len: "mq_inv q \<Longrightarrow> mq_at q (mq_len q) = mq_tail q"
  by (auto simp: mq_inv_def mq_len_def mq_at_def mod_if)

lemma mq_at_inj: "mq_inv q \<Longrightarrow> i < mq_cap q \<Longrightarrow> j < mq_cap q \<Longrightarrow> mq_at q i = mq_at q j \<Longrightarrow> i = j"
  by (auto simp: mq_inv_def mq_at_def mod_add_wrap split: if_splits)

lemma length_mq_items [simp]: "length (mq_items q) = mq_len q"
  by (simp add: mq_items_def)

lemma mq_items_Nil: "mq_inv q \<Longrightarrow> mq_items q = [] \<longleftrightarrow> mq_head q = mq_tail q"
  by (auto simp: mq_items_def mq_len_def mq_inv_def)

lemma mq_length_items: "mq_inv q \<Longrightarrow> skynet_mq_length q = int (length (mq_items q))"
  by (auto simp: skynet_mq_length_def mq_len_def mq_inv_def Let_def)

lemma new_mq_inv: "mq_inv (new_mq h) \<and> mq_items (new_mq h) = []"
  by (simp add: mq_inv_def new_mq_def mq_len_def DEFAULT_QUEUE_SIZE_def MQ_OVERLOAD_def
      mq_items_def)

subsection \<open>Taking a message\<close>

lemma overload_loop_ok:
  "0 < t \<Longrightarrow> \<exists>v' t'. overload_loop l v t = Inr (v', t') \<and> 0 < t' \<and> l \<le> int t' \<and>
     (if l \<le> int t then v' = v \<and> t' = t else v' = nat l)"
proof (induction l v t rule: overload_loop.induct)
  case (1 l v t)
  then show ?case
    by (cases "int t < l"; cases "l \<le> int (t * 2)") (auto simp: overload_loop.simps [of l v t])
qed

lemma mq_pop_empty:
  assumes "mq_inv q" and "mq_items q = []"
  shows "skynet_mq_pop q = Inr (None, q\<lparr>mq_overload_threshold := MQ_OVERLOAD, mq_in_global := False\<rparr>)"
  using assms by (simp add: skynet_mq_pop_def mq_items_Nil)

definition pop_head :: "message_queue \<Rightarrow> nat" where
  "pop_head q = (if mq_head q + 1 \<ge> mq_cap q then 0 else mq_head q + 1)"

lemma mq_at_pop:
  assumes "mq_inv q" and "mq_head q \<noteq> mq_tail q"
  shows "mq_len (q\<lparr>mq_head := pop_head q\<rparr>) = mq_len q - 1"
    and "mq_at (q\<lparr>mq_head := pop_head q\<rparr>) i = mq_at q (Suc i)"
proof -
  show "mq_len (q\<lparr>mq_head := pop_head q\<rparr>) = mq_len q - 1"
    using assms by (auto simp: mq_inv_def mq_len_def pop_head_def)
  have "Suc (mq_head q) = mq_cap q" if "mq_cap q \<le> Suc (mq_head q)"
    using assms that by (auto simp: mq_inv_def)
  then show "mq_at (q\<lparr>mq_head := pop_head q\<rparr>) i = mq_at q (Suc i)"
    by (auto simp: mq_at_def pop_head_def simp flip: add_Suc)
qed

lemma mq_items_pop:
  assumes "mq_inv q" and "mq_head q \<noteq> mq_tail q"
  shows "mq_items (q\<lparr>mq_head := pop_head q\<rparr>) = tl (mq_items q)"
    and "mq_inv (q\<lparr>mq_head := pop_head q\<rparr>)"
    and "mq_queue q ! mq_head q = Some (hd (mq_items q))"
proof -
  from assms have pos: "0 < mq_len q" by (auto simp: mq_len_def mq_inv_def)
  then obtain n where n: "mq_len q = Suc n" by (cases "mq_len q") auto
  show "mq_items (q\<lparr>mq_head := pop_head q\<rparr>) = tl (mq_items q)"
    using mq_at_pop [OF assms] n by (simp add: mq_items_def map_upt_Suc del: upt_Suc)
  show "mq_inv (q\<lparr>mq_head := pop_head q\<rparr>)"
    using mq_at_pop [OF assms] n assms
    by (auto simp: mq_inv_def pop_head_def)
  from assms pos have "mq_queue q ! mq_at q 0 \<noteq> None" by (auto simp: mq_inv_def)
  then show "mq_queue q ! mq_head q = Some (hd (mq_items q))"
    using n assms by (auto simp: mq_items_def map_upt_Suc mq_at_def mq_inv_def simp del: upt_Suc)
qed

text \<open>The fields that the ring's abstraction does not read.\<close>

lemma mq_frame [simp]:
  "mq_items (q\<lparr>mq_overload := v\<rparr>) = mq_items q"
  "mq_items (q\<lparr>mq_overload_threshold := t\<rparr>) = mq_items q"
  "mq_items (q\<lparr>mq_in_global := b\<rparr>) = mq_items q"
  "mq_items (q\<lparr>mq_release := b\<rparr>) = mq_items q"
  "mq_items (q\<lparr>mq_next := n\<rparr>) = mq_items q"
  "mq_inv (q\<lparr>mq_overload := v\<rparr>) = mq_inv q"
  "mq_inv (q\<lparr>mq_in_global := b\<rparr>) = mq_inv q"
  "mq_inv (q\<lparr>mq_release := b\<rparr>) = mq_inv q"
  "mq_inv (q\<lparr>mq_next := n\<rparr>) = mq_inv q"
  by (simp_all add: mq_items_def mq_inv_def mq_len_def mq_at_def)

lemma mq_inv_threshold [simp]: "mq_inv q \<Longrightarrow> 0 < t \<Longrightarrow> mq_inv (q\<lparr>mq_overload_threshold := t\<rparr>)"
  by (simp add: mq_inv_def mq_len_def mq_at_def)

lemma mq_pop_first:
  assumes inv: "mq_inv q" and items: "mq_items q = x # xs"
  obtains q' where "skynet_mq_pop q = Inr (Some x, q')" and "mq_inv q'" and "mq_items q' = xs"
    and "mq_in_global q' = mq_in_global q" and "mq_handle q' = mq_handle q"
    and "mq_release q' = mq_release q" and "mq_next q' = mq_next q"
proof -
  have ne: "mq_head q \<noteq> mq_tail q" using inv items mq_items_Nil by force
  define l where "l = (let l = int (mq_tail q) - int (pop_head q)
                       in if l < 0 then l + int (mq_cap q) else l)"
  obtain v t where vt: "overload_loop l (mq_overload q) (mq_overload_threshold q) = Inr (v, t)" "0 < t"
    using inv overload_loop_ok [of "mq_overload_threshold q" l "mq_overload q"]
    by (auto simp: mq_inv_def)
  let ?q = "q\<lparr>mq_head := pop_head q, mq_overload := v, mq_overload_threshold := t\<rparr>"
  have "skynet_mq_pop q = Inr (Some x, ?q)"
    using inv ne mq_items_pop(3) [OF inv ne] vt(1) items
    by (simp add: skynet_mq_pop_def mq_inv_def Let_def pop_head_def l_def)
  moreover have "mq_inv ?q" using mq_items_pop(2) [OF inv ne] vt(2) by simp
  moreover have "mq_items ?q = xs" using mq_items_pop(1) [OF inv ne] items by simp
  ultimately show thesis by (rule that) simp_all
qed

subsection \<open>Storing a message\<close>

text \<open>The ring just after the write and the step of \<^verbatim>\<open>tail\<close>, before it may grow.\<close>

definition stored :: "message_queue \<Rightarrow> skynet_message \<Rightarrow> message_queue" where
  "stored q m = q\<lparr>mq_queue := (mq_queue q)[mq_tail q := Some m],
     mq_tail := (if mq_tail q + 1 \<ge> mq_cap q then 0 else mq_tail q + 1)\<rparr>"

definition ring_cells :: "message_queue \<Rightarrow> nat \<Rightarrow> skynet_message list" where
  "ring_cells q n = map (\<lambda>i. the (mq_queue q ! mq_at q i)) [0..<n]"

lemma stored_cells:
  assumes "mq_inv q"
  shows "ring_cells (stored q m) (Suc (mq_len q)) = mq_items q @ [m]"
    and "\<forall>i < Suc (mq_len q). mq_queue (stored q m) ! mq_at (stored q m) i \<noteq> None"
proof -
  have at: "mq_at (stored q m) i = mq_at q i" for i
    by (simp add: mq_at_def stored_def)
  have same: "mq_at q i \<noteq> mq_tail q" if "i < mq_len q" for i
    using mq_at_inj [OF assms, of i "mq_len q"] mq_at_len [OF assms] mq_len_less [OF assms] that
    by force
  have last: "mq_queue (stored q m) ! mq_at q (mq_len q) = Some m"
    using assms mq_at_len [OF assms] by (simp add: stored_def mq_inv_def)
  have keep: "mq_queue (stored q m) ! mq_at q i = mq_queue q ! mq_at q i" if "i < mq_len q" for i
    using same [OF that] by (simp add: stored_def)
  show "ring_cells (stored q m) (Suc (mq_len q)) = mq_items q @ [m]"
    using keep last by (simp add: ring_cells_def mq_items_def at)
  show "\<forall>i < Suc (mq_len q). mq_queue (stored q m) ! mq_at (stored q m) i \<noteq> None"
    using keep last assms by (auto simp: at less_Suc_eq mq_inv_def)
qed

lemma stored_shape:
  assumes "mq_inv q"
  shows "length (mq_queue (stored q m)) = mq_cap q" "mq_tail (stored q m) < mq_cap q"
    and "mq_head q \<noteq> mq_tail (stored q m) \<Longrightarrow> mq_len (stored q m) = Suc (mq_len q)"
    and "mq_head q = mq_tail (stored q m) \<Longrightarrow> Suc (mq_len q) = mq_cap q"
  using assms by (auto simp: mq_inv_def stored_def mq_len_def)

lemma stored_fields [simp]:
  "mq_cap (stored q m) = mq_cap q" "mq_head (stored q m) = mq_head q"
  "mq_handle (stored q m) = mq_handle q" "mq_in_global (stored q m) = mq_in_global q"
  "mq_release (stored q m) = mq_release q" "mq_next (stored q m) = mq_next q"
  "mq_overload_threshold (stored q m) = mq_overload_threshold q"
  by (simp_all add: stored_def)

lemma expand_queue_ok:
  assumes len: "length (mq_queue q) = mq_cap q" and pos: "0 < mq_cap q"
  obtains nq where "expand_queue q = Inr (q\<lparr>mq_head := 0, mq_tail := mq_cap q,
      mq_cap := mq_cap q * 2, mq_queue := nq\<rparr>)"
    and "length nq = mq_cap q * 2" and "\<forall>i < mq_cap q. nq ! i = mq_queue q ! mq_at q i"
proof -
  let ?P = "\<lambda>k nq. length nq = mq_cap q * 2 \<and> (\<forall>i < k. nq ! i = mq_queue q ! mq_at q i)"
  let ?f = "\<lambda>i nq. bindR (rd (mq_queue q) ((mq_head q + i) mod mq_cap q)) (\<lambda>v. wr nq i v)"
  have "\<exists>nq. forR (mq_cap q) ?f (replicate (mq_cap q * 2) None) = Inr nq \<and> ?P (mq_cap q) nq"
    by (rule forR_invariant)
       (use pos len in \<open>auto simp: mq_at_def less_Suc_eq nth_list_update\<close>)
  with that show thesis by (auto simp: expand_queue_def)
qed

lemma mq_store_ok:
  assumes inv: "mq_inv q"
  obtains q' where "mq_store q m = Inr q'" and "mq_inv q'" and "mq_items q' = mq_items q @ [m]"
    and "mq_in_global q' = mq_in_global q" and "mq_handle q' = mq_handle q"
    and "mq_release q' = mq_release q" and "mq_next q' = mq_next q"
    and "mq_cap q' = (if Suc (mq_len q) = mq_cap q then 2 * mq_cap q else mq_cap q)"
proof -
  note cells = stored_cells [OF inv, of m] and shape = stored_shape [OF inv, of m]
  have step: "mq_store q m = (if mq_head (stored q m) = mq_tail (stored q m)
      then expand_queue (stored q m) else Inr (stored q m))"
    using inv by (simp add: mq_store_def stored_def mq_inv_def Let_def)
  show thesis
  proof (cases "mq_head q = mq_tail (stored q m)")
    case False
    then have "mq_items (stored q m) = mq_items q @ [m]"
      using cells(1) shape(3) by (simp add: mq_items_def ring_cells_def)
    moreover have "mq_inv (stored q m)"
      using inv cells(2) shape False by (simp add: mq_inv_def)
    moreover have "Suc (mq_len q) \<noteq> mq_cap q"
      using False inv by (auto simp: stored_def mq_len_def mq_inv_def split: if_splits)
    ultimately show thesis using False step by (intro that [of "stored q m"]) simp_all
  next
    case True
    obtain nq where nq: "expand_queue (stored q m) = Inr ((stored q m)\<lparr>mq_head := 0, mq_tail := mq_cap q,
          mq_cap := mq_cap q * 2, mq_queue := nq\<rparr>)" "length nq = mq_cap q * 2"
        "\<forall>i < mq_cap q. nq ! i = mq_queue (stored q m) ! mq_at (stored q m) i"
      using expand_queue_ok [of "stored q m"] shape(1) inv by (auto simp: mq_inv_def)
    let ?q = "(stored q m)\<lparr>mq_head := 0, mq_tail := mq_cap q, mq_cap := mq_cap q * 2, mq_queue := nq\<rparr>"
    have len: "mq_len ?q = Suc (mq_len q)" using shape(4) [OF True] by (simp add: mq_len_def)
    have at: "mq_at ?q i = i" if "i < mq_cap q" for i using that by (simp add: mq_at_def)
    have "mq_items ?q = ring_cells (stored q m) (Suc (mq_len q))"
      unfolding mq_items_def len ring_cells_def using nq(3) shape(4) [OF True] at
      by (intro map_cong) auto
    then have "mq_items ?q = mq_items q @ [m]" using cells(1) by simp
    moreover have "mq_inv ?q"
      using inv nq cells(2) shape(4) [OF True] at unfolding mq_inv_def len by auto
    ultimately show thesis using True step nq(1) shape(4) [OF True] by (intro that [of ?q]) simp_all
  qed
qed

text \<open>The ring is a FIFO queue: the laws of the interface hold for the code's own
  \<^verbatim>\<open>skynet_mq_pop\<close> and for the store half of \<^verbatim>\<open>skynet_mq_push\<close>.\<close>

interpretation mq_ring: fifo mq_store skynet_mq_pop mq_items mq_inv
proof unfold_locales
  fix q :: message_queue and x
  assume "mq_inv q"
  then show "\<exists>q'. mq_store q x = Inr q' \<and> mq_inv q' \<and> mq_items q' = mq_items q @ [x]"
    using mq_store_ok by metis
next
  fix q :: message_queue
  assume "mq_inv q" "mq_items q = []"
  then show "\<exists>q'. skynet_mq_pop q = Inr (None, q') \<and> mq_inv q' \<and> mq_items q' = []"
    by (simp add: mq_pop_empty MQ_OVERLOAD_def)
next
  fix q :: message_queue and x xs
  assume "mq_inv q" "mq_items q = x # xs"
  then show "\<exists>q'. skynet_mq_pop q = Inr (Some x, q') \<and> mq_inv q' \<and> mq_items q' = xs"
    using mq_pop_first by metis
qed

section \<open>The global queue as a list of addresses\<close>

fun gq_seg :: "(qaddr \<rightharpoonup> message_queue) \<Rightarrow> qaddr option \<Rightarrow> qaddr list \<Rightarrow> bool" where
  "gq_seg m p [] \<longleftrightarrow> p = None"
| "gq_seg m p (x # xs) \<longleftrightarrow>
     p = Some x \<and> (case m x of None \<Rightarrow> False | Some r \<Rightarrow> gq_seg m (mq_next r) xs)"

text \<open>The world \<open>w\<close> holds the global queue \<open>xs\<close>: the \<^verbatim>\<open>next\<close> links from \<^verbatim>\<open>Q->head\<close> run through
  \<open>xs\<close>, no queue occurs twice, \<^verbatim>\<open>Q->tail\<close> is the last one, and a queue outside has no
  successor.\<close>

definition gq_repr :: "'a mq_world_scheme \<Rightarrow> qaddr list \<Rightarrow> bool" where
  "gq_repr w xs \<longleftrightarrow> gq_seg (mqs w) (gq_head w) xs \<and> distinct xs \<and>
     gq_tail w = (if xs = [] then None else Some (last xs)) \<and>
     (\<forall>q r. mqs w q = Some r \<longrightarrow> q \<notin> set xs \<longrightarrow> mq_next r = None)"

text \<open>Two worlds agree on everything about the queues but the \<^verbatim>\<open>next\<close> links.\<close>

definition mq_body :: "message_queue \<Rightarrow> message_queue" where
  "mq_body r = r\<lparr>mq_next := None\<rparr>"

definition same_bodies :: "(qaddr \<rightharpoonup> message_queue) \<Rightarrow> (qaddr \<rightharpoonup> message_queue) \<Rightarrow> bool" where
  "same_bodies m m' \<longleftrightarrow> (\<forall>p. map_option mq_body (m' p) = map_option mq_body (m p))"

lemma same_bodies_refl [simp]: "same_bodies m m"
  by (simp add: same_bodies_def)

lemma same_bodies_next [simp]: "m q = Some r \<Longrightarrow> same_bodies m (m(q \<mapsto> r\<lparr>mq_next := n\<rparr>))"
  by (simp add: same_bodies_def mq_body_def)

lemma same_bodies_trans: "same_bodies a b \<Longrightarrow> same_bodies b c \<Longrightarrow> same_bodies a c"
  by (simp add: same_bodies_def)

lemma same_bodies_Some:
  assumes "same_bodies m m'" and "m q = Some r"
  obtains r' where "m' q = Some r'" and "r' = r\<lparr>mq_next := mq_next r'\<rparr>"
proof -
  from assms have "map_option mq_body (m' q) = Some (mq_body r)"
    by (simp add: same_bodies_def)
  then obtain r' where r': "m' q = Some r'" "mq_body r' = mq_body r" by auto
  have "r' = (mq_body r')\<lparr>mq_next := mq_next r'\<rparr>" by (simp add: mq_body_def)
  with r' have "r' = r\<lparr>mq_next := mq_next r'\<rparr>" by (simp add: mq_body_def)
  with r' that show thesis by blast
qed

lemma same_bodies_fields:
  assumes "same_bodies m m'" and "m q = Some r"
  obtains r' where "m' q = Some r'" and "mq_items r' = mq_items r" and "mq_inv r' = mq_inv r"
    and "mq_in_global r' = mq_in_global r" and "mq_release r' = mq_release r"
    and "mq_handle r' = mq_handle r"
proof -
  obtain r' where r': "m' q = Some r'" "r' = r\<lparr>mq_next := mq_next r'\<rparr>"
    using same_bodies_Some [OF assms] .
  have "mq_items (r\<lparr>mq_next := n\<rparr>) = mq_items r" "mq_inv (r\<lparr>mq_next := n\<rparr>) = mq_inv r"
      "mq_in_global (r\<lparr>mq_next := n\<rparr>) = mq_in_global r"
      "mq_release (r\<lparr>mq_next := n\<rparr>) = mq_release r" "mq_handle (r\<lparr>mq_next := n\<rparr>) = mq_handle r" for n
    by simp_all
  with r' that show thesis by metis
qed

lemma same_bodies_sym: "same_bodies m m' \<Longrightarrow> same_bodies m' m"
  by (simp add: same_bodies_def)

lemma gq_seg_dom: "gq_seg m p xs \<Longrightarrow> q \<in> set xs \<Longrightarrow> m q \<noteq> None"
  by (induction xs arbitrary: p) (auto split: option.splits)

lemma gq_seg_upd: "q \<notin> set xs \<Longrightarrow> gq_seg (m(q := v)) p xs = gq_seg m p xs"
  by (induction xs arbitrary: p) (auto split: option.splits)

lemma gq_seg_head: "gq_seg m p xs \<Longrightarrow> p = (if xs = [] then None else Some (hd xs))"
  by (cases xs) auto

text \<open>Linking \<open>q\<close> behind the last queue.\<close>

lemma gq_seg_snoc:
  assumes "gq_seg m p (xs @ [t])" and "distinct (xs @ [t])" and "q \<notin> set (xs @ [t])"
    and "m t = Some rt" and "m q = Some rq" and "mq_next rq = None"
  shows "gq_seg (m(t \<mapsto> rt\<lparr>mq_next := Some q\<rparr>)) p (xs @ [t, q])"
  using assms
  by (induction xs arbitrary: p) (auto split: option.splits)

lemma globalmq_push_ok:
  assumes repr: "gq_repr w xs" and new: "q \<notin> set xs" and q: "mqs w q = Some r"
  obtains w' where "skynet_globalmq_push w q = Inr w'" and "gq_repr w' (xs @ [q])"
    and "same_bodies (mqs w) (mqs w')" and "mq_world.more w' = mq_world.more w"
proof -
  have nx: "mq_next r = None" using repr new q by (auto simp: gq_repr_def)
  show thesis
  proof (cases xs rule: rev_cases)
    case Nil
    then have t: "gq_tail w = None" using repr by (simp add: gq_repr_def)
    let ?w = "w\<lparr>gq_head := Some q, gq_tail := Some q\<rparr>"
    have "skynet_globalmq_push w q = Inr ?w"
      using q nx t by (simp add: skynet_globalmq_push_def)
    moreover have "gq_repr ?w (xs @ [q])" using repr q nx Nil by (simp add: gq_repr_def)
    ultimately show thesis by (rule that) simp_all
  next
    case (snoc ys t)
    then obtain rt where rt: "mqs w t = Some rt" and tail: "gq_tail w = Some t"
      using repr gq_seg_dom [of "mqs w" "gq_head w" xs t] by (auto simp: gq_repr_def)
    let ?w = "w\<lparr>mqs := (mqs w)(t \<mapsto> rt\<lparr>mq_next := Some q\<rparr>), gq_tail := Some q\<rparr>"
    have "skynet_globalmq_push w q = Inr ?w"
      using q nx tail rt by (simp add: skynet_globalmq_push_def set_next_def)
    moreover have "gq_repr ?w (xs @ [q])"
      using repr new q nx rt snoc gq_seg_snoc [of "mqs w" "gq_head w" ys t q rt r]
      by (auto simp: gq_repr_def)
    ultimately show thesis by (rule that) (simp_all add: rt)
  qed
qed

lemma globalmq_pop_empty: "gq_repr w [] \<Longrightarrow> skynet_globalmq_pop w = Inr (None, w)"
  by (auto simp: gq_repr_def skynet_globalmq_pop_def)

lemma globalmq_pop_first:
  assumes repr: "gq_repr w (q # xs)"
  obtains w' where "skynet_globalmq_pop w = Inr (Some q, w')" and "gq_repr w' xs"
    and "same_bodies (mqs w) (mqs w')" and "mq_world.more w' = mq_world.more w"
proof -
  from repr obtain r where r: "mqs w q = Some r" and head: "gq_head w = Some q"
    and seg: "gq_seg (mqs w) (mq_next r) xs"
    by (auto simp: gq_repr_def split: option.splits)
  let ?w = "w\<lparr>mqs := (mqs w)(q \<mapsto> r\<lparr>mq_next := None\<rparr>), gq_head := mq_next r,
     gq_tail := (if xs = [] then None else gq_tail w)\<rparr>"
  have "skynet_globalmq_pop w = Inr (Some q, ?w)"
    using r head gq_seg_head [OF seg] repr
    by (simp add: skynet_globalmq_pop_def set_next_def gq_repr_def Let_def)
  moreover have "gq_repr ?w xs"
    using repr seg by (auto simp: gq_repr_def gq_seg_upd)
  ultimately show thesis by (rule that) (simp_all add: r)
qed

section \<open>Dropping a queue\<close>

text \<open>A \<^verbatim>\<open>drop_func\<close> that keeps the property \<open>P\<close> of the rest of the system and leaves the queue
  alone sees every message, and the queue is freed at the end.\<close>

lemma drop_queue_ok:
  assumes step: "\<And>m w. P w \<Longrightarrow> \<exists>w'. drop_func m w = Inr w' \<and> P w' \<and> mqs w' q = mqs w q"
    and frame: "\<And>w r r'. P w \<Longrightarrow> mqs w q = Some r \<Longrightarrow> mq_inv r' \<Longrightarrow> mq_next r' = None \<Longrightarrow>
      P (w\<lparr>mqs := (mqs w)(q \<mapsto> r')\<rparr>)"
  shows "P w \<Longrightarrow> mqs w q = Some r \<Longrightarrow> mq_inv r \<Longrightarrow> mq_next r = None \<Longrightarrow>
     length (mq_items r) < fuel \<Longrightarrow>
     \<exists>w'. drop_queue fuel drop_func w q = Inr (w'\<lparr>mqs := (mqs w')(q := None)\<rparr>) \<and> P w'"
proof (induction fuel arbitrary: w r)
  case 0
  then show ?case by simp
next
  case (Suc fuel)
  show ?case
  proof (cases "mq_items r")
    case Nil
    let ?r = "r\<lparr>mq_overload_threshold := MQ_OVERLOAD, mq_in_global := False\<rparr>"
    let ?w = "w\<lparr>mqs := (mqs w)(q \<mapsto> ?r)\<rparr>"
    have "P ?w" using frame [OF Suc.prems(1,2)] Suc.prems(3,4) by (simp add: MQ_OVERLOAD_def)
    moreover have "drop_queue (Suc fuel) drop_func w q = mq_free ?w q"
      using Suc.prems(2) mq_pop_empty [OF Suc.prems(3) Nil] by simp
    moreover have "mq_free ?w q = Inr (?w\<lparr>mqs := (mqs ?w)(q := None)\<rparr>)"
      using Suc.prems(4) by (simp add: mq_free_def)
    ultimately show ?thesis by metis
  next
    case (Cons x xs)
    obtain r' where r': "skynet_mq_pop r = Inr (Some x, r')" "mq_inv r'" "mq_items r' = xs"
        "mq_next r' = mq_next r"
      using mq_pop_first [OF Suc.prems(3) Cons] by metis
    let ?w = "w\<lparr>mqs := (mqs w)(q \<mapsto> r')\<rparr>"
    have "P ?w" using frame [OF Suc.prems(1,2)] r' Suc.prems(4) by simp
    then obtain w1 where w1: "drop_func x ?w = Inr w1" "P w1" "mqs w1 q = Some r'"
      using step [of ?w x] by auto
    have "length (mq_items r') < fuel" using Cons r'(3) Suc.prems(5) by simp
    from Suc.IH [OF w1(2,3) r'(2) _ this] r' w1 Suc.prems(2,4) show ?thesis by simp
  qed
qed

section \<open>Properties\<close>

text \<open>C3. Pushing onto a ring that satisfies the invariant always succeeds, appends the
  message behind all others, and doubles the capacity exactly when the ring is full;
  growing never loses or reorders a message.\<close>

theorem mq_store_appends:
  assumes "mq_inv q"
  shows "\<exists>q'. mq_store q m = Inr q' \<and> mq_inv q' \<and> mq_items q' = mq_items q @ [m] \<and>
     mq_cap q' = (if Suc (length (mq_items q)) = mq_cap q then 2 * mq_cap q else mq_cap q)"
  using mq_store_ok [OF assms, of m] by (metis length_mq_items)

text \<open>C4. Popping a ring that satisfies the invariant never reads outside the ring or an
  unwritten cell and its overload loop ends: it returns the oldest message, or none when
  the ring is empty, and only then clears \<^verbatim>\<open>in_global\<close>.\<close>

theorem mq_pop_oldest:
  assumes "mq_inv q"
  shows "\<exists>q'. skynet_mq_pop q =
       Inr (case mq_items q of [] \<Rightarrow> None | x # _ \<Rightarrow> Some x, q') \<and> mq_inv q' \<and>
     mq_items q' = tl (mq_items q) \<and>
     mq_in_global q' = (mq_in_global q \<and> mq_items q \<noteq> [])"
proof (cases "mq_items q")
  case Nil
  then show ?thesis using assms by (simp add: mq_pop_empty MQ_OVERLOAD_def)
next
  case (Cons x xs)
  then show ?thesis using mq_pop_first [OF assms Cons] by (metis list.sel(3) list.simps(3,5))
qed

definition ex_msg :: skynet_message where
  "ex_msg = \<lparr>msg_source = 1, msg_session = 7, msg_data = Null, msg_sz = 0\<rparr>"

lemma mq_store_appends_witness:
  "\<exists>q'. mq_store (new_mq 1) ex_msg = Inr q' \<and> mq_inv q' \<and> mq_items q' = [ex_msg] \<and> mq_cap q' = 64"
proof -
  have "mq_cap (new_mq 1) = 64" by (simp add: new_mq_def DEFAULT_QUEUE_SIZE_def)
  then show ?thesis using mq_store_appends [of "new_mq 1" ex_msg] new_mq_inv [of 1] by auto
qed

lemma mq_pop_oldest_witness:
  "\<exists>q q'. mq_store (new_mq 1) ex_msg = Inr q \<and> skynet_mq_pop q = Inr (Some ex_msg, q') \<and> mq_items q' = []"
proof -
  obtain q where q: "mq_store (new_mq 1) ex_msg = Inr q" "mq_inv q" "mq_items q = [ex_msg]"
    using mq_store_ok new_mq_inv by (metis append_Nil)
  then show ?thesis using mq_pop_oldest [of q] by auto
qed

text \<open>Any sequence of messages stored into an empty ring is popped in the same order,
  whatever growth happens in between.\<close>

theorem mq_fifo_roundtrip:
  assumes "mq_inv q" and "mq_items q = []"
  shows "\<exists>q' q''. mq_ring.puts q ms = Inr q' \<and>
     mq_ring.gets q' (length ms) = Inr (map Some ms, q'') \<and> mq_items q'' = []"
  using assms by (rule mq_ring.puts_gets)

lemma mq_fifo_roundtrip_witness:
  "\<exists>q' q''. mq_ring.puts (new_mq 1) [ex_msg, ex_msg] = Inr q' \<and>
     mq_ring.gets q' 2 = Inr ([Some ex_msg, Some ex_msg], q'') \<and> mq_items q'' = []"
  using mq_fifo_roundtrip [of "new_mq 1" "[ex_msg, ex_msg]"] new_mq_inv [of 1]
  by (simp add: numeral_2_eq_2)

end
