(* ===== verification/Sched.thy ===== *)
theory Sched
  imports Mq
begin

text \<open>
  How the queue operations interleave. A service queue is \<^emph>\<open>held\<close> by the thread that has
  taken it from the global queue (or created it) until that thread parks it, puts it back
  or frees it; \<^verbatim>\<open>skynet_context_message_dispatch\<close>, \<^verbatim>\<open>skynet_context_new\<close> and
  \<^verbatim>\<open>skynet_mq_release\<close> are sequences of the steps below. Each step is one operation of
  \<^verbatim>\<open>skynet_mq.c\<close> run under its spinlock. The guards are what the callers ensure: a
  sender and a dispatching worker own a reference to the service, and
  \<^verbatim>\<open>skynet_mq_mark_release\<close> is called once, when the last reference is gone.
\<close>

section \<open>Steps\<close>

inductive mq_step :: "mq_world \<times> qaddr set \<Rightarrow> mq_world \<times> qaddr set \<Rightarrow> bool" where
  create: "mqs w q = None \<Longrightarrow> mq_step (w, B) (skynet_mq_create w q h, insert q B)"
| send: "mqs w q = Some r \<Longrightarrow> \<not> mq_release r \<Longrightarrow> skynet_mq_push w q m = Inr w' \<Longrightarrow>
     mq_step (w, B) (w', B)"
| take: "skynet_globalmq_pop w = Inr (Some q, w') \<Longrightarrow> mq_step (w, B) (w', insert q B)"
| receive: "q \<in> B \<Longrightarrow> mqs w q = Some r \<Longrightarrow> skynet_mq_pop r = Inr (Some m, r') \<Longrightarrow>
     mq_step (w, B) (w\<lparr>mqs := (mqs w)(q \<mapsto> r')\<rparr>, B)"
| park: "q \<in> B \<Longrightarrow> mqs w q = Some r \<Longrightarrow> \<not> mq_release r \<Longrightarrow> skynet_mq_pop r = Inr (None, r') \<Longrightarrow>
     mq_step (w, B) (w\<lparr>mqs := (mqs w)(q \<mapsto> r')\<rparr>, B - {q})"
| requeue: "q \<in> B \<Longrightarrow> skynet_globalmq_push w q = Inr w' \<Longrightarrow> mq_step (w, B) (w', B - {q})"
| mark: "mqs w q = Some r \<Longrightarrow> \<not> mq_release r \<Longrightarrow> skynet_mq_mark_release w q = Inr w' \<Longrightarrow>
     mq_step (w, B) (w', B)"
| free: "q \<in> B \<Longrightarrow> mqs w q = Some r \<Longrightarrow> mq_release r \<Longrightarrow> skynet_mq_pop r = Inr (None, r') \<Longrightarrow>
     mq_free (w\<lparr>mqs := (mqs w)(q \<mapsto> r')\<rparr>) q = Inr w' \<Longrightarrow> mq_step (w, B) (w', B - {q})"

definition mq_start :: mq_world where
  "mq_start = skynet_mq_init \<lparr>mqs = Map.empty, gq_head = None, gq_tail = None\<rparr>"

inductive mq_reachable :: "mq_world \<times> qaddr set \<Rightarrow> bool" where
  start: "mq_reachable (mq_start, {})"
| step: "mq_reachable s \<Longrightarrow> mq_step s t \<Longrightarrow> mq_reachable t"

section \<open>The scheduling invariant\<close>

text \<open>\<open>xs\<close> is the global queue, \<open>B\<close> the held queues. Each queue is in at most one of the
  two places; it is in one of them while its \<^verbatim>\<open>in_global\<close> flag or its \<^verbatim>\<open>release\<close> flag is set;
  and the flag is set whenever it holds a message.\<close>

definition queue_ok :: "qaddr list \<Rightarrow> qaddr set \<Rightarrow> qaddr \<Rightarrow> message_queue \<Rightarrow> bool" where
  "queue_ok xs B q r \<longleftrightarrow> mq_inv r \<and>
     (q \<in> set xs \<union> B \<longleftrightarrow> mq_in_global r \<or> mq_release r) \<and>
     (mq_items r \<noteq> [] \<longrightarrow> mq_in_global r)"

definition sched_inv :: "'a mq_world_scheme \<Rightarrow> qaddr list \<Rightarrow> qaddr set \<Rightarrow> bool" where
  "sched_inv w xs B \<longleftrightarrow> gq_repr w xs \<and> B \<inter> set xs = {} \<and> B \<subseteq> dom (mqs w) \<and>
     (\<forall>q r. mqs w q = Some r \<longrightarrow> queue_ok xs B q r)"

lemma queue_ok_next [simp]: "queue_ok xs B q (r\<lparr>mq_next := n\<rparr>) = queue_ok xs B q r"
  by (simp add: queue_ok_def)

lemma queue_ok_bodies:
  assumes "same_bodies m m'" and "m' q = Some r'" and "\<And>r. m q = Some r \<Longrightarrow> queue_ok xs B q r"
  shows "queue_ok xs B q r'"
proof -
  from assms obtain r where "m q = Some r" "r = r'\<lparr>mq_next := mq_next r\<rparr>"
    using same_bodies_Some [OF same_bodies_sym] by metis
  then show ?thesis using assms(3) queue_ok_next by metis
qed

lemma sched_inv_start: "sched_inv mq_start [] {}"
  by (simp add: sched_inv_def mq_start_def skynet_mq_init_def gq_repr_def)

text \<open>Changing a queue in place, with its \<^verbatim>\<open>next\<close> link kept, keeps the global queue.\<close>

lemma gq_seg_same_next:
  "m q = Some r \<Longrightarrow> mq_next r' = mq_next r \<Longrightarrow> gq_seg (m(q \<mapsto> r')) p xs = gq_seg m p xs"
  by (induction xs arbitrary: p) (auto split: option.splits)

lemma gq_repr_same_next:
  "gq_repr w xs \<Longrightarrow> mqs w q = Some r \<Longrightarrow> mq_next r' = mq_next r \<Longrightarrow>
     gq_repr (w\<lparr>mqs := (mqs w)(q \<mapsto> r')\<rparr>) xs"
  by (auto simp: gq_repr_def gq_seg_same_next)

lemma sched_inv_replace:
  assumes inv: "sched_inv w xs B" and q: "mqs w q = Some r" and n: "mq_next r' = mq_next r"
    and ok: "queue_ok xs B' q r'" and B: "B' \<subseteq> B" "B - {q} \<subseteq> B'"
  shows "sched_inv (w\<lparr>mqs := (mqs w)(q \<mapsto> r')\<rparr>) xs B'"
proof -
  have "queue_ok xs B' p s" if "mqs w p = Some s" "p \<noteq> q" for p s
  proof -
    have "(p \<in> B') = (p \<in> B)" using B that by auto
    then show ?thesis using inv that by (auto simp: sched_inv_def queue_ok_def)
  qed
  then show ?thesis
    using inv q n ok B gq_repr_same_next [of w xs q r r'] by (auto simp: sched_inv_def)
qed

lemma sched_inv_push:
  assumes inv: "gq_repr w xs" "B \<inter> set xs = {}" "B \<subseteq> dom (mqs w)" and q: "q \<notin> set xs" "mqs w q = Some r"
    and ok: "\<And>p s. mqs w p = Some s \<Longrightarrow> queue_ok (xs @ [q]) (B - {q}) p s"
  obtains w' where "skynet_globalmq_push w q = Inr w'" and "sched_inv w' (xs @ [q]) (B - {q})"
proof -
  obtain w' where w': "skynet_globalmq_push w q = Inr w'" "gq_repr w' (xs @ [q])"
      "same_bodies (mqs w) (mqs w')"
    using globalmq_push_ok [OF inv(1) q] .
  have "B - {q} \<subseteq> dom (mqs w')"
    using inv(3) same_bodies_Some [OF w'(3)] by (metis Diff_subset domD domI subset_iff)
  moreover have "queue_ok (xs @ [q]) (B - {q}) p s" if "mqs w' p = Some s" for p s
    using queue_ok_bodies [OF w'(3) that ok] .
  ultimately have "sched_inv w' (xs @ [q]) (B - {q})"
    using w'(2) inv(2) by (auto simp: sched_inv_def)
  with w'(1) that show thesis by blast
qed

section \<open>Every operation succeeds and keeps the invariant\<close>

lemma sched_ok: "sched_inv w xs B \<Longrightarrow> mqs w q = Some r \<Longrightarrow> queue_ok xs B q r"
  by (simp add: sched_inv_def)

lemma sched_create:
  assumes "sched_inv w xs B" and "mqs w q = None"
  shows "sched_inv (skynet_mq_create w q h) xs (insert q B)"
proof -
  have new: "q \<notin> set xs" using assms gq_seg_dom by (fastforce simp: sched_inv_def gq_repr_def)
  have "gq_repr (skynet_mq_create w q h) xs"
    using assms(1) new by (auto simp: sched_inv_def gq_repr_def skynet_mq_create_def gq_seg_upd new_mq_def)
  moreover have "queue_ok xs (insert q B) q (new_mq h)"
    using new_mq_inv [of h] by (simp add: queue_ok_def new_mq_def)
  ultimately show ?thesis
    using assms new by (auto simp: sched_inv_def skynet_mq_create_def queue_ok_def)
qed

lemma sched_send:
  assumes inv: "sched_inv w xs B" and q: "mqs w q = Some r" and live: "\<not> mq_release r"
  obtains w' xs' where "skynet_mq_push w q m = Inr w'" and "sched_inv w' xs' B"
    and "xs' = (if mq_in_global r then xs else xs @ [q])"
proof -
  note ok = sched_ok [OF inv q]
  obtain r1 where r1: "mq_store r m = Inr r1" "mq_inv r1" "mq_items r1 = mq_items r @ [m]"
      "mq_in_global r1 = mq_in_global r" "mq_release r1 = mq_release r" "mq_next r1 = mq_next r"
    using mq_store_ok ok unfolding queue_ok_def by metis
  show thesis
  proof (cases "mq_in_global r")
    case True
    have "sched_inv (w\<lparr>mqs := (mqs w)(q \<mapsto> r1)\<rparr>) xs B"
      by (rule sched_inv_replace [OF inv q]) (use ok r1 True in \<open>auto simp: queue_ok_def\<close>)
    then show thesis using that True r1 q by (simp add: skynet_mq_push_def)
  next
    case False
    have new: "q \<notin> set xs" "q \<notin> B" using ok False live by (auto simp: queue_ok_def)
    let ?w = "w\<lparr>mqs := (mqs w)(q \<mapsto> r1\<lparr>mq_in_global := True\<rparr>)\<rparr>"
    have "gq_repr ?w xs"
      using gq_repr_same_next [of w xs q r "r1\<lparr>mq_in_global := True\<rparr>"] inv q r1
      by (simp add: sched_inv_def)
    moreover have "queue_ok (xs @ [q]) (B - {q}) p s" if "mqs ?w p = Some s" for p s
    proof (cases "p = q")
      case True
      with that r1 show ?thesis by (auto simp: queue_ok_def)
    next
      case False
      then have "queue_ok xs B p s" using that sched_ok [OF inv] by simp
      with False new show ?thesis by (simp add: queue_ok_def)
    qed
    moreover have "B \<inter> set xs = {}" "B \<subseteq> dom (mqs ?w)" "mqs ?w q = Some (r1\<lparr>mq_in_global := True\<rparr>)"
      using inv by (auto simp: sched_inv_def)
    ultimately obtain w' where "skynet_globalmq_push ?w q = Inr w'" "sched_inv w' (xs @ [q]) (B - {q})"
      using new sched_inv_push by metis
    then show thesis using that [of w' "xs @ [q]"] new False r1 q
      by (simp add: skynet_mq_push_def)
  qed
qed

lemma sched_take:
  assumes inv: "sched_inv w (q # xs) B"
  obtains w' where "skynet_globalmq_pop w = Inr (Some q, w')" and "sched_inv w' xs (insert q B)"
proof -
  have "gq_repr w (q # xs)" using inv by (simp add: sched_inv_def)
  then obtain w' where w': "skynet_globalmq_pop w = Inr (Some q, w')" "gq_repr w' xs"
      "same_bodies (mqs w) (mqs w')"
    by (rule globalmq_pop_first)
  have dom: "insert q B \<subseteq> dom (mqs w)"
    using inv gq_seg_dom [of "mqs w" "gq_head w" "q # xs" q] by (auto simp: sched_inv_def gq_repr_def)
  then have "insert q B \<subseteq> dom (mqs w')"
    using same_bodies_Some [OF w'(3)] by (metis domD domI subset_iff)
  moreover have "queue_ok xs (insert q B) p s" if "mqs w' p = Some s" for p s
    by (rule queue_ok_bodies [OF w'(3) that]) (use sched_ok [OF inv] in \<open>auto simp: queue_ok_def\<close>)
  ultimately show thesis
    using that w' inv by (auto simp: sched_inv_def gq_repr_def)
qed

lemma sched_receive:
  assumes inv: "sched_inv w xs B" and q: "mqs w q = Some r" and items: "mq_items r = m # ms"
  obtains r' where "skynet_mq_pop r = Inr (Some m, r')" and "mq_items r' = ms"
    and "sched_inv (w\<lparr>mqs := (mqs w)(q \<mapsto> r')\<rparr>) xs B"
proof -
  note ok = sched_ok [OF inv q]
  obtain r' where r': "skynet_mq_pop r = Inr (Some m, r')" "mq_inv r'" "mq_items r' = ms"
      "mq_in_global r' = mq_in_global r" "mq_release r' = mq_release r" "mq_next r' = mq_next r"
    using mq_pop_first [OF _ items] ok unfolding queue_ok_def by metis
  have "sched_inv (w\<lparr>mqs := (mqs w)(q \<mapsto> r')\<rparr>) xs B"
    by (rule sched_inv_replace [OF inv q]) (use ok r' items in \<open>auto simp: queue_ok_def\<close>)
  then show thesis using that r' by blast
qed

lemma sched_park:
  assumes inv: "sched_inv w xs B" and q: "mqs w q = Some r" "q \<in> B" and live: "\<not> mq_release r"
    and items: "mq_items r = []"
  obtains r' where "skynet_mq_pop r = Inr (None, r')"
    and "sched_inv (w\<lparr>mqs := (mqs w)(q \<mapsto> r')\<rparr>) xs (B - {q})"
proof -
  note ok = sched_ok [OF inv q(1)]
  let ?r = "r\<lparr>mq_overload_threshold := MQ_OVERLOAD, mq_in_global := False\<rparr>"
  have "skynet_mq_pop r = Inr (None, ?r)" using ok items by (simp add: queue_ok_def mq_pop_empty)
  moreover have "sched_inv (w\<lparr>mqs := (mqs w)(q \<mapsto> ?r)\<rparr>) xs (B - {q})"
    by (rule sched_inv_replace [OF inv q(1)])
       (use ok live items inv q(2) in \<open>auto simp: queue_ok_def MQ_OVERLOAD_def sched_inv_def\<close>)
  ultimately show thesis by (rule that)
qed

lemma sched_requeue:
  assumes inv: "sched_inv w xs B" and q: "q \<in> B"
  obtains w' where "skynet_globalmq_push w q = Inr w'" and "sched_inv w' (xs @ [q]) (B - {q})"
proof -
  obtain r where r: "mqs w q = Some r" using inv q by (auto simp: sched_inv_def)
  have "queue_ok (xs @ [q]) (B - {q}) p s" if "mqs w p = Some s" for p s
    using sched_ok [OF inv that] q by (auto simp: queue_ok_def)
  moreover have "gq_repr w xs" "B \<inter> set xs = {}" "B \<subseteq> dom (mqs w)" "q \<notin> set xs"
    using inv q by (auto simp: sched_inv_def)
  ultimately show thesis using that r sched_inv_push by metis
qed

lemma sched_mark:
  assumes inv: "sched_inv w xs B" and q: "mqs w q = Some r" and live: "\<not> mq_release r"
  obtains w' xs' where "skynet_mq_mark_release w q = Inr w'" and "sched_inv w' xs' B"
    and "xs' = (if mq_in_global r then xs else xs @ [q])"
proof -
  note ok = sched_ok [OF inv q]
  let ?r = "r\<lparr>mq_release := True\<rparr>"
  let ?w = "w\<lparr>mqs := (mqs w)(q \<mapsto> ?r)\<rparr>"
  show thesis
  proof (cases "mq_in_global r")
    case True
    have "sched_inv ?w xs B"
      by (rule sched_inv_replace [OF inv q]) (use ok True in \<open>auto simp: queue_ok_def\<close>)
    then show thesis using that True live q by (simp add: skynet_mq_mark_release_def)
  next
    case False
    have new: "q \<notin> set xs" "q \<notin> B" using ok False live by (auto simp: queue_ok_def)
    have "gq_repr ?w xs"
      using gq_repr_same_next [of w xs q r ?r] inv q by (simp add: sched_inv_def)
    moreover have "queue_ok (xs @ [q]) (B - {q}) p s" if "mqs ?w p = Some s" for p s
      using that ok sched_ok [OF inv, of p] new False
      by (auto simp: queue_ok_def split: if_splits)
    moreover have "B \<inter> set xs = {}" "B \<subseteq> dom (mqs ?w)" "mqs ?w q = Some ?r"
      using inv by (auto simp: sched_inv_def)
    ultimately obtain w' where "skynet_globalmq_push ?w q = Inr w'" "sched_inv w' (xs @ [q]) (B - {q})"
      using new sched_inv_push by metis
    then show thesis using that [of w' "xs @ [q]"] new False live q
      by (simp add: skynet_mq_mark_release_def)
  qed
qed

lemma sched_free:
  assumes inv: "sched_inv w xs B" and q: "mqs w q = Some r" "q \<in> B" and items: "mq_items r = []"
  obtains r' w' where "skynet_mq_pop r = Inr (None, r')"
    and "mq_free (w\<lparr>mqs := (mqs w)(q \<mapsto> r')\<rparr>) q = Inr w'" and "sched_inv w' xs (B - {q})"
    and "mqs w' q = None"
proof -
  note ok = sched_ok [OF inv q(1)]
  let ?r = "r\<lparr>mq_overload_threshold := MQ_OVERLOAD, mq_in_global := False\<rparr>"
  have notin: "q \<notin> set xs" and nx: "mq_next r = None"
    using inv q by (auto simp: sched_inv_def gq_repr_def)
  let ?w = "w\<lparr>mqs := (mqs w)(q := None)\<rparr>"
  have "skynet_mq_pop r = Inr (None, ?r)" using ok items by (simp add: queue_ok_def mq_pop_empty)
  moreover have "mq_free (w\<lparr>mqs := (mqs w)(q \<mapsto> ?r)\<rparr>) q = Inr ?w"
    using nx by (simp add: mq_free_def)
  moreover have "sched_inv ?w xs (B - {q})"
    using inv notin by (auto simp: sched_inv_def gq_repr_def gq_seg_upd queue_ok_def)
  ultimately show thesis by (rule that) simp
qed

text \<open>A pop that returns no message leaves an empty queue, one that returns a message
  returns the first one.\<close>

lemma pop_None_items: "mq_inv r \<Longrightarrow> skynet_mq_pop r = Inr (None, r') \<Longrightarrow> mq_items r = []"
  by (cases "mq_items r") (auto elim: mq_pop_first)

lemma pop_Some_items:
  assumes "mq_inv r" and "skynet_mq_pop r = Inr (Some m, r')"
  obtains ms where "mq_items r = m # ms"
proof (cases "mq_items r")
  case Nil
  then show thesis using assms mq_pop_empty by fastforce
next
  case (Cons x xs)
  then show thesis using that assms mq_pop_first [OF assms(1) Cons] by (metis Inr_inject Pair_inject option.inject)
qed

theorem mq_step_inv:
  assumes "mq_step s t" and "sched_inv (fst s) xs (snd s)"
  shows "\<exists>xs'. sched_inv (fst t) xs' (snd t)"
  using assms
proof (induction rule: mq_step.induct)
  case (create w q B h)
  then show ?case using sched_create by (metis fst_conv snd_conv)
next
  case (send w q r m w' B)
  then show ?case using sched_send by (metis fst_conv snd_conv Inr_inject)
next
  case (take w q w' B)
  then obtain ys where "xs = q # ys"
    using globalmq_pop_empty globalmq_pop_first
    by (cases xs) (fastforce simp: sched_inv_def)+
  with take show ?case using sched_take by (metis fst_conv snd_conv Inr_inject Pair_inject)
next
  case (receive q B w r m r')
  then have inv: "sched_inv w xs B" by simp
  have "mq_inv r" using sched_ok [OF inv receive(2)] by (simp add: queue_ok_def)
  with receive show ?case
    using pop_Some_items sched_receive by (metis fst_conv snd_conv Inr_inject Pair_inject)
next
  case (park q B w r r')
  then have inv: "sched_inv w xs B" by simp
  have "mq_items r = []" using sched_ok [OF inv park(2)] pop_None_items [OF _ park(4)] by (simp add: queue_ok_def)
  with park show ?case using sched_park by (metis fst_conv snd_conv Inr_inject Pair_inject)
next
  case (requeue q B w w')
  then show ?case using sched_requeue by (metis fst_conv snd_conv Inr_inject)
next
  case (mark w q r w' B)
  then show ?case using sched_mark by (metis fst_conv snd_conv Inr_inject)
next
  case (free q B w r r' w')
  then have inv: "sched_inv w xs B" by simp
  have "mq_items r = []" using sched_ok [OF inv free(2)] pop_None_items [OF _ free(4)] by (simp add: queue_ok_def)
  with free show ?case using sched_free by (metis fst_conv snd_conv Inr_inject Pair_inject)
qed

lemma mq_reachable_inv: "mq_reachable s \<Longrightarrow> \<exists>xs. sched_inv (fst s) xs (snd s)"
proof (induction rule: mq_reachable.induct)
  case start
  show ?case using sched_inv_start by auto
next
  case (step s t)
  then show ?case using mq_step_inv by blast
qed

section \<open>Properties\<close>

text \<open>C1. No lost wakeup: in every reachable state a queue that holds a message is in the
  global queue or held by exactly one thread, never both and never neither.\<close>

theorem no_lost_wakeup:
  assumes "mq_reachable (w, B)" and "mqs w q = Some r" and "mq_items r \<noteq> []"
  shows "\<exists>xs. gq_repr w xs \<and> ((q \<in> set xs) \<noteq> (q \<in> B))"
proof -
  obtain xs where inv: "sched_inv w xs B" using mq_reachable_inv [OF assms(1)] by auto
  then have "gq_repr w xs" "(q \<in> set xs) \<noteq> (q \<in> B)"
    using sched_ok [OF inv assms(2)] assms(3) by (auto simp: sched_inv_def queue_ok_def)
  then show ?thesis by blast
qed

text \<open>Mutual exclusion: the queue a worker takes from the global queue is held by no
  other thread, so two workers never dispatch the same service.\<close>

theorem taken_queue_not_held:
  assumes "mq_reachable (w, B)" and "skynet_globalmq_pop w = Inr (Some q, w')"
  shows "q \<notin> B"
proof -
  obtain xs where inv: "sched_inv w xs B" using mq_reachable_inv [OF assms(1)] by auto
  then obtain ys where "xs = q # ys"
    using assms(2) globalmq_pop_empty globalmq_pop_first
    by (cases xs) (fastforce simp: sched_inv_def)+
  with inv show ?thesis by (auto simp: sched_inv_def)
qed


text \<open>A reachable state in which queue 0 holds a message and waits in the global queue.\<close>

lemma mq_reachable_example:
  obtains w r where "mq_reachable (w, {})" and "mqs w 0 = Some r" and "mq_items r = [ex_msg]"
    and "\<not> mq_release r" and "gq_repr w [0]"
proof -
  let ?w = "skynet_mq_create mq_start 0 1"
  have r0: "mqs ?w 0 = Some (new_mq 1)" by (simp add: skynet_mq_create_def)
  have s0: "sched_inv ?w [] {0}"
    using sched_create [OF sched_inv_start, of 0 1]
    by (simp add: mq_start_def skynet_mq_init_def)
  have reach0: "mq_reachable (?w, {0})"
    by (rule mq_reachable.step [OF mq_reachable.start mq_step.create])
       (simp add: mq_start_def skynet_mq_init_def)
  obtain r1 where r1: "mq_store (new_mq 1) ex_msg = Inr r1" "mq_items r1 = [ex_msg]"
      "mq_in_global r1" "\<not> mq_release r1"
    using mq_store_ok [of "new_mq 1" ex_msg] new_mq_inv [of 1] by (auto simp: new_mq_def)
  let ?w1 = "?w\<lparr>mqs := (mqs ?w)(0 \<mapsto> r1)\<rparr>"
  have push: "skynet_mq_push ?w 0 ex_msg = Inr ?w1"
    using r0 r1 by (simp add: skynet_mq_push_def)
  then have s1: "sched_inv ?w1 [] {0}"
    using sched_send [OF s0 r0, of ex_msg] by (auto simp: new_mq_def)
  have reach1: "mq_reachable (?w1, {0})"
    by (rule mq_reachable.step [OF reach0 mq_step.send [OF r0 _ push]]) (simp add: new_mq_def)
  obtain w2 where w2: "skynet_globalmq_push ?w1 0 = Inr w2" "sched_inv w2 [0] {}"
    using sched_requeue [OF s1, of 0] by auto
  have "mq_reachable (w2, {})"
    using mq_reachable.step [OF reach1 mq_step.requeue [OF _ w2(1)]] by simp
  moreover obtain r2 where "mqs w2 0 = Some r2" "mq_items r2 = [ex_msg]" "\<not> mq_release r2"
  proof -
    have "gq_repr ?w1 []" using s1 by (simp add: sched_inv_def)
    then have "same_bodies (mqs ?w1) (mqs w2)"
      using globalmq_push_ok [of ?w1 "[]" 0 r1] w2(1) by auto
    then show thesis using that same_bodies_fields [of "mqs ?w1" "mqs w2" 0 r1] r1 by auto
  qed
  ultimately show thesis
    using that [of w2 r2] w2(2) by (simp add: sched_inv_def)
qed

lemma no_lost_wakeup_witness:
  "\<exists>w r xs. mq_reachable (w, {}) \<and> mqs w 0 = Some r \<and> mq_items r \<noteq> [] \<and> gq_repr w xs \<and> 0 \<in> set xs"
proof -
  obtain w r where "mq_reachable (w, {})" "mqs w 0 = Some r" "mq_items r = [ex_msg]"
    by (rule mq_reachable_example)
  then show ?thesis using no_lost_wakeup [of w "{}" 0 r] by (metis empty_iff not_Cons_self2)
qed

lemma taken_queue_not_held_witness:
  "\<exists>w w'. mq_reachable (w, {}) \<and> skynet_globalmq_pop w = Inr (Some 0, w') \<and> 0 \<notin> ({} :: nat set)"
proof -
  obtain w r where w: "mq_reachable (w, {})" "gq_repr w [0]"
    by (rule mq_reachable_example)
  then obtain w' where "skynet_globalmq_pop w = Inr (Some 0, w')"
    using globalmq_pop_first by blast
  then show ?thesis using w taken_queue_not_held by blast
qed


end
