(* ===== verification/Wheel.thy ===== *)
theory Wheel
  imports Main
begin

text \<open>
  The arithmetic of the timing wheel of \<^verbatim>\<open>skynet-src/skynet_timer.c\<close>, on natural numbers
  below \<open>2 ^ 32\<close>: the slot a node with a given expiry belongs to at a given time, the
  slot a tick of the clock spreads over the lower levels, and how a tick changes the
  slots. The theory Timer relates it to the code.
\<close>

section \<open>Where a node belongs\<close>

text \<open>The wheel is indexed by the digits of the expiry time: 8 bits, then four times 6
  bits. A node lies at the highest digit in which its expiry differs from the clock.\<close>

datatype slot = Near nat | Lvl nat nat

definition h0 :: "nat \<Rightarrow> nat" where "h0 e = e div 256"
definition h1 :: "nat \<Rightarrow> nat" where "h1 e = h0 e div 64"
definition h2 :: "nat \<Rightarrow> nat" where "h2 e = h1 e div 64"
definition h3 :: "nat \<Rightarrow> nat" where "h3 e = h2 e div 64"

definition pos :: "nat \<Rightarrow> nat \<Rightarrow> slot" where
  "pos e t = (if h0 e = h0 t then Near (e mod 256)
     else if h1 e = h1 t then Lvl 0 (h0 e mod 64)
     else if h2 e = h2 t then Lvl 1 (h1 e mod 64)
     else if h3 e = h3 t then Lvl 2 (h2 e mod 64)
     else Lvl 3 (h3 e mod 64))"

definition ok_slot :: "slot \<Rightarrow> bool" where
  "ok_slot s = (case s of Near i \<Rightarrow> i < 256 | Lvl i j \<Rightarrow> i < 4 \<and> j < 64)"

text \<open>The expiry is ahead of the clock: within the same \<open>2 ^ 26\<close> ticks it is larger.\<close>

definition ahead :: "nat \<Rightarrow> nat \<Rightarrow> bool" where
  "ahead e t \<longleftrightarrow> (h3 e = h3 t \<longrightarrow> t < e)"

lemma pos_ok [simp]: "ok_slot (pos e t)"
  by (simp add: pos_def ok_slot_def)

lemma h_up: "h0 e = h0 t \<Longrightarrow> h1 e = h1 t" "h1 e = h1 t \<Longrightarrow> h2 e = h2 t" "h2 e = h2 t \<Longrightarrow> h3 e = h3 t"
  by (simp_all add: h1_def h2_def h3_def)

lemma h_mono: "e \<le> t \<Longrightarrow> h0 e \<le> h0 t \<and> h1 e \<le> h1 t \<and> h2 e \<le> h2 t \<and> h3 e \<le> h3 t"
  by (simp add: h0_def h1_def h2_def h3_def div_le_mono)

text \<open>Two numbers agree when their digit and everything above it agree.\<close>

lemma div64_eqI: "(x::nat) div 64 = y div 64 \<Longrightarrow> x mod 64 = y mod 64 \<Longrightarrow> x = y"
  by (metis div_mult_mod_eq)

lemma h_digit:
  "h1 e = h1 t \<Longrightarrow> h0 e mod 64 = h0 t mod 64 \<Longrightarrow> h0 e = h0 t"
  "h2 e = h2 t \<Longrightarrow> h1 e mod 64 = h1 t mod 64 \<Longrightarrow> h1 e = h1 t"
  "h3 e = h3 t \<Longrightarrow> h2 e mod 64 = h2 t mod 64 \<Longrightarrow> h2 e = h2 t"
  by (simp_all add: h1_def h2_def h3_def) (erule (1) div64_eqI)+

lemma h3_bound: "e < 2 ^ 32 \<Longrightarrow> h3 e < 64"
  by (simp add: h0_def h1_def h2_def h3_def flip: div_mult2_eq)

subsection \<open>One tick\<close>

lemma div64_Suc: "Suc x div 64 = (if Suc x mod 64 = 0 then Suc (x div 64) else x div 64)"
  by (simp add: div_Suc)

text \<open>The digits as an odometer: a tick carries into a level when everything below it
  turned over.\<close>

lemma h0_tick: "h0 (Suc t) = (if Suc t mod 256 = 0 then Suc (h0 t) else h0 t)"
  by (simp add: h0_def div_Suc)

lemma h1_tick: "h1 (Suc t) = (if Suc t mod 256 = 0 \<and> h0 (Suc t) mod 64 = 0 then Suc (h1 t) else h1 t)"
  by (simp add: h1_def h0_tick div64_Suc)

lemma h2_tick: "h2 (Suc t) = (if Suc t mod 256 = 0 \<and> h0 (Suc t) mod 64 = 0 \<and> h1 (Suc t) mod 64 = 0
    then Suc (h2 t) else h2 t)"
  by (simp add: h2_def h1_tick div64_Suc)

lemma h3_tick: "h3 (Suc t) = (if Suc t mod 256 = 0 \<and> h0 (Suc t) mod 64 = 0 \<and> h1 (Suc t) mod 64 = 0 \<and>
    h2 (Suc t) mod 64 = 0 then Suc (h3 t) else h3 t)"
  by (simp add: h3_def h2_tick div64_Suc)

text \<open>The list that a tick to time \<open>t\<close> spreads over the lower levels.\<close>

definition moved :: "nat \<Rightarrow> slot option" where
  "moved t = (if t = 0 then Some (Lvl 3 0)
     else if t mod 256 \<noteq> 0 then None
     else if h0 t mod 64 \<noteq> 0 then Some (Lvl 0 (h0 t mod 64))
     else if h1 t mod 64 \<noteq> 0 then Some (Lvl 1 (h1 t mod 64))
     else if h2 t mod 64 \<noteq> 0 then Some (Lvl 2 (h2 t mod 64))
     else Some (Lvl 3 (h3 t mod 64)))"

text \<open>When the clock leaves a block of a level, nothing that is ahead was in that block.\<close>

lemma carry_empty:
  assumes "ahead e t"
  shows "h0 (Suc t) \<noteq> h0 t \<Longrightarrow> h0 e \<noteq> h0 t" "h1 (Suc t) \<noteq> h1 t \<Longrightarrow> h1 e \<noteq> h1 t"
    "h2 (Suc t) \<noteq> h2 t \<Longrightarrow> h2 e \<noteq> h2 t" "h3 (Suc t) \<noteq> h3 t \<Longrightarrow> h3 e \<noteq> h3 t"
proof -
  have le: "Suc t \<le> e" if "h3 e = h3 t" using assms that by (simp add: ahead_def Suc_le_eq)
  note up = h_mono [of t "Suc t"] h_mono [of "Suc t" e] h_up [of e t] le
  show "h0 (Suc t) \<noteq> h0 t \<Longrightarrow> h0 e \<noteq> h0 t" "h1 (Suc t) \<noteq> h1 t \<Longrightarrow> h1 e \<noteq> h1 t"
    "h2 (Suc t) \<noteq> h2 t \<Longrightarrow> h2 e \<noteq> h2 t" "h3 (Suc t) \<noteq> h3 t \<Longrightarrow> h3 e \<noteq> h3 t"
    using up by force+
qed

text \<open>The slot of an expiry does not change when the clock moves to \<open>t'\<close>, provided the
  clock's digit at the slot's own level does not become the expiry's digit.\<close>

lemma pos_keep:
  assumes "h0 e \<noteq> h0 t"
  shows "h1 t' = h1 t \<Longrightarrow> (h1 e = h1 t \<Longrightarrow> h0 e mod 64 \<noteq> h0 t' mod 64) \<Longrightarrow> pos e t' = pos e t"
    and "h1 e \<noteq> h1 t \<Longrightarrow> h2 t' = h2 t \<Longrightarrow> (h2 e = h2 t \<Longrightarrow> h1 e mod 64 \<noteq> h1 t' mod 64) \<Longrightarrow>
           pos e t' = pos e t"
    and "h1 e \<noteq> h1 t \<Longrightarrow> h2 e \<noteq> h2 t \<Longrightarrow> h3 t' = h3 t \<Longrightarrow>
           (h3 e = h3 t \<Longrightarrow> h2 e mod 64 \<noteq> h2 t' mod 64) \<Longrightarrow> pos e t' = pos e t"
    and "h1 e \<noteq> h1 t \<Longrightarrow> h2 e \<noteq> h2 t \<Longrightarrow> h3 e \<noteq> h3 t \<Longrightarrow> h3 e mod 64 \<noteq> h3 t' mod 64 \<Longrightarrow>
           pos e t' = pos e t"
  using assms h_up [of e t'] h_up [of t' t] by (auto simp: pos_def)

lemma pos_tick_Suc:
  assumes ah: "ahead e t" and mv: "moved (Suc t) \<noteq> Some (pos e t)"
  shows "pos e (Suc t) = pos e t"
proof (cases "Suc t mod 256 = 0")
  case False
  then show ?thesis by (simp add: pos_def h0_tick h1_tick h2_tick h3_tick)
next
  case t0: True
  then have n0: "h0 e \<noteq> h0 t" by (intro carry_empty [OF ah]) (simp add: h0_tick)
  show ?thesis
  proof (cases "h0 (Suc t) mod 64 = 0")
    case False
    show ?thesis
      by (rule pos_keep(1) [OF n0]) (use False t0 n0 mv in \<open>simp_all add: h1_tick moved_def pos_def\<close>)
  next
    case t1: True
    then have n1: "h1 e \<noteq> h1 t" by (intro carry_empty [OF ah]) (simp add: h1_tick t0)
    show ?thesis
    proof (cases "h1 (Suc t) mod 64 = 0")
      case False
      show ?thesis
        by (rule pos_keep(2) [OF n0 n1])
           (use False t0 t1 n0 n1 mv in \<open>simp_all add: h2_tick moved_def pos_def\<close>)
    next
      case t2: True
      then have n2: "h2 e \<noteq> h2 t" by (intro carry_empty [OF ah]) (simp add: h2_tick t0 t1)
      show ?thesis
      proof (cases "h2 (Suc t) mod 64 = 0")
        case False
        show ?thesis
          by (rule pos_keep(3) [OF n0 n1 n2])
             (use False t0 t1 t2 n0 n1 n2 mv in \<open>simp_all add: h3_tick moved_def pos_def\<close>)
      next
        case t3: True
        then have n3: "h3 e \<noteq> h3 t" by (intro carry_empty [OF ah]) (simp add: h3_tick t0 t1 t2)
        show ?thesis
          by (rule pos_keep(4) [OF n0 n1 n2 n3])
             (use t0 t1 t2 t3 n0 n1 n2 n3 mv in \<open>simp add: moved_def pos_def\<close>)
      qed
    qed
  qed
qed

text \<open>The clock wraps around after \<open>2 ^ 32\<close> ticks.\<close>

definition tick :: "nat \<Rightarrow> nat" where
  "tick t = Suc t mod 2 ^ 32"

lemma tick_cases:
  assumes "t < 2 ^ 32"
  obtains "tick t = Suc t" and "Suc t < 2 ^ 32" | "tick t = 0" and "t = 2 ^ 32 - 1"
  using assms by (cases "Suc t = 2 ^ 32") (auto simp: tick_def)

lemma h_zero [simp]: "h0 0 = 0" "h1 0 = 0" "h2 0 = 0" "h3 0 = 0"
  by (simp_all add: h0_def h1_def h2_def h3_def)

lemma h3_last: "h3 (2 ^ 32 - 1) = 63"
  by (simp add: h0_def h1_def h2_def h3_def)

lemma pos_tick:
  assumes "t < 2 ^ 32" and "e < 2 ^ 32" and "ahead e t" and "moved (tick t) \<noteq> Some (pos e t)"
  shows "pos e (tick t) = pos e t"
  using assms(1)
proof (cases rule: tick_cases)
  case 1
  then show ?thesis using pos_tick_Suc assms by simp
next
  case 2
  have n3: "h3 e \<noteq> h3 t" using assms(2,3) 2 by (auto simp: ahead_def)
  then have n: "h0 e \<noteq> h0 t" "h1 e \<noteq> h1 t" "h2 e \<noteq> h2 t" using h_up [of e t] by auto
  have "h3 e mod 64 \<noteq> h3 0 mod 64" using assms(4) n n3 2 by (auto simp: moved_def pos_def)
  then show ?thesis using pos_keep(4) [OF n n3, of 0] 2 by simp
qed

lemma pos_LvlD:
  "pos e t = Lvl k d \<Longrightarrow> k = 0 \<and> d = h0 e mod 64 \<and> h1 e = h1 t \<and> h0 e \<noteq> h0 t \<or>
     k = 1 \<and> d = h1 e mod 64 \<and> h2 e = h2 t \<and> h1 e \<noteq> h1 t \<or>
     k = 2 \<and> d = h2 e mod 64 \<and> h3 e = h3 t \<and> h2 e \<noteq> h2 t \<or> k = 3 \<and> d = h3 e mod 64 \<and> h3 e \<noteq> h3 t"
  by (auto simp: pos_def split: if_splits)

lemma moved_SucD:
  "moved (Suc t) = Some s \<Longrightarrow> s = Lvl 0 (h0 (Suc t) mod 64) \<and> h1 (Suc t) = h1 t \<or>
     s = Lvl 1 (h1 (Suc t) mod 64) \<and> h2 (Suc t) = h2 t \<or>
     s = Lvl 2 (h2 (Suc t) mod 64) \<and> h3 (Suc t) = h3 t \<or> s = Lvl 3 (h3 (Suc t) mod 64)"
  by (simp add: moved_def h1_tick h2_tick h3_tick split: if_splits)

lemma pos_moved:
  assumes "t < 2 ^ 32" and "e < 2 ^ 32" and "moved (tick t) = Some (pos e t)"
  shows "pos e (tick t) \<noteq> pos e t"
  using assms(1)
proof (cases rule: tick_cases)
  case 1
  have b: "h3 e mod 64 = h3 e" "h3 (Suc t) mod 64 = h3 (Suc t)"
    using h3_bound [OF assms(2)] h3_bound [OF 1(2)] by (simp_all only: mod_less)
  have "moved (Suc t) = Some (pos e t)" using assms(3) 1(1) by (simp only:)
  from moved_SucD [OF this] obtain k d where kd: "pos e t = Lvl k d" by (elim disjE conjE)
  have mv: "moved (Suc t) = Some (Lvl k d)" using assms(3) kd 1(1) by simp
  note d = h_digit [of e "Suc t"]
  from pos_LvlD [OF kd] have "(k = 0 \<and> h0 e = h0 (Suc t)) \<or> (k = 1 \<and> h1 e = h1 (Suc t)) \<or>
      (k = 2 \<and> h2 e = h2 (Suc t)) \<or> (k = 3 \<and> h3 e = h3 (Suc t))"
  proof (elim disjE conjE)
    assume k: "k = 0" "d = h0 e mod 64" "h1 e = h1 t"
    with moved_SucD [OF mv] have "h0 e mod 64 = h0 (Suc t) mod 64 \<and> h1 (Suc t) = h1 t"
      by (elim disjE) simp_all
    with k(3) have "h0 e = h0 (Suc t)" by (intro d(1)) (elim conjE, simp only:)+
    with k(1) show ?thesis by simp
  next
    assume k: "k = 1" "d = h1 e mod 64" "h2 e = h2 t"
    with moved_SucD [OF mv] have "h1 e mod 64 = h1 (Suc t) mod 64 \<and> h2 (Suc t) = h2 t"
      by (elim disjE) simp_all
    with k(3) have "h1 e = h1 (Suc t)" by (intro d(2)) (elim conjE, simp only:)+
    with k(1) show ?thesis by simp
  next
    assume k: "k = 2" "d = h2 e mod 64" "h3 e = h3 t"
    with moved_SucD [OF mv] have "h2 e mod 64 = h2 (Suc t) mod 64 \<and> h3 (Suc t) = h3 t"
      by (elim disjE) simp_all
    with k(3) have "h2 e = h2 (Suc t)" by (intro d(3)) (elim conjE, simp only:)+
    with k(1) show ?thesis by simp
  next
    assume k: "k = 3" "d = h3 e mod 64"
    with moved_SucD [OF mv] have "h3 e mod 64 = h3 (Suc t) mod 64"
      by (elim disjE) simp_all
    with k(1) show ?thesis unfolding b by simp
  qed
  then have "pos e (Suc t) \<noteq> Lvl k d"
    using pos_LvlD [of e "Suc t" k d] by auto
  then show ?thesis using kd 1(1) by simp
next
  case 2
  have p: "pos e t = Lvl 3 0" using assms(3) unfolding 2(1) by (simp add: moved_def)
  then have "h3 e = 0" using pos_LvlD [OF p] h3_bound [OF assms(2)] by simp
  then have "pos e 0 \<noteq> Lvl 3 0" using pos_LvlD [of e 0 3 0] by auto
  then show ?thesis using p 2(1) by simp
qed

lemma h3_block: "h3 e * 67108864 \<le> e"
  by (simp add: h0_def h1_def h2_def h3_def flip: div_mult2_eq)

lemma ahead_tick:
  assumes "t < 2 ^ 32" and "ahead e t" and "e \<noteq> tick t"
  shows "ahead e (tick t)"
  using assms(1)
proof (cases rule: tick_cases)
  case 1
  show ?thesis
  proof (cases "h3 (Suc t) = h3 t")
    case True
    then show ?thesis using assms 1 by (auto simp: ahead_def)
  next
    case False
    then have z: "Suc t mod 256 = 0" "h0 (Suc t) mod 64 = 0" "h1 (Suc t) mod 64 = 0" "h2 (Suc t) mod 64 = 0"
      unfolding h3_tick by presburger+
    have r: "x mod n = 0 \<Longrightarrow> x = x div n * n" for x n :: nat by (metis add_0_right div_mult_mod_eq)
    note r [OF z(1), folded h0_def] r [OF z(2), folded h1_def] r [OF z(3), folded h2_def]
      r [OF z(4), folded h3_def]
    then have "Suc t = h3 (Suc t) * 67108864" by linarith
    then have "h3 e = h3 (Suc t) \<Longrightarrow> Suc t \<le> e" using h3_block [of e] by linarith
    then show ?thesis using 1(1) assms(3) unfolding ahead_def by (simp add: le_less)
  qed
next
  case 2
  then show ?thesis using assms(3) by (simp add: ahead_def)
qed

end
