(* ===== verification/Timer.thy ===== *)
theory Timer
  imports Mq Wheel
begin

text \<open>
  The hierarchical timing wheel of \<^verbatim>\<open>skynet-src/skynet_timer.c\<close>.

  A \<^verbatim>\<open>link_list\<close> (a sentinel node and a tail pointer) is the list of its nodes: \<^verbatim>\<open>link\<close>
  appends, \<^verbatim>\<open>link_clear\<close> hands out the whole chain and empties the list. The payload that
  \<^verbatim>\<open>timer_add\<close> copies behind a node is always a \<^verbatim>\<open>struct timer_event\<close>. The operations run
  under the timer's lock; \<^verbatim>\<open>timer_execute\<close> gives it up only around \<^verbatim>\<open>dispatch_list\<close>, which
  pushes messages and does not touch the wheel, so the messages to push are the output
  of the step.
\<close>

section \<open>Data\<close>

record timer_event =
  ev_handle :: u32
  ev_session :: u32

record timer_node =
  expire :: u32
  node_event :: timer_event

type_synonym link_list = "timer_node list"

record timer =
  near :: "link_list list"
  tv :: "link_list list list"
  time :: u32
  starttime :: u32
  current :: u64
  current_point :: u64

definition TIME_NEAR_SHIFT :: nat where "TIME_NEAR_SHIFT = 8"
definition TIME_NEAR :: u32 where "TIME_NEAR = push_bit TIME_NEAR_SHIFT 1"
definition TIME_LEVEL_SHIFT :: nat where "TIME_LEVEL_SHIFT = 6"
definition TIME_LEVEL :: u32 where "TIME_LEVEL = push_bit TIME_LEVEL_SHIFT 1"
definition TIME_NEAR_MASK :: u32 where "TIME_NEAR_MASK = TIME_NEAR - 1"
definition TIME_LEVEL_MASK :: u32 where "TIME_LEVEL_MASK = TIME_LEVEL - 1"

definition PTYPE_RESPONSE :: u64 where "PTYPE_RESPONSE = 1"

lemmas timer_consts = TIME_NEAR_SHIFT_def TIME_NEAR_def TIME_LEVEL_SHIFT_def TIME_LEVEL_def
  TIME_NEAR_MASK_def TIME_LEVEL_MASK_def

section \<open>Operations\<close>

definition link :: "link_list \<Rightarrow> timer_node \<Rightarrow> link_list" where
  "link l node = l @ [node]"

definition link_clear :: "link_list \<Rightarrow> link_list \<times> link_list" where
  "link_clear l = (l, [])"

text \<open>Both arrays of lists, read and written in place.\<close>

definition link_near :: "timer \<Rightarrow> nat \<Rightarrow> timer_node \<Rightarrow> timer res" where
  "link_near T i node = bindR (rd (near T) i) (\<lambda>l.
     bindR (wr (near T) i (link l node)) (\<lambda>a. Inr (T\<lparr>near := a\<rparr>)))"

definition link_level :: "timer \<Rightarrow> nat \<Rightarrow> nat \<Rightarrow> timer_node \<Rightarrow> timer res" where
  "link_level T i j node = bindR (rd (tv T) i) (\<lambda>row. bindR (rd row j) (\<lambda>l.
     bindR (wr row j (link l node)) (\<lambda>row'. bindR (wr (tv T) i row') (\<lambda>a. Inr (T\<lparr>tv := a\<rparr>)))))"

fun level_loop :: "nat \<Rightarrow> u32 \<Rightarrow> u32 \<Rightarrow> u32 \<Rightarrow> nat \<Rightarrow> nat" where
  "level_loop 0 t current_time msk i = i"
| "level_loop (Suc n) t current_time msk i =
     (if t OR (msk - 1) = current_time OR (msk - 1) then i
      else level_loop n t current_time (push_bit TIME_LEVEL_SHIFT msk) (i + 1))"

definition add_node :: "timer \<Rightarrow> timer_node \<Rightarrow> timer res" where
  "add_node T node =
     (let t = expire node; current_time = time T in
      if t OR TIME_NEAR_MASK = current_time OR TIME_NEAR_MASK
      then link_near T (unat (t AND TIME_NEAR_MASK)) node
      else let i = level_loop 3 t current_time (push_bit TIME_LEVEL_SHIFT TIME_NEAR) 0 in
           link_level T i
             (unat (drop_bit (TIME_NEAR_SHIFT + i * TIME_LEVEL_SHIFT) t AND TIME_LEVEL_MASK)) node)"

definition timer_add :: "timer \<Rightarrow> timer_event \<Rightarrow> u32 \<Rightarrow> timer res" where
  "timer_add T arg t = add_node T \<lparr>expire = t + time T, node_event = arg\<rparr>"

fun add_nodes :: "timer \<Rightarrow> link_list \<Rightarrow> timer res" where
  "add_nodes T [] = Inr T"
| "add_nodes T (n # ns) = bindR (add_node T n) (\<lambda>T'. add_nodes T' ns)"

definition move_list :: "timer \<Rightarrow> nat \<Rightarrow> nat \<Rightarrow> timer res" where
  "move_list T level idx =
     bindR (rd (tv T) level) (\<lambda>row. bindR (rd row idx) (\<lambda>l.
     let (ns, l') = link_clear l in
     bindR (wr row idx l') (\<lambda>row'. bindR (wr (tv T) level row') (\<lambda>a.
     add_nodes (T\<lparr>tv := a\<rparr>) ns))))"

text \<open>The loop of \<^verbatim>\<open>timer_shift\<close>. \<open>n\<close> bounds its rounds: for \<^verbatim>\<open>ct != 0\<close> one of the four level
  indices is not zero, so four rounds are enough (\<open>timer_shift_ok\<close>).\<close>

fun shift_loop :: "nat \<Rightarrow> timer \<Rightarrow> u32 \<Rightarrow> u32 \<Rightarrow> u32 \<Rightarrow> nat \<Rightarrow> timer res" where
  "shift_loop 0 T ct msk t i = (if ct AND (msk - 1) = 0 then Inl Endless_loop else Inr T)"
| "shift_loop (Suc n) T ct msk t i =
     (if ct AND (msk - 1) = 0
      then let idx = t AND TIME_LEVEL_MASK in
           if idx \<noteq> 0 then move_list T i (unat idx)
           else shift_loop n T ct (push_bit TIME_LEVEL_SHIFT msk) (drop_bit TIME_LEVEL_SHIFT t) (i + 1)
      else Inr T)"

definition timer_shift :: "timer \<Rightarrow> timer res" where
  "timer_shift T =
     (let ct = time T + 1; T' = T\<lparr>time := ct\<rparr> in
      if ct = 0 then move_list T' 3 0
      else shift_loop 4 T' ct TIME_NEAR (drop_bit TIME_NEAR_SHIFT ct) 0)"

definition timeout_message :: "u32 \<Rightarrow> skynet_message" where
  "timeout_message session = \<lparr>msg_source = 0, msg_session = session, msg_data = Null,
     msg_sz = push_bit MESSAGE_TYPE_SHIFT PTYPE_RESPONSE\<rparr>"

text \<open>The messages \<^verbatim>\<open>dispatch_list\<close> pushes, each with the handle it goes to.\<close>

definition dispatch_list :: "link_list \<Rightarrow> (u32 \<times> skynet_message) list" where
  "dispatch_list ns =
     map (\<lambda>n. (ev_handle (node_event n), timeout_message (ev_session (node_event n)))) ns"

function timer_execute :: "timer \<Rightarrow> (timer \<times> (u32 \<times> skynet_message) list) res" where
  "timer_execute T =
     (let idx = unat (time T AND TIME_NEAR_MASK) in
      bindR (rd (near T) idx) (\<lambda>l.
      if l \<noteq> [] then
        let (ns, l') = link_clear l in
        bindR (wr (near T) idx l') (\<lambda>a.
        bindR (timer_execute (T\<lparr>near := a\<rparr>)) (\<lambda>(T', out). Inr (T', dispatch_list ns @ out)))
      else Inr (T, [])))"
  by pat_completeness auto
termination
  by (relation "measure (\<lambda>T. length (near T ! unat (time T AND TIME_NEAR_MASK)))")
     (auto simp: link_clear_def res_simps)

declare timer_execute.simps [simp del]

definition timer_update :: "timer \<Rightarrow> (timer \<times> (u32 \<times> skynet_message) list) res" where
  "timer_update T =
     bindR (timer_execute T) (\<lambda>(T1, out1).
     bindR (timer_shift T1) (\<lambda>T2.
     bindR (timer_execute T2) (\<lambda>(T3, out2). Inr (T3, out1 @ out2))))"

definition timer_create_timer :: timer where
  "timer_create_timer = \<lparr>near = replicate (unat TIME_NEAR) [],
     tv = replicate 4 (replicate (unat TIME_LEVEL) []),
     time = 0, starttime = 0, current = 0, current_point = 0\<rparr>"

text \<open>The clocks: \<^verbatim>\<open>clock_gettime\<close> fills a \<^verbatim>\<open>timespec\<close>, here the arguments \<open>tv_sec\<close> and
  \<open>tv_nsec\<close>.\<close>

definition systime :: "u64 \<Rightarrow> u64 \<Rightarrow> u32 \<times> u32" where
  "systime tv_sec tv_nsec = (ucast tv_sec, ucast (tv_nsec div 10000000))"

definition gettime :: "u64 \<Rightarrow> u64 \<Rightarrow> u64" where
  "gettime tv_sec tv_nsec = tv_sec * 100 + tv_nsec div 10000000"

fun update_loop :: "nat \<Rightarrow> timer \<Rightarrow> (timer \<times> (u32 \<times> skynet_message) list) res" where
  "update_loop 0 T = Inr (T, [])"
| "update_loop (Suc n) T =
     bindR (timer_update T) (\<lambda>(T1, out1).
     bindR (update_loop n T1) (\<lambda>(T2, out2). Inr (T2, out1 @ out2)))"

definition skynet_updatetime :: "timer \<Rightarrow> u64 \<Rightarrow> (timer \<times> (u32 \<times> skynet_message) list) res" where
  "skynet_updatetime T cp =
     (if cp < current_point T then Inr (T\<lparr>current_point := cp\<rparr>, [])
      else if cp \<noteq> current_point T then
        let diff = (ucast (cp - current_point T) :: u32) in
        update_loop (unat diff) (T\<lparr>current_point := cp, current := current T + ucast diff\<rparr>)
      else Inr (T, []))"

definition skynet_timer_init :: "u64 \<times> u64 \<Rightarrow> u64 \<times> u64 \<Rightarrow> timer" where
  "skynet_timer_init realtime monotonic =
     (let T = timer_create_timer;
          (sec, cs) = systime (fst realtime) (snd realtime) in
      T\<lparr>starttime := sec, current := ucast cs,
        current_point := gettime (fst monotonic) (snd monotonic)\<rparr>)"

section \<open>The operations on slots\<close>

definition timer_wf :: "timer \<Rightarrow> bool" where
  "timer_wf T \<longleftrightarrow> length (near T) = 256 \<and> length (tv T) = 4 \<and> (\<forall>row \<in> set (tv T). length row = 64)"

definition slot_list :: "timer \<Rightarrow> slot \<Rightarrow> link_list" where
  "slot_list T s = (case s of Near i \<Rightarrow> near T ! i | Lvl i j \<Rightarrow> tv T ! i ! j)"

definition set_slot :: "timer \<Rightarrow> slot \<Rightarrow> link_list \<Rightarrow> timer" where
  "set_slot T s l = (case s of Near i \<Rightarrow> T\<lparr>near := (near T)[i := l]\<rparr>
     | Lvl i j \<Rightarrow> T\<lparr>tv := (tv T)[i := (tv T ! i)[j := l]]\<rparr>)"

definition node_pos :: "timer_node \<Rightarrow> u32 \<Rightarrow> slot" where
  "node_pos n t = pos (unat (expire n)) (unat t)"

lemma set_slot_wf [simp]: "timer_wf T \<Longrightarrow> ok_slot s \<Longrightarrow> timer_wf (set_slot T s l)"
  by (cases s) (auto simp: timer_wf_def set_slot_def ok_slot_def dest!: set_update_subset_insert [THEN subsetD])

lemma set_slot_time [simp]: "time (set_slot T s l) = time T"
  by (cases s) (simp_all add: set_slot_def)

lemma slot_list_set [simp]:
  assumes "timer_wf T" and "ok_slot s" and "ok_slot s'"
  shows "slot_list (set_slot T s l) s' = (if s' = s then l else slot_list T s')"
proof -
  have "i < 4 \<Longrightarrow> length (tv T ! i) = 64" for i using assms(1) by (simp add: timer_wf_def)
  with assms show ?thesis
    by (cases s; cases s')
       (auto simp: timer_wf_def set_slot_def ok_slot_def slot_list_def nth_list_update)
qed

lemma near_mask: "TIME_NEAR_MASK = mask 8" and level_mask: "TIME_LEVEL_MASK = mask 6"
  by (simp_all add: timer_consts mask_eq_exp_minus_1)

lemma same_block: "(x :: u32) OR mask k = y OR mask k \<longleftrightarrow> unat x div 2 ^ k = unat y div 2 ^ k"
  by (simp add: or_mask_eq_iff drop_bit_eq_iff_unat)

lemma h_div: "h0 e = e div 2 ^ 8" "h1 e = e div 2 ^ 14" "h2 e = e div 2 ^ 20" "h3 e = e div 2 ^ 26"
  by (simp_all add: h0_def h1_def h2_def h3_def flip: div_mult2_eq)

lemma level_loop_eq:
  "level_loop 3 t c (push_bit TIME_LEVEL_SHIFT TIME_NEAR) 0 =
     (if h1 (unat t) = h1 (unat c) then 0 else if h2 (unat t) = h2 (unat c) then 1
      else if h3 (unat t) = h3 (unat c) then 2 else 3)"
proof -
  have m: "(16383::u32) = mask 14" "(1048575::u32) = mask 20" "(67108863::u32) = mask 26"
    by (simp_all add: mask_eq_exp_minus_1)
  show ?thesis
    by (simp add: timer_consts numeral_3_eq_3 m same_block h_div del: mask_numeral)
qed

lemma level_index:
  "unat (drop_bit k (t :: u32) AND TIME_LEVEL_MASK) = unat t div 2 ^ k mod 64"
  unfolding level_mask unat_and_mask unat_drop_bit_eq by (simp add: drop_bit_eq_div)

lemma add_node_ok:
  assumes "timer_wf T"
  shows "add_node T n = Inr (set_slot T (node_pos n (time T)) (slot_list T (node_pos n (time T)) @ [n]))"
proof -
  have row: "i < 4 \<Longrightarrow> length (tv T ! i) = 64" for i using assms by (simp add: timer_wf_def)
  let ?e = "unat (expire n)" and ?t = "unat (time T)"
  have idx: "unat (drop_bit 8 (expire n) AND TIME_LEVEL_MASK) = h0 ?e mod 64"
      "unat (drop_bit 14 (expire n) AND TIME_LEVEL_MASK) = h1 ?e mod 64"
      "unat (drop_bit 20 (expire n) AND TIME_LEVEL_MASK) = h2 ?e mod 64"
      "unat (drop_bit 26 (expire n) AND TIME_LEVEL_MASK) = h3 ?e mod 64"
    by (simp_all only: level_index h_div)
  have nr: "unat (expire n AND TIME_NEAR_MASK) = ?e mod 256"
    by (simp add: near_mask unat_and_mask del: mask_numeral)
  have blk: "(expire n OR TIME_NEAR_MASK = time T OR TIME_NEAR_MASK) = (h0 ?e = h0 ?t)"
    by (simp add: near_mask same_block h_div del: mask_numeral)
  show ?thesis
    unfolding add_node_def Let_def blk nr level_loop_eq
    using assms row
    by (auto simp: idx TIME_NEAR_SHIFT_def TIME_LEVEL_SHIFT_def node_pos_def pos_def link_near_def
        link_level_def link_def set_slot_def slot_list_def timer_wf_def)
qed

lemma move_list_ok:
  assumes "timer_wf T" and "i < 4" and "j < 64"
  shows "move_list T i j = add_nodes (set_slot T (Lvl i j) []) (slot_list T (Lvl i j))"
proof -
  have "length (tv T ! i) = 64" using assms by (simp add: timer_wf_def)
  then show ?thesis
    using assms by (simp add: move_list_def timer_wf_def link_clear_def set_slot_def slot_list_def)
qed

lemma mod_mult_zero: "0 < m \<Longrightarrow> (c::nat) mod (m * n) = 0 \<longleftrightarrow> c mod m = 0 \<and> c div m mod n = 0"
  by (auto simp: mod_mult2_eq)

lemma mod_levels:
  "(c::nat) mod 2 ^ 14 = 0 \<longleftrightarrow> c mod 2 ^ 8 = 0 \<and> h0 c mod 64 = 0"
  "c mod 2 ^ 20 = 0 \<longleftrightarrow> c mod 2 ^ 14 = 0 \<and> h1 c mod 64 = 0"
  "c mod 2 ^ 26 = 0 \<longleftrightarrow> c mod 2 ^ 20 = 0 \<and> h2 c mod 64 = 0"
  unfolding h_div
  using mod_mult_zero [of "2 ^ 8" c 64] mod_mult_zero [of "2 ^ 14" c 64] mod_mult_zero [of "2 ^ 20" c 64]
  by simp_all

lemma h3_nonzero:
  assumes "c \<noteq> 0" and "c < 2 ^ 32" and "c mod 2 ^ 26 = 0"
  shows "h3 c mod 64 \<noteq> 0"
proof -
  have "c = h3 c * 2 ^ 26" using assms(3) by (simp add: h_div mod_0_imp_dvd)
  then show ?thesis using assms h3_bound by (metis mod_less mult_0)
qed

lemma shift_loop_round:
  assumes "msk - 1 = mask k"
  shows "shift_loop (Suc n) T ct msk (drop_bit k ct) i =
     (if unat ct mod 2 ^ k \<noteq> 0 then Inr T
      else if unat ct div 2 ^ k mod 64 \<noteq> 0 then move_list T i (unat ct div 2 ^ k mod 64)
      else shift_loop n T ct (push_bit 6 msk) (drop_bit (6 + k) ct) (i + 1))"
proof -
  have "(ct AND mask k = 0) = (unat ct mod 2 ^ k = 0)" by (metis unat_and_mask unat_eq_zero)
  moreover have "(x AND TIME_LEVEL_MASK = 0) = (unat (x AND TIME_LEVEL_MASK) = 0)" for x :: u32
    by (simp add: unat_eq_zero)
  ultimately show ?thesis
    using assms by (simp only: shift_loop.simps Let_def level_index TIME_LEVEL_SHIFT_def drop_bit_drop_bit if_not_P
        not_not simp_thms split: if_split) auto
qed

lemma shift_loop_levels:
  assumes nz: "ct \<noteq> 0" and c: "c = unat ct"
  shows "shift_loop 4 T ct 256 (drop_bit 8 ct) 0 =
     (if c mod 256 \<noteq> 0 then Inr T
      else if h0 c mod 64 \<noteq> 0 then move_list T 0 (h0 c mod 64)
      else if h1 c mod 64 \<noteq> 0 then move_list T 1 (h1 c mod 64)
      else if h2 c mod 64 \<noteq> 0 then move_list T 2 (h2 c mod 64)
      else move_list T 3 (h3 c mod 64))"
proof -
  have "c \<noteq> 0" "c < 2 ^ 32" using nz c unat_u32 [of ct] by (simp_all add: unat_eq_zero)
  note h3 = h3_nonzero [OF this]
  have m: "(256 :: u32) - 1 = mask 8" "push_bit 6 (256 :: u32) - 1 = mask 14"
      "push_bit 6 (push_bit 6 (256 :: u32)) - 1 = mask 20"
      "push_bit 6 (push_bit 6 (push_bit 6 (256 :: u32))) - 1 = mask 26"
    by (simp_all add: mask_eq_exp_minus_1)
  note r = shift_loop_round [OF m(1), of 3 T ct 0] shift_loop_round [OF m(2), of 2 T ct 1]
    shift_loop_round [OF m(3), of 1 T ct 2] shift_loop_round [OF m(4), of 0 T ct 3]
  have n: "Suc 3 = 4" "Suc 2 = 3" "Suc 1 = 2" "Suc 0 = 1" "(0::nat) + 1 = 1" "(1::nat) + 1 = 2" "(2::nat) + 1 = 3"
      "(6::nat) + 8 = 14" "(6::nat) + 14 = 20" "(6::nat) + 20 = 26"
    by simp_all
  have e: "(256::nat) = 2 ^ 8" by simp
  show ?thesis
    unfolding r [unfolded n] c [symmetric] h_div e
    using h3 mod_levels [of c] unfolding h_div by (auto simp del: power_numeral power_numeral_even)
qed

text \<open>A tick either spreads nothing or clears one list of the wheel and adds its nodes
  again; the loop over the levels needs at most four rounds.\<close>

lemma timer_shift_ok:
  assumes wf: "timer_wf T"
  defines "T' \<equiv> T\<lparr>time := time T + 1\<rparr>"
  shows "timer_shift T = (case moved (unat (time T + 1)) of None \<Rightarrow> Inr T'
     | Some s \<Rightarrow> add_nodes (set_slot T' s []) (slot_list T' s))"
proof -
  let ?ct = "time T + 1" and ?c = "unat (time T + 1)"
  have wf': "timer_wf T'" using wf by (simp add: timer_wf_def T'_def)
  have mv: "move_list T' i (d mod 64) = add_nodes (set_slot T' (Lvl i (d mod 64)) []) (slot_list T' (Lvl i (d mod 64)))"
    if "i < 4" for i d
    using move_list_ok [OF wf' that] by simp
  show ?thesis
  proof (cases "?ct = 0")
    case True
    then show ?thesis
      using move_list_ok [OF wf', of 3 0] by (simp add: timer_shift_def moved_def T'_def)
  next
    case False
    then have nz: "?c \<noteq> 0" by (simp add: unat_eq_zero)
    have "timer_shift T = shift_loop 4 T' ?ct 256 (drop_bit 8 ?ct) 0"
      using False by (simp add: timer_shift_def T'_def timer_consts Let_def)
    then show ?thesis using nz shift_loop_levels [OF False refl, of T'] by (simp add: moved_def mv)
  qed
qed

section \<open>Refinement: the wheel is a list of pending timers\<close>

abbreviation due :: "u32 \<Rightarrow> timer_node list \<Rightarrow> timer_node list" where
  "due e ns \<equiv> filter (\<lambda>n. expire n = e) ns"

text \<open>The nodes with expiry \<open>e\<close>, looked up where they belong.\<close>

definition content :: "timer \<Rightarrow> u32 \<Rightarrow> timer_node list" where
  "content T e = due e (slot_list T (pos (unat e) (unat (time T))))"

definition placed :: "timer \<Rightarrow> bool" where
  "placed T \<longleftrightarrow> timer_wf T \<and> (\<forall>s. ok_slot s \<longrightarrow> (\<forall>n \<in> set (slot_list T s). node_pos n (time T) = s))"

text \<open>The wheel \<open>T\<close> holds the timers \<open>pend\<close>, in the order in which they were added.\<close>

definition timer_rel :: "timer \<Rightarrow> timer_node list \<Rightarrow> bool" where
  "timer_rel T pend \<longleftrightarrow> placed T \<and> (\<forall>e. content T e = due e pend) \<and>
     (\<forall>n \<in> set pend. ahead (unat (expire n)) (unat (time T)))"

definition same_clocks :: "timer \<Rightarrow> timer \<Rightarrow> bool" where
  "same_clocks T T' \<longleftrightarrow> starttime T' = starttime T \<and> current T' = current T \<and>
     current_point T' = current_point T"

lemma same_clocks_slot [simp]: "same_clocks T (set_slot T s l)"
  by (cases s) (simp_all add: same_clocks_def set_slot_def)

lemma add_nodes_ok:
  "placed T \<Longrightarrow> \<exists>T'. add_nodes T ns = Inr T' \<and> placed T' \<and> time T' = time T \<and> same_clocks T T' \<and>
     (\<forall>e. content T' e = content T e @ due e ns)"
proof (induction ns arbitrary: T)
  case Nil
  then show ?case by (simp add: same_clocks_def)
next
  case (Cons n ns)
  then have wf: "timer_wf T" by (simp add: placed_def)
  let ?s = "node_pos n (time T)"
  let ?T = "set_slot T ?s (slot_list T ?s @ [n])"
  have oks: "ok_slot ?s" by (simp add: node_pos_def)
  have pl: "placed ?T" using Cons.prems oks by (auto simp: placed_def)
  have c: "content ?T e = content T e @ due e [n]" for e
    using wf oks Cons.prems by (auto simp: content_def node_pos_def)
  obtain T' where "add_nodes ?T ns = Inr T'" "placed T'" "time T' = time T" "same_clocks ?T T'"
      "\<forall>e. content T' e = content ?T e @ due e ns"
    using Cons.IH [OF pl] by auto
  moreover have "same_clocks T T'"
    using \<open>same_clocks ?T T'\<close> same_clocks_slot [of T ?s] by (auto simp: same_clocks_def)
  ultimately show ?case using c add_node_ok [OF wf, of n] by auto
qed

lemma slot_nodes_pending:
  assumes "timer_rel T pend" and "ok_slot s" and "n \<in> set (slot_list T s)"
  shows "n \<in> set pend"
proof -
  have "node_pos n (time T) = s" using assms by (simp add: timer_rel_def placed_def)
  then have "n \<in> set (content T (expire n))" using assms(3) by (simp add: content_def node_pos_def)
  then show ?thesis using assms(1) by (auto simp: timer_rel_def)
qed

lemma unat_tick: "unat (t + 1 :: u32) = tick (unat t)"
  by (simp add: tick_def unat_word_ariths)

text \<open>A tick leaves every pending timer where the next lookup finds it.\<close>

lemma timer_shift_content:
  assumes rel: "timer_rel T pend"
  obtains T' where "timer_shift T = Inr T'" and "placed T'" and "time T' = time T + 1"
    and "same_clocks T T'" and "\<forall>e. content T' e = due e pend"
proof -
  let ?t = "unat (time T)" and ?T = "T\<lparr>time := time T + 1\<rparr>"
  have wf: "timer_wf T" "timer_wf ?T" using rel by (simp_all add: timer_rel_def placed_def timer_wf_def)
  have t: "?t < 2 ^ 32" using unat_u32 [of "time T"] by simp
  have eb: "unat e < 2 ^ 32" for e :: u32 using unat_u32 [of e] by simp
  have sl: "slot_list ?T s = slot_list T s" for s by (cases s) (simp_all add: slot_list_def)
  have node: "node_pos n (time T) = s" "ahead (unat (expire n)) ?t" "n \<in> set pend"
    if "ok_slot s" "n \<in> set (slot_list T s)" for s n
    using that rel slot_nodes_pending [OF rel that] by (auto simp: timer_rel_def placed_def)
  have none: "due e (slot_list T s) = []" if "ok_slot s" "s \<noteq> pos (unat e) ?t" for e s
    using node(1) [OF that(1)] that(2) by (auto simp: filter_empty_conv node_pos_def)
  have cont: "due e (slot_list T (pos (unat e) ?t)) = due e pend" for e
    using rel by (simp add: timer_rel_def content_def)
  have stay: "node_pos n (time T + 1) = s"
    if "ok_slot s" "n \<in> set (slot_list T s)" "moved (tick ?t) \<noteq> Some s" for s n
    using pos_tick [OF t eb node(2) [OF that(1,2)]] node(1) [OF that(1,2)] that(3)
    by (simp add: node_pos_def unat_tick)
  have shift: "timer_shift T = (case moved (tick ?t) of None \<Rightarrow> Inr ?T
      | Some s \<Rightarrow> add_nodes (set_slot ?T s []) (slot_list T s))"
    using timer_shift_ok [OF wf(1)] by (simp add: unat_tick sl split: option.splits)
  have dead: "due e pend = []" if "\<not> ahead (unat e) ?t" for e
    using that rel by (auto simp: timer_rel_def filter_empty_conv)
  show thesis
  proof (cases "moved (tick ?t)")
    case None
    have "content ?T e = due e pend" for e
    proof (cases "ahead (unat e) ?t")
      case True
      then have "pos (unat e) (tick ?t) = pos (unat e) ?t" using pos_tick [OF t eb] None by simp
      then show ?thesis using cont by (simp add: content_def sl unat_tick)
    next
      case False
      then have "due e (slot_list T (pos (unat e) (tick ?t))) = []"
        using node(2,3) by (force simp: filter_empty_conv)
      then show ?thesis using dead [OF False] by (simp add: content_def sl unat_tick)
    qed
    moreover have "placed ?T" using wf stay None by (simp add: placed_def sl)
    ultimately show thesis using that [of ?T] shift None by (simp add: same_clocks_def)
  next
    case (Some m)
    have okm: "ok_slot m" using Some by (auto simp: moved_def ok_slot_def split: if_splits)
    let ?C = "set_slot ?T m []"
    have pl: "placed ?C" using wf(2) okm stay Some by (auto simp: placed_def sl)
    have empty: "content ?C e @ due e (slot_list T m) = due e pend" for e
    proof (cases "ahead (unat e) ?t")
      case True
      show ?thesis
      proof (cases "pos (unat e) ?t = m")
        case eq: True
        then have "pos (unat e) (tick ?t) \<noteq> m" using pos_moved [OF t eb] Some by auto
        then have "content ?C e = []"
          using none [of "pos (unat e) (tick ?t)" e] eq okm wf(2) by (simp add: content_def sl unat_tick)
        then show ?thesis using cont [of e] eq by simp
      next
        case ne: False
        then have "pos (unat e) (tick ?t) = pos (unat e) ?t"
          using pos_tick [OF t eb True] Some by simp
        then show ?thesis
          using cont [of e] ne none [OF okm] okm wf(2) by (simp add: content_def sl unat_tick)
      qed
    next
      case False
      then have "due e (slot_list T s) = []" if "ok_slot s" for s
        using node(2) [OF that] by (force simp: filter_empty_conv)
      then show ?thesis using dead [OF False] okm wf(2) by (simp add: content_def sl unat_tick)
    qed
    obtain T' where "add_nodes ?C (slot_list T m) = Inr T'" "placed T'" "time T' = time T + 1"
        "same_clocks ?C T'" "\<forall>e. content T' e = due e pend"
      using add_nodes_ok [OF pl, of "slot_list T m"] empty by auto
    moreover have "same_clocks T T'"
      using \<open>same_clocks ?C T'\<close> same_clocks_slot [of ?T m "[]"] by (auto simp: same_clocks_def)
    ultimately show thesis using that [of T'] shift Some by simp
  qed
qed

lemma pos_near_iff: "pos e t = Near (t mod 256) \<longleftrightarrow> e = t"
proof
  assume "pos e t = Near (t mod 256)"
  then have "h0 e = h0 t" "e mod 256 = t mod 256" by (auto simp: pos_def split: if_splits)
  then show "e = t" unfolding h0_def by (metis div_mult_mod_eq)
qed (simp add: pos_def)

lemma near_due:
  assumes "placed T"
  shows "slot_list T (Near (unat (time T) mod 256)) = content T (time T)"
proof -
  have "expire n = time T" if "n \<in> set (slot_list T (Near (unat (time T) mod 256)))" for n
    using that assms pos_near_iff [of "unat (expire n)" "unat (time T)"]
    by (auto simp: placed_def ok_slot_def node_pos_def word_unat_eq_iff)
  then show ?thesis using pos_near_iff [of "unat (time T)" "unat (time T)"]
    by (simp add: content_def filter_id_conv)
qed

lemma timer_execute_ok:
  assumes "placed T"
  shows "timer_execute T =
     Inr (set_slot T (Near (unat (time T) mod 256)) [], dispatch_list (content T (time T)))"
proof -
  let ?i = "unat (time T) mod 256"
  have i: "unat (time T AND TIME_NEAR_MASK) = ?i"
    by (simp add: near_mask unat_and_mask del: mask_numeral)
  have len: "length (near T) = 256" using assms by (simp add: placed_def timer_wf_def)
  have near: "near T ! ?i = content T (time T)"
    using near_due [OF assms] by (simp add: slot_list_def)
  have stop: "timer_execute (T\<lparr>near := (near T)[?i := []]\<rparr>) = Inr (T\<lparr>near := (near T)[?i := []]\<rparr>, [])"
    using len by (simp add: timer_execute.simps [of "T\<lparr>near := (near T)[?i := []]\<rparr>"] i)
  show ?thesis
  proof (cases "near T ! ?i = []")
    case True
    then have "set_slot T (Near ?i) [] = T"
      by (simp add: set_slot_def) (metis list_update_id timer.surjective timer.update_convs(1))
    then show ?thesis
      using True len near by (simp add: timer_execute.simps [of T] i dispatch_list_def)
  next
    case False
    then show ?thesis
      using len near stop by (simp add: timer_execute.simps [of T] i link_clear_def set_slot_def)
  qed
qed

lemma due_later: "e \<noteq> e' \<Longrightarrow> due e (filter (\<lambda>n. expire n \<noteq> e') pend) = due e pend"
  by (induction pend) auto

lemma timer_update_ok:
  assumes rel: "timer_rel T pend"
  obtains T' where "timer_update T = Inr (T', dispatch_list (due (time T + 1) pend))"
    and "timer_rel T' (filter (\<lambda>n. expire n \<noteq> time T + 1) pend)"
    and "time T' = time T + 1" and "same_clocks T T'"
proof -
  have pl: "placed T" using rel by (simp add: timer_rel_def)
  have now: "content T (time T) = []"
    using rel by (auto simp: timer_rel_def filter_empty_conv ahead_def)
  then have "near T ! (unat (time T) mod 256) = []" using near_due [OF pl] by (simp add: slot_list_def)
  then have same: "set_slot T (Near (unat (time T) mod 256)) [] = T"
    by (simp add: set_slot_def) (metis list_update_id timer.surjective timer.update_convs(1))
  obtain T2 where T2: "timer_shift T = Inr T2" "placed T2" "time T2 = time T + 1" "same_clocks T T2"
      "\<forall>e. content T2 e = due e pend"
    using timer_shift_content [OF rel] .
  let ?s = "Near (unat (time T2) mod 256)"
  let ?T3 = "set_slot T2 ?s []"
  have wf: "timer_wf T2" using T2(2) by (simp add: placed_def)
  have oks: "ok_slot ?s" by (simp add: ok_slot_def)
  have "timer_update T = Inr (?T3, dispatch_list (due (time T + 1) pend))"
    using timer_execute_ok [OF pl] timer_execute_ok [OF T2(2)] now same T2(1,3,5)
    by (simp add: timer_update_def dispatch_list_def)
  moreover have "timer_rel ?T3 (filter (\<lambda>n. expire n \<noteq> time T + 1) pend)"
  proof -
    have "placed ?T3" using T2(2) wf oks by (auto simp: placed_def)
    moreover have "content ?T3 e = due e (filter (\<lambda>n. expire n \<noteq> time T + 1) pend)" for e
    proof (cases "e = time T + 1")
      case True
      have "due e (filter (\<lambda>n. expire n \<noteq> e) pend) = []" by (auto simp: filter_empty_conv)
      then show ?thesis using True wf oks T2(3) pos_near_iff [of "unat (time T2)" "unat (time T2)"]
        by (simp add: content_def)
    next
      case False
      then have "pos (unat e) (unat (time T2)) \<noteq> ?s"
        using T2(3) pos_near_iff by (simp add: word_unat_eq_iff)
      then have "content ?T3 e = content T2 e" using wf oks by (simp add: content_def)
      then show ?thesis using T2(5) due_later [OF False] by simp
    qed
    moreover have "ahead (unat (expire n)) (unat (time T + 1))"
      if "n \<in> set pend" "expire n \<noteq> time T + 1" for n
      using ahead_tick [OF unat_u32] rel that
      by (auto simp: timer_rel_def unat_tick [symmetric] word_unat_eq_iff)
    ultimately show ?thesis using T2(3) by (simp add: timer_rel_def)
  qed
  moreover have "same_clocks T ?T3"
    using T2(4) same_clocks_slot [of T2 ?s "[]"] by (auto simp: same_clocks_def)
  ultimately show thesis using that [of ?T3] T2(3) by simp
qed

lemma timer_add_ok:
  assumes rel: "timer_rel T pend" and d: "0 < unat d" "unat d < 2 ^ 31"
  obtains T' where "timer_add T ev d = Inr T'" and "time T' = time T" and "same_clocks T T'"
    and "timer_rel T' (pend @ [\<lparr>expire = time T + d, node_event = ev\<rparr>])"
proof -
  let ?n = "\<lparr>expire = time T + d, node_event = ev\<rparr>"
  have pl: "placed T" using rel by (simp add: timer_rel_def)
  obtain T' where T': "add_node T ?n = Inr T'" "placed T'" "time T' = time T" "same_clocks T T'"
      "\<forall>e. content T' e = content T e @ due e [?n]"
    using add_nodes_ok [OF pl, of "[?n]"] by (auto elim!: bindR_InrE)
  have "ahead (unat (time T + d)) (unat (time T))"
  proof -
    have "h3 ((a + b) mod 2 ^ 32) = h3 a \<longrightarrow> a < (a + b) mod 2 ^ 32"
      if "a < 2 ^ 32" "0 < b" "b < 2 ^ 31" for a b :: nat
      using that unfolding h_div by (cases "a + b < 2 ^ 32") (auto simp: mod_if)
    then show ?thesis
      using d unat_u32 [of "time T"] by (simp add: ahead_def unat_word_ariths)
  qed
  then have "timer_rel T' (pend @ [?n])" using rel T' by (auto simp: timer_rel_def)
  with that T' show thesis by (simp add: timer_add_def add.commute)
qed

lemma of_nat_u32_neq: "0 < k \<Longrightarrow> k < 2 ^ 32 \<Longrightarrow> (t :: u32) + of_nat k \<noteq> t"
  by (auto simp: word_of_nat_eq_0_iff dest: dvd_imp_le)

text \<open>The nodes that the updates \<open>1, \<dots>, n\<close> from time \<open>t\<close> on fire, update by update.\<close>

definition fired :: "u32 \<Rightarrow> nat \<Rightarrow> timer_node list \<Rightarrow> timer_node list" where
  "fired t n pend = concat (map (\<lambda>k. due (t + of_nat (Suc k)) pend) [0..<n])"

lemma fired_Nil [simp]: "fired t n [] = []"
  by (simp add: fired_def concat_eq_Nil_conv)

lemma fired_Suc:
  assumes "Suc n < 2 ^ 32"
  shows "fired t (Suc n) pend = due (t + 1) pend @ fired (t + 1) n (filter (\<lambda>m. expire m \<noteq> t + 1) pend)"
proof -
  have ne: "t + 1 + of_nat (Suc k) \<noteq> t + 1" if "k < n" for k
    using of_nat_u32_neq [of "Suc k" "t + 1"] assms that by simp
  have "fired t (Suc n) pend = due (t + 1) pend @
      concat (map (\<lambda>k. due (t + of_nat (Suc (Suc k))) pend) [0..<n])"
    by (simp only: fired_def map_upt_Suc) simp
  also have "map (\<lambda>k. due (t + of_nat (Suc (Suc k))) pend) [0..<n] =
      map (\<lambda>k. due (t + 1 + of_nat (Suc k)) (filter (\<lambda>m. expire m \<noteq> t + 1) pend)) [0..<n]"
    by (rule map_cong [OF refl]) (use ne due_later in \<open>simp add: add.assoc\<close>)
  finally show ?thesis by (simp add: fired_def)
qed

lemma update_loop_ok:
  "timer_rel T pend \<Longrightarrow> n < 2 ^ 32 \<Longrightarrow>
     \<exists>T' pend'. update_loop n T = Inr (T', dispatch_list (fired (time T) n pend)) \<and>
       timer_rel T' pend' \<and> time T' = time T + of_nat n \<and> same_clocks T T' \<and>
       (\<forall>e. (\<forall>k < n. e \<noteq> time T + of_nat (Suc k)) \<longrightarrow> due e pend' = due e pend)"
proof (induction n arbitrary: T pend)
  case 0
  then show ?case by (auto simp: fired_def dispatch_list_def same_clocks_def)
next
  case (Suc n)
  let ?pend = "filter (\<lambda>n. expire n \<noteq> time T + 1) pend"
  obtain T1 where T1: "timer_update T = Inr (T1, dispatch_list (due (time T + 1) pend))"
      "timer_rel T1 ?pend" "time T1 = time T + 1" "same_clocks T T1"
    using timer_update_ok [OF Suc.prems(1)] .
  then obtain T' pend' where
      T': "update_loop n T1 = Inr (T', dispatch_list (fired (time T + 1) n ?pend))"
      "timer_rel T' pend'" "time T' = time T + 1 + of_nat n" "same_clocks T1 T'"
      "\<forall>e. (\<forall>k < n. e \<noteq> time T + 1 + of_nat (Suc k)) \<longrightarrow> due e pend' = due e ?pend"
    using Suc.IH [OF T1(2)] Suc.prems(2) by auto
  have "due e pend' = due e pend" if e: "\<forall>k < Suc n. e \<noteq> time T + of_nat (Suc k)" for e
  proof -
    have "e \<noteq> time T + 1" using e [rule_format, of 0] by simp
    moreover have "\<forall>k < n. e \<noteq> time T + 1 + of_nat (Suc k)"
      using e [rule_format, of "Suc k" for k] by (simp add: add.assoc)
    ultimately show ?thesis using T'(5) due_later by simp
  qed
  then show ?case
    using T1 T' fired_Suc [OF Suc.prems(2), of "time T" pend]
    by (intro exI [of _ T'] exI [of _ pend']) (simp add: dispatch_list_def same_clocks_def add.assoc)
qed

lemma timer_rel_create: "timer_rel timer_create_timer []"
proof -
  have "slot_list timer_create_timer s = []" if "ok_slot s" for s
    using that by (cases s) (auto simp: slot_list_def timer_create_timer_def ok_slot_def timer_consts)
  moreover have "timer_wf timer_create_timer"
    by (simp add: timer_wf_def timer_create_timer_def timer_consts)
  ultimately show ?thesis by (simp add: timer_rel_def placed_def content_def)
qed

section \<open>Properties\<close>

text \<open>C6. One \<^verbatim>\<open>timer_update\<close> refines the abstract step of a list of pending timers: it never
  faults, advances the clock by one tick (with wrap-around), pushes the timeout messages
  of exactly the timers that expire at the new time, in the order in which they were
  added, and keeps all others.\<close>

theorem timer_update_refines:
  assumes "timer_rel T pend"
  shows "\<exists>T'. timer_update T = Inr (T', dispatch_list (filter (\<lambda>n. expire n = time T + 1) pend)) \<and>
     timer_rel T' (filter (\<lambda>n. expire n \<noteq> time T + 1) pend) \<and> time T' = time T + 1"
  using timer_update_ok [OF assms] by metis

lemma timer_update_refines_witness:
  "timer_rel timer_create_timer [] \<and> (\<exists>T'. timer_update timer_create_timer = Inr (T', []) \<and> time T' = 1)"
  using timer_update_refines [OF timer_rel_create] timer_rel_create
  by (auto simp: dispatch_list_def timer_create_timer_def)

text \<open>C5. A timer fires after exactly its delay: after \<^verbatim>\<open>timer_add\<close> with a positive delay \<open>d\<close>,
  the first \<open>d - 1\<close> updates push only messages of older timers, and update \<open>d\<close> pushes the
  timer's message, behind those of older timers with the same expiry. The clock may wrap
  around in between.\<close>

theorem timer_fires_after_delay:
  assumes rel: "timer_rel T pend" and d: "0 < unat d" "unat d < 2 ^ 31"
  shows "\<exists>T1 T2 T3. timer_add T ev d = Inr T1 \<and>
     update_loop (unat d - 1) T1 = Inr (T2, dispatch_list (fired (time T) (unat d - 1) pend)) \<and>
     timer_update T2 = Inr (T3, dispatch_list (filter (\<lambda>n. expire n = time T + d) pend) @
       [(ev_handle ev, timeout_message (ev_session ev))])"
proof -
  let ?n = "\<lparr>expire = time T + d, node_event = ev\<rparr>" and ?k = "unat d - 1"
  have dk: "time T + of_nat ?k + 1 = time T + d"
    using d(1) by (simp add: add.assoc of_nat_diff Suc_leI)
  have ne: "time T + d \<noteq> time T + of_nat (Suc j)" if "j < ?k" for j
  proof
    assume "time T + d = time T + of_nat (Suc j)"
    then have "unat d = unat (of_nat (Suc j) :: u32)" by simp
    also have "\<dots> = Suc j" using that d by (simp only: unsigned_of_nat take_bit_eq_mod) simp
    finally show False using that by simp
  qed
  have k: "?k < 2 ^ 32" using d(2) by simp
  obtain T1 where T1: "timer_add T ev d = Inr T1" "time T1 = time T" "timer_rel T1 (pend @ [?n])"
    using timer_add_ok [OF rel d] by metis
  obtain T2 pend2 where T2: "update_loop ?k T1 = Inr (T2, dispatch_list (fired (time T) ?k (pend @ [?n])))"
      "timer_rel T2 pend2" "time T2 = time T + of_nat ?k"
      "\<forall>e. (\<forall>j < ?k. e \<noteq> time T + of_nat (Suc j)) \<longrightarrow> due e pend2 = due e (pend @ [?n])"
    using update_loop_ok [OF T1(3) k] unfolding T1(2) by metis
  have "due (time T + of_nat (Suc j)) (pend @ [?n]) = due (time T + of_nat (Suc j)) pend" if "j < ?k" for j
    using ne [OF that] by simp
  then have f: "fired (time T) ?k (pend @ [?n]) = fired (time T) ?k pend"
    unfolding fired_def by (intro arg_cong [of _ _ concat] map_cong) auto
  obtain T3 where "timer_update T2 = Inr (T3, dispatch_list (due (time T2 + 1) pend2))"
    using timer_update_ok [OF T2(2)] .
  moreover have "due (time T2 + 1) pend2 = due (time T + d) pend @ [?n]"
  proof -
    have "due (time T + d) pend2 = due (time T + d) (pend @ [?n])" using T2(4) ne by blast
    then show ?thesis unfolding T2(3) dk by simp
  qed
  ultimately show ?thesis using T1(1) T2(1) f by (auto simp: dispatch_list_def)
qed

lemma timer_fires_after_delay_witness:
  "\<exists>T1 T2 T3. timer_add timer_create_timer \<lparr>ev_handle = 5, ev_session = 9\<rparr> 300 = Inr T1 \<and>
     update_loop 299 T1 = Inr (T2, []) \<and> timer_update T2 = Inr (T3, [(5, timeout_message 9)])"
  using timer_fires_after_delay [OF timer_rel_create, of 300 "\<lparr>ev_handle = 5, ev_session = 9\<rparr>"]
  by (simp add: dispatch_list_def)



end
