(* ===== verification/CString.thy ===== *)
theory CString
  imports Prelude "HOL-Library.Char_ord" "HOL-Library.List_Lexorder"
begin

text \<open>
  The functions of the C library on strings that the sources call. A C string is the list
  of the characters before its terminating NUL. \<^verbatim>\<open>strcmp\<close>, \<^verbatim>\<open>strtol\<close> and \<^verbatim>\<open>strtoul\<close> follow the C
  standard (sign, white space, base prefix and saturation included); \<^verbatim>\<open>printf\<close> conversions are
  functions to strings.
\<close>

section \<open>Comparison\<close>

fun strcmp :: "string \<Rightarrow> string \<Rightarrow> int" where
  "strcmp [] [] = 0"
| "strcmp [] (d # ds) = - of_char d"
| "strcmp (c # cs) [] = of_char c"
| "strcmp (c # cs) (d # ds) = (if c = d then strcmp cs ds else of_char c - of_char d)"

text \<open>A string holds no NUL, so that a proper prefix is smaller.\<close>

definition nul_free :: "string \<Rightarrow> bool" where
  "nul_free s \<longleftrightarrow> CHR 0x00 \<notin> set s"

lemma of_char_pos:
  assumes "c \<noteq> CHR 0x00"
  shows "(0::int) < of_char c"
proof -
  have "(of_char c :: int) \<noteq> of_char (CHR 0x00)" using assms by (simp only: of_char_eq_iff not_False_eq_True)
  also have "(of_char (CHR 0x00) :: int) = 0" by simp
  finally show ?thesis using of_nat_0_le_iff [of "of_char c", where 'a = int]
    unfolding of_nat_of_char by linarith
qed

lemma of_char_less_iff: "(of_char c :: int) < of_char d \<longleftrightarrow> c < d"
  by (metis less_char_def of_nat_less_iff of_nat_of_char)

lemma strcmp_order:
  "nul_free s \<Longrightarrow> nul_free t \<Longrightarrow> (strcmp s t = 0 \<longleftrightarrow> s = t) \<and> (strcmp s t < 0 \<longleftrightarrow> s < t)"
proof (induction s t rule: strcmp.induct)
  case (2 d ds)
  then show ?case using of_char_pos [of d] by (auto simp: nul_free_def)
next
  case (3 c cs)
  then show ?case using of_char_pos [of c] by (auto simp: nul_free_def)
next
  case (4 c cs d ds)
  then show ?case using of_char_less_iff [of c d]
    by (auto simp: nul_free_def Cons_less_Cons)
qed simp

lemmas strcmp_eq_0 = strcmp_order [THEN conjunct1]
  and strcmp_less_0 = strcmp_order [THEN conjunct2]

section \<open>Memory\<close>

text \<open>Reading a string up to and including its terminating NUL, and the
  string that a buffer holds. A buffer without a NUL is read past its end.\<close>

abbreviation NUL :: char where "NUL \<equiv> CHR 0x00"

definition rdc :: "string \<Rightarrow> nat \<Rightarrow> char res" where
  "rdc s i = (if i < length s then Inr (s ! i) else if i = length s then Inr NUL else Inl Out_of_bounds)"

definition cstring :: "char list \<Rightarrow> string res" where
  "cstring buf = (if NUL \<in> set buf then Inr (takeWhile (\<lambda>c. c \<noteq> NUL) buf) else Inl Out_of_bounds)"

lemma rdc_simps [simp]:
  "i < length s \<Longrightarrow> rdc s i = Inr (s ! i)"
  "rdc s (length s) = Inr NUL"
  by (simp_all add: rdc_def)

lemma takeWhile_nul: "nul_free s \<Longrightarrow> takeWhile (\<lambda>c. c \<noteq> NUL) (s @ NUL # t) = s"
  by (induction s) (auto simp: nul_free_def)

lemma cstring_ok: "nul_free s \<Longrightarrow> cstring (s @ NUL # t) = Inr s"
  by (simp add: cstring_def takeWhile_nul)

section \<open>Digits\<close>

definition dig :: "nat \<Rightarrow> char" where
  "dig d = (if d < 10 then char_of (48 + d) else char_of (87 + d))"

definition dig_upper :: "nat \<Rightarrow> char" where
  "dig_upper d = (if d < 10 then char_of (48 + d) else char_of (55 + d))"

definition digit_val :: "char \<Rightarrow> nat option" where
  "digit_val c =
     (let n = of_char c :: nat in
      if 48 \<le> n \<and> n \<le> 57 then Some (n - 48)
      else if 97 \<le> n \<and> n \<le> 122 then Some (n - 87)
      else if 65 \<le> n \<and> n \<le> 90 then Some (n - 55)
      else None)"

lemma digit_val_dig [simp]: "d < 36 \<Longrightarrow> digit_val (dig d) = Some d"
  by (auto simp: digit_val_def dig_def Let_def)

lemma digit_val_dig_upper [simp]: "d < 36 \<Longrightarrow> digit_val (dig_upper d) = Some d"
  by (auto simp: digit_val_def dig_upper_def Let_def)

text \<open>\<^verbatim>\<open>%d\<close>, \<^verbatim>\<open>%u\<close> and \<^verbatim>\<open>%x\<close>: the digits of a number, most significant first, without leading
  zeros.\<close>

function to_base :: "nat \<Rightarrow> nat \<Rightarrow> string" where
  "to_base b n = (if b < 2 \<or> n < b then [dig n] else to_base b (n div b) @ [dig (n mod b)])"
  by pat_completeness auto
termination
  by (relation "measure snd") auto

declare to_base.simps [simp del]

definition print_dec :: "nat \<Rightarrow> string" where
  "print_dec n = to_base 10 n"

definition print_int :: "int \<Rightarrow> string" where
  "print_int i = (if i < 0 then CHR ''-'' # to_base 10 (nat (- i)) else to_base 10 (nat i))"

definition print_hex :: "u32 \<Rightarrow> string" where
  "print_hex x = to_base 16 (unat x)"

text \<open>\<^verbatim>\<open>%08x\<close>\<close>

definition print_hex8 :: "u32 \<Rightarrow> string" where
  "print_hex8 x = (let s = print_hex x in replicate (8 - length s) (CHR ''0'') @ s)"

section \<open>Reading numbers\<close>

definition isspace :: "char \<Rightarrow> bool" where
  "isspace c \<longleftrightarrow> (let n = of_char c :: nat in n = 32 \<or> 9 \<le> n \<and> n \<le> 13)"

fun parse_digits :: "nat \<Rightarrow> nat \<Rightarrow> string \<Rightarrow> nat \<times> string" where
  "parse_digits b acc [] = (acc, [])"
| "parse_digits b acc (c # cs) =
     (case digit_val c of
        Some d \<Rightarrow> if d < b then parse_digits b (acc * b + d) cs else (acc, c # cs)
      | None \<Rightarrow> (acc, c # cs))"

definition is_digit :: "nat \<Rightarrow> string \<Rightarrow> bool" where
  "is_digit b s = (case s of [] \<Rightarrow> False
     | c # _ \<Rightarrow> (case digit_val c of Some d \<Rightarrow> d < b | None \<Rightarrow> False))"

text \<open>White space, an optional sign, the prefix \<^verbatim>\<open>0x\<close> of base 16 (base 0 chooses the base by the
  prefix), then the digits. The result is the sign, the magnitude and the rest of the
  string; without a digit nothing is consumed.\<close>

definition skip_sign :: "string \<Rightarrow> bool \<times> string" where
  "skip_sign s = (case s of [] \<Rightarrow> (False, s)
     | c # cs \<Rightarrow> if c = CHR ''-'' then (True, cs) else if c = CHR ''+'' then (False, cs) else (False, s))"

definition hex_prefix :: "string \<Rightarrow> bool" where
  "hex_prefix s \<longleftrightarrow> (take 2 s = ''0x'' \<or> take 2 s = ''0X'') \<and> is_digit 16 (drop 2 s)"

definition parse_int :: "nat \<Rightarrow> string \<Rightarrow> bool \<times> nat \<times> string" where
  "parse_int base s =
     (let (neg, t) = skip_sign (dropWhile isspace s);
          hx = (base = 16 \<or> base = 0) \<and> hex_prefix t;
          b = (if base \<noteq> 0 then base else if hx then 16 else if take 1 t = ''0'' then 8 else 10);
          u = (if hx then drop 2 t else t) in
      if is_digit b u then let (n, rest) = parse_digits b 0 u in (neg, n, rest)
      else (False, 0, s))"

definition strtoul :: "nat \<Rightarrow> string \<Rightarrow> u64" where
  "strtoul base s =
     (let (neg, n, rest) = parse_int base s in
      if n \<ge> 2 ^ 64 then - 1 else if neg then - of_nat n else of_nat n)"

definition strtol :: "nat \<Rightarrow> string \<Rightarrow> int \<times> string" where
  "strtol base s =
     (let (neg, n, rest) = parse_int base s; v = (if neg then - int n else int n) in
      (if v > 2 ^ 63 - 1 then 2 ^ 63 - 1 else if v < - (2 ^ 63) then - (2 ^ 63) else v, rest))"

section \<open>Printing and reading are inverse\<close>

definition digit_string :: "nat \<Rightarrow> string \<Rightarrow> bool" where
  "digit_string b s \<longleftrightarrow> (\<forall>c \<in> set s. \<exists>d. digit_val c = Some d \<and> d < b)"

fun digits_value :: "nat \<Rightarrow> nat \<Rightarrow> string \<Rightarrow> nat" where
  "digits_value b acc [] = acc"
| "digits_value b acc (c # cs) = digits_value b (acc * b + the (digit_val c)) cs"

lemma parse_digits_all:
  "digit_string b s \<Longrightarrow> parse_digits b acc (s @ t) = parse_digits b (digits_value b acc s) t"
proof (induction s arbitrary: acc)
  case (Cons c s)
  then obtain d where "digit_val c = Some d" "d < b" by (auto simp: digit_string_def)
  with Cons show ?case by (simp add: digit_string_def)
qed simp

lemma digits_value_append [simp]:
  "digits_value b acc (s @ [c]) = digits_value b acc s * b + the (digit_val c)"
  by (induction s arbitrary: acc) auto

lemma digit_string_to_base: "2 \<le> b \<Longrightarrow> b \<le> 36 \<Longrightarrow> digit_string b (to_base b n)"
proof (induction b n rule: to_base.induct)
  case (1 b n)
  then have "n mod b < b" by simp
  with \<open>b \<le> 36\<close> have "digit_val (dig (n mod b)) = Some (n mod b)" by simp
  with 1 \<open>n mod b < b\<close> show ?case
    by (subst to_base.simps) (auto simp: digit_string_def)
qed

lemma digits_value_to_base: "2 \<le> b \<Longrightarrow> b \<le> 36 \<Longrightarrow> digits_value b 0 (to_base b n) = n"
proof (induction b n rule: to_base.induct)
  case (1 b n)
  then have "n mod b < b" by simp
  with \<open>b \<le> 36\<close> have "digit_val (dig (n mod b)) = Some (n mod b)" by simp
  with 1 show ?case by (subst to_base.simps) auto
qed

lemma to_base_Nil [simp]: "to_base b n \<noteq> []"
  by (subst to_base.simps) auto

text \<open>A digit is neither white space nor a sign, nor the \<^verbatim>\<open>x\<close> of a prefix.\<close>

lemma digit_not_special:
  "digit_val c = Some d \<Longrightarrow> d < 17 \<Longrightarrow>
     \<not> isspace c \<and> c \<noteq> CHR ''-'' \<and> c \<noteq> CHR ''+'' \<and> c \<noteq> CHR ''x'' \<and> c \<noteq> CHR ''X''"
  by (auto simp: digit_val_def isspace_def Let_def split: if_splits)

lemma parse_int_digits:
  assumes "digit_string b s" and "s \<noteq> []" and "b = 10 \<or> b = 16"
  shows "parse_int b s = (False, digits_value b 0 s, [])"
proof -
  obtain c cs where s: "s = c # cs" using assms(2) by (cases s) auto
  obtain d where d: "digit_val c = Some d" "d < b" using assms(1) s by (auto simp: digit_string_def)
  have c: "\<not> isspace c" "c \<noteq> CHR ''-''" "c \<noteq> CHR ''+''"
    using digit_not_special [OF d(1)] d(2) assms(3) by auto
  have "\<not> hex_prefix s"
  proof (cases cs)
    case (Cons c2 cs2)
    then obtain d2 where "digit_val c2 = Some d2" "d2 < b" using assms(1) s by (auto simp: digit_string_def)
    then show ?thesis using digit_not_special [of c2 d2] assms(3) s Cons by (auto simp: hex_prefix_def)
  qed (simp add: s hex_prefix_def)
  moreover have "is_digit b s" using s d by (simp add: is_digit_def)
  moreover have "skip_sign (dropWhile isspace s) = (False, s)" using s c by (simp add: skip_sign_def)
  moreover have "parse_digits b 0 s = (digits_value b 0 s, [])"
    using parse_digits_all [OF assms(1), of 0 "[]"] by simp
  ultimately show ?thesis using assms(3) by (auto simp: parse_int_def Let_def)
qed

lemma ucast_up: "ucast (ucast (x :: u32) :: u64) = x"
  by (rule bit_word_eqI) (simp add: bit_simps)

lemma strtoul_print_hex: "ucast (strtoul 16 (print_hex x)) = x"
proof -
  have "parse_int 16 (print_hex x) = (False, unat x, [])"
    unfolding print_hex_def
    by (simp add: parse_int_digits digit_string_to_base digits_value_to_base)
  moreover have "unat x < 2 ^ 64" using unat_u32 [of x] by simp
  ultimately show ?thesis by (simp add: strtoul_def ucast_up)
qed

lemma strtol_print_int:
  assumes "- (2 ^ 63) \<le> i" and "i < 2 ^ 63"
  shows "strtol 10 (print_int i) = (i, [])"
proof (cases "i < 0")
  case False
  then have "parse_int 10 (print_int i) = (False, nat i, [])"
    by (simp add: print_int_def parse_int_digits digit_string_to_base digits_value_to_base)
  then show ?thesis using False assms by (auto simp: strtol_def)
next
  case True
  let ?s = "to_base 10 (nat (- i))"
  have ds: "digit_string 10 ?s" by (simp add: digit_string_to_base)
  have "parse_digits 10 0 ?s = (nat (- i), [])"
    using parse_digits_all [OF ds, of 0 "[]"] digits_value_to_base [of 10] by simp
  moreover have "is_digit 10 ?s"
    using ds by (cases ?s) (auto simp: is_digit_def digit_string_def)
  ultimately have "parse_int 10 (print_int i) = (True, nat (- i), [])"
    using True by (simp add: print_int_def parse_int_def skip_sign_def isspace_def Let_def)
  then show ?thesis using True assms by (auto simp: strtol_def)
qed

end
