(* ===== verification/World.thy ===== *)
theory World
  imports Timer CString
begin

text \<open>
  The state of one skynet process, \<^verbatim>\<open>struct skynet_context\<close> of \<^verbatim>\<open>skynet-src/skynet_server.c\<close> and
  the life cycle of a context.

  The record \<open>world\<close> extends the message queues of theory Mq with the heap of contexts and
  the static variables of the source files: the handle table \<open>hs\<close> (\<^verbatim>\<open>H\<close> of skynet_handle.c), the
  timer \<open>ti\<close> (\<^verbatim>\<open>TI\<close> of skynet_timer.c), the modules (\<^verbatim>\<open>M\<close> of skynet_module.c), the node
  (\<^verbatim>\<open>G_NODE\<close>), the harbor (\<^verbatim>\<open>REMOTE\<close>, \<^verbatim>\<open>HARBOR\<close>), the environment (the Lua globals of \<^verbatim>\<open>E\<close>) and
  the handle of the logger that \<^verbatim>\<open>skynet_error\<close> keeps. Locks are not modelled: each
  operation runs as one step. Message data are values, so \<^verbatim>\<open>skynet_free(data)\<close> has no effect.

  What is linked in at run time or done by the operating system is not part of the
  sources: the record \<open>ext\<close> holds it, as functions on the world, and every operation that
  may reach it takes an \<open>ext\<close> as an argument.
\<close>

type_synonym caddr = nat

record skynet_context =
  ctx_instance :: nat
  ctx_mod :: nat
  ctx_cb_ud :: nat
  ctx_cb :: "nat option"
  ctx_queue :: qaddr
  ctx_logfile :: "nat option"
  ctx_cpu_cost :: u64
  ctx_cpu_start :: u64
  ctx_result :: string
  ctx_handle :: u32
  ctx_session_id :: u32
  ctx_ref :: int
  ctx_message_count :: nat
  ctx_init :: bool
  ctx_endless :: bool
  ctx_profile :: bool

type_synonym handle_name = "string \<times> u32"

record handle_storage =
  harbor :: u32
  handle_index :: u32
  slot_size :: nat
  slots :: "caddr option list"
  name_cap :: nat
  name_count :: nat
  names :: "handle_name option list"

record skynet_module =
  mod_name :: string
  mod_module :: nat
  mod_create :: "nat option"
  mod_init :: "nat option"
  mod_release :: "nat option"
  mod_signal :: "nat option"

record skynet_node =
  node_total :: int
  node_init :: bool
  node_monitor_exit :: u32
  node_handle_key :: u32
  node_profile :: bool

record world = mq_world +
  ctxs :: "caddr \<rightharpoonup> skynet_context"
  hs :: handle_storage
  ti :: timer
  mod_count :: nat
  mod_path :: string
  mod_tab :: "skynet_module option list"
  node :: skynet_node
  remote :: "caddr option"
  harbor_id :: u32
  env :: "string \<rightharpoonup> string"
  logger :: u32
  files :: "(nat \<times> string) list"
  clock_reads :: nat

text \<open>\<open>files\<close> is what has been written to the log files, \<open>clock_reads\<close> counts the calls of
  \<^verbatim>\<open>skynet_thread_time\<close>, whose results \<open>x_thread_time\<close> lists; \<open>x_lf\<close> is
  \<^verbatim>\<open>%lf\<close> of a number of microseconds in seconds.\<close>

record ext =
  x_dlopen :: "string \<Rightarrow> nat option"
  x_dlsym :: "nat \<Rightarrow> string \<Rightarrow> nat option"
  x_create :: "nat \<Rightarrow> world \<Rightarrow> (nat option \<times> world) res"
  x_init :: "nat \<Rightarrow> nat \<Rightarrow> caddr \<Rightarrow> string option \<Rightarrow> world \<Rightarrow> (int \<times> world) res"
  x_release :: "nat \<Rightarrow> nat \<Rightarrow> world \<Rightarrow> world res"
  x_signal :: "nat \<Rightarrow> nat \<Rightarrow> int \<Rightarrow> world \<Rightarrow> world res"
  x_cb :: "nat \<Rightarrow> caddr \<Rightarrow> nat \<Rightarrow> nat \<Rightarrow> u32 \<Rightarrow> u32 \<Rightarrow> payload \<Rightarrow> u64 \<Rightarrow> world \<Rightarrow> (bool \<times> world) res"
  x_fopen :: "string \<Rightarrow> nat option"
  x_ctime :: "u64 \<Rightarrow> string"
  x_thread_time :: "nat \<Rightarrow> u64"
  x_lf :: "u64 \<Rightarrow> string"

definition put_ctx :: "world \<Rightarrow> caddr \<Rightarrow> skynet_context \<Rightarrow> world" where
  "put_ctx w a c = w\<lparr>ctxs := (ctxs w)(a \<mapsto> c)\<rparr>"

section \<open>The node\<close>

definition skynet_context_total :: "world \<Rightarrow> int" where
  "skynet_context_total w = node_total (node w)"

definition context_inc :: "world \<Rightarrow> world" where
  "context_inc w = w\<lparr>node := (node w)\<lparr>node_total := node_total (node w) + 1\<rparr>\<rparr>"

definition context_dec :: "world \<Rightarrow> world" where
  "context_dec w = w\<lparr>node := (node w)\<lparr>node_total := node_total (node w) - 1\<rparr>\<rparr>"

section \<open>Modules\<close>

text \<open>The functions of a module that the service calls through \<^verbatim>\<open>struct skynet_module\<close>. The
  modules are dynamic libraries; an absent function is a \<^verbatim>\<open>NULL\<close> pointer.\<close>

definition module_at :: "world \<Rightarrow> nat \<Rightarrow> skynet_module res" where
  "module_at w m = bindR (rd (mod_tab w) m) initialised"

definition skynet_module_instance_create :: "ext \<Rightarrow> world \<Rightarrow> nat \<Rightarrow> (nat option \<times> world) res" where
  "skynet_module_instance_create X w m =
     bindR (module_at w m) (\<lambda>r.
     case mod_create r of Some f \<Rightarrow> x_create X f w | None \<Rightarrow> Inr (Some (2 ^ 64 - 1), w))"

definition skynet_module_instance_init :: "ext \<Rightarrow> world \<Rightarrow> nat \<Rightarrow> nat \<Rightarrow> caddr \<Rightarrow> string option \<Rightarrow> (int \<times> world) res" where
  "skynet_module_instance_init X w m inst ctx parm =
     bindR (module_at w m) (\<lambda>r. bindR (nonnull (mod_init r)) (\<lambda>f. x_init X f inst ctx parm w))"

definition skynet_module_instance_release :: "ext \<Rightarrow> world \<Rightarrow> nat \<Rightarrow> nat \<Rightarrow> world res" where
  "skynet_module_instance_release X w m inst =
     bindR (module_at w m) (\<lambda>r.
     case mod_release r of Some f \<Rightarrow> x_release X f inst w | None \<Rightarrow> Inr w)"

definition skynet_module_instance_signal :: "ext \<Rightarrow> world \<Rightarrow> nat \<Rightarrow> nat \<Rightarrow> int \<Rightarrow> world res" where
  "skynet_module_instance_signal X w m inst sig =
     bindR (module_at w m) (\<lambda>r.
     case mod_signal r of Some f \<Rightarrow> x_signal X f inst sig w | None \<Rightarrow> Inr w)"

section \<open>References to a context\<close>

definition skynet_context_handle :: "world \<Rightarrow> caddr \<Rightarrow> u32 res" where
  "skynet_context_handle w a = bindR (deref (ctxs w) a) (\<lambda>c. Inr (ctx_handle c))"

text \<open>\<^verbatim>\<open>int session = ++ctx->session_id\<close>: the counter is a 32-bit signed integer that wraps.\<close>

definition skynet_context_newsession :: "skynet_context \<Rightarrow> u32 \<times> skynet_context" where
  "skynet_context_newsession c =
     (let session = ctx_session_id c + 1 in
      if sint session \<le> 0 then (1, c\<lparr>ctx_session_id := 1\<rparr>)
      else (session, c\<lparr>ctx_session_id := session\<rparr>))"

definition skynet_context_grab :: "world \<Rightarrow> caddr \<Rightarrow> world res" where
  "skynet_context_grab w a =
     bindR (deref (ctxs w) a) (\<lambda>c. Inr (put_ctx w a (c\<lparr>ctx_ref := ctx_ref c + 1\<rparr>)))"

definition skynet_context_reserve :: "world \<Rightarrow> caddr \<Rightarrow> world res" where
  "skynet_context_reserve w a = bindR (skynet_context_grab w a) (\<lambda>w1. Inr (context_dec w1))"

text \<open>\<^verbatim>\<open>fclose\<close> and \<^verbatim>\<open>skynet_free(ctx)\<close> end the life of the log file and of the struct.\<close>

definition delete_context :: "ext \<Rightarrow> world \<Rightarrow> caddr \<Rightarrow> world res" where
  "delete_context X w a =
     bindR (deref (ctxs w) a) (\<lambda>c.
     bindR (skynet_module_instance_release X w (ctx_mod c) (ctx_instance c)) (\<lambda>w1.
     bindR (deref (ctxs w1) a) (\<lambda>c1.
     bindR (skynet_mq_mark_release w1 (ctx_queue c1)) (\<lambda>w2.
     Inr (context_dec (w2\<lparr>ctxs := (ctxs w2)(a := None)\<rparr>))))))"

definition skynet_context_release :: "ext \<Rightarrow> world \<Rightarrow> caddr \<Rightarrow> (caddr option \<times> world) res" where
  "skynet_context_release X w a =
     bindR (deref (ctxs w) a) (\<lambda>c.
     let w1 = put_ctx w a (c\<lparr>ctx_ref := ctx_ref c - 1\<rparr>) in
     if ctx_ref c - 1 = 0
     then bindR (delete_context X w1 a) (\<lambda>w2. Inr (None, w2))
     else Inr (Some a, w1))"

lemma put_ctx_simps [simp]:
  "ctxs (put_ctx w a c) = (ctxs w)(a \<mapsto> c)"
  "mqs (put_ctx w a c) = mqs w"
  "gq_head (put_ctx w a c) = gq_head w"
  "gq_tail (put_ctx w a c) = gq_tail w"
  "hs (put_ctx w a c) = hs w"
  "ti (put_ctx w a c) = ti w"
  "node (put_ctx w a c) = node w"
  "remote (put_ctx w a c) = remote w"
  "harbor_id (put_ctx w a c) = harbor_id w"
  "env (put_ctx w a c) = env w"
  "logger (put_ctx w a c) = logger w"
  "mod_tab (put_ctx w a c) = mod_tab w"
  by (simp_all add: put_ctx_def)

lemma put_ctx_twice [simp]: "put_ctx (put_ctx w a c) a d = put_ctx w a d"
  by (simp add: put_ctx_def)

lemma put_ctx_same: "ctxs w a = Some c \<Longrightarrow> put_ctx w a c = w"
  by (simp add: put_ctx_def fun_upd_idem)

lemma grab_ok:
  "ctxs w a = Some c \<Longrightarrow> skynet_context_grab w a = Inr (put_ctx w a (c\<lparr>ctx_ref := ctx_ref c + 1\<rparr>))"
  by (simp add: skynet_context_grab_def)

text \<open>Releasing a reference that is not the last one only decrements the count.\<close>

lemma release_shared:
  "ctxs w a = Some c \<Longrightarrow> 1 < ctx_ref c \<Longrightarrow>
     skynet_context_release X w a = Inr (Some a, put_ctx w a (c\<lparr>ctx_ref := ctx_ref c - 1\<rparr>))"
  by (simp add: skynet_context_release_def)

section \<open>Session numbers\<close>

fun sessions :: "nat \<Rightarrow> skynet_context \<Rightarrow> u32 list" where
  "sessions 0 c = []"
| "sessions (Suc n) c = (let (s, c') = skynet_context_newsession c in s # sessions n c')"

lemma sint_small:
  assumes "unat (x :: u32) < 2 ^ 31"
  shows "sint x = int (unat x)"
proof -
  have "unat (drop_bit 31 x) = 0" using assms by (simp only: unat_drop_bit_eq) (simp add: drop_bit_eq_div)
  then have "drop_bit 31 x = 0" by (simp only: unsigned_eq_0_iff)
  then have "\<not> bit (drop_bit 31 x) 0" by (simp only: bit_0_eq bot_apply) simp
  then have "\<not> bit x 31" by (simp only: bit_drop_bit_eq comp_apply add_0_right) simp
  moreover have "uint x < 2 ^ 31" 
  proof -
    have "int (unat x) < int (2 ^ 31)" using assms by (simp only: of_nat_less_iff)
    then show ?thesis by simp
  qed
  ultimately show ?thesis
    by (simp add: sint_uint signed_take_bit_eq_if_positive bit_simps take_bit_int_eq_self)
qed

lemma newsession_value:
  assumes "unat (ctx_session_id c) < 2 ^ 31"
  shows "unat (fst (skynet_context_newsession c)) = unat (ctx_session_id c) mod (2 ^ 31 - 1) + 1"
    and "ctx_session_id (snd (skynet_context_newsession c)) = fst (skynet_context_newsession c)"
proof -
  let ?s = "ctx_session_id c"
  show "ctx_session_id (snd (skynet_context_newsession c)) = fst (skynet_context_newsession c)"
    by (simp add: skynet_context_newsession_def Let_def)
  show "unat (fst (skynet_context_newsession c)) = unat ?s mod (2 ^ 31 - 1) + 1"
  proof (cases "unat ?s = 2 ^ 31 - 1")
    case True
    then have "?s = 2147483647" by (simp add: word_unat_eq_iff)
    then show ?thesis by (simp add: skynet_context_newsession_def)
  next
    case False
    then have l: "unat ?s < 2 ^ 31 - 1" using assms by simp
    then have u: "unat (?s + 1) = unat ?s + 1" by (simp add: unat_word_ariths)
    then have "0 < sint (?s + 1)" using l by (simp add: sint_small del: of_nat_unat)
    then show ?thesis using u l by (simp add: skynet_context_newsession_def Let_def)
  qed
qed

lemma sessions_value:
  "unat (ctx_session_id c) < 2 ^ 31 \<Longrightarrow> k < n \<Longrightarrow>
     unat (sessions n c ! k) = (unat (ctx_session_id c) + k) mod (2 ^ 31 - 1) + 1"
proof (induction n arbitrary: c k)
  case (Suc n)
  obtain s c' where sc: "skynet_context_newsession c = (s, c')" by (cases "skynet_context_newsession c")
  note v = newsession_value [OF Suc.prems(1)]
  show ?case
  proof (cases k)
    case 0
    then show ?thesis using v sc by simp
  next
    case (Suc j)
    have "unat (ctx_session_id c') < 2 ^ 31" using v sc by simp
    from Suc.IH [OF this, of j] Suc Suc.prems(2) sc v
    have "unat (sessions (Suc n) c ! k) = (unat (ctx_session_id c) mod (2 ^ 31 - 1) + 1 + j) mod (2 ^ 31 - 1) + 1"
      by simp
    also have "\<dots> = (unat (ctx_session_id c) + k) mod (2 ^ 31 - 1) + 1"
      using Suc by (simp only: mod_add_left_eq add.assoc Suc_eq_plus1_left)
    finally show ?thesis .
  qed
qed simp

text \<open>The sessions a context hands out are \<open>1, 2, \<dots>, 2 ^ 31 - 1\<close> and again \<open>1\<close>: always positive
  as a signed 32-bit integer, also when the counter wraps around, and any \<open>2 ^ 31 - 1\<close>
  consecutive ones are different.\<close>

theorem newsession_cycles:
  assumes "ctx_session_id c = 0" and "k < n"
  shows "unat (sessions n c ! k) = k mod (2 ^ 31 - 1) + 1"
  using sessions_value [of c k n] assms by simp

definition ex_ctx :: skynet_context where
  "ex_ctx = \<lparr>ctx_instance = 0, ctx_mod = 0, ctx_cb_ud = 0, ctx_cb = None, ctx_queue = 0,
     ctx_logfile = None, ctx_cpu_cost = 0, ctx_cpu_start = 0, ctx_result = [], ctx_handle = 0,
     ctx_session_id = 0, ctx_ref = 1, ctx_message_count = 0, ctx_init = True,
     ctx_endless = False, ctx_profile = False\<rparr>"

definition ex_world :: world where
  "ex_world = \<lparr>mqs = [7 \<mapsto> new_mq 1], gq_head = None, gq_tail = None, ctxs = [3 \<mapsto> ex_ctx],
     hs = \<lparr>harbor = push_bit 24 (1 AND 0xff), handle_index = 1, slot_size = 4, slots = replicate 4 None,
       name_cap = 2, name_count = 0, names = replicate 2 None\<rparr>,
     ti = timer_create_timer, mod_count = 0, mod_path = ''./c/?.so;'', mod_tab = replicate 32 None,
     node = \<lparr>node_total = 0, node_init = True, node_monitor_exit = 0, node_handle_key = 0, node_profile = False\<rparr>,
     remote = None, harbor_id = 0x1000000, env = Map.empty, logger = 0, files = [], clock_reads = 0\<rparr>"

definition ex_ext :: ext where
  "ex_ext = \<lparr>x_dlopen = (\<lambda>s. if s = ''./c/gate.so'' then Some 1 else None), x_dlsym = (\<lambda>_ _. Some 2),
     x_create = (\<lambda>_ w. Inr (Some 1, w)), x_init = (\<lambda>_ _ _ _ w. Inr (0, w)), x_release = (\<lambda>_ _ w. Inr w),
     x_signal = (\<lambda>_ _ _ w. Inr w), x_cb = (\<lambda>_ _ _ _ _ _ _ _ w. Inr (False, w)), x_fopen = (\<lambda>_. None),
     x_ctime = (\<lambda>_. []), x_thread_time = (\<lambda>_. 0), x_lf = (\<lambda>_. ''0.000000'')\<rparr>"

lemma newsession_cycles_witness: "unat (sessions 5 ex_ctx ! 3) = 4"
  using newsession_cycles [of ex_ctx 3 5] by (simp add: ex_ctx_def)

end
