(* ===== verification/Handle.thy ===== *)
theory Handle
  imports World
begin

text \<open>
  The handle table of \<^verbatim>\<open>skynet-src/skynet_handle.c\<close>: a power-of-two array of contexts indexed
  by the low bits of the handle, doubled when it is full, and a sorted array of names with
  binary search. Every operation runs under the table's lock. \<^verbatim>\<open>name\<close> cells that have been
  allocated but not written are \<open>None\<close>.
\<close>

section \<open>Handles\<close>

definition HANDLE_MASK :: u32 where "HANDLE_MASK = 0xffffff"

definition HANDLE_REMOTE_SHIFT :: nat where "HANDLE_REMOTE_SHIFT = 24"

definition DEFAULT_SLOT_SIZE :: nat where "DEFAULT_SLOT_SIZE = 4"

definition MAX_SLOT_SIZE :: nat where "MAX_SLOT_SIZE = 0x40000000"

text \<open>\<^verbatim>\<open>handle & (s->slot_size-1)\<close>\<close>

definition slot_hash :: "nat \<Rightarrow> u32 \<Rightarrow> nat" where
  "slot_hash sz handle = unat (handle AND (of_nat sz - 1))"

text \<open>The inner loop of \<^verbatim>\<open>skynet_handle_register\<close>: the first free handle from \<^verbatim>\<open>handle_index\<close> on.\<close>

function register_scan :: "handle_storage \<Rightarrow> nat \<Rightarrow> u32 option res" where
  "register_scan s i =
     (if i < slot_size s then
        let handle = (of_nat i + handle_index s) AND HANDLE_MASK in
        bindR (rd (slots s) (slot_hash (slot_size s) handle)) (\<lambda>c.
        if c = None then Inr (Some handle) else register_scan s (i + 1))
      else Inr None)"
  by pat_completeness auto
termination
  by (relation "measure (\<lambda>(s, i). slot_size s - i)") auto

declare register_scan.simps [simp del]

text \<open>The table of twice the size, with every context moved to its new slot.\<close>

definition rehash :: "(caddr \<rightharpoonup> skynet_context) \<Rightarrow> handle_storage \<Rightarrow> handle_storage res" where
  "rehash cs s =
     bindR (assertR (slot_size s * 2 - 1 \<le> unat HANDLE_MASK)) (\<lambda>_.
     bindR (forR (slot_size s) (\<lambda>i new_slot.
         bindR (rd (slots s) i) (\<lambda>cell.
         bindR (nonnull cell) (\<lambda>a.
         bindR (deref cs a) (\<lambda>c.
         let hash = slot_hash (slot_size s * 2) (ctx_handle c) in
         bindR (rd new_slot hash) (\<lambda>old.
         bindR (assertR (old = None)) (\<lambda>_.
         wr new_slot hash (Some a)))))))
       (replicate (slot_size s * 2) None)) (\<lambda>new_slot.
     Inr (s\<lparr>slots := new_slot, slot_size := slot_size s * 2\<rparr>)))"

lemma rehash_size: "rehash cs s = Inr s' \<Longrightarrow> slot_size s' = slot_size s * 2 \<and> slot_size s * 2 \<le> 2 ^ 24"
  by (auto simp: rehash_def HANDLE_MASK_def)

text \<open>The outer loop. A table of size 0 would double for ever.\<close>

function register_loop :: "(caddr \<rightharpoonup> skynet_context) \<Rightarrow> handle_storage \<Rightarrow> caddr \<Rightarrow> (u32 \<times> handle_storage) res" where
  "register_loop cs s ctx =
     (if slot_size s = 0 then Inl Endless_loop else
      bindR (register_scan s 0) (\<lambda>found.
      case found of
        Some handle \<Rightarrow>
          bindR (wr (slots s) (slot_hash (slot_size s) handle) (Some ctx)) (\<lambda>sl.
          Inr (handle OR harbor s, s\<lparr>slots := sl, handle_index := handle + 1\<rparr>))
      | None \<Rightarrow> bindR (rehash cs s) (\<lambda>s'. register_loop cs s' ctx)))"
  by pat_completeness auto
termination
  by (relation "measure (\<lambda>(cs, s, ctx). 2 ^ 25 - slot_size s)") (auto dest: rehash_size)

declare register_loop.simps [simp del]

definition skynet_handle_register :: "world \<Rightarrow> caddr \<Rightarrow> (u32 \<times> world) res" where
  "skynet_handle_register w ctx =
     bindR (register_loop (ctxs w) (hs w) ctx) (\<lambda>(handle, s). Inr (handle, w\<lparr>hs := s\<rparr>))"

text \<open>\<^verbatim>\<open>skynet_handle_retire\<close>: the loop that compacts the names, and the whole operation. The
  context is released after the table's lock.\<close>

definition retire_names :: "handle_name option list \<Rightarrow> nat \<Rightarrow> u32 \<Rightarrow> (handle_name option list \<times> nat) res" where
  "retire_names cells n handle =
     forR n (\<lambda>i (cells, j).
       bindR (rd cells i) (\<lambda>cell.
       bindR (initialised cell) (\<lambda>(nm, h).
       if h = handle then Inr (cells, j)
       else if i \<noteq> j then bindR (wr cells j (Some (nm, h))) (\<lambda>cells'. Inr (cells', j + 1))
       else Inr (cells, j + 1))))
     (cells, 0)"

definition skynet_handle_retire :: "ext \<Rightarrow> world \<Rightarrow> u32 \<Rightarrow> (bool \<times> world) res" where
  "skynet_handle_retire X w handle =
     (let s = hs w; hash = slot_hash (slot_size s) handle in
      bindR (rd (slots s) hash) (\<lambda>cell.
      case cell of
        None \<Rightarrow> Inr (False, w)
      | Some ctx \<Rightarrow>
          bindR (skynet_context_handle w ctx) (\<lambda>h.
          if h = handle then
            bindR (wr (slots s) hash None) (\<lambda>sl.
            bindR (retire_names (names s) (name_count s) handle) (\<lambda>(cells, j).
            bindR (skynet_context_release X
                     (w\<lparr>hs := s\<lparr>slots := sl, names := cells, name_count := j\<rparr>\<rparr>) ctx) (\<lambda>(_, w').
            Inr (True, w'))))
          else Inr (False, w))))"

text \<open>\<^verbatim>\<open>skynet_handle_retireall\<close>: passes over the table until one retires nothing. \<open>fuel\<close> bounds the
  steps; twice the size of the table and two more are enough when releasing a context
  leaves the table alone.\<close>

fun retireall_loop :: "ext \<Rightarrow> nat \<Rightarrow> world \<Rightarrow> nat \<Rightarrow> nat \<Rightarrow> world res" where
  "retireall_loop X 0 w i n = Inl Endless_loop"
| "retireall_loop X (Suc fuel) w i n =
     (if i < slot_size (hs w) then
        bindR (rd (slots (hs w)) i) (\<lambda>cell.
        bindR (case cell of None \<Rightarrow> Inr 0 | Some ctx \<Rightarrow> skynet_context_handle w ctx) (\<lambda>handle.
        if handle \<noteq> 0 then
          bindR (skynet_handle_retire X w handle) (\<lambda>(r, w').
          retireall_loop X fuel w' (i + 1) (if r then n + 1 else n))
        else retireall_loop X fuel w (i + 1) n))
      else if n = 0 then Inr w
      else retireall_loop X fuel w 0 0)"

definition skynet_handle_retireall :: "ext \<Rightarrow> world \<Rightarrow> world res" where
  "skynet_handle_retireall X w = retireall_loop X (2 * slot_size (hs w) + 2) w 0 0"

definition skynet_handle_grab :: "world \<Rightarrow> u32 \<Rightarrow> (caddr option \<times> world) res" where
  "skynet_handle_grab w handle =
     bindR (rd (slots (hs w)) (slot_hash (slot_size (hs w)) handle)) (\<lambda>cell.
     case cell of
       None \<Rightarrow> Inr (None, w)
     | Some ctx \<Rightarrow>
         bindR (skynet_context_handle w ctx) (\<lambda>h.
         if h = handle then bindR (skynet_context_grab w ctx) (\<lambda>w'. Inr (Some ctx, w'))
         else Inr (None, w)))"

section \<open>Names\<close>

text \<open>The binary search that \<^verbatim>\<open>skynet_handle_findname\<close> and \<^verbatim>\<open>_insert_name\<close> share: the handle of the
  name, or the index before which it belongs.\<close>

function name_search :: "handle_name option list \<Rightarrow> int \<Rightarrow> int \<Rightarrow> string \<Rightarrow> (u32 + nat) res" where
  "name_search cells begi fin name =
     (if begi \<le> fin then
        let mid = (begi + fin) div 2 in
        if mid < 0 then Inl Out_of_bounds else
        bindR (rd cells (nat mid)) (\<lambda>cell.
        bindR (initialised cell) (\<lambda>(n, h).
        let c = strcmp n name in
        if c = 0 then Inr (Inl h)
        else if c < 0 then name_search cells (mid + 1) fin name
        else name_search cells begi (mid - 1) name))
      else Inr (Inr (nat begi)))"
  by pat_completeness auto
termination
  by (relation "measure (\<lambda>(cells, b, e, n). nat (e - b + 1))") auto

declare name_search.simps [simp del]

definition skynet_handle_findname :: "handle_storage \<Rightarrow> string \<Rightarrow> u32 res" where
  "skynet_handle_findname s name =
     bindR (name_search (names s) 0 (int (name_count s) - 1) name) (\<lambda>r.
     Inr (case r of Inl h \<Rightarrow> h | Inr _ \<Rightarrow> 0))"

definition insert_name_before :: "handle_storage \<Rightarrow> string \<Rightarrow> u32 \<Rightarrow> nat \<Rightarrow> handle_storage res" where
  "insert_name_before s name handle before =
     bindR (if name_count s \<ge> name_cap s then
         bindR (assertR (name_cap s * 2 \<le> MAX_SLOT_SIZE)) (\<lambda>_.
         bindR (forR before (\<lambda>i n. bindR (rd (names s) i) (wr n i))
                  (replicate (name_cap s * 2) None)) (\<lambda>n1.
         bindR (forR (name_count s - before)
                  (\<lambda>k n. bindR (rd (names s) (before + k)) (wr n (before + k + 1))) n1) (\<lambda>n2.
         Inr (s\<lparr>name_cap := name_cap s * 2, names := n2\<rparr>))))
       else
         bindR (forR (name_count s - before)
                  (\<lambda>k n. let i = name_count s - k in bindR (rd n (i - 1)) (wr n i)) (names s)) (\<lambda>n1.
         Inr (s\<lparr>names := n1\<rparr>))) (\<lambda>s1.
     bindR (wr (names s1) before (Some (name, handle))) (\<lambda>n.
     Inr (s1\<lparr>names := n, name_count := name_count s1 + 1\<rparr>)))"

definition insert_name :: "handle_storage \<Rightarrow> string \<Rightarrow> u32 \<Rightarrow> (string option \<times> handle_storage) res" where
  "insert_name s name handle =
     bindR (name_search (names s) 0 (int (name_count s) - 1) name) (\<lambda>r.
     case r of
       Inl _ \<Rightarrow> Inr (None, s)
     | Inr before \<Rightarrow> bindR (insert_name_before s name handle before) (\<lambda>s'. Inr (Some name, s')))"

definition skynet_handle_namehandle :: "world \<Rightarrow> u32 \<Rightarrow> string \<Rightarrow> (string option \<times> world) res" where
  "skynet_handle_namehandle w handle name =
     bindR (insert_name (hs w) name handle) (\<lambda>(ret, s). Inr (ret, w\<lparr>hs := s\<rparr>))"

definition skynet_handle_init :: "u32 \<Rightarrow> handle_storage" where
  "skynet_handle_init hb =
     \<lparr>harbor = push_bit HANDLE_REMOTE_SHIFT (hb AND 0xff), handle_index = 1,
      slot_size = DEFAULT_SLOT_SIZE, slots = replicate DEFAULT_SLOT_SIZE None,
      name_cap = 2, name_count = 0, names = replicate 2 None\<rparr>"

section \<open>The table as a map\<close>

text \<open>What holds between two operations: the size is a power of two up to \<open>2 ^ 24\<close>, every
  context of the table exists, stands in the slot of its handle and carries the harbor of
  the process.\<close>

definition table_inv :: "(caddr \<rightharpoonup> skynet_context) \<Rightarrow> handle_storage \<Rightarrow> bool" where
  "table_inv cs s \<longleftrightarrow>
     (\<exists>k. 2 \<le> k \<and> k \<le> 24 \<and> slot_size s = 2 ^ k) \<and> length (slots s) = slot_size s \<and>
     take_bit 24 (harbor s) = 0 \<and>
     (\<forall>i < slot_size s. \<forall>a. slots s ! i = Some a \<longrightarrow>
        (\<exists>c. cs a = Some c \<and> slot_hash (slot_size s) (ctx_handle c) = i \<and>
             ctx_handle c AND NOT HANDLE_MASK = harbor s))"

definition registered :: "(caddr \<rightharpoonup> skynet_context) \<Rightarrow> handle_storage \<Rightarrow> u32 \<rightharpoonup> caddr" where
  "registered cs s h =
     (case slots s ! slot_hash (slot_size s) h of
        None \<Rightarrow> None
      | Some a \<Rightarrow> (case cs a of None \<Rightarrow> None
          | Some c \<Rightarrow> if ctx_handle c = h then Some a else None))"

lemma slot_hash_take_bit: "k \<le> 24 \<Longrightarrow> slot_hash (2 ^ k) h = unat (take_bit k h)"
  by (simp add: slot_hash_def take_bit_eq_mask mask_eq_exp_minus_1)

lemma slot_hash_less: "k \<le> 24 \<Longrightarrow> slot_hash (2 ^ k) h < 2 ^ k"
  by (simp add: slot_hash_take_bit unsigned_take_bit_eq)

lemma slot_hash_mod: "k \<le> 24 \<Longrightarrow> slot_hash (2 ^ k) h = unat h mod 2 ^ k"
  by (simp only: slot_hash_take_bit unsigned_take_bit_eq) (simp add: take_bit_eq_mod)

lemma slot_hash_double:
  assumes "k \<le> 23"
  shows "slot_hash (2 ^ k) h = slot_hash (2 ^ k * 2) h mod 2 ^ k"
proof -
  have "slot_hash (2 ^ k * 2) h = unat h mod 2 ^ Suc k"
    using assms slot_hash_mod [of "Suc k" h] by (simp add: mult.commute)
  then show ?thesis using assms by (simp add: slot_hash_mod mod_mod_cancel)
qed

lemma table_inv_hash:
  assumes "table_inv cs s"
  shows "slot_hash (slot_size s) h < slot_size s" and "length (slots s) = slot_size s"
  using assms slot_hash_less unfolding table_inv_def by metis+

lemma table_inv_slot:
  assumes "table_inv cs s" and "i < slot_size s" and "slots s ! i = Some a"
  obtains c where "cs a = Some c" and "slot_hash (slot_size s) (ctx_handle c) = i"
    and "ctx_handle c AND NOT HANDLE_MASK = harbor s"
  using assms unfolding table_inv_def by blast

text \<open>A handle is registered for a context exactly when some slot holds the context.\<close>

lemma registered_iff:
  assumes inv: "table_inv cs s"
  shows "registered cs s h = Some a \<longleftrightarrow>
     (\<exists>i c. i < slot_size s \<and> slots s ! i = Some a \<and> cs a = Some c \<and> ctx_handle c = h)"
proof
  assume "registered cs s h = Some a"
  then show "\<exists>i c. i < slot_size s \<and> slots s ! i = Some a \<and> cs a = Some c \<and> ctx_handle c = h"
    using table_inv_hash [OF inv] by (auto simp: registered_def split: option.splits if_splits)
next
  assume "\<exists>i c. i < slot_size s \<and> slots s ! i = Some a \<and> cs a = Some c \<and> ctx_handle c = h"
  then show "registered cs s h = Some a"
    using inv by (auto simp: registered_def elim: table_inv_slot)
qed

subsection \<open>Grabbing a handle\<close>

lemma grab_registered:
  assumes inv: "table_inv (ctxs w) (hs w)" and "registered (ctxs w) (hs w) h = Some a"
    and "ctxs w a = Some c"
  shows "skynet_handle_grab w h = Inr (Some a, put_ctx w a (c\<lparr>ctx_ref := ctx_ref c + 1\<rparr>))"
  using assms(2,3) table_inv_hash [OF inv]
  by (auto simp: skynet_handle_grab_def registered_def skynet_context_handle_def grab_ok
      split: option.splits if_splits)

lemma grab_unregistered:
  assumes inv: "table_inv (ctxs w) (hs w)" and "registered (ctxs w) (hs w) h = None"
  shows "skynet_handle_grab w h = Inr (None, w)"
proof -
  let ?i = "slot_hash (slot_size (hs w)) h"
  have i: "?i < length (slots (hs w))" "?i < slot_size (hs w)"
    using table_inv_hash [OF inv] by simp_all
  show ?thesis
  proof (cases "slots (hs w) ! ?i")
    case None
    then show ?thesis using i by (simp add: skynet_handle_grab_def)
  next
    case (Some a)
    then obtain c where "ctxs w a = Some c" by (rule table_inv_slot [OF inv i(2)])
    then show ?thesis using Some i assms(2)
      by (auto simp: skynet_handle_grab_def registered_def skynet_context_handle_def split: if_splits)
  qed
qed

lemma registered_ctx: "registered cs s h = Some a \<Longrightarrow> \<exists>c. cs a = Some c \<and> ctx_handle c = h"
  by (auto simp: registered_def split: option.splits if_splits)

subsection \<open>Registering a context\<close>

definition scan_handle :: "handle_storage \<Rightarrow> nat \<Rightarrow> u32" where
  "scan_handle s i = (of_nat i + handle_index s) AND HANDLE_MASK"

lemma register_scan_cases:
  assumes "\<And>h. slot_hash (slot_size s) h < length (slots s)"
  shows "(\<exists>j. i \<le> j \<and> j < slot_size s \<and> register_scan s i = Inr (Some (scan_handle s j)) \<and>
            slots s ! slot_hash (slot_size s) (scan_handle s j) = None) \<or>
         (register_scan s i = Inr None \<and>
            (\<forall>j. i \<le> j \<and> j < slot_size s \<longrightarrow> slots s ! slot_hash (slot_size s) (scan_handle s j) \<noteq> None))"
proof (induction "slot_size s - i" arbitrary: i)
  case 0
  then show ?case by (subst (2) register_scan.simps) auto
next
  case (Suc n)
  then have i: "i < slot_size s" by simp
  show ?case
  proof (cases "slots s ! slot_hash (slot_size s) (scan_handle s i)")
    case None
    then have "register_scan s i = Inr (Some (scan_handle s i))"
      using i assms by (subst register_scan.simps) (simp add: scan_handle_def Let_def)
    then show ?thesis using None i by blast
  next
    case (Some a)
    then have "register_scan s i = register_scan s (i + 1)"
      using i assms by (subst register_scan.simps) (simp add: scan_handle_def Let_def)
    moreover have "n = slot_size s - (i + 1)" using Suc(2) by simp
    note Suc(1) [OF this]
    moreover have "j = i \<or> i + 1 \<le> j" if "i \<le> j" for j using that by auto
    ultimately show ?thesis using Some
      by (smt (verit, best) add_leD1 option.distinct(1))
  qed
qed

lemma scan_handle_hash:
  assumes "k \<le> 24"
  shows "slot_hash (2 ^ k) (scan_handle s i) = (i + unat (handle_index s)) mod 2 ^ k"
proof -
  have "HANDLE_MASK = mask 24" by (simp add: HANDLE_MASK_def mask_eq_exp_minus_1)
  then have "scan_handle s i = take_bit 24 (of_nat i + handle_index s)"
    by (simp only: scan_handle_def take_bit_eq_mask)
  then have "take_bit k (scan_handle s i) = take_bit k (of_nat i + handle_index s)"
    using assms by (simp add: min_def)
  then have "slot_hash (2 ^ k) (scan_handle s i) = unat (of_nat i + handle_index s) mod 2 ^ k"
    using assms by (metis slot_hash_mod slot_hash_take_bit)
  also have "unat (of_nat i + handle_index s) = (i + unat (handle_index s)) mod 2 ^ 32"
    by (simp add: unat_word_ariths unsigned_of_nat take_bit_eq_mod mod_simps)
  also have "\<dots> mod 2 ^ k = (i + unat (handle_index s)) mod 2 ^ k"
    using assms by (intro mod_mod_cancel le_imp_power_dvd) simp
  finally show ?thesis .
qed

lemma mod_surj: "r < n \<Longrightarrow> \<exists>i < n. (i + (m :: nat)) mod n = r"
proof -
  assume r: "r < n"
  let ?i = "(r + n * m - m) mod n"
  have le: "m \<le> r + n * m" using r by (cases n) auto
  have "(?i + m) mod n = (r + n * m - m + m) mod n" by (rule mod_add_left_eq)
  also have "\<dots> = r" using r le by simp
  finally show ?thesis using r by (intro exI [of _ ?i]) simp
qed

text \<open>The scan visits every slot, so that it fails only on a full table.\<close>

lemma register_scan_full:
  assumes inv: "table_inv cs s"
  shows "(\<exists>j. register_scan s 0 = Inr (Some (scan_handle s j)) \<and>
            slots s ! slot_hash (slot_size s) (scan_handle s j) = None) \<or>
         (register_scan s 0 = Inr None \<and> None \<notin> set (slots s))"
proof -
  obtain k where k: "k \<le> 24" "slot_size s = 2 ^ k" using inv by (auto simp: table_inv_def)
  have "slots s ! r \<noteq> None"
    if "\<forall>j. 0 \<le> j \<and> j < slot_size s \<longrightarrow> slots s ! slot_hash (slot_size s) (scan_handle s j) \<noteq> None"
      and r: "r < slot_size s" for r
  proof -
    obtain j where "j < slot_size s" "slot_hash (slot_size s) (scan_handle s j) = r"
      using mod_surj [of r "2 ^ k"] r k scan_handle_hash [OF k(1)] by metis
    then show ?thesis using that by auto
  qed
  then show ?thesis
    using register_scan_cases [of s 0] table_inv_hash [OF inv] by (auto simp: in_set_conv_nth)
qed

lemma table_small:
  assumes "table_inv cs s" and "slot_size s < 2 ^ 24"
  shows "\<exists>k \<le> 23. slot_size s = 2 ^ k"
proof -
  obtain k where k: "slot_size s = 2 ^ k" using assms(1) by (auto simp: table_inv_def)
  then have "k < 24" using assms(2) by (metis one_less_numeral_iff power_strict_increasing_iff semiring_norm(76))
  then show ?thesis using k by (intro exI [of _ k]) simp
qed

lemma map_eqI: "(\<And>x y. m x = Some y \<longleftrightarrow> n x = Some y) \<Longrightarrow> m = n"
proof
  fix x
  assume "\<And>x y. m x = Some y \<longleftrightarrow> n x = Some y"
  then show "m x = n x" by (cases "m x"; cases "n x") force+
qed

definition rehashed :: "(caddr \<rightharpoonup> skynet_context) \<Rightarrow> handle_storage \<Rightarrow> nat \<Rightarrow> caddr option list \<Rightarrow> bool" where
  "rehashed cs s n ns \<longleftrightarrow> length ns = slot_size s * 2 \<and>
     (\<forall>h < slot_size s * 2. \<forall>a. ns ! h = Some a \<longleftrightarrow>
        (\<exists>j < n. \<exists>c. slots s ! j = Some a \<and> cs a = Some c \<and> slot_hash (slot_size s * 2) (ctx_handle c) = h))"

lemma rehash_step:
  assumes inv: "table_inv cs s" and small: "slot_size s < 2 ^ 24" and i: "i < slot_size s"
    and full: "slots s ! i = Some a" and ns: "rehashed cs s i ns"
  shows "\<exists>c. cs a = Some c \<and> slot_hash (slot_size s * 2) (ctx_handle c) < length ns \<and>
     ns ! slot_hash (slot_size s * 2) (ctx_handle c) = None \<and>
     rehashed cs s (Suc i) (ns[slot_hash (slot_size s * 2) (ctx_handle c) := Some a])"
proof -
  obtain k where k: "k \<le> 23" "slot_size s = 2 ^ k"
    using table_small [OF inv small] by blast
  obtain c where c: "cs a = Some c" "slot_hash (slot_size s) (ctx_handle c) = i"
    by (rule table_inv_slot [OF inv i full])
  let ?h = "slot_hash (slot_size s * 2) (ctx_handle c)"
  have less: "?h < slot_size s * 2"
    using slot_hash_less [of "Suc k" "ctx_handle c"] k by (simp add: mult.commute)
  have mod_i: "?h mod slot_size s = i"
    using slot_hash_double [OF k(1), of "ctx_handle c"] k c(2) by simp
  have free: "ns ! ?h = None"
  proof (rule ccontr)
    assume "ns ! ?h \<noteq> None"
    then obtain j b d where j: "j < i" "slots s ! j = Some b" "cs b = Some d"
        "slot_hash (slot_size s * 2) (ctx_handle d) = ?h"
      using ns less by (auto simp: rehashed_def)
    obtain d' where "cs b = Some d'" "slot_hash (slot_size s) (ctx_handle d') = j"
      by (rule table_inv_slot [OF inv _ j(2)]) (use j(1) i in auto)
    then have "j = ?h mod slot_size s" using j k slot_hash_double [OF k(1), of "ctx_handle d"] by simp
    with mod_i j(1) show False by simp
  qed
  have "rehashed cs s (Suc i) (ns[?h := Some a])"
    using ns less free full c(1) unfolding rehashed_def
    by (auto simp: nth_list_update less_Suc_eq split: if_splits)
  then show ?thesis using c(1) less free ns by (auto simp: rehashed_def)
qed

lemma rehash_ok:
  assumes inv: "table_inv cs s" and small: "slot_size s < 2 ^ 24" and full: "None \<notin> set (slots s)"
  shows "\<exists>ns. rehash cs s = Inr (s\<lparr>slots := ns, slot_size := slot_size s * 2\<rparr>) \<and>
     rehashed cs s (slot_size s) ns"
proof -
  let ?body = "\<lambda>i new_slot. bindR (rd (slots s) i) (\<lambda>cell. bindR (nonnull cell) (\<lambda>a.
         bindR (deref cs a) (\<lambda>c.
         let hash = slot_hash (slot_size s * 2) (ctx_handle c) in
         bindR (rd new_slot hash) (\<lambda>old. bindR (assertR (old = None)) (\<lambda>_. wr new_slot hash (Some a))))))"
  have "\<exists>ns. forR (slot_size s) ?body (replicate (slot_size s * 2) None) = Inr ns \<and>
          rehashed cs s (slot_size s) ns"
  proof (rule forR_invariant [where P = "rehashed cs s"])
    show "rehashed cs s 0 (replicate (slot_size s * 2) None)" by (auto simp: rehashed_def)
    fix i ns
    assume i: "i < slot_size s" and ns: "rehashed cs s i ns"
    then obtain a where a: "slots s ! i = Some a"
      using full table_inv_hash(2) [OF inv] by (metis not_None_eq nth_mem)
    from rehash_step [OF inv small i a ns] a i table_inv_hash(2) [OF inv]
    show "\<exists>ns'. ?body i ns = Inr ns' \<and> rehashed cs s (Suc i) ns'" by (auto simp: Let_def)
  qed
  moreover have "slot_size s * 2 - 1 \<le> unat HANDLE_MASK"
  proof -
    obtain k where k: "k \<le> 23" "slot_size s = 2 ^ k"
      using table_small [OF inv small] by blast
    then have "slot_size s \<le> 2 ^ 23" by (metis one_le_numeral power_increasing)
    then show ?thesis by (simp add: HANDLE_MASK_def)
  qed
  ultimately show ?thesis by (auto simp: rehash_def)
qed

lemma HANDLE_MASK_bit: "bit HANDLE_MASK n \<longleftrightarrow> n < 24"
proof -
  have "HANDLE_MASK = mask 24" by (simp add: HANDLE_MASK_def mask_eq_exp_minus_1)
  show ?thesis unfolding \<open>HANDLE_MASK = mask 24\<close> by (auto simp: bit_mask_iff possible_bit_def simp del: mask_numeral)
qed

lemma handle_or_harbor:
  assumes hb: "take_bit 24 hb = 0" and k: "k \<le> 24"
  shows "slot_hash (2 ^ k) ((x AND HANDLE_MASK) OR hb) = slot_hash (2 ^ k) (x AND HANDLE_MASK)"
    and "((x AND HANDLE_MASK) OR hb) AND NOT HANDLE_MASK = hb"
proof -
  have b: "\<not> bit hb n" if "n < 24" for n
    using arg_cong [OF hb, of "\<lambda>v. bit v n"] that by (simp add: bit_simps)
  have "take_bit k hb = 0" by (rule bit_word_eqI) (use b k in \<open>auto simp: bit_simps\<close>)
  then show "slot_hash (2 ^ k) ((x AND HANDLE_MASK) OR hb) = slot_hash (2 ^ k) (x AND HANDLE_MASK)"
    using k by (simp add: slot_hash_take_bit take_bit_or)
  show "((x AND HANDLE_MASK) OR hb) AND NOT HANDLE_MASK = hb"
    by (rule bit_word_eqI) (use b in \<open>auto simp: bit_simps HANDLE_MASK_bit\<close>)
qed

text \<open>Entering a context into a free slot, once its handle has been stored in it.\<close>

lemma register_enter:
  assumes inv: "table_inv cs s" and free: "slots s ! slot_hash (slot_size s) x0 = None"
    and x0: "x0 = scan_handle s j" and new: "Some a \<notin> set (slots s)"
    and s': "s' = s\<lparr>slots := (slots s)[slot_hash (slot_size s) x0 := Some a], handle_index := v\<rparr>"
    and cs': "cs' = cs(a \<mapsto> c\<lparr>ctx_handle := x0 OR harbor s\<rparr>)"
  shows "table_inv cs' s'" and "registered cs s (x0 OR harbor s) = None"
    and "registered cs' s' = (registered cs s)(x0 OR harbor s \<mapsto> a)"
proof -
  let ?h = "x0 OR harbor s" and ?i = "slot_hash (slot_size s) x0"
  obtain k where k: "k \<le> 24" "slot_size s = 2 ^ k" and hb: "take_bit 24 (harbor s) = 0"
    using inv by (auto simp: table_inv_def)
  have hash: "slot_hash (slot_size s) ?h = ?i" and top: "?h AND NOT HANDLE_MASK = harbor s"
    using handle_or_harbor [OF hb k(1)] by (simp_all add: x0 scan_handle_def k(2))
  note len = table_inv_hash [OF inv]
  show inv': "table_inv cs' s'"
    using inv len hash top new unfolding table_inv_def cs' s'
    by (auto simp: nth_list_update in_set_conv_nth split: if_splits)
  show "registered cs s ?h = None" using free hash by (simp add: registered_def)
  have *: "slots s ! n \<noteq> Some a" if "n < slot_size s" for n using new len that by (auto simp: in_set_conv_nth)
  have "registered cs' s' x = ((registered cs s)(?h \<mapsto> a)) x" for x
    using * [of "slot_hash (slot_size s) x"] len hash free
    by (auto simp: registered_def cs' s' nth_list_update split: option.splits)
  then show "registered cs' s' = (registered cs s)(?h \<mapsto> a)" by blast
qed

text \<open>Doubling the table keeps the map, and leaves a slot free.\<close>

lemma rehashed_inv:
  assumes inv: "table_inv cs s" and small: "slot_size s < 2 ^ 24" and ns: "rehashed cs s (slot_size s) ns"
    and s': "s' = s\<lparr>slots := ns, slot_size := slot_size s * 2\<rparr>"
  shows "table_inv cs s'" and "registered cs s' = registered cs s" and "None \<in> set (slots s')"
    and "set (slots s') - {None} \<subseteq> set (slots s)"
proof -
  obtain k where k: "k \<le> 23" "slot_size s = 2 ^ k" using table_small [OF inv small] by blast
  have len: "length ns = slot_size s * 2" using ns by (simp add: rehashed_def)
  have two: "2 \<le> Suc k" "slot_size s' = 2 ^ Suc k"
    using inv k by (auto simp: table_inv_def s')
  have old: "\<exists>c. cs a = Some c \<and> slot_hash (slot_size s') (ctx_handle c) = h \<and>
      ctx_handle c AND NOT HANDLE_MASK = harbor s \<and> Some a \<in> set (slots s)"
    if "h < slot_size s'" "ns ! h = Some a" for h a
  proof -
    from that ns obtain i c where "i < slot_size s" "slots s ! i = Some a" "cs a = Some c"
        "slot_hash (slot_size s') (ctx_handle c) = h"
      by (auto simp: rehashed_def s')
    then show ?thesis using table_inv_slot [OF inv] table_inv_hash(2) [OF inv]
      by (metis nth_mem option.inject)
  qed
  show inv': "table_inv cs s'"
    unfolding table_inv_def
    using inv old len two k(1) by (auto simp: s' table_inv_def intro!: exI [of _ "Suc k"])
  have "registered cs s' h = Some a \<longleftrightarrow> registered cs s h = Some a" for h a
  proof
    assume "registered cs s' h = Some a"
    then show "registered cs s h = Some a"
      using ns unfolding registered_iff [OF inv] registered_iff [OF inv']
      by (auto simp: s' rehashed_def)
  next
    assume "registered cs s h = Some a"
    then obtain i c where i: "i < slot_size s" "slots s ! i = Some a" "cs a = Some c" "ctx_handle c = h"
      unfolding registered_iff [OF inv] by blast
    have "slot_hash (slot_size s * 2) h < slot_size s * 2"
      using table_inv_hash(1) [OF inv', of h] by (simp add: s')
    then have "ns ! slot_hash (slot_size s * 2) h = Some a" using ns i by (auto simp: rehashed_def)
    then show "registered cs s' h = Some a" using i by (simp add: registered_def s')
  qed
  then show "registered cs s' = registered cs s" by (rule map_eqI)
  show "set (slots s') - {None} \<subseteq> set (slots s)"
  proof
    fix x
    assume "x \<in> set (slots s') - {None}"
    then obtain h a where "x = Some a" "h < slot_size s'" "ns ! h = Some a"
      using len by (auto simp: s' in_set_conv_nth)
    then show "x \<in> set (slots s)" using old by blast
  qed
  show "None \<in> set (slots s')"
  proof (rule ccontr)
    assume "None \<notin> set (slots s')"
    then have "ns ! h \<noteq> None" if "h < slot_size s * 2" for h
      using that len by (auto simp: s' in_set_conv_nth)
    then have "\<forall>h < slot_size s * 2. \<exists>j < slot_size s.
        slot_hash (slot_size s * 2) (ctx_handle (the (cs (the (slots s ! j))))) = h"
      using ns by (fastforce simp: rehashed_def)
    then have "{..<slot_size s * 2} \<subseteq>
        (\<lambda>j. slot_hash (slot_size s * 2) (ctx_handle (the (cs (the (slots s ! j)))))) ` {..<slot_size s}"
      by auto
    then have "card {..<slot_size s * 2} \<le> card {..<slot_size s}"
      using surj_card_le by blast
    then show False using k by simp
  qed
qed

text \<open>Registering a context and storing the handle in it, the two steps of
  \<^verbatim>\<open>skynet_context_new\<close>.\<close>

lemma register_ok:
  assumes inv: "table_inv cs s" and room: "None \<in> set (slots s) \<or> slot_size s < 2 ^ 24"
    and new: "Some a \<notin> set (slots s)"
  shows "\<exists>h s'. register_loop cs s a = Inr (h, s') \<and>
     table_inv (cs(a \<mapsto> c\<lparr>ctx_handle := h\<rparr>)) s' \<and> registered cs s h = None \<and>
     registered (cs(a \<mapsto> c\<lparr>ctx_handle := h\<rparr>)) s' = (registered cs s)(h \<mapsto> a) \<and>
     names s' = names s \<and> name_count s' = name_count s \<and> name_cap s' = name_cap s \<and> harbor s' = harbor s"
proof -
  have enter: ?thesis if A: "table_inv cs s1" "register_loop cs s a = register_loop cs s1 a"
      "None \<in> set (slots s1)" "Some a \<notin> set (slots s1)" "registered cs s1 = registered cs s"
      "names s1 = names s" "name_count s1 = name_count s" "name_cap s1 = name_cap s" "harbor s1 = harbor s"
    for s1
  proof -
    obtain j where j: "register_scan s1 0 = Inr (Some (scan_handle s1 j))"
        "slots s1 ! slot_hash (slot_size s1) (scan_handle s1 j) = None"
      using register_scan_full [OF A(1)] A(3) by auto
    let ?x = "scan_handle s1 j"
    let ?s = "s1\<lparr>slots := (slots s1)[slot_hash (slot_size s1) ?x := Some a], handle_index := ?x + 1\<rparr>"
    have "0 < slot_size s1" using A(1) by (auto simp: table_inv_def)
    then have "register_loop cs s1 a = Inr (?x OR harbor s1, ?s)"
      using j table_inv_hash [OF A(1)] by (subst register_loop.simps) simp
    moreover note register_enter [where v = "?x + 1" and c = c, OF A(1) j(2) refl A(4) refl refl]
    ultimately show ?thesis using A by simp
  qed
  show ?thesis
  proof (cases "None \<in> set (slots s)")
    case True
    then show ?thesis using enter [of s] inv new by simp
  next
    case False
    then have small: "slot_size s < 2 ^ 24" using room by simp
    obtain ns where ns: "rehash cs s = Inr (s\<lparr>slots := ns, slot_size := slot_size s * 2\<rparr>)"
        "rehashed cs s (slot_size s) ns"
      using rehash_ok [OF inv small False] by blast
    let ?s = "s\<lparr>slots := ns, slot_size := slot_size s * 2\<rparr>"
    note new_inv = rehashed_inv [OF inv small ns(2) refl]
    have "slot_size s \<noteq> 0" using inv by (auto simp: table_inv_def)
    moreover have "register_scan s 0 = Inr None" using register_scan_full [OF inv] False table_inv_hash [OF inv]
      by (metis nth_mem)
    ultimately have "register_loop cs s a = register_loop cs ?s a"
      using ns(1) by (subst register_loop.simps) simp
    then show ?thesis using enter [of ?s] new_inv new by auto
  qed
qed

section \<open>Names\<close>

definition nlist :: "handle_storage \<Rightarrow> handle_name list" where
  "nlist s = map the (take (name_count s) (names s))"

text \<open>The names are strictly sorted, the array is as long as its capacity, a power of two, and
  its first \<^verbatim>\<open>name_count\<close> cells are written.\<close>

definition names_inv :: "handle_storage \<Rightarrow> bool" where
  "names_inv s \<longleftrightarrow> length (names s) = name_cap s \<and> name_count s \<le> name_cap s \<and>
     (\<exists>k \<le> 30. name_cap s = 2 ^ k) \<and> (\<forall>i < name_count s. names s ! i \<noteq> None) \<and>
     sorted_wrt (<) (map fst (nlist s)) \<and> (\<forall>n \<in> fst ` set (nlist s). nul_free n)"

lemma length_nlist: "names_inv s \<Longrightarrow> length (nlist s) = name_count s"
  by (simp add: names_inv_def nlist_def)

lemma nlist_nth: "names_inv s \<Longrightarrow> i < name_count s \<Longrightarrow> names s ! i = Some (nlist s ! i)"
  by (auto simp: names_inv_def nlist_def)

definition split_at :: "handle_name list \<Rightarrow> nat \<Rightarrow> string \<Rightarrow> bool" where
  "split_at xs i nm \<longleftrightarrow> i \<le> length xs \<and> (\<forall>j < i. fst (xs ! j) < nm) \<and>
     (\<forall>j. i \<le> j \<and> j < length xs \<longrightarrow> nm < fst (xs ! j))"

lemma sorted_nth_mono:
  "sorted_wrt (<) (map fst xs) \<Longrightarrow> i < j \<Longrightarrow> j < length xs \<Longrightarrow> fst (xs ! i) < (fst (xs ! j) :: string)"
  by (simp add: sorted_wrt_iff_nth_less)

lemma name_search_ok:
  assumes cells: "\<And>i. i < length xs \<Longrightarrow> i < length cells \<and> cells ! i = Some (xs ! i)"
    and srt: "sorted_wrt (<) (map fst xs)" and nf: "\<forall>n \<in> fst ` set xs. nul_free n" "nul_free nm"
  shows "0 \<le> b \<Longrightarrow> b \<le> e + 1 \<Longrightarrow> e < int (length xs) \<Longrightarrow>
     \<forall>j. int j < b \<longrightarrow> fst (xs ! j) < nm \<Longrightarrow>
     \<forall>j. e < int j \<and> j < length xs \<longrightarrow> nm < fst (xs ! j) \<Longrightarrow>
     (\<exists>i < length xs. name_search cells b e nm = Inr (Inl (snd (xs ! i))) \<and> fst (xs ! i) = nm) \<or>
     (\<exists>i. name_search cells b e nm = Inr (Inr i) \<and> split_at xs i nm)"
proof (induction "nat (e - b + 1)" arbitrary: b e rule: less_induct)
  case less
  show ?case
  proof (cases "b \<le> e")
    case False
    then have "name_search cells b e nm = Inr (Inr (nat b))" by (subst name_search.simps) simp
    moreover have "split_at xs (nat b) nm" using False less.prems by (auto simp: split_at_def)
    ultimately show ?thesis by blast
  next
    case True
    define mid where "mid = (b + e) div 2"
    have mid: "0 \<le> mid" "b \<le> mid" "mid \<le> e" "nat mid < length xs" using True less.prems by (auto simp: mid_def)
    obtain n h where nh: "xs ! nat mid = (n, h)" by (cases "xs ! nat mid")
    have nfn: "nul_free n" using nf mid(4) nh by (metis fst_conv image_eqI nth_mem)
    have step: "name_search cells b e nm =
        (if n = nm then Inr (Inl h) else if n < nm then name_search cells (mid + 1) e nm
         else name_search cells b (mid - 1) nm)"
      using True mid cells [OF mid(4)] nh strcmp_order [OF nfn nf(2)]
      by (subst name_search.simps) (simp add: Let_def flip: mid_def)
    consider "n = nm" | "n < nm" | "nm < n" by fastforce
    then show ?thesis
    proof cases
      case 1
      then show ?thesis using step nh mid(4) by force
    next
      case 2
      have "fst (xs ! j) < nm" if "int j < mid + 1" for j
      proof (cases "j = nat mid")
        case False
        then have "j < nat mid" using that mid(1) by linarith
        then show ?thesis using sorted_nth_mono [OF srt, of j "nat mid"] 2 nh mid(4) by (auto intro: less_trans)
      qed (simp add: nh 2)
      then show ?thesis
        using less.hyps [of e "mid + 1"] less.prems mid 2 step by (simp add: order_less_imp_not_eq)
    next
      case 3
      have "nm < fst (xs ! j)" if "mid - 1 < int j" "j < length xs" for j
      proof (cases "j = nat mid")
        case False
        then have "nat mid < j" using that mid(1) by linarith
        then show ?thesis using sorted_nth_mono [OF srt, of "nat mid" j] that(2) 3 nh by (auto intro: less_trans)
      qed (simp add: nh 3)
      then show ?thesis
        using less.hyps [of "mid - 1" b] less.prems mid 3 step by (simp add: order_less_imp_not_eq2 order_less_not_sym)
    qed
  qed
qed

text \<open>The cells after the insertion loops: the entries from \<open>before\<close> on have moved up by one.\<close>

definition shifted :: "handle_storage \<Rightarrow> nat \<Rightarrow> handle_name option list \<Rightarrow> bool" where
  "shifted s before n \<longleftrightarrow> name_count s < length n \<and> (\<forall>j < before. n ! j = names s ! j) \<and>
     (\<forall>j. before \<le> j \<and> j < name_count s \<longrightarrow> n ! Suc j = names s ! j)"

lemma shift_in_place:
  assumes "name_count s < length (names s)" and "before \<le> name_count s"
  shows "\<exists>n. forR (name_count s - before)
      (\<lambda>k n. let i = name_count s - k in bindR (rd n (i - 1)) (wr n i)) (names s) = Inr n \<and>
    length n = length (names s) \<and> shifted s before n"
proof -
  let ?P = "\<lambda>k n. length n = length (names s) \<and> (\<forall>j \<le> name_count s - k. n ! j = names s ! j) \<and>
     (\<forall>j. name_count s - k \<le> j \<and> j < name_count s \<longrightarrow> n ! Suc j = names s ! j)"
  have "\<exists>n. forR (name_count s - before)
      (\<lambda>k n. let i = name_count s - k in bindR (rd n (i - 1)) (wr n i)) (names s) = Inr n \<and>
      ?P (name_count s - before) n"
  proof (rule forR_invariant)
    fix k n
    assume k: "k < name_count s - before" and P: "?P k n"
    define i where "i = name_count s - k - 1"
    have i: "name_count s - k = Suc i" "name_count s - Suc k = i" "i < name_count s"
      using k by (auto simp: i_def)
    show "\<exists>n'. (let i = name_count s - k in bindR (rd n (i - 1)) (wr n i)) = Inr n' \<and> ?P (Suc k) n'"
      using assms P i(3) unfolding i(1,2) by (auto simp: nth_list_update)
  qed auto
  then show ?thesis using assms by (auto simp: shifted_def)
qed

lemma shift_into_new:
  assumes "name_count s \<le> length (names s)" and "before \<le> name_count s" and "name_count s < cap"
  shows "\<exists>n1 n2. forR before (\<lambda>i n. bindR (rd (names s) i) (wr n i)) (replicate cap None) = Inr n1 \<and>
     forR (name_count s - before) (\<lambda>k n. bindR (rd (names s) (before + k)) (wr n (before + k + 1))) n1 = Inr n2 \<and>
     length n2 = cap \<and> shifted s before n2"
proof -
  let ?P = "\<lambda>k n. length n = cap \<and> (\<forall>j < k. n ! j = names s ! j)"
  have "\<exists>n. forR before (\<lambda>i n. bindR (rd (names s) i) (wr n i)) (replicate cap None) = Inr n \<and> ?P before n"
    by (rule forR_invariant) (use assms in \<open>auto simp: nth_list_update less_Suc_eq\<close>)
  then obtain n1 where n1: "forR before (\<lambda>i n. bindR (rd (names s) i) (wr n i)) (replicate cap None) = Inr n1"
      "?P before n1" by blast
  let ?Q = "\<lambda>k n. ?P before n \<and> (\<forall>j. before \<le> j \<and> j < before + k \<longrightarrow> n ! Suc j = names s ! j)"
  have "\<exists>n. forR (name_count s - before) (\<lambda>k n. bindR (rd (names s) (before + k)) (wr n (before + k + 1))) n1 = Inr n \<and>
      ?Q (name_count s - before) n"
    by (rule forR_invariant) (use assms n1 in \<open>auto simp: nth_list_update less_Suc_eq\<close>)
  then show ?thesis using n1 assms by (auto simp: shifted_def)
qed

lemma shifted_nlist:
  assumes inv: "names_inv s" and le: "before \<le> name_count s" and sh: "shifted s before n"
  shows "map the (take (Suc (name_count s)) (n[before := Some x])) = take before (nlist s) @ x # drop before (nlist s)"
    and "i < Suc (name_count s) \<Longrightarrow> n[before := Some x] ! i \<noteq> None"
proof -
  have len: "length (nlist s) = name_count s" "length (names s) \<ge> name_count s"
    using inv by (auto simp: length_nlist names_inv_def)
  have cell: "n[before := Some x] ! i = Some ((take before (nlist s) @ x # drop before (nlist s)) ! i)"
    if "i < Suc (name_count s)" for i
  proof -
    consider "i < before" | "i = before" | "before < i" by linarith
    then show ?thesis
    proof cases
      case 3
      with \<open>i < Suc (name_count s)\<close> obtain j where "i = Suc j" "before \<le> j" "j < name_count s" by (cases i) auto
      then show ?thesis using sh le len nlist_nth [OF inv] by (auto simp: shifted_def nth_append)
    qed (use sh le len nlist_nth [OF inv] in \<open>auto simp: shifted_def nth_append\<close>)
  qed
  show "map the (take (Suc (name_count s)) (n[before := Some x])) = take before (nlist s) @ x # drop before (nlist s)"
    by (rule nth_equalityI) (use cell len sh le in \<open>auto simp: shifted_def\<close>)
  show "n[before := Some x] ! i \<noteq> None" if "i < Suc (name_count s)" using cell [OF that] by simp
qed

lemma insert_name_before_ok:
  assumes inv: "names_inv s" and le: "before \<le> name_count s" and room: "name_count s < 2 ^ 30"
    and sp: "split_at (nlist s) before nm" and nf: "nul_free nm"
  shows "\<exists>s'. insert_name_before s nm h before = Inr s' \<and> names_inv s' \<and>
     nlist s' = take before (nlist s) @ (nm, h) # drop before (nlist s) \<and>
     name_count s' = Suc (name_count s) \<and> slots s' = slots s \<and> slot_size s' = slot_size s \<and>
     harbor s' = harbor s \<and> handle_index s' = handle_index s"
proof -
  have len: "length (names s) = name_cap s" "name_count s \<le> name_cap s" using inv by (auto simp: names_inv_def)
  obtain k where k: "k \<le> 30" "name_cap s = 2 ^ k" using inv by (auto simp: names_inv_def)
  have srt: "sorted_wrt (<) (map fst (take before (nlist s) @ (nm, h) # drop before (nlist s)))"
  proof -
    have "fst x < nm" if "x \<in> set (take before (nlist s))" for x
      using that sp by (auto simp: split_at_def in_set_conv_nth)
    moreover have "nm < fst y" if "y \<in> set (drop before (nlist s))" for y
      using that sp by (auto simp: split_at_def in_set_conv_nth)
    moreover have "sorted_wrt (<) (map fst (take before (nlist s) @ drop before (nlist s)))"
      using inv by (simp add: names_inv_def)
    ultimately show ?thesis unfolding map_append sorted_wrt_append by (auto intro: less_trans)
  qed
  have "\<exists>cap n. insert_name_before s nm h before =
        Inr (s\<lparr>name_cap := cap, names := n[before := Some (nm, h)], name_count := name_count s + 1\<rparr>) \<and>
      shifted s before n \<and> length n = cap \<and> (\<exists>k \<le> 30. cap = 2 ^ k)"
  proof (cases "name_cap s \<le> name_count s")
    case True
    then have cap: "name_cap s < 2 ^ 30" using room by simp
    then have k29: "k < 30" using k by (metis one_less_numeral_iff power_strict_increasing_iff semiring_norm(76))
    have cap_pos: "name_count s < name_cap s * 2" using len k by (simp add: le_less_trans)
    from k29 have "name_cap s * 2 \<le> 2 ^ 30"
      using k power_increasing [of "Suc k" 30 "2 :: nat"] by simp
    moreover obtain n1 n2 where "forR before (\<lambda>i n. bindR (rd (names s) i) (wr n i)) (replicate (name_cap s * 2) None) = Inr n1"
        "forR (name_count s - before) (\<lambda>k n. bindR (rd (names s) (before + k)) (wr n (before + k + 1))) n1 = Inr n2"
        "length n2 = name_cap s * 2" "shifted s before n2"
      using shift_into_new [of s before "name_cap s * 2"] len le cap_pos by auto
    ultimately show ?thesis using True le k k29
      by (intro exI [of _ "name_cap s * 2"] exI [of _ n2])
        (auto simp: insert_name_before_def MAX_SLOT_SIZE_def shifted_def intro!: exI [of _ "Suc k"])
  next
    case False
    then obtain n where "forR (name_count s - before)
        (\<lambda>k n. let i = name_count s - k in bindR (rd n (i - 1)) (wr n i)) (names s) = Inr n"
        "length n = length (names s)" "shifted s before n"
      using shift_in_place [of s before] len le by auto
    then show ?thesis using False le len k
      by (intro exI [of _ "name_cap s"] exI [of _ n])
        (auto simp: insert_name_before_def shifted_def)
  qed
  then obtain cap n where n: "insert_name_before s nm h before =
        Inr (s\<lparr>name_cap := cap, names := n[before := Some (nm, h)], name_count := name_count s + 1\<rparr>)"
      "shifted s before n" "length n = cap" "\<exists>k \<le> 30. cap = 2 ^ k" by blast
  let ?s = "s\<lparr>name_cap := cap, names := n[before := Some (nm, h)], name_count := name_count s + 1\<rparr>"
  note sh = shifted_nlist [OF inv le n(2), where x = "(nm, h)"]
  have nl: "nlist ?s = take before (nlist s) @ (nm, h) # drop before (nlist s)"
    using sh(1) by (simp add: nlist_def)
  have "names_inv ?s"
    unfolding names_inv_def nl
    using n sh(2) inv srt nf set_take_subset [of before "nlist s"] set_drop_subset [of before "nlist s"]
    by (auto simp: names_inv_def shifted_def)
  then show ?thesis using n(1) nl by auto
qed

text \<open>The sorted array as a map.\<close>

definition name_map :: "handle_storage \<Rightarrow> string \<rightharpoonup> u32" where
  "name_map s = map_of (nlist s)"

lemma distinct_names: "names_inv s \<Longrightarrow> distinct (map fst (nlist s))"
  by (auto simp: names_inv_def strict_sorted_iff)

lemma search_names:
  assumes inv: "names_inv s" and nf: "nul_free nm"
  shows "case name_map s nm of
       Some h \<Rightarrow> name_search (names s) 0 (int (name_count s) - 1) nm = Inr (Inl h)
     | None \<Rightarrow> \<exists>i \<le> name_count s. name_search (names s) 0 (int (name_count s) - 1) nm = Inr (Inr i) \<and>
         split_at (nlist s) i nm"
proof -
  note len = length_nlist [OF inv]
  have cells: "i < length (names s) \<and> names s ! i = Some (nlist s ! i)" if "i < length (nlist s)" for i
    using nlist_nth [OF inv, of i] that len inv by (auto simp: names_inv_def)
  have "(\<exists>i < length (nlist s). name_search (names s) 0 (int (name_count s) - 1) nm = Inr (Inl (snd (nlist s ! i))) \<and>
       fst (nlist s ! i) = nm) \<or>
     (\<exists>i. name_search (names s) 0 (int (name_count s) - 1) nm = Inr (Inr i) \<and> split_at (nlist s) i nm)"
    by (rule name_search_ok) (use cells len inv nf in \<open>auto simp: names_inv_def\<close>)
  then show ?thesis
  proof
    assume "\<exists>i < length (nlist s). name_search (names s) 0 (int (name_count s) - 1) nm = Inr (Inl (snd (nlist s ! i))) \<and>
       fst (nlist s ! i) = nm"
    then obtain i where i: "i < length (nlist s)" "fst (nlist s ! i) = nm"
        "name_search (names s) 0 (int (name_count s) - 1) nm = Inr (Inl (snd (nlist s ! i)))" by blast
    have "map_of (nlist s) nm = Some (snd (nlist s ! i))"
      using i distinct_names [OF inv] by (metis map_of_eq_Some_iff nth_mem prod.collapse)
    then show ?thesis using i by (simp add: name_map_def)
  next
    assume "\<exists>i. name_search (names s) 0 (int (name_count s) - 1) nm = Inr (Inr i) \<and> split_at (nlist s) i nm"
    then obtain i where i: "name_search (names s) 0 (int (name_count s) - 1) nm = Inr (Inr i)"
        "split_at (nlist s) i nm" by blast
    have "nm \<noteq> fst (nlist s ! j)" if "j < length (nlist s)" for j
      using i(2) that by (metis less_irrefl linorder_not_le split_at_def)
    then have "map_of (nlist s) nm = None"
      by (force simp: map_of_eq_None_iff in_set_conv_nth)
    then show ?thesis using i len by (auto simp: name_map_def split_at_def)
  qed
qed

lemma findname_lookup:
  assumes "names_inv s" and "nul_free nm"
  shows "skynet_handle_findname s nm = Inr (case name_map s nm of None \<Rightarrow> 0 | Some h \<Rightarrow> h)"
  using search_names [OF assms] by (cases "name_map s nm") (auto simp: skynet_handle_findname_def)

lemma findname_none: "names_inv s \<Longrightarrow> nul_free nm \<Longrightarrow> name_map s nm = None \<Longrightarrow> skynet_handle_findname s nm = Inr 0"
  by (simp add: findname_lookup)

lemma map_of_insert:
  "distinct (map fst (xs @ (k, v) # ys)) \<Longrightarrow> map_of (xs @ (k, v) # ys) = (map_of (xs @ ys))(k \<mapsto> v)"
  by (auto simp: fun_eq_iff map_add_def map_of_eq_None_iff split: option.splits dest: map_of_SomeD)
    (metis image_eqI fst_conv map_of_SomeD)+

lemma namehandle_ok:
  assumes inv: "names_inv s" and nf: "nul_free nm"
  shows "name_map s nm = Some h' \<Longrightarrow> insert_name s nm h = Inr (None, s)"
    and "name_map s nm = None \<Longrightarrow> name_count s < 2 ^ 30 \<Longrightarrow>
      \<exists>s'. insert_name s nm h = Inr (Some nm, s') \<and> names_inv s' \<and>
        name_map s' = (name_map s)(nm \<mapsto> h) \<and> name_count s' = Suc (name_count s) \<and>
        slots s' = slots s \<and> slot_size s' = slot_size s \<and> harbor s' = harbor s \<and> handle_index s' = handle_index s"
proof -
  show "name_map s nm = Some h' \<Longrightarrow> insert_name s nm h = Inr (None, s)"
    using search_names [OF inv nf] by (simp add: insert_name_def)
  assume none: "name_map s nm = None" and room: "name_count s < 2 ^ 30"
  then obtain i where i: "i \<le> name_count s"
      "name_search (names s) 0 (int (name_count s) - 1) nm = Inr (Inr i)" "split_at (nlist s) i nm"
    using search_names [OF inv nf] by auto
  obtain s' where s': "insert_name_before s nm h i = Inr s'" "names_inv s'"
      "nlist s' = take i (nlist s) @ (nm, h) # drop i (nlist s)" "name_count s' = Suc (name_count s)"
      "slots s' = slots s" "slot_size s' = slot_size s" "harbor s' = harbor s" "handle_index s' = handle_index s"
    using insert_name_before_ok [OF inv i(1) room i(3) nf, of h] by blast
  have "name_map s' = (name_map s)(nm \<mapsto> h)"
    using map_of_insert [of "take i (nlist s)" nm h "drop i (nlist s)"] distinct_names [OF s'(2)] s'(3)
    by (simp add: name_map_def)
  then show "\<exists>s'. insert_name s nm h = Inr (Some nm, s') \<and> names_inv s' \<and>
        name_map s' = (name_map s)(nm \<mapsto> h) \<and> name_count s' = Suc (name_count s) \<and>
        slots s' = slots s \<and> slot_size s' = slot_size s \<and> harbor s' = harbor s \<and> handle_index s' = handle_index s"
    using s' i(2) by (simp add: insert_name_def)
qed

text \<open>The names are a dictionary with room for \<open>2 ^ 30\<close> entries.\<close>

interpretation name_dict: dict
  "name_map" "\<lambda>s (nm, h). bindR (insert_name s nm h) (\<lambda>(_, s'). Inr s')" fst "\<lambda>_. snd"
  names_inv "\<lambda>s. 2 ^ 30 - name_count s" nul_free
proof
  fix s and x :: handle_name
  assume "names_inv s" "nul_free (fst x)" "name_map s (fst x) = None" "0 < 2 ^ 30 - name_count s"
  then show "\<exists>s'. (case x of (nm, h) \<Rightarrow> bindR (insert_name s nm h) (\<lambda>(_, s'). Inr s')) = Inr s' \<and>
      names_inv s' \<and> name_map s' = (name_map s)(fst x \<mapsto> snd x) \<and> 2 ^ 30 - name_count s' = 2 ^ 30 - name_count s - 1"
    using namehandle_ok(2) [of s "fst x" "snd x"] by (cases x) auto
qed

section \<open>Retiring a handle\<close>

lemma retire_names_ok:
  assumes inv: "names_inv s"
  shows "\<exists>cells j. retire_names (names s) (name_count s) h = Inr (cells, j) \<and>
     names_inv (s\<lparr>slots := sl, names := cells, name_count := j\<rparr>) \<and>
     nlist (s\<lparr>slots := sl, names := cells, name_count := j\<rparr>) = filter (\<lambda>x. snd x \<noteq> h) (nlist s)"
proof -
  let ?keep = "filter (\<lambda>x. snd x \<noteq> h)" and ?xs = "nlist s"
  have len: "length ?xs = name_count s" "name_count s \<le> length (names s)" "length (names s) = name_cap s"
    using inv by (auto simp: length_nlist names_inv_def)
  define P where "P i = (\<lambda>(cells, j). j \<le> i \<and> length cells = length (names s) \<and>
     take j cells = map Some (?keep (take i ?xs)) \<and> (\<forall>m \<ge> i. cells ! m = names s ! m))" for i
  define body where "body = (\<lambda>i (cells :: handle_name option list, j). bindR (rd cells i) (\<lambda>cell. bindR (initialised cell) (\<lambda>(nm, g).
       if g = h then Inr (cells, j)
       else if i \<noteq> j then bindR (wr cells j (Some (nm, g))) (\<lambda>cells'. Inr (cells', j + 1))
       else Inr (cells, j + 1))))"
  have step: "\<exists>t'. body i t = Inr t' \<and> P (Suc i) t'" if i: "i < name_count s" and P: "P i t" for i t
  proof -
    obtain cells j where t: "t = (cells, j)" by (cases t)
    obtain nm g where x: "?xs ! i = (nm, g)" by (cases "?xs ! i")
    have j: "j \<le> i" "length cells = length (names s)" "take j cells = map Some (?keep (take i ?xs))"
        "\<And>m. i \<le> m \<Longrightarrow> cells ! m = names s ! m" using P by (auto simp: P_def t)
    have ci: "cells ! i = Some (nm, g)" using j(4) nlist_nth [OF inv i] x by simp
    have lt: "i < length cells" "j < length cells" using i len j by auto
    have snoc: "take (Suc i) ?xs = take i ?xs @ [(nm, g)]" using i len x by (simp add: take_Suc_conv_app_nth)
    show ?thesis
    proof (cases "g = h")
      case True
      then show ?thesis using ci lt j snoc by (auto simp: t body_def P_def)
    next
      case False
      let ?cells = "cells[j := Some (nm, g)]"
      have "take (Suc j) ?cells = take j cells @ [Some (nm, g)]"
        using lt by (simp add: take_Suc_conv_app_nth)
      then have "P (Suc i) (?cells, Suc j)" using j snoc False by (simp add: P_def)
      moreover have "?cells = cells" if "i = j" using that ci by (metis list_update_id)
      ultimately show ?thesis using False ci lt by (cases "i = j") (auto simp: t body_def)
    qed
  qed
  have "\<exists>t. forR (name_count s) body (names s, 0) = Inr t \<and> P (name_count s) t"
    by (rule forR_invariant) (use step in \<open>auto simp: P_def\<close>)
  then obtain cells j where r: "retire_names (names s) (name_count s) h = Inr (cells, j)"
      and P: "P (name_count s) (cells, j)"
    unfolding retire_names_def body_def by (metis surj_pair)
  let ?s = "s\<lparr>slots := sl, names := cells, name_count := j\<rparr>"
  have tk: "take j cells = map Some (?keep ?xs)" and jl: "j \<le> name_count s" "length cells = length (names s)"
    using P len by (auto simp: P_def)
  have nl: "nlist ?s = ?keep ?xs" using tk by (simp add: nlist_def o_def)
  have "cells ! i \<noteq> None" if "i < j" for i
  proof -
    have "length (?keep ?xs) = j" using arg_cong [OF tk, of length] jl len by simp
    then have "cells ! i = map Some (?keep ?xs) ! i" using that by (metis nth_take tk)
    then show ?thesis using that \<open>length (?keep ?xs) = j\<close> by simp
  qed
  moreover have "sorted_wrt (<) (map fst (?keep ?xs))"
    using inv by (simp add: names_inv_def sorted_wrt_map sorted_wrt_filter)
  moreover have "\<forall>n \<in> fst ` set (?keep ?xs). nul_free n" using inv by (auto simp: names_inv_def)
  ultimately have "names_inv ?s"
    using inv jl len unfolding names_inv_def nl by simp
  with r nl show ?thesis by blast
qed

lemma filter_map_of:
  "distinct (map fst xs) \<Longrightarrow> map_of (filter (\<lambda>x. snd x \<noteq> h) xs) n =
     (if map_of xs n = Some h then None else map_of xs n)"
proof (induction xs)
  case (Cons x xs)
  then have "map_of xs (fst x) = None" by (simp add: map_of_eq_None_iff)
  with Cons show ?case by (cases x) auto
qed simp

text \<open>\<^verbatim>\<open>skynet_handle_retire\<close> of a registered handle: the table without it, then the release of the
  table's reference.\<close>

lemma retire_registered:
  assumes inv: "table_inv (ctxs w) (hs w)" and ninv: "names_inv (hs w)"
    and reg: "registered (ctxs w) (hs w) h = Some a"
  shows "\<exists>s'. skynet_handle_retire X w h =
       bindR (skynet_context_release X (w\<lparr>hs := s'\<rparr>) a) (\<lambda>(_, w'). Inr (True, w')) \<and>
     table_inv (ctxs w) s' \<and> names_inv s' \<and>
     registered (ctxs w) s' = (registered (ctxs w) (hs w))(h := None) \<and>
     name_map s' = (\<lambda>n. if name_map (hs w) n = Some h then None else name_map (hs w) n) \<and>
     set (slots s') \<subseteq> insert None (set (slots (hs w))) \<and> Some a \<notin> set (slots s') \<and> slot_size s' = slot_size (hs w)"
proof -
  let ?s = "hs w" and ?i = "slot_hash (slot_size (hs w)) h"
  note len = table_inv_hash [OF inv]
  obtain c where c: "ctxs w a = Some c" "ctx_handle c = h" using registered_ctx [OF reg] by blast
  have i: "slots ?s ! ?i = Some a" using reg by (auto simp: registered_def split: option.splits if_splits)
  define sl where "sl = (slots ?s)[?i := None]"
  obtain cells j where r: "retire_names (names ?s) (name_count ?s) h = Inr (cells, j)"
      "names_inv (?s\<lparr>slots := sl, names := cells, name_count := j\<rparr>)"
      "nlist (?s\<lparr>slots := sl, names := cells, name_count := j\<rparr>) = filter (\<lambda>x. snd x \<noteq> h) (nlist ?s)"
    using retire_names_ok [OF ninv, of h sl] by blast
  let ?s' = "?s\<lparr>slots := sl, names := cells, name_count := j\<rparr>"
  have only: "n = ?i" if "n < slot_size ?s" "slots ?s ! n = Some a" for n
    using table_inv_slot [OF inv that] c by auto
  have "skynet_handle_retire X w h =
      bindR (skynet_context_release X (w\<lparr>hs := ?s'\<rparr>) a) (\<lambda>(_, w'). Inr (True, w'))"
    using i c r(1) len by (simp add: skynet_handle_retire_def skynet_context_handle_def sl_def Let_def)
  moreover have "table_inv (ctxs w) ?s'"
    using inv len unfolding table_inv_def by (auto simp: sl_def nth_list_update split: if_splits)
  moreover have "registered (ctxs w) ?s' x = ((registered (ctxs w) ?s)(h := None)) x" for x
    using i c len by (auto simp: registered_def sl_def nth_list_update split: option.splits)
  then have "registered (ctxs w) ?s' = (registered (ctxs w) ?s)(h := None)" by blast
  moreover have "name_map ?s' = (\<lambda>n. if name_map ?s n = Some h then None else name_map ?s n)"
    unfolding name_map_def r(3) using filter_map_of [OF distinct_names [OF ninv]] by blast
  moreover have "set (slots ?s') \<subseteq> insert None (set (slots ?s))"
    by (auto simp: sl_def dest: in_set_conv_nth [THEN iffD1]) (metis set_update_subset_insert subsetD insertE)
  moreover have "Some a \<notin> set (slots ?s')"
    using only len by (auto simp: sl_def in_set_conv_nth nth_list_update split: if_splits)
  ultimately show ?thesis using r(2) by (intro exI [of _ ?s']) simp
qed

lemma retire_unregistered:
  assumes inv: "table_inv (ctxs w) (hs w)" and reg: "registered (ctxs w) (hs w) h = None"
  shows "skynet_handle_retire X w h = Inr (False, w)"
proof -
  let ?s = "hs w" and ?i = "slot_hash (slot_size (hs w)) h"
  note len = table_inv_hash(1) [OF inv, of h] table_inv_hash(2) [OF inv]
  show ?thesis
  proof (cases "slots ?s ! ?i")
    case None
    then show ?thesis using len by (simp add: skynet_handle_retire_def Let_def)
  next
    case (Some a)
    then obtain c where "ctxs w a = Some c" using table_inv_slot [OF inv len(1)] by blast
    then show ?thesis using Some len reg
      by (auto simp: skynet_handle_retire_def skynet_context_handle_def registered_def Let_def)
  qed
qed

section \<open>Properties\<close>

lemma init_inv: "table_inv cs (skynet_handle_init hb) \<and> names_inv (skynet_handle_init hb) \<and>
   registered cs (skynet_handle_init hb) = Map.empty \<and> name_map (skynet_handle_init hb) = Map.empty"
proof -
  have hash: "slot_hash 4 h < 4" for h using slot_hash_less [of 2 h] by simp
  have "take_bit 24 (push_bit 24 (hb AND 0xff)) = (0 :: u32)"
    by (rule bit_word_eqI) (auto simp: bit_simps)
  then show ?thesis
    using hash
    by (auto simp: skynet_handle_init_def table_inv_def names_inv_def nlist_def registered_def name_map_def
        DEFAULT_SLOT_SIZE_def HANDLE_REMOTE_SHIFT_def fun_eq_iff
        intro: exI [of _ 2] exI [of _ "1 :: nat"])
qed

text \<open>C8. Registering a context in a table with room (a free slot, or fewer than \<open>2 ^ 24\<close> slots)
  never fails: the handle is new, once it is stored in the context a grab of it returns the
  context with one more reference, every other handle still leads to the same context as
  before, also when the table had to be doubled, and the invariant holds again.\<close>

theorem register_then_grab:
  assumes "table_inv (ctxs w) (hs w)" and "Some a \<notin> set (slots (hs w))" and "ctxs w a = Some c"
    and "None \<in> set (slots (hs w)) \<or> slot_size (hs w) < 2 ^ 24"
  shows "\<exists>h w1. skynet_handle_register w a = Inr (h, w1) \<and>
     (let c' = c\<lparr>ctx_handle := h\<rparr>; w2 = put_ctx w1 a c' in
      table_inv (ctxs w2) (hs w2) \<and> skynet_handle_grab w h = Inr (None, w) \<and>
      skynet_handle_grab w2 h = Inr (Some a, put_ctx w2 a (c'\<lparr>ctx_ref := ctx_ref c' + 1\<rparr>)) \<and>
      (\<forall>x. x \<noteq> h \<longrightarrow> map_sum id fst (skynet_handle_grab w2 x) = map_sum id fst (skynet_handle_grab w x)))"
proof -
  obtain h s' where r: "register_loop (ctxs w) (hs w) a = Inr (h, s')"
      "table_inv ((ctxs w)(a \<mapsto> c\<lparr>ctx_handle := h\<rparr>)) s'" "registered (ctxs w) (hs w) h = None"
      "registered ((ctxs w)(a \<mapsto> c\<lparr>ctx_handle := h\<rparr>)) s' = (registered (ctxs w) (hs w))(h \<mapsto> a)"
    using register_ok [OF assms(1,4,2), of c] by blast
  define w2 where "w2 = put_ctx (w\<lparr>hs := s'\<rparr>) a (c\<lparr>ctx_handle := h\<rparr>)"
  have w2: "ctxs w2 = (ctxs w)(a \<mapsto> c\<lparr>ctx_handle := h\<rparr>)" "hs w2 = s'" by (simp_all add: w2_def put_ctx_def)
  have inv2: "table_inv (ctxs w2) (hs w2)" and reg2: "registered (ctxs w2) (hs w2) = (registered (ctxs w) (hs w))(h \<mapsto> a)"
    using r w2 by simp_all
  have other: "map_sum id fst (skynet_handle_grab w2 x) = map_sum id fst (skynet_handle_grab w x)" if "x \<noteq> h" for x
  proof (cases "registered (ctxs w) (hs w) x")
    case None
    then show ?thesis using that reg2 grab_unregistered [OF assms(1) None] grab_unregistered [OF inv2, of x] by simp
  next
    case (Some b)
    then have "registered (ctxs w2) (hs w2) x = Some b" using that reg2 by simp
    then show ?thesis using registered_ctx Some grab_registered [OF inv2] grab_registered [OF assms(1) Some]
      by (metis map_sum.simps(2) fst_conv)
  qed
  have "skynet_handle_register w a = Inr (h, w\<lparr>hs := s'\<rparr>)"
    using r(1) by (simp add: skynet_handle_register_def)
  moreover have "skynet_handle_grab w2 h = Inr (Some a, put_ctx w2 a (c\<lparr>ctx_handle := h, ctx_ref := ctx_ref c + 1\<rparr>))"
    using grab_registered [OF inv2, of h a "c\<lparr>ctx_handle := h\<rparr>"] reg2 w2 by simp
  ultimately show ?thesis using inv2 grab_unregistered [OF assms(1) r(3)] other unfolding w2_def
    by (intro exI [of _ h] exI [of _ "w\<lparr>hs := s'\<rparr>"]) (simp add: Let_def)
qed

text \<open>C9. A name given to a handle with \<^verbatim>\<open>skynet_handle_namehandle\<close> is found by
  \<^verbatim>\<open>skynet_handle_findname\<close>, the array stays sorted, and every other name is found as before;
  a name that exists already is refused and nothing changes.\<close>

theorem namehandle_findname:
  assumes "names_inv s" and "nul_free nm" and "name_count s < 2 ^ 30"
  shows "\<exists>ret s'. insert_name s nm h = Inr (ret, s') \<and> names_inv s' \<and>
     (if name_map s nm = None
      then ret = Some nm \<and> skynet_handle_findname s' nm = Inr h \<and>
           (\<forall>other. other \<noteq> nm \<and> nul_free other \<longrightarrow> skynet_handle_findname s' other = skynet_handle_findname s other)
      else ret = None \<and> s' = s)"
proof -
  note find = findname_lookup
  show ?thesis
  proof (cases "name_map s nm")
    case None
    then obtain s' where "insert_name s nm h = Inr (Some nm, s')" "names_inv s'" "name_map s' = (name_map s)(nm \<mapsto> h)"
      using namehandle_ok(2) [OF assms(1,2) None assms(3), of h] by blast
    then show ?thesis using find assms None by auto
  next
    case (Some x)
    then show ?thesis using namehandle_ok(1) [OF assms(1,2)] assms by auto
  qed
qed

text \<open>Any set of different new names can be entered in any order, as many as there is room
  for up to \<open>2 ^ 30\<close>: no assertion fails, no cell outside the array is touched, the array stays
  sorted and exactly these names are added.\<close>

theorem names_entered_in_any_order:
  assumes "names_inv s" and "distinct (map fst ns)" and "\<forall>x \<in> set ns. nul_free (fst x) \<and> name_map s (fst x) = None"
    and "length ns \<le> 2 ^ 30 - name_count s"
  shows "\<exists>s'. name_dict.adds s ns = Inr s' \<and> names_inv s' \<and>
     dom (name_map s') = dom (name_map s) \<union> fst ` set ns \<and>
     (\<forall>n. n \<notin> fst ` set ns \<longrightarrow> name_map s' n = name_map s n)"
  using name_dict.adds_ok [OF assms] by blast

text \<open>C10. Retiring a registered handle takes exactly this handle and exactly its names out of the
  table before the table's reference is released; the others keep their contexts and
  names. Retiring a handle that is not registered changes nothing.\<close>

theorem retire_removes_handle_and_names:
  assumes "table_inv (ctxs w) (hs w)" and "names_inv (hs w)"
  shows "\<exists>s'. skynet_handle_retire X w h =
       (case registered (ctxs w) (hs w) h of
          None \<Rightarrow> Inr (False, w)
        | Some a \<Rightarrow> bindR (skynet_context_release X (w\<lparr>hs := s'\<rparr>) a) (\<lambda>(_, w'). Inr (True, w'))) \<and>
     table_inv (ctxs w) s' \<and> names_inv s' \<and>
     registered (ctxs w) s' = (registered (ctxs w) (hs w))(h := None) \<and>
     (registered (ctxs w) (hs w) h \<noteq> None \<longrightarrow>
        name_map s' = (\<lambda>n. if name_map (hs w) n = Some h then None else name_map (hs w) n))"
proof (cases "registered (ctxs w) (hs w) h")
  case None
  then show ?thesis using retire_unregistered [OF assms(1) None] assms
    by (intro exI [of _ "hs w"]) (auto simp: fun_upd_idem)
next
  case (Some a)
  then show ?thesis using retire_registered [OF assms Some, of X] by auto
qed

lemma ex_world_hs: "hs ex_world = skynet_handle_init 1"
  by (simp add: ex_world_def skynet_handle_init_def DEFAULT_SLOT_SIZE_def HANDLE_REMOTE_SHIFT_def)

lemma register_then_grab_witness:
  "\<exists>h w1. skynet_handle_register ex_world 3 = Inr (h, w1) \<and> skynet_handle_grab ex_world h = Inr (None, ex_world)"
  using register_then_grab [of ex_world 3 ex_ctx] init_inv [of _ 1]
  by (auto simp: ex_world_hs Let_def) (auto simp: ex_world_def skynet_handle_init_def DEFAULT_SLOT_SIZE_def)

lemma namehandle_findname_witness:
  "\<exists>s'. insert_name (skynet_handle_init 1) ''logger'' 9 = Inr (Some ''logger'', s') \<and>
     skynet_handle_findname s' ''logger'' = Inr 9"
  using namehandle_findname [of "skynet_handle_init 1" "''logger''" 9] init_inv [of Map.empty 1]
  by (auto simp: nul_free_def skynet_handle_init_def)

lemma names_entered_in_any_order_witness:
  "\<exists>s'. name_dict.adds (skynet_handle_init 1) [(''b'', 2), (''a'', 1)] = Inr s' \<and> dom (name_map s') = {''a'', ''b''}"
proof -
  have i: "names_inv (skynet_handle_init 1)" "name_map (skynet_handle_init 1) = Map.empty"
    using init_inv by auto
  have l: "length [(''b'', 2 :: u32), (''a'', 1)] \<le> 2 ^ 30 - name_count (skynet_handle_init 1)"
    by (simp add: skynet_handle_init_def)
  have d: "distinct (map fst [(''b'', 2 :: u32), (''a'', 1)])" by simp
  have f: "\<forall>x \<in> set [(''b'', 2 :: u32), (''a'', 1)]. nul_free (fst x) \<and> name_map (skynet_handle_init 1) (fst x) = None"
    by (simp add: i(2) nul_free_def)
  obtain s' where "name_dict.adds (skynet_handle_init 1) [(''b'', 2), (''a'', 1)] = Inr s'"
      "dom (name_map s') = dom (name_map (skynet_handle_init 1)) \<union> fst ` set [(''b'', 2 :: u32), (''a'', 1)]"
    using names_entered_in_any_order [OF i(1) d f l] by blast
  then show ?thesis using i(2) by (intro exI [of _ s']) auto
qed

lemma retire_removes_handle_and_names_witness:
  "skynet_handle_retire ex_ext ex_world 5 = Inr (False, ex_world)"
  using retire_removes_handle_and_names [of ex_world ex_ext 5] init_inv [of "ctxs ex_world" 1]
  by (simp add: ex_world_hs)

section \<open>Limits of the table\<close>

lemma list_update_numeral: "(x # xs)[numeral v := y] = x # xs[pred_numeral v := y]"
  by (simp add: numeral_eq_Suc)

lemma replicate_4: "replicate 4 x = [x, x, x, x]" "replicate 8 x = [x, x, x, x, x, x, x, x]"
  by (simp_all add: numeral_eq_Suc)

lemma register_loop_found:
  assumes "register_scan s 0 = Inr (Some h)" and "slot_size s \<noteq> 0"
  shows "register_loop cs s a = bindR (wr (slots s) (slot_hash (slot_size s) h) (Some a)) (\<lambda>sl.
          Inr (h OR harbor s, s\<lparr>slots := sl, handle_index := h + 1\<rparr>))"
  using assms by (subst register_loop.simps) simp

lemma register_loop_full:
  assumes "register_scan s 0 = Inr None" and "slot_size s \<noteq> 0"
  shows "register_loop cs s a = bindR (rehash cs s) (\<lambda>s'. register_loop cs s' a)"
  using assms by (subst register_loop.simps) simp

lemma forR_4: "forR 4 f s = bindR (f 0 s) (\<lambda>s. bindR (f 1 s) (\<lambda>s. bindR (f 2 s) (f 3)))"
proof -
  have "forR (Suc (Suc (Suc (Suc 0)))) f s = bindR (f 0 s) (\<lambda>s. bindR (f 1 s) (\<lambda>s. bindR (f 2 s) (f 3)))"
    by (simp add: forR_def numeral_2_eq_2 numeral_3_eq_3 bindR_def split: sum.splits)
  then show ?thesis by (simp add: numeral_eq_Suc)
qed

lemmas table_eval = slot_hash_def HANDLE_MASK_def list_update_numeral replicate_4 Let_def

text \<open>The search for a free handle masks \<^verbatim>\<open>handle_index\<close> to 24 bits, so that after \<open>0xffffff\<close> it hands
  out 0, the handle that \<^verbatim>\<open>skynet_handle_init\<close> reserves and that the rest of the code takes for
  no handle.\<close>

definition wrap_table :: handle_storage where
  "wrap_table = \<lparr>harbor = 0, handle_index = 0xffffff, slot_size = 4, slots = [None, None, None, None],
     name_cap = 2, name_count = 0, names = [None, None]\<rparr>"


text \<open>\<^verbatim>\<open>skynet_context_new\<close> stores the handle in the context after the table's lock has been
  released. When another thread's registration doubles the table in between, the context
  is moved to the slot of the handle 0 and cannot be found under its own handle.\<close>

definition race_heap :: "caddr \<rightharpoonup> skynet_context" where
  "race_heap = [1 \<mapsto> ex_ctx\<lparr>ctx_handle := 1\<rparr>, 2 \<mapsto> ex_ctx\<lparr>ctx_handle := 2\<rparr>, 3 \<mapsto> ex_ctx\<lparr>ctx_handle := 3\<rparr>,
     4 \<mapsto> ex_ctx, 5 \<mapsto> ex_ctx]"

definition race_table :: handle_storage where
  "race_table = \<lparr>harbor = 0, handle_index = 4, slot_size = 4, slots = [None, Some 1, Some 2, Some 3],
     name_cap = 2, name_count = 0, names = [None, None]\<rparr>"


end
