(* ===== verification/Module.thy ===== *)
theory Module
  imports World
begin

text \<open>
  The loader of C services, \<^verbatim>\<open>skynet-src/skynet_module.c\<close>: the search of the service path with
  \<^verbatim>\<open>dlopen\<close>, the lookup of the module's functions with \<^verbatim>\<open>dlsym\<close> and the table of loaded modules.
  \<^verbatim>\<open>dlopen\<close> and \<^verbatim>\<open>dlsym\<close> are the functions \<open>x_dlopen\<close> and \<open>x_dlsym\<close> of the environment. A pointer
  into the path is the rest of the path from there on.
\<close>

definition MAX_MODULE_TYPE :: nat where "MAX_MODULE_TYPE = 32"

section \<open>Searching the path\<close>

text \<open>\<^verbatim>\<open>for (i=0;path[i]!='?' && i < len ;i++) tmp[i] = path[i]\<close>\<close>

function copy_until_mark :: "string \<Rightarrow> nat \<Rightarrow> nat \<Rightarrow> char list \<Rightarrow> (nat \<times> char list) res" where
  "copy_until_mark path len i tmp =
     bindR (rdc path i) (\<lambda>c.
     if c \<noteq> CHR ''?'' \<and> i < len
     then bindR (wr tmp i c) (\<lambda>tmp'. copy_until_mark path len (i + 1) tmp')
     else Inr (i, tmp))"
  by pat_completeness auto
termination
  by (relation "measure (\<lambda>(path, len, i, tmp). len - i)") auto

declare copy_until_mark.simps [simp del]

text \<open>The file name for one segment of the path, with the name in the place of the question
  mark; a segment without one ends the process. The three writes go into \<^verbatim>\<open>tmp\<close>, a buffer of
  \<open>sz\<close> zero bytes.\<close>

definition candidate :: "string \<Rightarrow> nat \<Rightarrow> string \<Rightarrow> nat \<Rightarrow> string res" where
  "candidate path len name sz =
     bindR (copy_until_mark path len 0 (replicate sz NUL)) (\<lambda>(i, tmp1).
     bindR (memcpyR tmp1 i name) (\<lambda>tmp2.
     bindR (rdc path i) (\<lambda>c.
     if c = CHR ''?''
     then bindR (memcpyR tmp2 (i + length name) (take (len - i - 1) (drop (i + 1) path))) cstring
     else Inl Process_exit)))"

text \<open>\<^verbatim>\<open>l = strchr(path, ';')\<close>, or the end of the path: the length of the first segment.\<close>

definition segment_len :: "string \<Rightarrow> nat" where
  "segment_len path = length (takeWhile (\<lambda>c. c \<noteq> CHR '';'') path)"

lemma segment_len_pos:
  assumes "p = dropWhile (\<lambda>c. c = CHR '';'') path" and "p \<noteq> []"
  shows "0 < segment_len p"
proof -
  have "hd p \<noteq> CHR '';''" using assms hd_dropWhile [of "\<lambda>c. c = CHR '';''" path] by simp
  then show ?thesis using assms(2) by (cases p) (auto simp: segment_len_def)
qed

function try_loop :: "ext \<Rightarrow> string \<Rightarrow> string \<Rightarrow> nat \<Rightarrow> nat option res" where
  "try_loop X path name sz =
     (let path = dropWhile (\<lambda>c. c = CHR '';'') path in
      if path = [] then Inr None
      else
        let len = segment_len path in
        bindR (candidate path len name sz) (\<lambda>tmp.
        case x_dlopen X tmp of
          Some dl \<Rightarrow> Inr (Some dl)
        | None \<Rightarrow> try_loop X (drop len path) name sz))"
  by pat_completeness auto
termination
proof (relation "measure (\<lambda>(X, path, name, sz). length path)", goal_cases)
  case (2 X path name sz p len tmp)
  have "0 < len" using segment_len_pos [OF 2(1,2)] 2(3) by simp
  moreover have "length p \<le> length path" unfolding 2(1) by (rule length_dropWhile_le)
  moreover have "0 < length p" using 2(2) by simp
  ultimately have "length p - len < length path" by linarith
  then show ?case by simp
qed auto

declare try_loop.simps [simp del]

definition try_open :: "ext \<Rightarrow> world \<Rightarrow> string \<Rightarrow> nat option res" where
  "try_open X w name = try_loop X (mod_path w) name (length (mod_path w) + length name)"

section \<open>The table of modules\<close>

text \<open>\<^verbatim>\<open>_query\<close>: the first module of that name.\<close>

function query_from :: "world \<Rightarrow> string \<Rightarrow> nat \<Rightarrow> nat option res" where
  "query_from w name i =
     (if i < mod_count w then
        bindR (module_at w i) (\<lambda>m.
        if strcmp (mod_name m) name = 0 then Inr (Some i) else query_from w name (i + 1))
      else Inr None)"
  by pat_completeness auto
termination
  by (relation "measure (\<lambda>(w, name, i). mod_count w - i)") auto

declare query_from.simps [simp del]

definition module_lookup :: "world \<Rightarrow> string \<Rightarrow> nat option res" where
  "module_lookup w name = query_from w name 0"

text \<open>\<^verbatim>\<open>_open_sym\<close>: the functions \<^verbatim>\<open>NAME_create\<close>, \<^verbatim>\<open>NAME_init\<close>, \<^verbatim>\<open>NAME_release\<close> and \<^verbatim>\<open>NAME_signal\<close>; a module
  without \<^verbatim>\<open>NAME_init\<close> is refused. \<^verbatim>\<open>tmp\<close> is the array of \<^verbatim>\<open>name_size + 9\<close> characters.\<close>

definition sym_name :: "string \<Rightarrow> string \<Rightarrow> string res" where
  "sym_name name suffix =
     bindR (memcpyR (replicate (length name + 9) NUL) 0 name) (\<lambda>tmp.
     bindR (memcpyR tmp (length name) (suffix @ [NUL])) cstring)"

definition open_sym :: "ext \<Rightarrow> skynet_module \<Rightarrow> (bool \<times> skynet_module) res" where
  "open_sym X m =
     bindR (sym_name (mod_name m) ''_create'') (\<lambda>s1.
     bindR (sym_name (mod_name m) ''_init'') (\<lambda>s2.
     bindR (sym_name (mod_name m) ''_release'') (\<lambda>s3.
     bindR (sym_name (mod_name m) ''_signal'') (\<lambda>s4.
     let sym = x_dlsym X (mod_module m);
         m' = m\<lparr>mod_create := sym s1, mod_init := sym s2, mod_release := sym s3, mod_signal := sym s4\<rparr> in
     Inr (mod_init m' = None, m')))))"

definition skynet_module_query :: "ext \<Rightarrow> world \<Rightarrow> string \<Rightarrow> (nat option \<times> world) res" where
  "skynet_module_query X w name =
     bindR (module_lookup w name) (\<lambda>result.
     case result of
       Some i \<Rightarrow> Inr (Some i, w)
     | None \<Rightarrow>
         if mod_count w < MAX_MODULE_TYPE then
           bindR (try_open X w name) (\<lambda>dl.
           case dl of
             None \<Rightarrow> Inr (None, w)
           | Some d \<Rightarrow>
               bindR (open_sym X \<lparr>mod_name = name, mod_module = d, mod_create = None, mod_init = None,
                                  mod_release = None, mod_signal = None\<rparr>) (\<lambda>(failed, m).
               bindR (wr (mod_tab w) (mod_count w) (Some m)) (\<lambda>tab.
               if failed then Inr (None, w\<lparr>mod_tab := tab\<rparr>)
               else Inr (Some (mod_count w), w\<lparr>mod_tab := tab, mod_count := mod_count w + 1\<rparr>))))
         else Inr (None, w))"

definition skynet_module_insert :: "world \<Rightarrow> skynet_module \<Rightarrow> world res" where
  "skynet_module_insert w m =
     bindR (module_lookup w (mod_name m)) (\<lambda>r.
     bindR (assertR (r = None \<and> mod_count w < MAX_MODULE_TYPE)) (\<lambda>_.
     bindR (wr (mod_tab w) (mod_count w) (Some m)) (\<lambda>tab.
     Inr (w\<lparr>mod_tab := tab, mod_count := mod_count w + 1\<rparr>))))"

definition skynet_module_init :: "world \<Rightarrow> string \<Rightarrow> world" where
  "skynet_module_init w path =
     w\<lparr>mod_count := 0, mod_path := path, mod_tab := replicate MAX_MODULE_TYPE None\<rparr>"

section \<open>What the search tries\<close>

text \<open>The file name of a segment, and the segments of a path.\<close>

definition subst_mark :: "string \<Rightarrow> string \<Rightarrow> string" where
  "subst_mark seg name =
     takeWhile (\<lambda>c. c \<noteq> CHR ''?'') seg @ name @ tl (dropWhile (\<lambda>c. c \<noteq> CHR ''?'') seg)"

function segments :: "string \<Rightarrow> string list" where
  "segments path =
     (let p = dropWhile (\<lambda>c. c = CHR '';'') path in
      if p = [] then [] else takeWhile (\<lambda>c. c \<noteq> CHR '';'') p # segments (drop (segment_len p) p))"
  by pat_completeness auto
termination
proof (relation "measure length", goal_cases)
  case (2 path p)
  have "0 < segment_len p" by (rule segment_len_pos [OF 2])
  moreover have "length p \<le> length path" unfolding 2(1) by (rule length_dropWhile_le)
  moreover have "0 < length p" using 2(2) by simp
  ultimately have "length p - segment_len p < length path" by linarith
  then show ?case by simp
qed auto

declare segments.simps [simp del]

fun first_some :: "('a \<Rightarrow> 'b option) \<Rightarrow> 'a list \<Rightarrow> 'b option" where
  "first_some f [] = None"
| "first_some f (x # xs) = (case f x of Some y \<Rightarrow> Some y | None \<Rightarrow> first_some f xs)"

lemma copy_until_mark_ok:
  "k \<le> i \<Longrightarrow> i \<le> len \<Longrightarrow> len \<le> length path \<Longrightarrow> i < length path \<Longrightarrow> path ! i = CHR ''?'' \<Longrightarrow>
   (\<forall>j. k \<le> j \<and> j < i \<longrightarrow> path ! j \<noteq> CHR ''?'') \<Longrightarrow> i \<le> length tmp \<Longrightarrow>
   copy_until_mark path len k tmp = Inr (i, take k tmp @ take (i - k) (drop k path) @ drop i tmp)"
proof (induction "i - k" arbitrary: k tmp)
  case 0
  then show ?case by (subst copy_until_mark.simps) simp
next
  case (Suc n)
  then have k: "k < i" "path ! k \<noteq> CHR ''?''" by auto
  have "copy_until_mark path len k tmp = copy_until_mark path len (k + 1) (tmp[k := path ! k])"
    using k Suc by (subst copy_until_mark.simps) simp
  also have "\<dots> = Inr (i, take (k + 1) (tmp[k := path ! k]) @ take (i - (k + 1)) (drop (k + 1) path) @ drop i (tmp[k := path ! k]))"
    using Suc k by (intro Suc.hyps) auto
  also have "take (k + 1) (tmp[k := path ! k]) @ take (i - (k + 1)) (drop (k + 1) path) @ drop i (tmp[k := path ! k]) =
      take k tmp @ take (i - k) (drop k path) @ drop i tmp"
  proof -
    have "take (i - k) (drop k path) = path ! k # take (i - (k + 1)) (drop (k + 1) path)"
      using k Suc.prems(4) by (metis Cons_nth_drop_Suc Suc_diff_Suc Suc_eq_plus1 less_trans take_Suc_Cons)
    moreover have "take (k + 1) (tmp[k := path ! k]) = take k tmp @ [path ! k]"
      using k Suc.prems(7) by (simp add: take_Suc_conv_app_nth)
    moreover have "drop i (tmp[k := path ! k]) = drop i tmp" using k by simp
    ultimately show ?thesis by simp
  qed
  finally show ?case .
qed

text \<open>No write leaves the buffer, whose size is that of the whole path and the name, and the file
  name ends with a NUL.\<close>

lemma candidate_ok:
  assumes seg: "seg = take len path" and len: "len \<le> length path" and mark: "CHR ''?'' \<in> set seg"
    and nf: "nul_free path" "nul_free name" and sz: "len + length name \<le> sz"
  shows "candidate path len name sz = Inr (subst_mark seg name)"
proof -
  obtain a b where ab: "seg = a @ CHR ''?'' # b" "CHR ''?'' \<notin> set a" using split_list_first [OF mark] by blast
  have path: "path = a @ CHR ''?'' # b @ drop len path" using seg ab by (metis append.assoc append_Cons append_take_drop_id)
  have len_ab: "len = Suc (length a + length b)" using seg ab len by (metis length_append length_Cons length_take min.absorb2 add_Suc_right)
  have at: "path ! length a = CHR ''?''" "length a < length path" by (subst path; simp)+
  have before: "\<forall>j < length a. path ! j \<noteq> CHR ''?''"
    using ab(2) path by (metis nth_append nth_mem)
  have parts: "take (length a) path = a" "take (length b) (drop (Suc (length a)) path) = b" by (subst path; simp)+
  have nfs: "nul_free (a @ name @ b)" using nf ab seg set_take_subset [of len path] by (auto simp: nul_free_def)
  have subst: "subst_mark seg name = a @ name @ b"
    using ab by (simp add: subst_mark_def takeWhile_append dropWhile_append)
  have "copy_until_mark path len 0 (replicate sz NUL) = Inr (length a, a @ replicate (sz - length a) NUL)"
    using copy_until_mark_ok [of 0 "length a" len path "replicate sz NUL"] len at before sz len_ab parts by simp
  moreover have "memcpyR (a @ replicate (sz - length a) NUL) (length a) name =
      Inr (a @ name @ replicate (sz - length a - length name) NUL)"
    using sz len_ab by (simp add: memcpyR_def)
  moreover have "memcpyR (a @ name @ replicate (sz - length a - length name) NUL) (length a + length name) b =
      Inr (a @ name @ b @ NUL # replicate (sz - len - length name) NUL)"
  proof -
    have "sz - length a - length name - length b = Suc (sz - len - length name)" using sz len_ab by simp
    then show ?thesis using sz len_ab by (simp add: memcpyR_def)
  qed
  ultimately show ?thesis
    using at parts len_ab subst cstring_ok [OF nfs, of "replicate (sz - len - length name) NUL"]
    by (simp add: candidate_def)
qed

section \<open>Properties\<close>

lemma try_loop_ok:
  assumes "nul_free path" and "nul_free name" and "length path + length name \<le> sz"
    and "\<forall>seg \<in> set (segments path). CHR ''?'' \<in> set seg"
  shows "try_loop X path name sz = Inr (first_some (x_dlopen X) (map (\<lambda>seg. subst_mark seg name) (segments path)))"
  using assms
proof (induction path rule: segments.induct)
  case (1 path)
  define p where "p = dropWhile (\<lambda>c. c = CHR '';'') path"
  show ?case
  proof (cases "p = []")
    case True
    then show ?thesis by (subst try_loop.simps, subst segments.simps) (simp add: Let_def flip: p_def)
  next
    case False
    let ?len = "segment_len p"
    have seg: "segments path = takeWhile (\<lambda>c. c \<noteq> CHR '';'') p # segments (drop ?len p)"
      using False by (subst segments.simps) (simp add: Let_def flip: p_def)
    have sub: "length p \<le> length path" "set p \<subseteq> set path"
      using length_dropWhile_le [of _ path] by (auto simp: p_def dest: set_dropWhileD)
    have len: "?len \<le> length p" "takeWhile (\<lambda>c. c \<noteq> CHR '';'') p = take ?len p"
      unfolding segment_len_def by (rule length_takeWhile_le, rule takeWhile_eq_take)
    have nf: "nul_free p" "nul_free (drop ?len p)"
      using 1(2) sub by (auto simp: nul_free_def dest: in_set_dropD)
    have mark: "CHR ''?'' \<in> set (take ?len p)" using 1(5) seg len(2) by simp
    have sz: "?len + length name \<le> sz" using sub(1) len(1) 1(4) by simp
    have IH: "try_loop X (drop ?len p) name sz =
        Inr (first_some (x_dlopen X) (map (\<lambda>seg. subst_mark seg name) (segments (drop ?len p))))"
      using 1(1) [OF p_def False nf(2) 1(3)] 1(4,5) seg sub(1) by simp
    show ?thesis
      using candidate_ok [OF refl len(1) mark nf(1) 1(3) sz] False IH seg len(2)
      by (subst try_loop.simps) (simp add: Let_def split: option.splits flip: p_def)
  qed
qed

text \<open>C16. The search for a module tries exactly the file names that the segments of the path give
  with the name in place of the question mark, in order, and stops at the first that opens.
  None of the writes leaves the buffer on the stack and every file name is terminated.\<close>

theorem try_open_tries_segments:
  assumes "nul_free (mod_path w)" and "nul_free name"
    and "\<forall>seg \<in> set (segments (mod_path w)). CHR ''?'' \<in> set seg"
  shows "try_open X w name =
     Inr (first_some (x_dlopen X) (map (\<lambda>seg. subst_mark seg name) (segments (mod_path w))))"
  unfolding try_open_def using assms by (intro try_loop_ok) auto

text \<open>The loaded modules have different names.\<close>

definition modules_inv :: "world \<Rightarrow> bool" where
  "modules_inv w \<longleftrightarrow> length (mod_tab w) = MAX_MODULE_TYPE \<and> mod_count w \<le> MAX_MODULE_TYPE \<and>
     (\<forall>i < mod_count w. \<exists>m. mod_tab w ! i = Some m \<and> nul_free (mod_name m)) \<and>
     distinct (map (\<lambda>i. mod_name (the (mod_tab w ! i))) [0..<mod_count w])"

lemma module_at_ok:
  assumes "modules_inv w" and "i < mod_count w"
  obtains m where "module_at w i = Inr m" and "nul_free (mod_name m)" and "mod_tab w ! i = Some m"
  using assms by (auto simp: modules_inv_def module_at_def)

lemma query_from_ok:
  assumes inv: "modules_inv w" and nf: "nul_free name"
  shows "(\<exists>j \<ge> i. j < mod_count w \<and> mod_name (the (mod_tab w ! j)) = name \<and> query_from w name i = Inr (Some j)) \<or>
     (query_from w name i = Inr None \<and> (\<forall>j. i \<le> j \<and> j < mod_count w \<longrightarrow> mod_name (the (mod_tab w ! j)) \<noteq> name))"
proof (induction "mod_count w - i" arbitrary: i)
  case 0
  then show ?case by (subst (2) query_from.simps) auto
next
  case (Suc n)
  then have i: "i < mod_count w" by simp
  obtain m where m: "module_at w i = Inr m" "nul_free (mod_name m)" "mod_tab w ! i = Some m"
    by (rule module_at_ok [OF inv i])
  have eq: "query_from w name i = (if mod_name m = name then Inr (Some i) else query_from w name (i + 1))"
    using i m strcmp_eq_0 [OF m(2) nf] by (subst query_from.simps) simp
  show ?case
  proof (cases "mod_name m = name")
    case True
    then show ?thesis using eq i m by auto
  next
    case False
    have "n = mod_count w - (i + 1)" using Suc(2) by simp
    note IH = Suc(1) [OF this]
    have other: "j = i \<or> i + 1 \<le> j" if "i \<le> j" for j using that by auto
    from IH show ?thesis
    proof
      assume "\<exists>j \<ge> i + 1. j < mod_count w \<and> mod_name (the (mod_tab w ! j)) = name \<and> query_from w name (i + 1) = Inr (Some j)"
      then show ?thesis using eq False by auto
    next
      assume "query_from w name (i + 1) = Inr None \<and> (\<forall>j. i + 1 \<le> j \<and> j < mod_count w \<longrightarrow> mod_name (the (mod_tab w ! j)) \<noteq> name)"
      then show ?thesis using eq False other m(3) by (metis option.sel)
    qed
  qed
qed

lemma sym_name_ok:
  assumes "nul_free name" and "nul_free suffix" and "length suffix \<le> 8"
  shows "sym_name name suffix = Inr (name @ suffix)"
proof -
  have nf: "nul_free (name @ suffix)" using assms by (simp add: nul_free_def)
  show ?thesis using assms cstring_ok [OF nf, of "replicate (8 - length suffix) NUL"]
    by (simp add: sym_name_def memcpyR_def)
qed

lemma open_sym_ok:
  assumes "nul_free (mod_name m)"
  shows "\<exists>m'. open_sym X m = Inr (mod_init m' = None, m') \<and> mod_name m' = mod_name m \<and>
     mod_init m' = x_dlsym X (mod_module m) (mod_name m @ ''_init'')"
  using sym_name_ok [OF assms, of "''_create''"] sym_name_ok [OF assms, of "''_init''"]
    sym_name_ok [OF assms, of "''_release''"] sym_name_ok [OF assms, of "''_signal''"]
  by (simp add: open_sym_def Let_def nul_free_def)

lemma modules_inv_snoc:
  assumes "modules_inv w" and "mod_count w < MAX_MODULE_TYPE" and "nul_free (mod_name m)"
    and "\<forall>j < mod_count w. mod_name (the (mod_tab w ! j)) \<noteq> mod_name m"
  shows "modules_inv (w\<lparr>mod_tab := (mod_tab w)[mod_count w := Some m], mod_count := mod_count w + 1\<rparr>)"
    and "modules_inv (w\<lparr>mod_tab := (mod_tab w)[mod_count w := Some m]\<rparr>)"
  using assms
  by (auto simp: modules_inv_def nth_list_update less_Suc_eq distinct_map inj_on_def nth_list_update_neq split: if_splits)

text \<open>Querying a module never faults, keeps the names in the table different and the table
  within \<^verbatim>\<open>MAX_MODULE_TYPE\<close> modules, and loads a module once: when a query has succeeded, the
  next query of the same name finds the same entry and changes nothing, whatever \<^verbatim>\<open>dlopen\<close>
  would return then.\<close>

theorem module_query_loads_once:
  assumes inv: "modules_inv w" and nf: "nul_free name" "nul_free (mod_path w)"
    and marks: "\<forall>seg \<in> set (segments (mod_path w)). CHR ''?'' \<in> set seg"
  shows "\<exists>r w'. skynet_module_query X w name = Inr (r, w') \<and> modules_inv w' \<and>
     (case r of None \<Rightarrow> mod_count w' = mod_count w
      | Some i \<Rightarrow> i < mod_count w' \<and> mod_name (the (mod_tab w' ! i)) = name \<and>
          skynet_module_query Y w' name = Inr (Some i, w'))"
proof -
  have again: "skynet_module_query Y w' name = Inr (Some i, w')"
    if w': "modules_inv w'" and i: "i < mod_count w'" "mod_name (the (mod_tab w' ! i)) = name" for w' i
  proof -
    obtain j where j: "j < mod_count w'" "mod_name (the (mod_tab w' ! j)) = name" "query_from w' name 0 = Inr (Some j)"
      using query_from_ok [OF w' nf(1), of 0] i by auto
    have "i = j" using w' i j by (auto simp: modules_inv_def distinct_map inj_on_def)
    then show ?thesis using j by (simp add: skynet_module_query_def module_lookup_def)
  qed
  from query_from_ok [OF inv nf(1), of 0] show ?thesis
  proof
    assume "\<exists>j \<ge> 0. j < mod_count w \<and> mod_name (the (mod_tab w ! j)) = name \<and> query_from w name 0 = Inr (Some j)"
    then obtain j where j: "j < mod_count w" "mod_name (the (mod_tab w ! j)) = name" "query_from w name 0 = Inr (Some j)"
      by auto
    have "skynet_module_query X w name = Inr (Some j, w)"
      using j(3) by (simp add: skynet_module_query_def module_lookup_def)
    then show ?thesis using again [OF inv j(1,2)] inv j(1,2)
      by (intro exI [of _ "Some j"] exI [of _ w]) (simp only: option.case simp_thms)
  next
    assume none: "query_from w name 0 = Inr None \<and> (\<forall>j. 0 \<le> j \<and> j < mod_count w \<longrightarrow> mod_name (the (mod_tab w ! j)) \<noteq> name)"
    define dl where "dl = first_some (x_dlopen X) (map (\<lambda>seg. subst_mark seg name) (segments (mod_path w)))"
    have dl: "try_open X w name = Inr dl"
      unfolding try_open_def dl_def by (rule try_loop_ok [OF nf(2,1) order_refl marks])
    show ?thesis
    proof (cases "mod_count w < MAX_MODULE_TYPE \<and> dl \<noteq> None")
      case False
      then show ?thesis using none dl inv
        by (intro exI [of _ None] exI [of _ w]) (auto simp: skynet_module_query_def module_lookup_def)
    next
      case True
      then obtain d where d: "dl = Some d" by auto
      let ?m = "\<lparr>mod_name = name, mod_module = d, mod_create = None, mod_init = None, mod_release = None, mod_signal = None\<rparr>"
      obtain m where m: "open_sym X ?m = Inr (mod_init m = None, m)" "mod_name m = name"
        using open_sym_ok [of ?m X] nf(1) by auto
      let ?w = "w\<lparr>mod_tab := (mod_tab w)[mod_count w := Some m], mod_count := mod_count w + 1\<rparr>"
      have inv': "modules_inv ?w" "modules_inv (w\<lparr>mod_tab := (mod_tab w)[mod_count w := Some m]\<rparr>)"
        using modules_inv_snoc [OF inv, of m] True none nf(1) m(2) by auto
      have lt: "mod_count w < length (mod_tab w)" using True inv by (simp add: modules_inv_def)
      show ?thesis
      proof (cases "mod_init m = None")
        case True
        then show ?thesis using none dl d m inv' lt \<open>mod_count w < MAX_MODULE_TYPE \<and> dl \<noteq> None\<close>
          by (intro exI [of _ None] exI [of _ "w\<lparr>mod_tab := (mod_tab w)[mod_count w := Some m]\<rparr>"])
            (simp add: skynet_module_query_def module_lookup_def)
      next
        case False
        have "skynet_module_query X w name = Inr (Some (mod_count w), ?w)"
          using none dl d m lt True False by (simp add: skynet_module_query_def module_lookup_def)
        moreover have "mod_count w < mod_count ?w" "mod_name (the (mod_tab ?w ! mod_count w)) = name"
          using lt m(2) by simp_all
        ultimately show ?thesis using again [OF inv'(1)] inv'(1)
          by (intro exI [of _ "Some (mod_count w)"] exI [of _ ?w]) (simp only: option.case simp_thms)
      qed
    qed
  qed
qed

lemma ex_modules_ok:
  "modules_inv ex_world \<and> mod_path ex_world = ''./c/?.so;'' \<and> segments ''./c/?.so;'' = [''./c/?.so'']"
  by (simp add: ex_world_def MAX_MODULE_TYPE_def modules_inv_def segments.simps segment_len_def)

lemma try_open_tries_segments_witness: "try_open ex_ext ex_world ''gate'' = Inr (Some 1)"
  using try_open_tries_segments [of ex_world "''gate''" ex_ext] ex_modules_ok
  by (auto simp: nul_free_def subst_mark_def ex_ext_def)

lemma module_query_loads_once_witness:
  "\<exists>r w'. skynet_module_query ex_ext ex_world ''gate'' = Inr (r, w') \<and> modules_inv w'"
  using module_query_loads_once [of ex_world "''gate''" ex_ext ex_ext] ex_modules_ok
  by (auto simp: nul_free_def)

end
