(* ===== verification/Server.thy ===== *)
theory Server
  imports Handle Module Sched
begin

text \<open>
  The services of one process: sending, delivering and dispatching messages, launching and
  killing a service. This is \<^verbatim>\<open>skynet-src/skynet_server.c\<close> (the commands of \<^verbatim>\<open>skynet_command\<close> are in
  theory Command), with \<^verbatim>\<open>skynet_harbor.c\<close>, \<^verbatim>\<open>skynet_error.c\<close>, \<^verbatim>\<open>skynet_monitor.c\<close>, \<^verbatim>\<open>skynet_log.c\<close>,
  \<^verbatim>\<open>skynet_env.c\<close> and \<^verbatim>\<open>skynet_timeout\<close> of \<^verbatim>\<open>skynet_timer.c\<close>, which call it and are called by it.

  A \<^verbatim>\<open>struct skynet_context *\<close> argument that may be \<^verbatim>\<open>NULL\<close> is a \<open>caddr option\<close>. \<^verbatim>\<open>int\<close> arguments that
  are used as bit fields or handed on unchanged are \<open>u32\<close>, \<open>-1\<close> included.
\<close>

section \<open>Message types\<close>

definition PTYPE_TEXT :: u64 where "PTYPE_TEXT = 0"
definition PTYPE_CLIENT :: u32 where "PTYPE_CLIENT = 3"
definition PTYPE_SYSTEM :: u64 where "PTYPE_SYSTEM = 4"
definition PTYPE_HARBOR :: u64 where "PTYPE_HARBOR = 5"
definition PTYPE_SOCKET :: nat where "PTYPE_SOCKET = 6"
definition PTYPE_ERROR :: u32 where "PTYPE_ERROR = 7"
definition PTYPE_TAG_DONTCOPY :: u32 where "PTYPE_TAG_DONTCOPY = 0x10000"
definition PTYPE_TAG_ALLOCSESSION :: u32 where "PTYPE_TAG_ALLOCSESSION = 0x20000"

definition bytes_of :: "string \<Rightarrow> byte list" where
  "bytes_of s = map (\<lambda>c. of_nat (of_char c)) s"

definition ctx_at :: "world \<Rightarrow> caddr option \<Rightarrow> skynet_context res" where
  "ctx_at w p = bindR (nonnull p) (deref (ctxs w))"

section \<open>Pushing a message to a handle\<close>

definition skynet_context_push :: "ext \<Rightarrow> world \<Rightarrow> u32 \<Rightarrow> skynet_message \<Rightarrow> (bool \<times> world) res" where
  "skynet_context_push X w handle message =
     bindR (skynet_handle_grab w handle) (\<lambda>(r, w1).
     case r of
       None \<Rightarrow> Inr (False, w1)
     | Some ctx \<Rightarrow>
         bindR (deref (ctxs w1) ctx) (\<lambda>c.
         bindR (skynet_mq_push w1 (ctx_queue c) message) (\<lambda>w2.
         bindR (skynet_context_release X w2 ctx) (\<lambda>(_, w3). Inr (True, w3)))))"

definition skynet_context_endless :: "ext \<Rightarrow> world \<Rightarrow> u32 \<Rightarrow> world res" where
  "skynet_context_endless X w handle =
     bindR (skynet_handle_grab w handle) (\<lambda>(r, w1).
     case r of
       None \<Rightarrow> Inr w1
     | Some ctx \<Rightarrow>
         bindR (deref (ctxs w1) ctx) (\<lambda>c.
         bindR (skynet_context_release X (put_ctx w1 ctx (c\<lparr>ctx_endless := True\<rparr>)) ctx) (\<lambda>(_, w2). Inr w2)))"

definition skynet_context_send :: "world \<Rightarrow> caddr \<Rightarrow> payload \<Rightarrow> u64 \<Rightarrow> u32 \<Rightarrow> u64 \<Rightarrow> u32 \<Rightarrow> world res" where
  "skynet_context_send w ctx msg sz source type session =
     bindR (deref (ctxs w) ctx) (\<lambda>c.
     skynet_mq_push w (ctx_queue c)
       \<lparr>msg_source = source, msg_session = session, msg_data = msg,
        msg_sz = sz OR push_bit MESSAGE_TYPE_SHIFT type\<rparr>)"

section \<open>skynet\_error\<close>

text \<open>The size of the buffer that holds a message of \<open>len\<close> characters: doubled until it fits.\<close>

definition LOG_MESSAGE_SIZE :: nat where "LOG_MESSAGE_SIZE = 256"

function error_buffer :: "nat \<Rightarrow> nat \<Rightarrow> nat" where
  "error_buffer len max_size =
     (if max_size = 0 \<or> len < max_size * 2 then max_size * 2 else error_buffer len (max_size * 2))"
  by pat_completeness auto
termination
  by (relation "measure (\<lambda>(len, m). Suc len - m)") auto

declare error_buffer.simps [simp del]

text \<open>\<open>text\<close> is the formatted message. The pushed size is its length, the type \<^verbatim>\<open>PTYPE_TEXT\<close>; the
  logger's handle is looked up once and kept.\<close>

definition error_data :: "string \<Rightarrow> byte list" where
  "error_data text =
     (let len = length text in
      if len < LOG_MESSAGE_SIZE then bytes_of text
      else take (error_buffer len LOG_MESSAGE_SIZE - 1) (bytes_of text))"

definition skynet_error :: "ext \<Rightarrow> world \<Rightarrow> caddr option \<Rightarrow> string \<Rightarrow> world res" where
  "skynet_error X w context text =
     bindR (if logger w = 0 then skynet_handle_findname (hs w) ''logger'' else Inr (logger w)) (\<lambda>lg.
     let w1 = w\<lparr>logger := lg\<rparr> in
     if lg = 0 then Inr w1
     else
       bindR (case context of None \<Rightarrow> Inr 0 | Some a \<Rightarrow> skynet_context_handle w1 a) (\<lambda>source.
       bindR (skynet_context_push X w1 lg
                \<lparr>msg_source = source, msg_session = 0, msg_data = Bytes (error_data text),
                 msg_sz = of_nat (length text) OR push_bit MESSAGE_TYPE_SHIFT PTYPE_TEXT\<rparr>) (\<lambda>(_, w2).
       Inr w2)))"

section \<open>The harbor\<close>

text \<open>\<^verbatim>\<open>sizeof(struct remote_message)\<close>: 16 bytes of name, the handle, padding, a pointer and a size.\<close>

definition sizeof_remote_message :: u64 where "sizeof_remote_message = 40"

definition skynet_harbor_send :: "world \<Rightarrow> string \<Rightarrow> u32 \<Rightarrow> payload \<Rightarrow> u64 \<Rightarrow> u32 \<Rightarrow> u32 \<Rightarrow> world res" where
  "skynet_harbor_send w name handle message sz source session =
     (let type = drop_bit MESSAGE_TYPE_SHIFT sz; sz' = sz AND MESSAGE_TYPE_MASK in
      bindR (assertR (type \<noteq> PTYPE_SYSTEM \<and> type \<noteq> PTYPE_HARBOR \<and> remote w \<noteq> None)) (\<lambda>_.
      bindR (nonnull (remote w)) (\<lambda>r.
      skynet_context_send w r (Remote name handle message sz') sizeof_remote_message source type session)))"

definition skynet_harbor_message_isremote :: "world \<Rightarrow> u32 \<Rightarrow> bool res" where
  "skynet_harbor_message_isremote w handle =
     bindR (assertR (harbor_id w \<noteq> - 1)) (\<lambda>_.
     let h = handle AND NOT HANDLE_MASK in Inr (h \<noteq> harbor_id w \<and> h \<noteq> 0))"

definition skynet_harbor_init :: "world \<Rightarrow> u32 \<Rightarrow> world" where
  "skynet_harbor_init w hb = w\<lparr>harbor_id := push_bit HANDLE_REMOTE_SHIFT hb\<rparr>"

definition skynet_harbor_start :: "world \<Rightarrow> caddr \<Rightarrow> world res" where
  "skynet_harbor_start w ctx = bindR (skynet_context_reserve w ctx) (\<lambda>w1. Inr (w1\<lparr>remote := Some ctx\<rparr>))"

definition skynet_harbor_exit :: "ext \<Rightarrow> world \<Rightarrow> world res" where
  "skynet_harbor_exit X w =
     (case remote w of
        None \<Rightarrow> Inr (w\<lparr>remote := None\<rparr>)
      | Some ctx \<Rightarrow> bindR (skynet_context_release X (w\<lparr>remote := None\<rparr>) ctx) (\<lambda>(_, w1). Inr w1))"

definition skynet_isremote :: "world \<Rightarrow> u32 \<Rightarrow> (bool \<times> u32) res" where
  "skynet_isremote w handle =
     bindR (skynet_harbor_message_isremote w handle) (\<lambda>r. Inr (r, drop_bit HANDLE_REMOTE_SHIFT handle))"

section \<open>Sending\<close>

text \<open>\<^verbatim>\<open>memcpy(msg, *data, *sz)\<close> into a new block: the first \<open>sz\<close> bytes of the data.\<close>

definition copy_data :: "payload \<Rightarrow> u64 \<Rightarrow> payload res" where
  "copy_data data sz =
     (case data of
        Bytes bs \<Rightarrow> if unat sz \<le> length bs then Inr (Bytes (take (unat sz) bs)) else Inl Out_of_bounds
      | _ \<Rightarrow> Inr data)"

definition filter_args :: "world \<Rightarrow> caddr option \<Rightarrow> u32 \<Rightarrow> u32 \<Rightarrow> payload \<Rightarrow> u64 \<Rightarrow> (u32 \<times> payload \<times> u64 \<times> world) res" where
  "filter_args w context type session data sz =
     (let needcopy = (type AND PTYPE_TAG_DONTCOPY = 0);
          allocsession = (type AND PTYPE_TAG_ALLOCSESSION \<noteq> 0);
          type' = type AND 0xff in
      bindR (if allocsession then
               bindR (assertR (session = 0)) (\<lambda>_.
               bindR (nonnull context) (\<lambda>a.
               bindR (deref (ctxs w) a) (\<lambda>c.
               let (s, c') = skynet_context_newsession c in Inr (s, put_ctx w a c'))))
             else Inr (session, w)) (\<lambda>(session', w').
      bindR (if needcopy then copy_data data sz else Inr data) (\<lambda>data'.
      Inr (session', data', sz OR push_bit MESSAGE_TYPE_SHIFT (ucast type'), w'))))"

text \<open>The result of a send is the session, or \<open>-1\<close>.\<close>

definition send_to :: "ext \<Rightarrow> world \<Rightarrow> u32 \<Rightarrow> u32 \<Rightarrow> u32 \<Rightarrow> payload \<Rightarrow> u64 \<Rightarrow> (u32 \<times> world) res" where
  "send_to X w source destination session data sz =
     (if destination = 0 then Inr (session, w)
      else
        bindR (skynet_harbor_message_isremote w destination) (\<lambda>rem.
        if rem then
          bindR (skynet_harbor_send w (replicate 16 NUL) destination data sz source session) (\<lambda>w1. Inr (session, w1))
        else
          bindR (skynet_context_push X w destination
                   \<lparr>msg_source = source, msg_session = session, msg_data = data, msg_sz = sz\<rparr>) (\<lambda>(ok, w1).
          Inr (if ok then session else - 1, w1))))"

definition skynet_send :: "ext \<Rightarrow> world \<Rightarrow> caddr option \<Rightarrow> u32 \<Rightarrow> u32 \<Rightarrow> u32 \<Rightarrow> u32 \<Rightarrow> payload \<Rightarrow> u64 \<Rightarrow> (u32 \<times> world) res" where
  "skynet_send X w context source destination type session data sz =
     (if sz AND MESSAGE_TYPE_MASK \<noteq> sz then
        bindR (skynet_error X w context (''The message to '' @ print_hex destination @ '' is too large'')) (\<lambda>w1.
        Inr (- 1, w1))
      else
        bindR (filter_args w context type session data sz) (\<lambda>(session', data', sz', w1).
        bindR (if source = 0 then bindR (ctx_at w1 context) (\<lambda>c. Inr (ctx_handle c)) else Inr source) (\<lambda>source'.
        send_to X w1 source' destination session' data' sz')))"

text \<open>\<^verbatim>\<open>copy_name\<close>: at most \<^verbatim>\<open>GLOBALNAME_LENGTH\<close> characters, padded with NULs.\<close>

definition GLOBALNAME_LENGTH :: nat where "GLOBALNAME_LENGTH = 16"

definition copy_name :: "string \<Rightarrow> char list" where
  "copy_name addr = (let s = take GLOBALNAME_LENGTH addr in s @ replicate (GLOBALNAME_LENGTH - length s) NUL)"

definition skynet_sendname :: "ext \<Rightarrow> world \<Rightarrow> caddr option \<Rightarrow> u32 \<Rightarrow> string \<Rightarrow> u32 \<Rightarrow> u32 \<Rightarrow> payload \<Rightarrow> u64 \<Rightarrow> (u32 \<times> world) res" where
  "skynet_sendname X w context source addr type session data sz =
     bindR (if source = 0 then bindR (ctx_at w context) (\<lambda>c. Inr (ctx_handle c)) else Inr source) (\<lambda>source'.
     if take 1 addr = '':'' then
       skynet_send X w context source' (ucast (strtoul 16 (tl addr))) type session data sz
     else if take 1 addr = ''.'' then
       bindR (skynet_handle_findname (hs w) (tl addr)) (\<lambda>des.
       if des = 0 then Inr (- 1, w)
       else skynet_send X w context source' des type session data sz)
     else
       bindR (filter_args w context type session data sz) (\<lambda>(session', data', sz', w1).
       bindR (skynet_harbor_send w1 (copy_name addr) 0 data' sz' source' session') (\<lambda>w2.
       Inr (session', w2))))"

definition drop_message :: "ext \<Rightarrow> u32 \<Rightarrow> skynet_message \<Rightarrow> world \<Rightarrow> world res" where
  "drop_message X handle msg w =
     bindR (assertR (handle \<noteq> 0)) (\<lambda>_.
     bindR (skynet_send X w None handle (msg_source msg) PTYPE_ERROR 0 Null 0) (\<lambda>(_, w1). Inr w1))"

section \<open>Timeouts\<close>

definition skynet_timeout :: "ext \<Rightarrow> world \<Rightarrow> u32 \<Rightarrow> u32 \<Rightarrow> u32 \<Rightarrow> (u32 \<times> world) res" where
  "skynet_timeout X w handle delay session =
     (if sint delay \<le> 0 then
        bindR (skynet_context_push X w handle (timeout_message session)) (\<lambda>(ok, w1).
        Inr (if ok then session else - 1, w1))
      else
        bindR (timer_add (ti w) \<lparr>ev_handle = handle, ev_session = session\<rparr> delay) (\<lambda>t.
        Inr (session, w\<lparr>ti := t\<rparr>)))"

section \<open>Launching a service\<close>

text \<open>\<open>a\<close> and \<open>q\<close> are the addresses that \<^verbatim>\<open>skynet_malloc\<close> returns for the context and its queue.\<close>

definition fresh_ctx :: "world \<Rightarrow> nat \<Rightarrow> nat \<Rightarrow> skynet_context" where
  "fresh_ctx w m inst =
     \<lparr>ctx_instance = inst, ctx_mod = m, ctx_cb_ud = 0, ctx_cb = None, ctx_queue = 0, ctx_logfile = None,
      ctx_cpu_cost = 0, ctx_cpu_start = 0, ctx_result = [], ctx_handle = 0, ctx_session_id = 0,
      ctx_ref = 2, ctx_message_count = 0, ctx_init = False, ctx_endless = False,
      ctx_profile = node_profile (node w)\<rparr>"

definition launch_done :: "ext \<Rightarrow> world \<Rightarrow> caddr \<Rightarrow> qaddr \<Rightarrow> string \<Rightarrow> string option \<Rightarrow> (caddr option \<times> world) res" where
  "launch_done X w a q name param =
     bindR (skynet_context_release X w a) (\<lambda>(ret, w1).
     bindR (if ret \<noteq> None then bindR (deref (ctxs w1) a) (\<lambda>c. Inr (put_ctx w1 a (c\<lparr>ctx_init := True\<rparr>)))
            else Inr w1) (\<lambda>w2.
     bindR (skynet_globalmq_push w2 q) (\<lambda>w3.
     bindR (if ret \<noteq> None
            then skynet_error X w3 ret (''LAUNCH '' @ name @ '' '' @ (case param of None \<Rightarrow> [] | Some s \<Rightarrow> s))
            else Inr w3) (\<lambda>w4.
     Inr (ret, w4)))))"

definition launch_failed :: "ext \<Rightarrow> world \<Rightarrow> caddr \<Rightarrow> qaddr \<Rightarrow> string \<Rightarrow> (caddr option \<times> world) res" where
  "launch_failed X w a q name =
     bindR (skynet_error X w (Some a) (''FAILED launch '' @ name)) (\<lambda>w1.
     bindR (skynet_context_handle w1 a) (\<lambda>handle.
     bindR (skynet_context_release X w1 a) (\<lambda>(_, w2).
     bindR (skynet_handle_retire X w2 handle) (\<lambda>(_, w3).
     bindR (skynet_mq_release (drop_message X handle) w3 q) (\<lambda>w4.
     Inr (None, w4))))))"

definition skynet_context_new :: "ext \<Rightarrow> world \<Rightarrow> string \<Rightarrow> string option \<Rightarrow> caddr \<Rightarrow> qaddr \<Rightarrow> (caddr option \<times> world) res" where
  "skynet_context_new X w name param a q =
     bindR (skynet_module_query X w name) (\<lambda>(m, w1).
     case m of
       None \<Rightarrow> Inr (None, w1)
     | Some m \<Rightarrow>
         bindR (skynet_module_instance_create X w1 m) (\<lambda>(inst, w2).
         case inst of
           None \<Rightarrow> Inr (None, w2)
         | Some inst \<Rightarrow>
             bindR (skynet_handle_register (put_ctx w2 a (fresh_ctx w2 m inst)) a) (\<lambda>(handle, w3).
             bindR (deref (ctxs w3) a) (\<lambda>c.
             let w4 = skynet_mq_create (put_ctx w3 a (c\<lparr>ctx_handle := handle, ctx_queue := q\<rparr>)) q handle in
             bindR (skynet_module_instance_init X (context_inc w4) m inst a param) (\<lambda>(r, w5).
             if r = 0 then launch_done X w5 a q name param
             else launch_failed X w5 a q name)))))"

section \<open>Monitoring\<close>

record skynet_monitor =
  mon_version :: u32
  mon_check_version :: u32
  mon_source :: u32
  mon_destination :: u32

definition skynet_monitor_new :: skynet_monitor where
  "skynet_monitor_new = \<lparr>mon_version = 0, mon_check_version = 0, mon_source = 0, mon_destination = 0\<rparr>"

definition skynet_monitor_trigger :: "skynet_monitor \<Rightarrow> u32 \<Rightarrow> u32 \<Rightarrow> skynet_monitor" where
  "skynet_monitor_trigger sm source destination =
     sm\<lparr>mon_source := source, mon_destination := destination, mon_version := mon_version sm + 1\<rparr>"

definition skynet_monitor_check :: "ext \<Rightarrow> world \<Rightarrow> skynet_monitor \<Rightarrow> (skynet_monitor \<times> world) res" where
  "skynet_monitor_check X w sm =
     (if mon_version sm = mon_check_version sm then
        if mon_destination sm \<noteq> 0 then
          bindR (skynet_context_endless X w (mon_destination sm)) (\<lambda>w1.
          bindR (skynet_error X w1 None
                   (''A message from [ :'' @ print_hex8 (mon_source sm) @ '' ] to [ :'' @
                    print_hex8 (mon_destination sm) @ '' ] maybe in an endless loop (version = '' @
                    print_int (sint (mon_version sm)) @ '')'')) (\<lambda>w2. Inr (sm, w2)))
        else Inr (sm, w)
      else Inr (sm\<lparr>mon_check_version := mon_version sm\<rparr>, w))"

section \<open>Log files\<close>

definition write_file :: "world \<Rightarrow> nat \<Rightarrow> string \<Rightarrow> world" where
  "write_file w f s = w\<lparr>files := files w @ [(f, s)]\<rparr>"

definition print_byte :: "byte \<Rightarrow> string" where
  "print_byte b = [dig (unat b div 16), dig (unat b mod 16)]"

definition log_blob :: "byte list \<Rightarrow> nat \<Rightarrow> string res" where
  "log_blob buffer sz = (if sz \<le> length buffer then Inr (concat (map print_byte (take sz buffer))) else Inl Out_of_bounds)"

definition chars_of :: "byte list \<Rightarrow> string" where
  "chars_of bs = map (\<lambda>b. char_of (unat b)) bs"

text \<open>\<^verbatim>\<open>fprintf(f, "[%*s]", (int)sz, buffer)\<close>: the number is the minimal width, the string ends at its
  NUL.\<close>

definition log_socket :: "payload \<Rightarrow> string res" where
  "log_socket data =
     (case data of
        Socket_msg ty sid ud buffer pad \<Rightarrow>
          bindR (case buffer of
                   None \<Rightarrow>
                     bindR (cstring (chars_of pad)) (\<lambda>s. Inr (''['' @ s @ '']''))
                 | Some b \<Rightarrow> log_blob b (nat ud)) (\<lambda>body.
          Inr (''[socket] '' @ print_int ty @ '' '' @ print_int sid @ '' '' @ print_int ud @ '' '' @ body @ [CHR 0x0A]))
      | _ \<Rightarrow> Inl Out_of_bounds)"

definition payload_bytes :: "payload \<Rightarrow> byte list res" where
  "payload_bytes data = (case data of Null \<Rightarrow> Inr [] | Bytes bs \<Rightarrow> Inr bs | _ \<Rightarrow> Inl Uninitialised)"

definition skynet_log_output :: "world \<Rightarrow> nat \<Rightarrow> u32 \<Rightarrow> nat \<Rightarrow> u32 \<Rightarrow> payload \<Rightarrow> u64 \<Rightarrow> world res" where
  "skynet_log_output w f source type session buffer sz =
     (if type = PTYPE_SOCKET then bindR (log_socket buffer) (\<lambda>s. Inr (write_file w f s))
      else
        bindR (payload_bytes buffer) (\<lambda>bs.
        bindR (log_blob bs (unat sz)) (\<lambda>body.
        Inr (write_file w f
          ('':'' @ print_hex8 source @ '' '' @ print_dec type @ '' '' @ print_int (sint session) @ '' '' @
           print_dec (unat (ucast (current (ti w)) :: u32)) @ '' '' @ body @ [CHR 0x0A])))))"

definition skynet_env_init :: "world \<Rightarrow> world" where
  "skynet_env_init w = w\<lparr>env := Map.empty\<rparr>"

definition skynet_getenv :: "world \<Rightarrow> string \<Rightarrow> string option" where
  "skynet_getenv w key = env w key"

definition skynet_setenv :: "world \<Rightarrow> string \<Rightarrow> string \<Rightarrow> world res" where
  "skynet_setenv w key value =
     bindR (assertR (env w key = None)) (\<lambda>_. Inr (w\<lparr>env := (env w)(key \<mapsto> value)\<rparr>))"

definition skynet_log_open :: "ext \<Rightarrow> world \<Rightarrow> caddr option \<Rightarrow> u32 \<Rightarrow> (nat option \<times> world) res" where
  "skynet_log_open X w ctx handle =
     (case skynet_getenv w ''logpath'' of
        None \<Rightarrow> Inr (None, w)
      | Some logpath \<Rightarrow>
          let tmp = logpath @ ''/'' @ print_hex8 handle @ ''.log'' in
          case x_fopen X tmp of
            Some f \<Rightarrow>
              let currenttime = current (ti w);
                  t = (ucast (starttime (ti w)) :: u64) + currenttime div 100 in
              bindR (skynet_error X w ctx (''Open log file '' @ tmp)) (\<lambda>w1.
              Inr (Some f, write_file w1 f
                (''open time: '' @ print_dec (unat (ucast currenttime :: u32)) @ '' '' @ x_ctime X t)))
          | None \<Rightarrow> bindR (skynet_error X w ctx (''Open log file '' @ tmp @ '' fail'')) (\<lambda>w1. Inr (None, w1)))"

definition skynet_log_close :: "ext \<Rightarrow> world \<Rightarrow> caddr option \<Rightarrow> nat \<Rightarrow> u32 \<Rightarrow> world res" where
  "skynet_log_close X w ctx f handle =
     bindR (skynet_error X w ctx (''Close log file :'' @ print_hex8 handle)) (\<lambda>w1.
     Inr (write_file w1 f (''close time: '' @ print_dec (unat (ucast (current (ti w1)) :: u32)) @ [CHR 0x0A])))"

section \<open>Dispatching\<close>

definition thread_time :: "ext \<Rightarrow> world \<Rightarrow> u64 \<times> world" where
  "thread_time X w = (x_thread_time X (clock_reads w), w\<lparr>clock_reads := clock_reads w + 1\<rparr>)"

definition call_cb :: "ext \<Rightarrow> world \<Rightarrow> caddr \<Rightarrow> nat \<Rightarrow> skynet_message \<Rightarrow> u64 \<Rightarrow> (bool \<times> world) res" where
  "call_cb X w ctx type msg sz =
     bindR (deref (ctxs w) ctx) (\<lambda>c.
     bindR (nonnull (ctx_cb c)) (\<lambda>cb.
     x_cb X cb ctx (ctx_cb_ud c) type (msg_session msg) (msg_source msg) (msg_data msg) sz w))"

definition dispatch_message :: "ext \<Rightarrow> world \<Rightarrow> caddr \<Rightarrow> skynet_message \<Rightarrow> world res" where
  "dispatch_message X w ctx msg =
     bindR (deref (ctxs w) ctx) (\<lambda>c.
     bindR (assertR (ctx_init c)) (\<lambda>_.
     let w1 = w\<lparr>node := (node w)\<lparr>node_handle_key := ctx_handle c\<rparr>\<rparr>;
         type = unat (drop_bit MESSAGE_TYPE_SHIFT (msg_sz msg));
         sz = msg_sz msg AND MESSAGE_TYPE_MASK in
     bindR (case ctx_logfile c of
              Some f \<Rightarrow> skynet_log_output w1 f (msg_source msg) type (msg_session msg) (msg_data msg) sz
            | None \<Rightarrow> Inr w1) (\<lambda>w2.
     let w3 = put_ctx w2 ctx (c\<lparr>ctx_message_count := ctx_message_count c + 1\<rparr>) in
     if ctx_profile c then
       let (t0, w4) = thread_time X w3;
           c4 = c\<lparr>ctx_message_count := ctx_message_count c + 1, ctx_cpu_start := t0\<rparr> in
       bindR (call_cb X (put_ctx w4 ctx c4) ctx type msg sz) (\<lambda>(_, w5).
       let (t1, w6) = thread_time X w5 in
       bindR (deref (ctxs w6) ctx) (\<lambda>c6.
       Inr (put_ctx w6 ctx (c6\<lparr>ctx_cpu_cost := ctx_cpu_cost c6 + (t1 - ctx_cpu_start c6)\<rparr>))))
     else bindR (call_cb X w3 ctx type msg sz) (\<lambda>(_, w4). Inr w4))))"

text \<open>\<^verbatim>\<open>skynet_context_dispatchall\<close> runs until the queue is empty; \<open>fuel\<close> bounds the rounds.\<close>

fun skynet_context_dispatchall :: "ext \<Rightarrow> nat \<Rightarrow> world \<Rightarrow> caddr \<Rightarrow> world res" where
  "skynet_context_dispatchall X 0 w ctx = Inl Endless_loop"
| "skynet_context_dispatchall X (Suc fuel) w ctx =
     bindR (deref (ctxs w) ctx) (\<lambda>c.
     bindR (deref (mqs w) (ctx_queue c)) (\<lambda>r.
     bindR (skynet_mq_pop r) (\<lambda>(m, r').
     let w1 = w\<lparr>mqs := (mqs w)(ctx_queue c \<mapsto> r')\<rparr> in
     case m of
       None \<Rightarrow> Inr w1
     | Some msg \<Rightarrow> bindR (dispatch_message X w1 ctx msg) (\<lambda>w2. skynet_context_dispatchall X fuel w2 ctx))))"

text \<open>One round of the loop of \<^verbatim>\<open>skynet_context_message_dispatch\<close>: \<open>None\<close> when the queue was empty,
  otherwise the length of the queue right after the pop.\<close>

definition dispatch_round :: "ext \<Rightarrow> world \<Rightarrow> skynet_monitor \<Rightarrow> caddr \<Rightarrow> qaddr \<Rightarrow> u32 \<Rightarrow> (int option \<times> skynet_monitor \<times> world) res" where
  "dispatch_round X w sm ctx q handle =
     bindR (deref (mqs w) q) (\<lambda>r.
     bindR (skynet_mq_pop r) (\<lambda>(m, r1).
     case m of
       None \<Rightarrow> Inr (None, sm, w\<lparr>mqs := (mqs w)(q \<mapsto> r1)\<rparr>)
     | Some msg \<Rightarrow>
         let (overload, r2) = skynet_mq_overload r1;
             w1 = w\<lparr>mqs := (mqs w)(q \<mapsto> r2)\<rparr> in
         bindR (if overload \<noteq> 0
                then skynet_error X w1 (Some ctx) (''May overload, message queue length = '' @ print_dec overload)
                else Inr w1) (\<lambda>w2.
         let sm1 = skynet_monitor_trigger sm (msg_source msg) handle in
         bindR (deref (ctxs w2) ctx) (\<lambda>c.
         bindR (if ctx_cb c = None then Inr w2 else dispatch_message X w2 ctx msg) (\<lambda>w3.
         Inr (Some (skynet_mq_length r1), skynet_monitor_trigger sm1 0 0, w3))))))"

text \<open>\<open>k\<close> more rounds; \<open>False\<close> when the queue ran empty.\<close>

fun dispatch_rounds :: "ext \<Rightarrow> nat \<Rightarrow> world \<Rightarrow> skynet_monitor \<Rightarrow> caddr \<Rightarrow> qaddr \<Rightarrow> u32 \<Rightarrow> (bool \<times> skynet_monitor \<times> world) res" where
  "dispatch_rounds X 0 w sm ctx q handle = Inr (True, sm, w)"
| "dispatch_rounds X (Suc k) w sm ctx q handle =
     bindR (dispatch_round X w sm ctx q handle) (\<lambda>(r, sm1, w1).
     if r = None then Inr (False, sm1, w1) else dispatch_rounds X k w1 sm1 ctx q handle)"

definition dispatch_batch :: "ext \<Rightarrow> world \<Rightarrow> skynet_monitor \<Rightarrow> caddr \<Rightarrow> qaddr \<Rightarrow> u32 \<Rightarrow> int \<Rightarrow> (bool \<times> skynet_monitor \<times> world) res" where
  "dispatch_batch X w sm ctx q handle weight =
     bindR (dispatch_round X w sm ctx q handle) (\<lambda>(r, sm1, w1).
     case r of
       None \<Rightarrow> Inr (False, sm1, w1)
     | Some len \<Rightarrow>
         let n = (if weight \<ge> 0 then nat len div 2 ^ nat weight else 1) in
         dispatch_rounds X (n - 1) w1 sm1 ctx q handle)"

definition skynet_context_message_dispatch ::
    "ext \<Rightarrow> world \<Rightarrow> skynet_monitor \<Rightarrow> qaddr option \<Rightarrow> int \<Rightarrow> (qaddr option \<times> skynet_monitor \<times> world) res" where
  "skynet_context_message_dispatch X w sm q0 weight =
     bindR (case q0 of None \<Rightarrow> skynet_globalmq_pop w | Some q \<Rightarrow> Inr (Some q, w)) (\<lambda>(qo, w1).
     case qo of
       None \<Rightarrow> Inr (None, sm, w1)
     | Some q \<Rightarrow>
         bindR (deref (mqs w1) q) (\<lambda>r.
         let handle = skynet_mq_handle r in
         bindR (skynet_handle_grab w1 handle) (\<lambda>(co, w2).
         case co of
           None \<Rightarrow>
             bindR (skynet_mq_release (drop_message X handle) w2 q) (\<lambda>w3.
             bindR (skynet_globalmq_pop w3) (\<lambda>(nq, w4). Inr (nq, sm, w4)))
         | Some ctx \<Rightarrow>
             bindR (dispatch_batch X w2 sm ctx q handle weight) (\<lambda>(more, sm1, w3).
             if \<not> more then
               bindR (skynet_context_release X w3 ctx) (\<lambda>(_, w4).
               bindR (skynet_globalmq_pop w4) (\<lambda>(nq, w5). Inr (nq, sm1, w5)))
             else
               bindR (deref (ctxs w3) ctx) (\<lambda>c.
               bindR (assertR (q = ctx_queue c)) (\<lambda>_.
               bindR (skynet_globalmq_pop w3) (\<lambda>(nq, w4).
               bindR (if nq \<noteq> None then skynet_globalmq_push w4 q else Inr w4) (\<lambda>w5.
               bindR (skynet_context_release X w5 ctx) (\<lambda>(_, w6).
               Inr (if nq \<noteq> None then nq else Some q, sm1, w6))))))))))"

definition skynet_callback :: "world \<Rightarrow> caddr \<Rightarrow> nat \<Rightarrow> nat option \<Rightarrow> world res" where
  "skynet_callback w ctx ud cb =
     bindR (deref (ctxs w) ctx) (\<lambda>c. Inr (put_ctx w ctx (c\<lparr>ctx_cb := cb, ctx_cb_ud := ud\<rparr>)))"

section \<open>The node\<close>

definition THREAD_MAIN :: u32 where "THREAD_MAIN = 1"

definition skynet_initthread :: "world \<Rightarrow> u32 \<Rightarrow> world" where
  "skynet_initthread w m = w\<lparr>node := (node w)\<lparr>node_handle_key := - m\<rparr>\<rparr>"

definition skynet_globalinit :: "world \<Rightarrow> world" where
  "skynet_globalinit w =
     skynet_initthread (w\<lparr>node := (node w)\<lparr>node_total := 0, node_monitor_exit := 0, node_init := True\<rparr>\<rparr>) THREAD_MAIN"

definition skynet_current_handle :: "world \<Rightarrow> u32" where
  "skynet_current_handle w = (if node_init (node w) then node_handle_key (node w) else - THREAD_MAIN)"

definition skynet_profile_enable :: "world \<Rightarrow> bool \<Rightarrow> world" where
  "skynet_profile_enable w enable = w\<lparr>node := (node w)\<lparr>node_profile := enable\<rparr>\<rparr>"

section \<open>The invariant of a process\<close>

text \<open>The messages of a queue, and the handle it belongs to with the flag that says that it is to be
  released.\<close>

definition pending :: "world \<Rightarrow> qaddr \<Rightarrow> skynet_message list option" where
  "pending w q = map_option mq_items (mqs w q)"

definition marked :: "world \<Rightarrow> qaddr \<Rightarrow> (u32 \<times> bool) option" where
  "marked w q = map_option (\<lambda>r. (mq_handle r, mq_release r)) (mqs w q)"

lemma marked_Some: "marked w q = Some (h, b) \<longleftrightarrow> (\<exists>r. mqs w q = Some r \<and> mq_handle r = h \<and> mq_release r = b)"
  by (auto simp: marked_def)

text \<open>Every registered context exists, holds at least the table's reference and owns a live queue;
  the table, the names and the queues satisfy their own invariants (\<open>xs\<close> is the global queue, \<open>B\<close>
  the queues that threads hold).\<close>

definition server_inv :: "world \<Rightarrow> qaddr list \<Rightarrow> qaddr set \<Rightarrow> bool" where
  "server_inv w xs B \<longleftrightarrow> table_inv (ctxs w) (hs w) \<and> names_inv (hs w) \<and> sched_inv w xs B \<and>
     (\<forall>h a c. registered (ctxs w) (hs w) h = Some a \<longrightarrow> ctxs w a = Some c \<longrightarrow>
        1 \<le> ctx_ref c \<and> marked w (ctx_queue c) = Some (ctx_handle c, False))"

text \<open>Two worlds that differ in nothing but the queues.\<close>

definition same_rest :: "world \<Rightarrow> world \<Rightarrow> bool" where
  "same_rest w w' \<longleftrightarrow> mq_world.more w' = mq_world.more w"

lemma same_rest_fields:
  assumes "same_rest w w'"
  shows "ctxs w' = ctxs w" "hs w' = hs w" "ti w' = ti w" "node w' = node w" "remote w' = remote w"
    "harbor_id w' = harbor_id w" "env w' = env w" "logger w' = logger w" "mod_tab w' = mod_tab w"
  using assms by (cases w; cases w'; simp add: same_rest_def)+

lemma same_rest_refl [simp]: "same_rest w w"
  by (simp add: same_rest_def)

lemma same_rest_trans: "same_rest u v \<Longrightarrow> same_rest v w \<Longrightarrow> same_rest u w"
  by (simp add: same_rest_def)

lemma same_rest_mqs [simp]:
  "same_rest w (w\<lparr>mqs := m\<rparr>)" "same_rest w (w\<lparr>gq_head := h\<rparr>)" "same_rest w (w\<lparr>gq_tail := h\<rparr>)"
  by (simp_all add: same_rest_def)

lemma same_bodies_view:
  assumes "same_bodies m m'"
  shows "map_option mq_items (m' q) = map_option mq_items (m q)"
    and "map_option (\<lambda>r. (mq_handle r, mq_release r)) (m' q) = map_option (\<lambda>r. (mq_handle r, mq_release r)) (m q)"
proof -
  have eq: "map_option mq_body (m' q) = map_option mq_body (m q)" using assms by (simp add: same_bodies_def)
  show "map_option mq_items (m' q) = map_option mq_items (m q)"
    using arg_cong [OF eq, of "map_option mq_items"] by (simp add: option.map_comp o_def mq_body_def)
  show "map_option (\<lambda>r. (mq_handle r, mq_release r)) (m' q) = map_option (\<lambda>r. (mq_handle r, mq_release r)) (m q)"
    using arg_cong [OF eq, of "map_option (\<lambda>r. (mq_handle r, mq_release r))"]
    by (simp add: option.map_comp o_def mq_body_def)
qed

text \<open>What a push does to the queues of a process.\<close>

lemma push_effect:
  assumes inv: "sched_inv w xs B" and q: "mqs w q = Some r" and live: "\<not> mq_release r"
  obtains w' xs' where "skynet_mq_push w q m = Inr w'" and "sched_inv w' xs' B" and "same_rest w w'"
    and "pending w' = (pending w)(q \<mapsto> mq_items r @ [m])" and "marked w' = marked w"
    and "xs' = (if mq_in_global r then xs else xs @ [q])"
proof -
  obtain w' xs' where w': "skynet_mq_push w q m = Inr w'" "sched_inv w' xs' B"
      "xs' = (if mq_in_global r then xs else xs @ [q])"
    using sched_send [OF inv q live] by metis
  obtain r1 where r1: "mq_store r m = Inr r1" "mq_items r1 = mq_items r @ [m]" "mq_in_global r1 = mq_in_global r"
      "mq_handle r1 = mq_handle r" "mq_release r1 = mq_release r" "mq_next r1 = mq_next r"
    using mq_store_ok sched_ok [OF inv q] unfolding queue_ok_def by metis
  let ?w = "w\<lparr>mqs := (mqs w)(q \<mapsto> r1\<lparr>mq_in_global := True\<rparr>)\<rparr>"
  have "same_bodies (mqs ?w) (mqs w') \<and> same_rest w w'"
  proof (cases "mq_in_global r")
    case True
    have "w' = w\<lparr>mqs := (mqs w)(q \<mapsto> r1)\<rparr>" using w'(1) q r1(1,3) True by (auto simp: skynet_mq_push_def)
    moreover have eq: "r1\<lparr>mq_in_global := True\<rparr> = r1" using r1(3) True by (cases r1) simp
    ultimately show ?thesis unfolding eq by simp
  next
    case False
    have push: "skynet_globalmq_push ?w q = Inr w'"
      using w'(1) q r1(1,3) False by (simp add: skynet_mq_push_def)
    have "gq_repr ?w xs"
      using gq_repr_same_next [of w xs q r "r1\<lparr>mq_in_global := True\<rparr>"] inv q r1(6) by (simp add: sched_inv_def)
    moreover have "q \<notin> set xs" using sched_ok [OF inv q] False live by (auto simp: queue_ok_def)
    ultimately obtain w2 where "skynet_globalmq_push ?w q = Inr w2" "same_bodies (mqs ?w) (mqs w2)"
        "mq_world.more w2 = mq_world.more ?w"
      using globalmq_push_ok [of ?w xs q "r1\<lparr>mq_in_global := True\<rparr>"] by auto
    then show ?thesis using push by (simp add: same_rest_def)
  qed
  then have sb: "same_bodies (mqs ?w) (mqs w')" and sr: "same_rest w w'" by auto
  have "pending w' = (pending w)(q \<mapsto> mq_items r @ [m])"
    using same_bodies_view(1) [OF sb] r1 by (auto simp: pending_def fun_eq_iff)
  moreover have "marked w' = marked w"
    using same_bodies_view(2) [OF sb] r1 q by (auto simp: marked_def fun_eq_iff)
  ultimately show thesis using that w' sr by blast
qed

lemma server_inv_queues:
  assumes "server_inv w xs B" and "sched_inv w' xs' B'" and "same_rest w w'" and "marked w' = marked w"
  shows "server_inv w' xs' B'"
  using assms same_rest_fields [OF assms(3)] unfolding server_inv_def by metis

lemma server_invD:
  assumes "server_inv w xs B"
  shows "table_inv (ctxs w) (hs w)" and "names_inv (hs w)" and "sched_inv w xs B"
  using assms by (auto simp: server_inv_def)

lemma registered_live:
  assumes "server_inv w xs B" and "registered (ctxs w) (hs w) h = Some a"
  obtains c r where "ctxs w a = Some c" and "ctx_handle c = h" and "1 \<le> ctx_ref c"
    and "mqs w (ctx_queue c) = Some r" and "\<not> mq_release r"
  using assms registered_ctx [OF assms(2)] unfolding server_inv_def marked_Some by metis

text \<open>Changing the queue's owner's count back and forth leaves the world as it is.\<close>

lemma sched_inv_ctx [simp]: "sched_inv (put_ctx w a c) xs B = sched_inv w xs B"
  by (simp add: sched_inv_def gq_repr_def)

lemma pending_ctx [simp]: "pending (put_ctx w a c) = pending w" "marked (put_ctx w a c) = marked w"
  by (simp_all add: pending_def marked_def fun_eq_iff)

lemma same_rest_put: "same_rest u v \<Longrightarrow> same_rest (put_ctx u a c) (put_ctx v a c)"
  by (cases u; cases v) (simp add: same_rest_def put_ctx_def)

lemma put_ctx_rest:
  assumes "same_rest (put_ctx w a d) v" and "ctxs w a = Some c"
  shows "same_rest w (put_ctx v a c)"
  using same_rest_put [OF assms(1), of a c] put_ctx_same [OF assms(2)] by simp

lemma context_push_ok:
  assumes inv: "server_inv w xs B" and reg: "registered (ctxs w) (hs w) h = Some a"
    and c: "ctxs w a = Some c" and r: "mqs w (ctx_queue c) = Some r"
  obtains w' xs' where "skynet_context_push X w h m = Inr (True, w')" and "server_inv w' xs' B"
    and "same_rest w w'" and "pending w' = (pending w)(ctx_queue c \<mapsto> mq_items r @ [m])" and "marked w' = marked w"
    and "xs' = (if mq_in_global r then xs else xs @ [ctx_queue c])"
proof -
  let ?w1 = "put_ctx w a (c\<lparr>ctx_ref := ctx_ref c + 1\<rparr>)"
  have "1 \<le> ctx_ref c \<and> marked w (ctx_queue c) = Some (ctx_handle c, False)"
    using inv reg c unfolding server_inv_def by blast
  then have live: "1 \<le> ctx_ref c" "\<not> mq_release r" using r by (auto simp: marked_Some)
  have "sched_inv ?w1 xs B" using server_invD(3) [OF inv] by simp
  moreover have "mqs ?w1 (ctx_queue c) = Some r" using r by simp
  ultimately obtain w2 xs' where w2: "skynet_mq_push ?w1 (ctx_queue c) m = Inr w2" "sched_inv w2 xs' B"
      "same_rest ?w1 w2" "pending w2 = (pending ?w1)(ctx_queue c \<mapsto> mq_items r @ [m])" "marked w2 = marked ?w1"
      "xs' = (if mq_in_global r then xs else xs @ [ctx_queue c])"
    using push_effect [of ?w1 xs B "ctx_queue c" r m] live(2) by blast
  have c2: "ctxs w2 a = Some (c\<lparr>ctx_ref := ctx_ref c + 1\<rparr>)" using same_rest_fields(1) [OF w2(3)] by simp
  have rel: "skynet_context_release X w2 a = Inr (Some a, put_ctx w2 a c)"
    using release_shared [OF c2] live(1) by simp
  have push: "skynet_context_push X w h m = Inr (True, put_ctx w2 a c)"
    using grab_registered [OF server_invD(1) [OF inv] reg c] w2(1) rel by (simp add: skynet_context_push_def)
  have rest: "same_rest w (put_ctx w2 a c)" by (rule put_ctx_rest [OF w2(3) c])
  have view: "pending (put_ctx w2 a c) = (pending w)(ctx_queue c \<mapsto> mq_items r @ [m])" "marked (put_ctx w2 a c) = marked w"
    using w2(4,5) by simp_all
  have "server_inv (put_ctx w2 a c) xs' B"
    by (rule server_inv_queues [OF inv _ rest view(2)]) (use w2(2) in simp)
  then show thesis using that push rest view w2(6) by blast
qed

lemma context_push_none:
  assumes "server_inv w xs B" and "registered (ctxs w) (hs w) h = None"
  shows "skynet_context_push X w h m = Inr (False, w)"
  using grab_unregistered [OF server_invD(1) [OF assms(1)] assms(2)] by (simp add: skynet_context_push_def)

section \<open>Encoding of type and size\<close>

lemma type_mask_bit: "bit MESSAGE_TYPE_MASK n \<longleftrightarrow> n < 56"
  by (auto simp: MESSAGE_TYPE_MASK_def bit_simps)

lemma byte_mask_bit: "bit (0xff :: u32) n \<Longrightarrow> n < 8"
proof -
  assume n: "bit (0xff :: u32) n"
  have "(0xff :: u32) = mask 8" by (simp add: mask_eq_exp_minus_1)
  with n have "bit (mask 8 :: u32) n" by (simp only:)
  then show "n < 8" unfolding bit_mask_iff by simp
qed

text \<open>A size that fits in 56 bits and a type that fits in 8 bits can be read back from the \<^verbatim>\<open>sz\<close> of a
  message.\<close>

lemma encode_decode:
  assumes sz: "sz AND MESSAGE_TYPE_MASK = sz" and ty: "(type :: u32) AND 0xff = type"
  shows "(sz OR push_bit MESSAGE_TYPE_SHIFT (ucast type)) AND MESSAGE_TYPE_MASK = sz"
    and "drop_bit MESSAGE_TYPE_SHIFT (sz OR push_bit MESSAGE_TYPE_SHIFT (ucast type)) = ucast type"
proof -
  have szb: "bit sz n \<Longrightarrow> n < 56" for n
    using arg_cong [OF sz, of "\<lambda>v. bit v n"] by (simp add: bit_simps type_mask_bit)
  have tyb: "bit type n \<Longrightarrow> n < 8" for n
    using arg_cong [OF ty, of "\<lambda>v. bit v n"] byte_mask_bit [of n] by (simp add: bit_simps)
  show "(sz OR push_bit MESSAGE_TYPE_SHIFT (ucast type)) AND MESSAGE_TYPE_MASK = sz"
    by (rule bit_word_eqI) (use szb in \<open>auto simp: bit_simps type_mask_bit MESSAGE_TYPE_SHIFT_def\<close>)
  show "drop_bit MESSAGE_TYPE_SHIFT (sz OR push_bit MESSAGE_TYPE_SHIFT (ucast type)) = ucast type"
    by (rule bit_word_eqI) (use szb tyb in \<open>auto simp: bit_simps MESSAGE_TYPE_SHIFT_def dest: bit_imp_le_length\<close>)
qed

lemma type_byte: "(type AND 0xff) AND 0xff = (type AND 0xff :: u32)"
  by (simp add: and.assoc)

section \<open>Properties of sending\<close>

text \<open>The arguments of a send that the receiver gets to see: no session is allocated, and the data
  are \<^verbatim>\<open>NULL\<close>, handed over, or as long as the size says.\<close>

definition plain_send :: "u32 \<Rightarrow> payload \<Rightarrow> u64 \<Rightarrow> bool" where
  "plain_send type data sz \<longleftrightarrow> type AND PTYPE_TAG_ALLOCSESSION = 0 \<and> sz AND MESSAGE_TYPE_MASK = sz \<and>
     (type AND PTYPE_TAG_DONTCOPY \<noteq> 0 \<or> data = Null \<or> (\<exists>bs. data = Bytes bs \<and> length bs = unat sz))"

lemma filter_args_plain:
  assumes "plain_send type data sz"
  shows "filter_args w context type session data sz =
     Inr (session, data, sz OR push_bit MESSAGE_TYPE_SHIFT (ucast (type AND 0xff)), w)"
  using assms by (auto simp: plain_send_def filter_args_def copy_data_def Let_def)

lemma harbor_not_minus_one: "table_inv cs s \<Longrightarrow> harbor s \<noteq> - 1"
proof
  assume t: "table_inv cs s" and m: "harbor s = - 1"
  have "take_bit 24 (harbor s) = 0" using t by (simp add: table_inv_def)
  then have "bit (take_bit 24 (harbor s)) 0 = bit (0 :: u32) 0" by (rule arg_cong)
  then show False using m by (simp add: bit_simps)
qed

lemma local_handle:
  assumes inv: "server_inv w xs B" and hb: "harbor_id w = harbor (hs w)"
    and reg: "registered (ctxs w) (hs w) h = Some a"
  shows "skynet_harbor_message_isremote w h = Inr False"
proof -
  have t: "table_inv (ctxs w) (hs w)" using inv by (rule server_invD)
  obtain i c where "i < slot_size (hs w)" "slots (hs w) ! i = Some a" "ctxs w a = Some c" "ctx_handle c = h"
    using reg registered_iff [OF t] by blast
  then have "h AND NOT HANDLE_MASK = harbor (hs w)" using table_inv_slot [OF t] by (metis option.inject)
  moreover have "harbor (hs w) \<noteq> - 1" by (rule harbor_not_minus_one [OF t])
  ultimately show ?thesis using hb by (simp add: skynet_harbor_message_isremote_def)
qed

text \<open>The message that a send delivers.\<close>

definition sent_message :: "u32 \<Rightarrow> u32 \<Rightarrow> u32 \<Rightarrow> payload \<Rightarrow> u64 \<Rightarrow> skynet_message" where
  "sent_message source type session data sz =
     \<lparr>msg_source = source, msg_session = session, msg_data = data,
      msg_sz = sz OR push_bit MESSAGE_TYPE_SHIFT (ucast (type AND 0xff))\<rparr>"

lemma sent_message_decode:
  assumes "plain_send type data sz"
  shows "msg_sz (sent_message source type session data sz) AND MESSAGE_TYPE_MASK = sz"
    and "unat (drop_bit MESSAGE_TYPE_SHIFT (msg_sz (sent_message source type session data sz))) = unat (type AND 0xff)"
proof -
  have sz: "sz AND MESSAGE_TYPE_MASK = sz" using assms by (simp add: plain_send_def)
  note e = encode_decode [OF sz type_byte [of type]]
  show "msg_sz (sent_message source type session data sz) AND MESSAGE_TYPE_MASK = sz"
    using e(1) by (simp add: sent_message_def)
  have "unat (ucast (type AND 0xff) :: u64) = unat (type AND 0xff)"
    using unat_u32 [of "type AND 0xff"] by (simp add: unsigned_ucast_eq unsigned_take_bit_eq take_bit_nat_eq_self)
  then show "unat (drop_bit MESSAGE_TYPE_SHIFT (msg_sz (sent_message source type session data sz))) = unat (type AND 0xff)"
    using e(2) by (simp add: sent_message_def)
qed

lemma send_local:
  assumes inv: "server_inv w xs B" and hb: "harbor_id w = harbor (hs w)"
    and reg: "registered (ctxs w) (hs w) dst = Some a" and dst: "dst \<noteq> 0" and src: "src \<noteq> 0"
    and plain: "plain_send type data sz" and c: "ctxs w a = Some c" and r: "mqs w (ctx_queue c) = Some r"
  obtains w' xs' where "skynet_send X w context src dst type session data sz = Inr (session, w')"
    and "server_inv w' xs' B" and "same_rest w w'" and "marked w' = marked w"
    and "pending w' = (pending w)(ctx_queue c \<mapsto> mq_items r @ [sent_message src type session data sz])"
    and "xs' = (if mq_in_global r then xs else xs @ [ctx_queue c])"
proof -
  obtain w' xs' where w': "skynet_context_push X w dst (sent_message src type session data sz) = Inr (True, w')"
      "server_inv w' xs' B" "same_rest w w'"
      "pending w' = (pending w)(ctx_queue c \<mapsto> mq_items r @ [sent_message src type session data sz])" "marked w' = marked w"
      "xs' = (if mq_in_global r then xs else xs @ [ctx_queue c])"
    by (rule context_push_ok [OF inv reg c r])
  have "skynet_send X w context src dst type session data sz = Inr (session, w')"
    using w'(1) plain src dst local_handle [OF inv hb reg]
    by (simp add: skynet_send_def send_to_def filter_args_plain plain_send_def sent_message_def)
  then show thesis using that w' by blast
qed


text \<open>A send to a handle of this process that is not registered returns \<open>-1\<close> and changes nothing,
  and so does a send of more than \<open>2 ^ 56 - 1\<close> bytes when no logger is running.\<close>

theorem send_refused:
  assumes "server_inv w xs B" and "harbor_id w = harbor (hs w)" and "src \<noteq> 0" and "dst \<noteq> 0"
    and "sz AND MESSAGE_TYPE_MASK \<noteq> sz \<and> logger w = 0 \<and> name_map (hs w) ''logger'' = None \<or>
         plain_send type data sz \<and> registered (ctxs w) (hs w) dst = None \<and> dst AND NOT HANDLE_MASK = harbor (hs w)"
  shows "skynet_send X w context src dst type session data sz = Inr (- 1, w)"
  using assms(5)
proof
  assume large: "sz AND MESSAGE_TYPE_MASK \<noteq> sz \<and> logger w = 0 \<and> name_map (hs w) ''logger'' = None"
  have "w\<lparr>logger := 0\<rparr> = w" using large by (cases w) simp
  then have "skynet_error X w context t = Inr w" for t
    using large findname_none [OF server_invD(2) [OF assms(1)], of "''logger''"]
    by (simp add: skynet_error_def nul_free_def)
  then show ?thesis using large by (simp add: skynet_send_def)
next
  assume a: "plain_send type data sz \<and> registered (ctxs w) (hs w) dst = None \<and> dst AND NOT HANDLE_MASK = harbor (hs w)"
  have t: "table_inv (ctxs w) (hs w)" using assms(1) by (rule server_invD)
  have "skynet_harbor_message_isremote w dst = Inr False"
    using a assms(2) harbor_not_minus_one [OF t] by (simp add: skynet_harbor_message_isremote_def)
  then show ?thesis
    using a assms context_push_none [OF assms(1)]
    by (simp add: skynet_send_def send_to_def filter_args_plain plain_send_def)
qed

section \<open>Properties of dispatching\<close>

text \<open>A pop from a queue that is not overloaded only moves the head.\<close>

lemma mq_pop_quiet:
  assumes inv: "mq_inv r" and items: "mq_items r = x # ms" and quiet: "length ms \<le> mq_overload_threshold r"
  shows "skynet_mq_pop r = Inr (Some x, r\<lparr>mq_head := pop_head r\<rparr>)"
proof -
  have ne: "mq_head r \<noteq> mq_tail r" using inv items mq_items_Nil by force
  define l where "l = (let l = int (mq_tail r) - int (pop_head r) in if l < 0 then l + int (mq_cap r) else l)"
  have "mq_len (r\<lparr>mq_head := pop_head r\<rparr>) = length ms"
    using mq_items_pop(1) [OF inv ne] items by (metis length_mq_items list.sel(3))
  then have "l \<le> int (length ms)"
    using inv by (auto simp: l_def Let_def mq_len_def mq_inv_def split: if_splits)
  then have "overload_loop l (mq_overload r) (mq_overload_threshold r) = Inr (mq_overload r, mq_overload_threshold r)"
    using quiet by (subst overload_loop.simps) simp
  then show ?thesis
    using inv ne mq_items_pop(3) [OF inv ne] items
    by (simp add: skynet_mq_pop_def mq_inv_def Let_def pop_head_def l_def)
qed

definition quiet_queue :: "message_queue \<Rightarrow> bool" where
  "quiet_queue r \<longleftrightarrow> mq_inv r \<and> mq_overload r = 0 \<and> length (mq_items r) \<le> mq_overload_threshold r"

text \<open>A launched service without log file and profiling.\<close>

definition plain_ctx :: "skynet_context \<Rightarrow> bool" where
  "plain_ctx c \<longleftrightarrow> ctx_init c \<and> ctx_logfile c = None \<and> \<not> ctx_profile c"

lemma dispatch_round_plain:
  assumes r: "mqs w q = Some r" and quiet: "quiet_queue r" and items: "mq_items r = m # ms"
    and c: "ctxs w a = Some c" and plain: "plain_ctx c"
  obtains w1 r1 where "quiet_queue r1" and "mq_items r1 = ms" and "mq_overload_threshold r1 = mq_overload_threshold r"
    and "w1 = w\<lparr>mqs := (mqs w)(q \<mapsto> r1)\<rparr>"
    and "dispatch_round X w sm a q h =
      bindR (case ctx_cb c of None \<Rightarrow> Inr (False, w1)
             | Some cb \<Rightarrow> x_cb X cb a (ctx_cb_ud c) (unat (drop_bit MESSAGE_TYPE_SHIFT (msg_sz m))) (msg_session m)
                 (msg_source m) (msg_data m) (msg_sz m AND MESSAGE_TYPE_MASK)
                 (put_ctx (w1\<lparr>node := (node w1)\<lparr>node_handle_key := ctx_handle c\<rparr>\<rparr>) a
                    (c\<lparr>ctx_message_count := ctx_message_count c + 1\<rparr>))) (\<lambda>(_, w').
      Inr (Some (int (length ms)), skynet_monitor_trigger (skynet_monitor_trigger sm (msg_source m) h) 0 0, w'))"
proof -
  let ?r1 = "r\<lparr>mq_head := pop_head r\<rparr>" and ?w1 = "w\<lparr>mqs := (mqs w)(q \<mapsto> r\<lparr>mq_head := pop_head r\<rparr>)\<rparr>"
  have inv: "mq_inv r" and th: "length ms \<le> mq_overload_threshold r"
    using quiet items by (auto simp: quiet_queue_def simp flip: length_mq_items)
  have ne: "mq_head r \<noteq> mq_tail r" using inv items mq_items_Nil by force
  have i1: "mq_items ?r1 = ms" "mq_inv ?r1" using mq_items_pop(1,2) [OF inv ne] items by simp_all
  then have q1: "quiet_queue ?r1" using quiet th by (simp add: quiet_queue_def flip: length_mq_items)
  have len: "skynet_mq_length ?r1 = int (length ms)" using mq_length_items [OF i1(2)] i1(1) by simp
  have ov: "skynet_mq_overload ?r1 = (0, ?r1)" using quiet by (simp add: skynet_mq_overload_def quiet_queue_def)
  have c1: "ctxs ?w1 a = Some c" using c by simp
  have "dispatch_round X w sm a q h =
      bindR (case ctx_cb c of None \<Rightarrow> Inr (False, ?w1)
             | Some cb \<Rightarrow> x_cb X cb a (ctx_cb_ud c) (unat (drop_bit MESSAGE_TYPE_SHIFT (msg_sz m))) (msg_session m)
                 (msg_source m) (msg_data m) (msg_sz m AND MESSAGE_TYPE_MASK)
                 (put_ctx (?w1\<lparr>node := (node ?w1)\<lparr>node_handle_key := ctx_handle c\<rparr>\<rparr>) a
                    (c\<lparr>ctx_message_count := ctx_message_count c + 1\<rparr>))) (\<lambda>(_, w').
      Inr (Some (int (length ms)), skynet_monitor_trigger (skynet_monitor_trigger sm (msg_source m) h) 0 0, w'))"
    using r mq_pop_quiet [OF inv items th] ov len c1 plain
    by (cases "ctx_cb c")
      (simp_all add: dispatch_round_def dispatch_message_def call_cb_def plain_ctx_def Let_def bindR_assoc case_prod_unfold)
  then show thesis using that [OF q1 i1(1) _ refl] by simp
qed


text \<open>A callback that returns and leaves the queue and the struct of its own service alone (a service
  that sends no message to itself).\<close>

definition keeps_service :: "ext \<Rightarrow> qaddr \<Rightarrow> caddr \<Rightarrow> bool" where
  "keeps_service X q a \<longleftrightarrow> (\<forall>cb ud type session src data sz w. \<exists>b w'.
     x_cb X cb a ud type session src data sz w = Inr (b, w') \<and> mqs w' q = mqs w q \<and> ctxs w' a = ctxs w a)"

lemma dispatch_round_keeps:
  assumes X: "keeps_service X q a" and r: "mqs w q = Some r" "quiet_queue r" "mq_items r = m # ms"
    and c: "ctxs w a = Some c" "plain_ctx c"
  shows "\<exists>sm' w' r' c'. dispatch_round X w sm a q h = Inr (Some (int (length ms)), sm', w') \<and>
     mqs w' q = Some r' \<and> quiet_queue r' \<and> mq_items r' = ms \<and> ctxs w' a = Some c' \<and> plain_ctx c'"
proof -
  obtain w1 r1 where w1: "quiet_queue r1" "mq_items r1 = ms" "w1 = w\<lparr>mqs := (mqs w)(q \<mapsto> r1)\<rparr>"
      "dispatch_round X w sm a q h =
      bindR (case ctx_cb c of None \<Rightarrow> Inr (False, w1)
             | Some cb \<Rightarrow> x_cb X cb a (ctx_cb_ud c) (unat (drop_bit MESSAGE_TYPE_SHIFT (msg_sz m))) (msg_session m)
                 (msg_source m) (msg_data m) (msg_sz m AND MESSAGE_TYPE_MASK)
                 (put_ctx (w1\<lparr>node := (node w1)\<lparr>node_handle_key := ctx_handle c\<rparr>\<rparr>) a
                    (c\<lparr>ctx_message_count := ctx_message_count c + 1\<rparr>))) (\<lambda>(_, w').
      Inr (Some (int (length ms)), skynet_monitor_trigger (skynet_monitor_trigger sm (msg_source m) h) 0 0, w'))"
    by (rule dispatch_round_plain [OF r c])
  show ?thesis
  proof (cases "ctx_cb c")
    case None
    then show ?thesis using w1 c by simp
  next
    case (Some cb)
    let ?v = "put_ctx (w1\<lparr>node := (node w1)\<lparr>node_handle_key := ctx_handle c\<rparr>\<rparr>) a (c\<lparr>ctx_message_count := ctx_message_count c + 1\<rparr>)"
    obtain b w' where "x_cb X cb a (ctx_cb_ud c) (unat (drop_bit MESSAGE_TYPE_SHIFT (msg_sz m))) (msg_session m)
        (msg_source m) (msg_data m) (msg_sz m AND MESSAGE_TYPE_MASK) ?v = Inr (b, w')" "mqs w' q = mqs ?v q" "ctxs w' a = ctxs ?v a"
      using X unfolding keeps_service_def by metis
    then show ?thesis using w1 c(2) Some by (simp add: plain_ctx_def)
  qed
qed

lemma dispatch_rounds_keeps:
  assumes X: "keeps_service X q a"
  shows "mqs w q = Some r \<Longrightarrow> quiet_queue r \<Longrightarrow> k \<le> length (mq_items r) \<Longrightarrow> ctxs w a = Some c \<Longrightarrow> plain_ctx c \<Longrightarrow>
     \<exists>sm' w' r'. dispatch_rounds X k w sm a q h = Inr (True, sm', w') \<and> mqs w' q = Some r' \<and>
       mq_items r' = drop k (mq_items r)"
proof (induction k arbitrary: w r c sm)
  case 0
  then show ?case by simp
next
  case (Suc k)
  then obtain m ms where items: "mq_items r = m # ms" by (cases "mq_items r") auto
  obtain sm1 w1 r1 c1 where 1: "dispatch_round X w sm a q h = Inr (Some (int (length ms)), sm1, w1)"
      "mqs w1 q = Some r1" "quiet_queue r1" "mq_items r1 = ms" "ctxs w1 a = Some c1" "plain_ctx c1"
    using dispatch_round_keeps [OF X Suc.prems(1,2) items Suc.prems(4,5), of sm h] by blast
  have "k \<le> length (mq_items r1)" using Suc.prems(3) unfolding items 1(4) by simp
  from Suc.IH [OF 1(2,3) this 1(5,6), of sm1] 1(1,4) items show ?case by auto
qed


section \<open>Properties of launching\<close>

text \<open>A module is loaded, and its \<^verbatim>\<open>create\<close> and \<^verbatim>\<open>init\<close> functions return without touching the process
  (\<open>ri\<close> is what \<^verbatim>\<open>init\<close> returns).\<close>

definition quiet_module :: "ext \<Rightarrow> world \<Rightarrow> string \<Rightarrow> nat \<Rightarrow> int \<Rightarrow> bool" where
  "quiet_module X w name m ri \<longleftrightarrow> skynet_module_query X w name = Inr (Some m, w) \<and>
     (\<exists>md. module_at w m = Inr md \<and> mod_init md \<noteq> None \<and> mod_create md = None \<and> mod_release md = None) \<and>
     (\<forall>f inst ctx parm v. x_init X f inst ctx parm v = Inr (ri, v))"

lemma sched_inv_hs [simp]:
  "sched_inv (w\<lparr>hs := s\<rparr>) xs B = sched_inv w xs B"
  "sched_inv (w\<lparr>node := n\<rparr>) xs B = sched_inv w xs B"
  "sched_inv (w\<lparr>ctxs := cs\<rparr>) xs B = sched_inv w xs B"
  "sched_inv (w\<lparr>logger := l\<rparr>) xs B = sched_inv w xs B"
  by (simp_all add: sched_inv_def gq_repr_def)

text \<open>A context that is not in the table does not matter to it.\<close>

lemma table_other:
  assumes "table_inv cs s" and "Some a \<notin> set (slots s)"
  shows "table_inv (cs(a := x)) s" and "registered (cs(a := x)) s = registered cs s"
proof -
  have n: "slots s ! i \<noteq> Some a" if "i < slot_size s" for i
    using assms that table_inv_hash(2) [OF assms(1)] by (auto simp: in_set_conv_nth)
  show "table_inv (cs(a := x)) s" using assms(1) n unfolding table_inv_def by fastforce
  show "registered (cs(a := x)) s = registered cs s"
    using n [OF table_inv_hash(1) [OF assms(1)]] by (auto simp: registered_def fun_eq_iff split: option.splits)
qed

lemma ctx_upd_swap:
  "(c :: skynet_context)\<lparr>ctx_queue := q, ctx_handle := h\<rparr> = c\<lparr>ctx_handle := h, ctx_queue := q\<rparr>"
  by simp

text \<open>The state in which \<^verbatim>\<open>skynet_context_new\<close> calls the module's \<^verbatim>\<open>init\<close>.\<close>

lemma launch_prepared:
  assumes inv: "server_inv w xs B" and mod: "quiet_module X w name m ri"
    and new: "ctxs w a = None" "mqs w q = None" "Some a \<notin> set (slots (hs w))"
    and room: "None \<in> set (slots (hs w)) \<or> slot_size (hs w) < 2 ^ 24"
  obtains h s c w5 where "skynet_context_new X w name param a q =
       (if ri = 0 then launch_done X w5 a q name param else launch_failed X w5 a q name)"
    and "w5 = (put_ctx (w\<lparr>hs := s, mqs := (mqs w)(q \<mapsto> new_mq h)\<rparr>) a c)\<lparr>node := (node w)\<lparr>node_total := node_total (node w) + 1\<rparr>\<rparr>"
    and "c = (fresh_ctx w m (2 ^ 64 - 1))\<lparr>ctx_handle := h, ctx_queue := q\<rparr>"
    and "server_inv w5 xs (insert q B)" and "registered (ctxs w) (hs w) h = None"
    and "registered (ctxs w5) s = (registered (ctxs w) (hs w))(h \<mapsto> a)"
    and "name_map s = name_map (hs w)"
proof -
  let ?c0 = "fresh_ctx w m (2 ^ 64 - 1)" and ?w1 = "put_ctx w a (fresh_ctx w m (2 ^ 64 - 1))"
  note old = server_invD [OF inv]
  note other = table_other [OF old(1) new(3)]
  obtain h s where s: "register_loop (ctxs ?w1) (hs ?w1) a = Inr (h, s)"
      "table_inv ((ctxs ?w1)(a \<mapsto> (?c0\<lparr>ctx_queue := q\<rparr>)\<lparr>ctx_handle := h\<rparr>)) s" "registered (ctxs ?w1) (hs ?w1) h = None"
      "registered ((ctxs ?w1)(a \<mapsto> (?c0\<lparr>ctx_queue := q\<rparr>)\<lparr>ctx_handle := h\<rparr>)) s = (registered (ctxs ?w1) (hs ?w1))(h \<mapsto> a)"
      "names s = names (hs w)" "name_count s = name_count (hs w)" "name_cap s = name_cap (hs w)"
    using register_ok [of "ctxs ?w1" "hs ?w1" a "?c0\<lparr>ctx_queue := q\<rparr>"] other(1) room new(3) by auto
  let ?c = "?c0\<lparr>ctx_handle := h, ctx_queue := q\<rparr>"
  define w5 where "w5 = (put_ctx (w\<lparr>hs := s, mqs := (mqs w)(q \<mapsto> new_mq h)\<rparr>) a ?c)\<lparr>node := (node w)\<lparr>node_total := node_total (node w) + 1\<rparr>\<rparr>"
  have w5: "context_inc (skynet_mq_create (put_ctx (?w1\<lparr>hs := s\<rparr>) a ?c) q h) = w5"
    by (simp add: w5_def context_inc_def skynet_mq_create_def put_ctx_def)
  have f5: "ctxs w5 = (ctxs w)(a \<mapsto> ?c)" "hs w5 = s" "mqs w5 = (mqs w)(q \<mapsto> new_mq h)" "mod_tab w5 = mod_tab w"
    by (simp_all add: w5_def)
  obtain md f where md: "module_at w m = Inr md" "mod_init md = Some f" "mod_create md = None"
    using mod by (auto simp: quiet_module_def)
  have md5: "module_at w5 m = Inr md" using md(1) f5(4) by (simp add: module_at_def)
  have "skynet_context_new X w name param a q =
       (if ri = 0 then launch_done X w5 a q name param else launch_failed X w5 a q name)"
  proof -
    have "skynet_handle_register ?w1 a = Inr (h, ?w1\<lparr>hs := s\<rparr>)" using s(1) by (simp add: skynet_handle_register_def)
    moreover have "skynet_module_instance_init X w5 m (2 ^ 64 - 1) a param = Inr (ri, w5)"
      using md md5 mod by (simp add: skynet_module_instance_init_def quiet_module_def)
    moreover have "skynet_module_instance_create X w m = Inr (Some (2 ^ 64 - 1), w)"
      using md by (simp add: skynet_module_instance_create_def)
    ultimately show ?thesis
      using mod w5 unfolding skynet_context_new_def quiet_module_def by (simp add: Let_def)
  qed
  moreover have reg5: "registered (ctxs w5) s = (registered (ctxs w) (hs w))(h \<mapsto> a)"
    using s(4) by (simp add: f5 ctx_upd_swap other(2))
  moreover have "server_inv w5 xs (insert q B)"
  proof -
    have "sched_inv w5 xs (insert q B)"
      using sched_create [OF old(3) new(2), of h]
      by (simp add: w5_def skynet_mq_create_def put_ctx_def sched_inv_def gq_repr_def)
    moreover have "table_inv (ctxs w5) (hs w5)" using s(2) by (simp add: f5 ctx_upd_swap)
    moreover have "names_inv (hs w5)" using old(2) s(5-7) by (simp add: f5 names_inv_def nlist_def)
    moreover have "1 \<le> ctx_ref d \<and> marked w5 (ctx_queue d) = Some (ctx_handle d, False)"
      if "registered (ctxs w5) (hs w5) g = Some b" "ctxs w5 b = Some d" for g b d
    proof (cases "b = a")
      case True
      then show ?thesis using that by (auto simp: f5 fresh_ctx_def new_mq_def marked_Some)
    next
      case False
      then have "registered (ctxs w) (hs w) g = Some b" "ctxs w b = Some d"
        using that reg5 by (auto simp: f5 split: if_splits)
      then have "1 \<le> ctx_ref d" "marked w (ctx_queue d) = Some (ctx_handle d, False)"
        using inv unfolding server_inv_def by blast+
      then show ?thesis using new(2) by (auto simp: f5 marked_Some)
    qed
    ultimately show ?thesis unfolding server_inv_def by blast
  qed
  moreover have "registered (ctxs w) (hs w) h = None" using s(3) other(2) by simp
  moreover have "name_map s = name_map (hs w)" using s(5-7) by (simp add: name_map_def nlist_def)
  ultimately show thesis using that w5_def by blast
qed

text \<open>\<^verbatim>\<open>skynet_error\<close> never faults and does nothing but push to the logger.\<close>

lemma error_ok:
  assumes inv: "server_inv w xs B" and ctx: "\<And>a. context = Some a \<Longrightarrow> ctxs w a \<noteq> None"
  obtains w' xs' where "skynet_error X w context t = Inr w'" and "server_inv w' xs' B" and "set xs \<subseteq> set xs'"
    and "ctxs w' = ctxs w" and "hs w' = hs w" and "node w' = node w" and "marked w' = marked w"
proof -
  define lg where "lg = (if logger w = 0 then case name_map (hs w) ''logger'' of None \<Rightarrow> 0 | Some h \<Rightarrow> h else logger w)"
  have lg: "(if logger w = 0 then skynet_handle_findname (hs w) ''logger'' else Inr (logger w)) = Inr lg"
    using findname_lookup [OF server_invD(2) [OF inv], of "''logger''"] by (simp add: nul_free_def lg_def)
  let ?w = "w\<lparr>logger := lg\<rparr>"
  have inv1: "server_inv ?w xs B" using inv by (simp add: server_inv_def marked_def)
  have marked1: "marked ?w = marked w" by (simp add: marked_def fun_eq_iff)
  show thesis
  proof (cases "lg = 0")
    case True
    then show thesis using that [of ?w xs] lg inv1 marked1 by (simp add: skynet_error_def)
  next
    case False
    obtain src where src: "(case context of None \<Rightarrow> Inr 0 | Some a \<Rightarrow> skynet_context_handle ?w a) = Inr src"
      using ctx by (cases "context") (auto simp: skynet_context_handle_def)
    let ?m = "\<lparr>msg_source = src, msg_session = 0, msg_data = Bytes (error_data t),
                 msg_sz = of_nat (length t) OR push_bit MESSAGE_TYPE_SHIFT PTYPE_TEXT\<rparr>"
    have e: "skynet_error X w context t = bindR (skynet_context_push X ?w lg ?m) (\<lambda>(_, w2). Inr w2)"
      using lg src False by (simp add: skynet_error_def Let_def)
    show thesis
    proof (cases "registered (ctxs ?w) (hs ?w) lg")
      case None
      then show thesis using that [of ?w xs] e context_push_none [OF inv1 None] inv1 marked1 by simp
    next
      case (Some a)
      obtain c r where c: "ctxs ?w a = Some c" "mqs ?w (ctx_queue c) = Some r" using registered_live [OF inv1 Some] by metis
      obtain w' xs' where "skynet_context_push X ?w lg ?m = Inr (True, w')" "server_inv w' xs' B"
          "same_rest ?w w'" "marked w' = marked ?w" "xs' = (if mq_in_global r then xs else xs @ [ctx_queue c])"
        by (rule context_push_ok [OF inv1 Some c])
      moreover from this have "set xs \<subseteq> set xs'" by auto
      ultimately show thesis using that [of w' xs'] e marked1 same_rest_fields [OF \<open>same_rest ?w w'\<close>] by simp
    qed
  qed
qed

lemma server_inv_ctx:
  assumes inv: "server_inv w xs B" and c: "ctxs w a = Some c" and same: "ctx_handle c' = ctx_handle c" "ctx_queue c' = ctx_queue c"
    and ref: "1 \<le> ctx_ref c'"
  shows "server_inv (put_ctx w a c') xs B" and "registered (ctxs (put_ctx w a c')) (hs w) = registered (ctxs w) (hs w)"
proof -
  have reg: "registered (ctxs (put_ctx w a c')) (hs w) x = registered (ctxs w) (hs w) x" for x
    using c same by (auto simp: registered_def split: option.splits)
  then show "registered (ctxs (put_ctx w a c')) (hs w) = registered (ctxs w) (hs w)" by blast
  have "table_inv (ctxs (put_ctx w a c')) (hs w)"
    using server_invD(1) [OF inv] c same unfolding table_inv_def by (auto split: if_splits)
  then show "server_inv (put_ctx w a c') xs B"
    using inv c same ref reg unfolding server_inv_def by (auto split: if_splits)
qed


lemma server_inv_drop:
  assumes inv: "server_inv w xs (insert q B)" and q: "q \<notin> B" and mq: "mqs w q = Some r" "mq_items r = []"
    and unused: "\<And>h a c. registered (ctxs w) (hs w) h = Some a \<Longrightarrow> ctxs w a = Some c \<Longrightarrow> ctx_queue c \<noteq> q"
    and rel: "mq_release r"
  obtains w' where "skynet_mq_release f w q = Inr w'" and "server_inv w' xs B" and "w' = w\<lparr>mqs := (mqs w)(q := None)\<rparr>"
proof -
  have si: "sched_inv w xs (insert q B)" using inv by (rule server_invD)
  obtain r' w' where w': "skynet_mq_pop r = Inr (None, r')" "mq_free (w\<lparr>mqs := (mqs w)(q \<mapsto> r')\<rparr>) q = Inr w'"
      "sched_inv w' xs (insert q B - {q})"
    using sched_free [OF si mq(1) _ mq(2)] by blast
  have w'_eq: "w' = w\<lparr>mqs := (mqs w)(q := None)\<rparr>" using w'(2) by (auto simp: mq_free_def)
  have "mq_inv r" using sched_ok [OF si mq(1)] by (simp add: queue_ok_def)
  then have "skynet_mq_length r = 0" 
    using mq_length_items [of r] by (simp only: mq(2) list.size of_nat_0)
  then have "skynet_mq_release f w q = Inr w'" using mq rel w'(1,2) by (simp add: skynet_mq_release_def)
  moreover have "server_inv w' xs B"
    using inv w'(3) q unused unfolding server_inv_def w'_eq by (auto simp: marked_Some)
  ultimately show thesis using that w'_eq by blast
qed


section \<open>A running process\<close>

text \<open>A process with one service, for which a module is loaded.\<close>

definition ex_service :: skynet_context where
  "ex_service = ex_ctx\<lparr>ctx_handle := 0x1000001, ctx_queue := 7, ctx_cb := Some 1\<rparr>"

definition ex_module :: skynet_module where
  "ex_module = \<lparr>mod_name = ''snlua'', mod_module = 1, mod_create = None, mod_init = Some 2, mod_release = None, mod_signal = None\<rparr>"

definition ex_server :: "message_queue \<Rightarrow> world" where
  "ex_server r = ex_world\<lparr>mqs := [7 \<mapsto> r], ctxs := [3 \<mapsto> ex_service],
     hs := (hs ex_world)\<lparr>slots := [None, Some 3, None, None]\<rparr>, mod_count := 1, mod_tab := Some ex_module # replicate 31 None\<rparr>"

lemma ex_server_simps [simp]:
  "mqs (ex_server r) = [7 \<mapsto> r]" "ctxs (ex_server r) = [3 \<mapsto> ex_service]"
  "slots (hs (ex_server r)) = [None, Some 3, None, None]" "slot_size (hs (ex_server r)) = 4"
  "harbor_id (ex_server r) = 0x1000000" "harbor (hs (ex_server r)) = 0x1000000" "logger (ex_server r) = 0"
  "gq_head (ex_server r) = None" "gq_tail (ex_server r) = None"
  by (simp_all add: ex_server_def ex_world_def)

lemma ex_hash: "slot_hash 4 0x1000001 = 1"
  by (simp add: slot_hash_def)

lemma ex_registered: "registered (ctxs (ex_server r)) (hs (ex_server r)) 0x1000001 = Some 3"
  by (simp add: registered_def ex_hash ex_service_def)

lemma ex_names: "names_inv (hs (ex_server r)) \<and> name_map (hs (ex_server r)) = Map.empty"
  by (auto simp: names_inv_def nlist_def name_map_def ex_server_def ex_world_def intro: exI [of _ "1 :: nat"])

lemma ex_server_inv:
  assumes "mq_inv r" and "mq_in_global r" and "\<not> mq_release r" and "mq_next r = None" and "mq_handle r = 0x1000001"
  shows "server_inv (ex_server r) [] {7}"
proof -
  have "table_inv (ctxs (ex_server r)) (hs (ex_server r))"
  proof -
    have one: "i = 1 \<and> a = 3" if i: "i < 4" "[None, Some 3, None, None] ! i = Some a" for i and a :: nat
    proof -
      consider "i = 0" | "i = 1" | "i = 2" | "i = 3" using i(1) by linarith
      then show ?thesis using i(2) by cases auto
    qed
    have "\<exists>c. ctxs (ex_server r) a = Some c \<and> slot_hash 4 (ctx_handle c) = i \<and> ctx_handle c AND NOT HANDLE_MASK = 0x1000000"
      if "i < 4" "[None, Some 3, None, None] ! i = Some a" for i a
      using one [OF that] by (simp add: ex_service_def ex_hash HANDLE_MASK_def)
    moreover have "\<exists>k \<ge> 2. k \<le> 24 \<and> (4 :: nat) = 2 ^ k" by (rule exI [of _ 2]) simp
    ultimately show ?thesis unfolding table_inv_def by simp
  qed
  moreover have "sched_inv (ex_server r) [] {7}"
    using assms by (auto simp: sched_inv_def gq_repr_def queue_ok_def split: if_splits)
  moreover have "1 \<le> ctx_ref c \<and> marked (ex_server r) (ctx_queue c) = Some (ctx_handle c, False)"
    if "ctxs (ex_server r) a = Some c" for a c
    using that assms by (auto simp: ex_service_def ex_ctx_def marked_Some split: if_splits)
  ultimately show ?thesis using ex_names unfolding server_inv_def by blast
qed

lemma new_mq_fields [simp]:
  "mq_in_global (new_mq h)" "\<not> mq_release (new_mq h)" "mq_next (new_mq h) = None" "mq_overload (new_mq h) = 0"
  "mq_overload_threshold (new_mq h) = 1024" "mq_handle (new_mq h) = h"
  by (simp_all add: new_mq_def MQ_OVERLOAD_def)

lemma ex_idle: "server_inv (ex_server (new_mq 0x1000001)) [] {7}"
  using new_mq_inv by (intro ex_server_inv) auto

lemma ex_plain: "plain_send 3 (Bytes [1, 2]) 2"
  by (simp add: plain_send_def PTYPE_TAG_ALLOCSESSION_def MESSAGE_TYPE_MASK_def take_bit_eq_mask [symmetric])


lemma send_refused_witness:
  "skynet_send ex_ext (ex_server (new_mq 0x1000001)) None 9 0x1000002 3 5 (Bytes [1, 2]) 2 = Inr (- 1, ex_server (new_mq 0x1000001))"
proof -
  have "slot_hash 4 0x1000002 = 2" by (simp add: slot_hash_def)
  then have "registered (ctxs (ex_server (new_mq 0x1000001))) (hs (ex_server (new_mq 0x1000001))) 0x1000002 = None"
    by (simp add: registered_def)
  then show ?thesis
    using send_refused [OF ex_idle, of 9 "0x1000002" 2 3 "Bytes [1, 2]" ex_ext None 5] ex_plain
    by (simp add: HANDLE_MASK_def)
qed

text \<open>The same process with a message in the queue.\<close>

lemma ex_busy:
  obtains r where "mqs (ex_server r) 7 = Some r" and "quiet_queue r"
    and "mq_items r = [sent_message 9 3 5 (Bytes [1, 2]) 2]" and "plain_ctx ex_service"
proof -
  let ?m = "sent_message 9 3 5 (Bytes [1, 2]) 2"
  let ?r = "(new_mq 0x1000001)\<lparr>mq_tail := 1, mq_queue := Some ?m # replicate 63 None\<rparr>"
  have len: "mq_len ?r = 1" by (simp add: mq_len_def new_mq_def)
  have "mq_inv ?r" using len by (simp add: mq_inv_def mq_at_def) (simp add: new_mq_def DEFAULT_QUEUE_SIZE_def MQ_OVERLOAD_def)
  moreover have "mq_items ?r = [?m]" using len by (simp add: mq_items_def mq_at_def) (simp add: new_mq_def DEFAULT_QUEUE_SIZE_def)
  ultimately show thesis using that [of ?r] len by (simp add: quiet_queue_def plain_ctx_def ex_service_def ex_ctx_def)
qed



lemma ex_quiet_module: "quiet_module (ex_ext\<lparr>x_init := \<lambda>_ _ _ _ w. Inr (ri, w)\<rparr>) (ex_server r) ''snlua'' 0 ri"
proof -
  have "mod_tab (ex_server r) = Some ex_module # replicate 31 None" "mod_count (ex_server r) = 1"
    by (simp_all add: ex_server_def)
  then show ?thesis
    by (simp add: quiet_module_def skynet_module_query_def module_lookup_def query_from.simps module_at_def ex_module_def)
qed



end
