(* ===== verification/Command.thy ===== *)
theory Command
  imports Server
begin

text \<open>
  The text commands of \<^verbatim>\<open>skynet_command\<close> (\<^verbatim>\<open>skynet-src/skynet_server.c\<close>). A command gets the calling
  context and a parameter string and returns a string or \<^verbatim>\<open>NULL\<close>. Results are written into
  the 32 bytes of \<^verbatim>\<open>context->result\<close>; a longer one would overflow it and is a fault of the model.
  A \<^verbatim>\<open>NULL\<close> parameter is \<open>None\<close>. \<open>na\<close> and \<open>nq\<close> are the addresses that \<^verbatim>\<open>skynet_malloc\<close> returns when a
  service is launched.
\<close>

section \<open>Addresses\<close>

definition hex_digit :: "nat \<Rightarrow> char" where
  "hex_digit n = ''0123456789ABCDEF'' ! n"

definition id_to_hex :: "u32 \<Rightarrow> string" where
  "id_to_hex i = CHR '':'' # map (\<lambda>k. hex_digit (unat (drop_bit ((7 - k) * 4) i AND 0xf))) [0..<8]"

definition set_result :: "world \<Rightarrow> caddr \<Rightarrow> string \<Rightarrow> (string option \<times> world) res" where
  "set_result w a s =
     bindR (deref (ctxs w) a) (\<lambda>c.
     if length s < 32 then Inr (Some s, put_ctx w a (c\<lparr>ctx_result := s\<rparr>)) else Inl Out_of_bounds)"

definition skynet_queryname :: "ext \<Rightarrow> world \<Rightarrow> caddr \<Rightarrow> string \<Rightarrow> (u32 \<times> world) res" where
  "skynet_queryname X w context name =
     (if take 1 name = '':'' then Inr (ucast (strtoul 16 (tl name)), w)
      else if take 1 name = ''.'' then bindR (skynet_handle_findname (hs w) (tl name)) (\<lambda>h. Inr (h, w))
      else bindR (skynet_error X w (Some context) (''Don't support query global name '' @ name)) (\<lambda>w1. Inr (0, w1)))"

definition tohandle :: "ext \<Rightarrow> world \<Rightarrow> caddr \<Rightarrow> string \<Rightarrow> (u32 \<times> world) res" where
  "tohandle X w context param =
     (if take 1 param = '':'' then Inr (ucast (strtoul 16 (tl param)), w)
      else if take 1 param = ''.'' then bindR (skynet_handle_findname (hs w) (tl param)) (\<lambda>h. Inr (h, w))
      else bindR (skynet_error X w (Some context) (''Can't convert '' @ param @ '' to handle'')) (\<lambda>w1. Inr (0, w1)))"

section \<open>Ending a service\<close>

definition handle_exit :: "ext \<Rightarrow> world \<Rightarrow> caddr \<Rightarrow> u32 \<Rightarrow> world res" where
  "handle_exit X w context handle =
     bindR (if handle = 0
            then bindR (skynet_context_handle w context) (\<lambda>h.
                 bindR (skynet_error X w (Some context) ''KILL self'') (\<lambda>w1. Inr (h, w1)))
            else bindR (skynet_error X w (Some context) (''KILL :'' @ print_hex handle)) (\<lambda>w1. Inr (handle, w1))) (\<lambda>(h, w1).
     bindR (if node_monitor_exit (node w1) \<noteq> 0
            then bindR (skynet_send X w1 (Some context) h (node_monitor_exit (node w1)) PTYPE_CLIENT 0 Null 0) (\<lambda>(_, w2). Inr w2)
            else Inr w1) (\<lambda>w2.
     bindR (skynet_handle_retire X w2 h) (\<lambda>(_, w3). Inr w3)))"

section \<open>The commands\<close>

definition nonnull_str :: "string option \<Rightarrow> string res" where
  "nonnull_str p = (case p of None \<Rightarrow> Inl Null_deref | Some s \<Rightarrow> Inr s)"

definition cmd_timeout :: "ext \<Rightarrow> world \<Rightarrow> caddr \<Rightarrow> string option \<Rightarrow> (string option \<times> world) res" where
  "cmd_timeout X w context param =
     bindR (nonnull_str param) (\<lambda>p.
     bindR (deref (ctxs w) context) (\<lambda>c.
     let t = word_of_int (fst (strtol 10 p));
         (session, c') = skynet_context_newsession c in
     bindR (skynet_timeout X (put_ctx w context c') (ctx_handle c) t session) (\<lambda>(_, w1).
     set_result w1 context (print_int (sint session)))))"

definition cmd_reg :: "ext \<Rightarrow> world \<Rightarrow> caddr \<Rightarrow> string option \<Rightarrow> (string option \<times> world) res" where
  "cmd_reg X w context param =
     bindR (skynet_context_handle w context) (\<lambda>h.
     if param = None \<or> param = Some [] then set_result w context (CHR '':'' # print_hex h)
     else if take 1 (the param) = ''.'' then skynet_handle_namehandle w h (tl (the param))
     else bindR (skynet_error X w (Some context) (''Can't register global name '' @ the param @ '' in C'')) (\<lambda>w1. Inr (None, w1)))"

definition cmd_query :: "ext \<Rightarrow> world \<Rightarrow> caddr \<Rightarrow> string option \<Rightarrow> (string option \<times> world) res" where
  "cmd_query X w context param =
     bindR (nonnull_str param) (\<lambda>p.
     if take 1 p = ''.'' then
       bindR (skynet_handle_findname (hs w) (tl p)) (\<lambda>handle.
       if handle \<noteq> 0 then set_result w context (CHR '':'' # print_hex handle) else Inr (None, w))
     else Inr (None, w))"

text \<open>\<^verbatim>\<open>sscanf(param, "%s %s", name, handle)\<close>: the first two words. An array for which there is no word
  stays uninitialised, and so does \<^verbatim>\<open>handle[0]\<close>, which is read next.\<close>

definition next_word :: "string \<Rightarrow> string \<times> string" where
  "next_word s = (let t = dropWhile isspace s in (takeWhile (\<lambda>c. \<not> isspace c) t, dropWhile (\<lambda>c. \<not> isspace c) t))"

definition cmd_name :: "ext \<Rightarrow> world \<Rightarrow> caddr \<Rightarrow> string option \<Rightarrow> (string option \<times> world) res" where
  "cmd_name X w context param =
     bindR (nonnull_str param) (\<lambda>p.
     let (name, rest) = next_word p; (handle, _) = next_word rest in
     if handle = [] then Inl Uninitialised
     else if hd handle \<noteq> CHR '':'' then Inr (None, w)
     else
       let handle_id = ucast (strtoul 16 (tl handle)) :: u32 in
       if handle_id = 0 then Inr (None, w)
       else if take 1 name = ''.'' then skynet_handle_namehandle w handle_id (tl name)
       else bindR (skynet_error X w (Some context) (''Can't set global name '' @ name @ '' in C'')) (\<lambda>w1. Inr (None, w1)))"

definition cmd_exit :: "ext \<Rightarrow> world \<Rightarrow> caddr \<Rightarrow> string option \<Rightarrow> (string option \<times> world) res" where
  "cmd_exit X w context param = bindR (handle_exit X w context 0) (\<lambda>w1. Inr (None, w1))"

definition cmd_kill :: "ext \<Rightarrow> world \<Rightarrow> caddr \<Rightarrow> string option \<Rightarrow> (string option \<times> world) res" where
  "cmd_kill X w context param =
     bindR (nonnull_str param) (\<lambda>p.
     bindR (tohandle X w context p) (\<lambda>(handle, w1).
     if handle \<noteq> 0 then bindR (handle_exit X w1 context handle) (\<lambda>w2. Inr (None, w2)) else Inr (None, w1)))"

text \<open>\<^verbatim>\<open>strsep\<close>: the text up to the first delimiter, and the rest behind it or \<^verbatim>\<open>NULL\<close>.\<close>

definition strsep :: "string option \<Rightarrow> string \<Rightarrow> string option \<times> string option" where
  "strsep p delims =
     (case p of
        None \<Rightarrow> (None, None)
      | Some s \<Rightarrow>
          let tok = takeWhile (\<lambda>c. c \<notin> set delims) s in
          (Some tok, if length tok < length s then Some (drop (Suc (length tok)) s) else None))"

definition cmd_launch :: "ext \<Rightarrow> caddr \<Rightarrow> qaddr \<Rightarrow> world \<Rightarrow> caddr \<Rightarrow> string option \<Rightarrow> (string option \<times> world) res" where
  "cmd_launch X na nq w context param =
     bindR (nonnull_str param) (\<lambda>p.
     let (m, args) = strsep (Some p) [CHR '' '', CHR 0x09, CHR 0x0D, CHR 0x0A];
         (args', _) = strsep args [CHR 0x0D, CHR 0x0A] in
     bindR (skynet_context_new X w (the m) args' na nq) (\<lambda>(inst, w1).
     case inst of
       None \<Rightarrow> Inr (None, w1)
     | Some a \<Rightarrow> bindR (skynet_context_handle w1 a) (\<lambda>h. set_result w1 context (id_to_hex h))))"

definition cmd_getenv :: "world \<Rightarrow> string option \<Rightarrow> (string option \<times> world) res" where
  "cmd_getenv w param = bindR (nonnull_str param) (\<lambda>p. Inr (skynet_getenv w p, w))"

definition cmd_setenv :: "world \<Rightarrow> string option \<Rightarrow> (string option \<times> world) res" where
  "cmd_setenv w param =
     bindR (nonnull_str param) (\<lambda>p.
     let key = takeWhile (\<lambda>c. c \<noteq> CHR '' '') p in
     if length key = length p then Inr (None, w)
     else bindR (skynet_setenv w key (drop (length key + 1) p)) (\<lambda>w1. Inr (None, w1)))"

definition cmd_starttime :: "world \<Rightarrow> caddr \<Rightarrow> (string option \<times> world) res" where
  "cmd_starttime w context = set_result w context (print_dec (unat (starttime (ti w))))"

definition cmd_abort :: "ext \<Rightarrow> world \<Rightarrow> (string option \<times> world) res" where
  "cmd_abort X w = bindR (skynet_handle_retireall X w) (\<lambda>w1. Inr (None, w1))"

definition cmd_monitor :: "ext \<Rightarrow> world \<Rightarrow> caddr \<Rightarrow> string option \<Rightarrow> (string option \<times> world) res" where
  "cmd_monitor X w context param =
     (if param = None \<or> param = Some [] then
        if node_monitor_exit (node w) \<noteq> 0
        then set_result w context (CHR '':'' # print_hex (node_monitor_exit (node w)))
        else Inr (None, w)
      else
        bindR (tohandle X w context (the param)) (\<lambda>(handle, w1).
        Inr (None, w1\<lparr>node := (node w1)\<lparr>node_monitor_exit := handle\<rparr>\<rparr>)))"

definition cmd_stat :: "ext \<Rightarrow> world \<Rightarrow> caddr \<Rightarrow> string option \<Rightarrow> (string option \<times> world) res" where
  "cmd_stat X w context param =
     bindR (nonnull_str param) (\<lambda>p.
     bindR (deref (ctxs w) context) (\<lambda>c.
     if p = ''mqlen'' then
       bindR (deref (mqs w) (ctx_queue c)) (\<lambda>r. set_result w context (print_int (skynet_mq_length r)))
     else if p = ''endless'' then
       if ctx_endless c then set_result (put_ctx w context (c\<lparr>ctx_endless := False\<rparr>)) context ''1''
       else set_result w context ''0''
     else if p = ''cpu'' then set_result w context (x_lf X (ctx_cpu_cost c))
     else if p = ''time'' then
       if ctx_profile c then
         let (t, w1) = thread_time X w in set_result w1 context (x_lf X (t - ctx_cpu_start c))
       else set_result w context ''0''
     else if p = ''message'' then set_result w context (print_dec (ctx_message_count c))
     else set_result w context []))"

definition cmd_logon :: "ext \<Rightarrow> world \<Rightarrow> caddr \<Rightarrow> string option \<Rightarrow> (string option \<times> world) res" where
  "cmd_logon X w context param =
     bindR (nonnull_str param) (\<lambda>p.
     bindR (tohandle X w context p) (\<lambda>(handle, w1).
     if handle = 0 then Inr (None, w1)
     else
       bindR (skynet_handle_grab w1 handle) (\<lambda>(r, w2).
       case r of
         None \<Rightarrow> Inr (None, w2)
       | Some ctx \<Rightarrow>
           bindR (deref (ctxs w2) ctx) (\<lambda>c.
           bindR (if ctx_logfile c = None then
                    bindR (skynet_log_open X w2 (Some context) handle) (\<lambda>(f, w3).
                    bindR (deref (ctxs w3) ctx) (\<lambda>c3.
                    Inr (if f \<noteq> None \<and> ctx_logfile c3 = None then put_ctx w3 ctx (c3\<lparr>ctx_logfile := f\<rparr>) else w3)))
                  else Inr w2) (\<lambda>w3.
           bindR (skynet_context_release X w3 ctx) (\<lambda>(_, w4). Inr (None, w4)))))))"

definition cmd_logoff :: "ext \<Rightarrow> world \<Rightarrow> caddr \<Rightarrow> string option \<Rightarrow> (string option \<times> world) res" where
  "cmd_logoff X w context param =
     bindR (nonnull_str param) (\<lambda>p.
     bindR (tohandle X w context p) (\<lambda>(handle, w1).
     if handle = 0 then Inr (None, w1)
     else
       bindR (skynet_handle_grab w1 handle) (\<lambda>(r, w2).
       case r of
         None \<Rightarrow> Inr (None, w2)
       | Some ctx \<Rightarrow>
           bindR (deref (ctxs w2) ctx) (\<lambda>c.
           bindR (case ctx_logfile c of
                    Some f \<Rightarrow> skynet_log_close X (put_ctx w2 ctx (c\<lparr>ctx_logfile := None\<rparr>)) (Some context) f handle
                  | None \<Rightarrow> Inr w2) (\<lambda>w3.
           bindR (skynet_context_release X w3 ctx) (\<lambda>(_, w4). Inr (None, w4)))))))"

definition cmd_signal :: "ext \<Rightarrow> world \<Rightarrow> caddr \<Rightarrow> string option \<Rightarrow> (string option \<times> world) res" where
  "cmd_signal X w context param =
     bindR (nonnull_str param) (\<lambda>p.
     bindR (tohandle X w context p) (\<lambda>(handle, w1).
     if handle = 0 then Inr (None, w1)
     else
       bindR (skynet_handle_grab w1 handle) (\<lambda>(r, w2).
       case r of
         None \<Rightarrow> Inr (None, w2)
       | Some ctx \<Rightarrow>
           bindR (deref (ctxs w2) ctx) (\<lambda>c.
           let rest = dropWhile (\<lambda>ch. ch \<noteq> CHR '' '') p;
               sig = (if rest = [] then 0 else sint (word_of_int (fst (strtol 0 rest)) :: u32)) in
           bindR (skynet_module_instance_signal X w2 (ctx_mod c) (ctx_instance c) sig) (\<lambda>w3.
           bindR (skynet_context_release X w3 ctx) (\<lambda>(_, w4). Inr (None, w4)))))))"

text \<open>The table \<^verbatim>\<open>cmd_funcs\<close> and the search in it.\<close>

definition cmd_funcs :: "ext \<Rightarrow> caddr \<Rightarrow> qaddr \<Rightarrow> (string \<times> (world \<Rightarrow> caddr \<Rightarrow> string option \<Rightarrow> (string option \<times> world) res)) list" where
  "cmd_funcs X na nq =
     [(''TIMEOUT'', cmd_timeout X), (''REG'', cmd_reg X), (''QUERY'', cmd_query X), (''NAME'', cmd_name X),
      (''EXIT'', cmd_exit X), (''KILL'', cmd_kill X), (''LAUNCH'', cmd_launch X na nq),
      (''GETENV'', \<lambda>w _ p. cmd_getenv w p), (''SETENV'', \<lambda>w _ p. cmd_setenv w p),
      (''STARTTIME'', \<lambda>w c _. cmd_starttime w c), (''ABORT'', \<lambda>w _ _. cmd_abort X w), (''MONITOR'', cmd_monitor X),
      (''STAT'', cmd_stat X), (''LOGON'', cmd_logon X), (''LOGOFF'', cmd_logoff X), (''SIGNAL'', cmd_signal X)]"

fun find_cmd :: "(string \<times> 'f) list \<Rightarrow> string \<Rightarrow> 'f option" where
  "find_cmd [] cmd = None"
| "find_cmd ((name, f) # ms) cmd = (if strcmp cmd name = 0 then Some f else find_cmd ms cmd)"

definition skynet_command :: "ext \<Rightarrow> caddr \<Rightarrow> qaddr \<Rightarrow> world \<Rightarrow> caddr \<Rightarrow> string \<Rightarrow> string option \<Rightarrow> (string option \<times> world) res" where
  "skynet_command X na nq w context cmd param =
     (case find_cmd (cmd_funcs X na nq) cmd of
        Some f \<Rightarrow> f w context param
      | None \<Rightarrow> Inr (None, w))"

end
