(* ===== verification/Chunk.thy ===== *)
theory Chunk
  imports Prelude
begin

text \<open>
  The buffers of the Lua bindings. A function that returns a string fills a buffer of
  \<^verbatim>\<open>SMALL_CHUNK\<close> bytes on its stack, or one allocated by \<^verbatim>\<open>lua_newuserdata\<close> when that is too small,
  and gives the first \<open>n\<close> bytes to \<^verbatim>\<open>lua_pushlstring\<close>. The cells of a buffer hold \<open>None\<close> until they are
  written; pushing an unwritten cell or one behind the end of the buffer is a fault.
\<close>

definition SMALL_CHUNK :: nat where "SMALL_CHUNK = 256"

definition chunk_buffer :: "nat \<Rightarrow> byte option list" where
  "chunk_buffer n = replicate (if n > SMALL_CHUNK then n else SMALL_CHUNK) None"

definition read_bytes :: "'a option list \<Rightarrow> nat \<Rightarrow> 'a list res" where
  "read_bytes buf n =
     (if n \<le> length buf
      then if None \<in> set (take n buf) then Inl Uninitialised else Inr (map the (take n buf))
      else Inl Out_of_bounds)"

abbreviation lua_pushlstring :: "'a option list \<Rightarrow> nat \<Rightarrow> 'a list res" where
  "lua_pushlstring \<equiv> read_bytes"

lemma chunk_buffer_length [simp]: "n \<le> length (chunk_buffer n)"
  by (simp add: chunk_buffer_def)

lemma pushlstring_prefix [simp]: "n = length xs \<Longrightarrow> lua_pushlstring (map Some xs @ ys) n = Inr xs"
  by (auto simp: read_bytes_def o_def)

text \<open>A buffer is filled from the left: the next bytes are written right behind those already there.\<close>

lemma memcpyR_next [simp]:
  assumes "i = length xs" and "length xs + length ys \<le> length buf"
  shows "memcpyR (xs @ drop i buf) i ys = Inr ((xs @ ys) @ drop (i + length ys) buf)"
  using assms by (simp add: memcpyR_def add.commute)

text \<open>A loop that writes \<open>c\<close> bytes per iteration, one group behind the other.\<close>

lemma forR_fill:
  assumes step: "\<And>i b. i < n \<Longrightarrow> f i b = memcpyR b (c * i) (map Some (g i))"
    and len: "\<And>i. i < n \<Longrightarrow> length (g i) = c" and room: "c * n \<le> length buf"
  shows "forR n f buf = Inr (map Some (concat (map g [0..<n])) @ drop (c * n) buf)"
proof -
  let ?st = "\<lambda>i. map Some (concat (map g [0..<i])) @ drop (c * i) buf"
  have "\<exists>t. forR n f buf = Inr t \<and> t = ?st n"
  proof (rule forR_invariant)
    fix i t assume i: "i < n" and t: "t = ?st i"
    have "length (concat (map g [0..<i])) = c * i"
      using len i by (induction i) auto
    moreover have "c * i + c \<le> length buf"
      using room mult_le_mono2 [of "Suc i" n c] i by simp
    ultimately show "\<exists>t'. f i t = Inr t' \<and> t' = ?st (Suc i)"
      using step [OF i, of t] len [OF i] memcpyR_next [of "c * i" "map Some (concat (map g [0..<i]))" "map Some (g i)" buf]
      by (simp add: t add.commute)
  qed simp
  then show ?thesis by simp
qed

text \<open>Bytes of little- and big-endian words.\<close>

lemma byte_of_word [simp]:
  fixes b :: byte
  shows "ucast (ucast b :: u32) = b"
  by (rule bit_word_eqI) (simp add: bit_simps)

end
