(* ===== verification/Netpack.thy ===== *)
theory Netpack
  imports Server Chunk
begin

text \<open>
  The message framing of \<^verbatim>\<open>lualib-src/lua-netpack.c\<close>: the bytes that a socket delivers are cut into packages of
  a big-endian size of two bytes and that many bytes of data. An incomplete package waits in a hash table until the
  rest arrives; complete ones are returned or put into a ring of packages. The queue is a Lua userdata, \<open>None\<close> stands for
  \<^verbatim>\<open>nil\<close>. A bucket of the hash table is a list. The cells of a buffer that \<^verbatim>\<open>skynet_malloc\<close> has returned are \<open>None\<close>
  until they are written. A pair of a pointer and a size is the list of the bytes it covers.
\<close>

section \<open>Data\<close>

definition QUEUESIZE :: nat where "QUEUESIZE = 1024"

definition HASHSIZE :: nat where "HASHSIZE = 4096"

record netpack =
  np_id :: int
  np_size :: int
  np_buffer :: "byte option list"

record uncomplete =
  uc_id :: int
  uc_size :: int
  uc_buffer :: "byte option list"
  uc_read :: int
  uc_header :: int

record queue =
  q_cap :: nat
  q_head :: nat
  q_tail :: nat
  q_hash :: "uncomplete list list"
  q_queue :: "netpack option list"

text \<open>What the function returns to Lua behind the queue: nothing, a package, the type "more", or the other events of a socket.\<close>

datatype event =
    E_none
  | E_data int "byte option list" int
  | E_more
  | E_open int "byte list"
  | E_close int
  | E_error int "byte list"
  | E_warning int int

section \<open>Incomplete packages\<close>

definition hash_fd :: "int \<Rightarrow> nat" where
  "hash_fd fd = unat (word_of_int (drop_bit 24 fd + drop_bit 12 fd + fd) :: u32) mod HASHSIZE"

fun unlink :: "uncomplete list \<Rightarrow> int \<Rightarrow> uncomplete option \<times> uncomplete list" where
  "unlink [] fd = (None, [])"
| "unlink (uc # us) fd =
     (if uc_id uc = fd then (Some uc, us) else let (r, us') = unlink us fd in (r, uc # us'))"

definition find_uncomplete :: "queue option \<Rightarrow> int \<Rightarrow> (uncomplete option \<times> queue option) res" where
  "find_uncomplete qo fd =
     (case qo of
        None \<Rightarrow> Inr (None, None)
      | Some q \<Rightarrow>
          let h = hash_fd fd in
          bindR (rd (q_hash q) h) (\<lambda>bucket.
          let (r, bucket') = unlink bucket fd in
          Inr (r, Some (q\<lparr>q_hash := (q_hash q)[h := bucket']\<rparr>))))"

definition get_queue :: "queue option \<Rightarrow> queue" where
  "get_queue qo =
     (case qo of
        Some q \<Rightarrow> q
      | None \<Rightarrow> \<lparr>q_cap = QUEUESIZE, q_head = 0, q_tail = 0, q_hash = replicate HASHSIZE [],
          q_queue = replicate QUEUESIZE None\<rparr>)"

definition link_uncomplete :: "queue \<Rightarrow> uncomplete \<Rightarrow> queue res" where
  "link_uncomplete q uc =
     (let h = hash_fd (uc_id uc) in
      bindR (rd (q_hash q) h) (\<lambda>bucket. Inr (q\<lparr>q_hash := (q_hash q)[h := uc # bucket]\<rparr>)))"

text \<open>\<^verbatim>\<open>save_uncomplete\<close> links a zeroed struct, whose fields the caller then sets.\<close>

definition save_uncomplete :: "queue option \<Rightarrow> int \<Rightarrow> (uncomplete \<Rightarrow> uncomplete) \<Rightarrow> queue res" where
  "save_uncomplete qo fd set_fields =
     link_uncomplete (get_queue qo)
       (set_fields \<lparr>uc_id = fd, uc_size = 0, uc_buffer = [], uc_read = 0, uc_header = 0\<rparr>)"

section \<open>The ring of packages\<close>

definition expand_ring :: "queue \<Rightarrow> queue res" where
  "expand_ring q =
     bindR (forR (q_cap q) (\<lambda>i nq.
              let idx = (q_head q + i) mod q_cap q in
              bindR (rd (q_queue q) idx) (\<lambda>np. wr nq i np))
            (replicate (QUEUESIZE + q_cap q) None)) (\<lambda>nq.
     Inr \<lparr>q_cap = q_cap q + QUEUESIZE, q_head = 0, q_tail = q_cap q, q_hash = q_hash q, q_queue = nq\<rparr>)"

definition push_data :: "queue option \<Rightarrow> int \<Rightarrow> byte option list \<Rightarrow> queue res" where
  "push_data qo fd buffer =
     (let q = get_queue qo;
          np = \<lparr>np_id = fd, np_size = int (length buffer), np_buffer = buffer\<rparr> in
      bindR (wr (q_queue q) (q_tail q) (Some np)) (\<lambda>cells.
      let t = q_tail q + 1; t = (if t \<ge> q_cap q then t - q_cap q else t);
          q = q\<lparr>q_queue := cells, q_tail := t\<rparr> in
      if q_head q = q_tail q then expand_ring q else Inr q))"

definition lpop :: "queue option \<Rightarrow> (netpack option \<times> queue option) res" where
  "lpop qo =
     (case qo of
        None \<Rightarrow> Inr (None, None)
      | Some q \<Rightarrow>
          if q_head q = q_tail q then Inr (None, qo)
          else
            bindR (rd (q_queue q) (q_head q)) (\<lambda>cell.
            bindR (initialised cell) (\<lambda>np.
            Inr (Some np, Some (q\<lparr>q_head := (if q_head q + 1 \<ge> q_cap q then 0 else q_head q + 1)\<rparr>)))))"

text \<open>\<^verbatim>\<open>clear\<close> also frees what the queue holds.\<close>

definition lclear :: "queue option \<Rightarrow> queue option" where
  "lclear qo = map_option (\<lambda>q. q\<lparr>q_hash := replicate HASHSIZE [], q_head := 0, q_tail := 0\<rparr>) qo"

section \<open>Cutting data into packages\<close>

definition read_size :: "byte list \<Rightarrow> nat res" where
  "read_size buffer =
     bindR (rd buffer 0) (\<lambda>b0. bindR (rd buffer 1) (\<lambda>b1. Inr (nat (push_bit 8 (uint b0) OR uint b1))))"

definition keep_header :: "queue option \<Rightarrow> int \<Rightarrow> byte list \<Rightarrow> queue res" where
  "keep_header qo fd buffer =
     bindR (rd buffer 0) (\<lambda>b. save_uncomplete qo fd (\<lambda>uc. uc\<lparr>uc_read := -1, uc_header := uint b\<rparr>))"

definition keep_part :: "queue option \<Rightarrow> int \<Rightarrow> nat \<Rightarrow> byte list \<Rightarrow> queue res" where
  "keep_part qo fd pack_size buffer =
     bindR (memcpyR (replicate pack_size None) 0 (map Some buffer)) (\<lambda>cells.
     save_uncomplete qo fd (\<lambda>uc. uc\<lparr>uc_read := int (length buffer), uc_size := int pack_size, uc_buffer := cells\<rparr>))"

function push_more :: "queue option \<Rightarrow> int \<Rightarrow> byte list \<Rightarrow> queue res" where
  "push_more qo fd buffer =
     (if length buffer = 1 then keep_header qo fd buffer
      else
        bindR (read_size buffer) (\<lambda>pack_size.
        let buffer' = drop 2 buffer in
        if length buffer' < pack_size then keep_part qo fd pack_size buffer'
        else
          bindR (push_data qo fd (map Some (take pack_size buffer'))) (\<lambda>q.
          let rest = drop pack_size buffer' in
          if length rest > 0 then push_more (Some q) fd rest else Inr q)))"
  by pat_completeness auto
termination
  by (relation "measure (\<lambda>(qo, fd, buffer). length buffer)") (auto simp: read_size_def rd_def split: if_splits)

declare push_more.simps [simp del]

definition close_uncomplete :: "queue option \<Rightarrow> int \<Rightarrow> queue option res" where
  "close_uncomplete qo fd = bindR (find_uncomplete qo fd) (\<lambda>(_, qo'). Inr qo')"

definition complete_header :: "uncomplete \<Rightarrow> byte list \<Rightarrow> (uncomplete \<times> byte list) res" where
  "complete_header uc buffer =
     (if uc_read uc < 0 then
        bindR (assertR (uc_read uc = -1)) (\<lambda>_.
        bindR (rd buffer 0) (\<lambda>b.
        let pack_size = uint b OR push_bit 8 (uc_header uc) in
        Inr (uc\<lparr>uc_size := pack_size, uc_buffer := replicate (nat pack_size) None, uc_read := 0\<rparr>, tl buffer)))
      else Inr (uc, buffer))"

definition filter_data' :: "queue option \<Rightarrow> int \<Rightarrow> byte list \<Rightarrow> (event \<times> queue option) res" where
  "filter_data' qo fd buffer =
     bindR (find_uncomplete qo fd) (\<lambda>(r, qo).
     case r of
       Some uc \<Rightarrow>
         bindR (complete_header uc buffer) (\<lambda>(uc, buffer).
         let need = nat (uc_size uc - uc_read uc) in
         if length buffer < need then
           bindR (memcpyR (uc_buffer uc) (nat (uc_read uc)) (map Some buffer)) (\<lambda>cells.
           bindR (link_uncomplete (the qo) (uc\<lparr>uc_buffer := cells, uc_read := uc_read uc + int (length buffer)\<rparr>)) (\<lambda>q.
           Inr (E_none, Some q)))
         else
           bindR (memcpyR (uc_buffer uc) (nat (uc_read uc)) (map Some (take need buffer))) (\<lambda>cells.
           let rest = drop need buffer in
           if length rest = 0 then Inr (E_data fd cells (uc_size uc), qo)
           else
             bindR (push_data qo fd cells) (\<lambda>q.
             bindR (push_more (Some q) fd rest) (\<lambda>q.
             Inr (E_more, Some q)))))
     | None \<Rightarrow>
         if length buffer = 1 then bindR (keep_header qo fd buffer) (\<lambda>q. Inr (E_none, Some q))
         else
           bindR (read_size buffer) (\<lambda>pack_size.
           let buffer = drop 2 buffer in
           if length buffer < pack_size then bindR (keep_part qo fd pack_size buffer) (\<lambda>q. Inr (E_none, Some q))
           else if length buffer = pack_size then Inr (E_data fd (map Some buffer) (int (length buffer)), qo)
           else
             bindR (push_data qo fd (map Some (take pack_size buffer))) (\<lambda>q.
             bindR (push_more (Some q) fd (drop pack_size buffer)) (\<lambda>q.
             Inr (E_more, Some q)))))"

text \<open>\<^verbatim>\<open>filter_data\<close> frees the buffer afterwards, which no part of the queue points into.\<close>

definition filter_data :: "queue option \<Rightarrow> int \<Rightarrow> byte list \<Rightarrow> (event \<times> queue option) res" where
  "filter_data qo fd buffer = filter_data' qo fd buffer"

definition SKYNET_SOCKET_TYPE_DATA :: int where "SKYNET_SOCKET_TYPE_DATA = 1"
definition SKYNET_SOCKET_TYPE_CONNECT :: int where "SKYNET_SOCKET_TYPE_CONNECT = 2"
definition SKYNET_SOCKET_TYPE_CLOSE :: int where "SKYNET_SOCKET_TYPE_CLOSE = 3"
definition SKYNET_SOCKET_TYPE_ACCEPT :: int where "SKYNET_SOCKET_TYPE_ACCEPT = 4"
definition SKYNET_SOCKET_TYPE_ERROR :: int where "SKYNET_SOCKET_TYPE_ERROR = 5"
definition SKYNET_SOCKET_TYPE_WARNING :: int where "SKYNET_SOCKET_TYPE_WARNING = 7"

lemmas socket_types = SKYNET_SOCKET_TYPE_DATA_def SKYNET_SOCKET_TYPE_CONNECT_def SKYNET_SOCKET_TYPE_CLOSE_def
  SKYNET_SOCKET_TYPE_ACCEPT_def SKYNET_SOCKET_TYPE_ERROR_def SKYNET_SOCKET_TYPE_WARNING_def

text \<open>\<^verbatim>\<open>filter\<close>: the message of the socket thread is a struct with a buffer, or with a string behind it when the buffer
  is \<^verbatim>\<open>NULL\<close>. With a buffer the size of the string is set to -1, which \<^verbatim>\<open>lua_pushlstring\<close> would take for a huge one.\<close>

definition lfilter :: "ext \<Rightarrow> world \<Rightarrow> queue option \<Rightarrow> payload \<Rightarrow> (event \<times> queue option \<times> world) res" where
  "lfilter X w qo message =
     (case message of
        Socket_msg type sid ud buffer pad \<Rightarrow>
          bindR (skynet_error X w None (''message->type : '' @ print_int type)) (\<lambda>w.
          let str = (case buffer of None \<Rightarrow> Inr pad | Some _ \<Rightarrow> Inl Out_of_bounds) in
          if type = SKYNET_SOCKET_TYPE_DATA then
            (case buffer of
               None \<Rightarrow> Inl Assert_failed
             | Some b \<Rightarrow>
                 if ud < 0 \<or> int (length b) < ud then Inl Out_of_bounds
                 else bindR (filter_data qo sid (take (nat ud) b)) (\<lambda>(e, qo). Inr (e, qo, w)))
          else if type = SKYNET_SOCKET_TYPE_CONNECT then Inr (E_none, qo, w)
          else if type = SKYNET_SOCKET_TYPE_CLOSE then bindR (close_uncomplete qo sid) (\<lambda>qo. Inr (E_close sid, qo, w))
          else if type = SKYNET_SOCKET_TYPE_ACCEPT then bindR str (\<lambda>s. Inr (E_open ud s, qo, w))
          else if type = SKYNET_SOCKET_TYPE_ERROR then bindR (close_uncomplete qo sid) (\<lambda>qo. bindR str (\<lambda>s. Inr (E_error sid s, qo, w)))
          else if type = SKYNET_SOCKET_TYPE_WARNING then Inr (E_warning sid ud, qo, w)
          else Inr (E_none, qo, w))
      | _ \<Rightarrow> Inl Null_deref)"

definition write_size :: "nat \<Rightarrow> byte list" where
  "write_size len = [of_nat (len div 256 mod 256), of_nat (len mod 256)]"

definition lpack :: "byte list \<Rightarrow> byte list res" where
  "lpack ptr =
     (if length ptr \<ge> 0x10000 then Inl (Lua_error ''Invalid size (too long) of data : %d'')
      else Inr (write_size (length ptr) @ ptr))"

definition ltostring :: "byte option list option \<Rightarrow> nat \<Rightarrow> byte list res" where
  "ltostring ptr sz = (case ptr of None \<Rightarrow> Inr [] | Some cells \<Rightarrow> read_bytes cells sz)"

section \<open>The ring as a list\<close>

definition ring_len :: "queue \<Rightarrow> nat" where
  "ring_len q = (if q_head q \<le> q_tail q then q_tail q - q_head q else q_tail q + q_cap q - q_head q)"

definition ring :: "queue \<Rightarrow> nat \<Rightarrow> netpack option list" where
  "ring q n = map (\<lambda>i. q_queue q ! ((q_head q + i) mod q_cap q)) [0..<n]"

definition packs :: "queue \<Rightarrow> netpack list" where
  "packs q = map the (ring q (ring_len q))"

definition ring_inv :: "queue \<Rightarrow> bool" where
  "ring_inv q \<longleftrightarrow> q_head q < q_cap q \<and> q_tail q < q_cap q \<and> length (q_queue q) = q_cap q \<and> None \<notin> set (ring q (ring_len q))"

lemma ring_len_less: "ring_inv q \<Longrightarrow> ring_len q < q_cap q"
  by (auto simp: ring_inv_def ring_len_def)

lemma ring_tail: "ring_inv q \<Longrightarrow> (q_head q + ring_len q) mod q_cap q = q_tail q"
  by (auto simp: ring_inv_def ring_len_def)

lemma ring_index_inj:
  assumes "i < j" and "j < (n :: nat)" and "h < n"
  shows "(h + i) mod n \<noteq> (h + j) mod n"
proof -
  have "(h + i) mod n = (if h + i < n then h + i else h + i - n)" "(h + j) mod n = (if h + j < n then h + j else h + j - n)"
    using assms by (simp_all add: mod_if)
  then show ?thesis using assms by auto
qed

lemma ring_stored:
  assumes "ring_inv q"
  shows "ring (q\<lparr>q_queue := (q_queue q)[q_tail q := x], q_tail := t\<rparr>) (Suc (ring_len q)) = ring q (ring_len q) @ [x]"
proof -
  have "q_tail q \<noteq> (q_head q + i) mod q_cap q" if "i < ring_len q" for i
    using ring_index_inj [OF that ring_len_less [OF assms], of "q_head q"] ring_tail [OF assms] assms
    by (simp add: ring_inv_def)
  then show ?thesis using ring_tail [OF assms] assms by (auto simp: ring_def ring_inv_def)
qed

lemma ring_from_0: "q_head q = 0 \<Longrightarrow> n \<le> q_cap q \<Longrightarrow> n \<le> length (q_queue q) \<Longrightarrow> ring q n = take n (q_queue q)"
  by (rule nth_equalityI) (auto simp: ring_def)

lemma expand_ring_ok:
  assumes "length (q_queue q) = q_cap q" and "0 < q_cap q"
  shows "expand_ring q = Inr \<lparr>q_cap = q_cap q + QUEUESIZE, q_head = 0, q_tail = q_cap q, q_hash = q_hash q,
     q_queue = ring q (q_cap q) @ replicate QUEUESIZE None\<rparr>"
proof -
  let ?f = "\<lambda>i nq. let idx = (q_head q + i) mod q_cap q in bindR (rd (q_queue q) idx) (\<lambda>np. wr nq i np)"
  have "\<exists>t. forR (q_cap q) ?f (replicate (QUEUESIZE + q_cap q) None) = Inr t \<and>
      t = ring q (q_cap q) @ replicate (QUEUESIZE + q_cap q - q_cap q) None"
  proof (rule forR_invariant [where P = "\<lambda>k t. t = ring q k @ replicate (QUEUESIZE + q_cap q - k) None"])
    fix k t assume k: "k < q_cap q" and t: "t = ring q k @ replicate (QUEUESIZE + q_cap q - k) None"
    obtain m where m: "QUEUESIZE + q_cap q - k = Suc m" using k by (cases "QUEUESIZE + q_cap q - k") auto
    have "length (ring q k) = k" by (simp add: ring_def)
    then have "t[k := x] = ring q k @ x # replicate m None" for x by (simp add: t m list_update_append)
    moreover have "QUEUESIZE + q_cap q - Suc k = m" using m by simp
    ultimately show "\<exists>t'. ?f k t = Inr t' \<and> t' = ring q (Suc k) @ replicate (QUEUESIZE + q_cap q - Suc k) None"
      using k assms by (simp add: Let_def wr_def t \<open>length (ring q k) = k\<close>) (simp add: ring_def)
  qed (simp add: ring_def)
  then show ?thesis by (simp add: expand_ring_def)
qed

definition new_pack :: "int \<Rightarrow> byte option list \<Rightarrow> netpack" where
  "new_pack fd buffer = \<lparr>np_id = fd, np_size = int (length buffer), np_buffer = buffer\<rparr>"

lemma push_data_ok:
  assumes inv: "ring_inv q"
  obtains q' where "push_data (Some q) fd buffer = Inr q'" and "ring_inv q'" and "packs q' = packs q @ [new_pack fd buffer]"
    and "q_hash q' = q_hash q"
proof -
  let ?np = "new_pack fd buffer"
  define t where "t = (if q_tail q + 1 \<ge> q_cap q then q_tail q + 1 - q_cap q else q_tail q + 1)"
  define q1 where "q1 = q\<lparr>q_queue := (q_queue q)[q_tail q := Some ?np], q_tail := t\<rparr>"
  have r: "ring q1 (Suc (ring_len q)) = ring q (ring_len q) @ [Some ?np]"
    using ring_stored [OF inv] by (simp add: q1_def)
  have init: "None \<notin> set (ring q (ring_len q) @ [Some ?np])" using inv by (simp add: ring_inv_def)
  have push: "push_data (Some q) fd buffer = (if q_head q = t then expand_ring q1 else Inr q1)"
    using inv by (simp add: push_data_def get_queue_def ring_inv_def new_pack_def Let_def q1_def t_def)
  show thesis
  proof (cases "q_head q = t")
    case True
    then have full: "Suc (ring_len q) = q_cap q" using inv by (auto simp: t_def ring_inv_def ring_len_def split: if_splits)
    let ?q = "\<lparr>q_cap = q_cap q1 + QUEUESIZE, q_head = 0, q_tail = q_cap q1, q_hash = q_hash q1,
       q_queue = ring q1 (q_cap q1) @ replicate QUEUESIZE None\<rparr>"
    have "expand_ring q1 = Inr ?q" using inv by (intro expand_ring_ok) (auto simp: q1_def ring_inv_def)
    moreover have "ring ?q (ring_len ?q) = ring q (ring_len q) @ [Some ?np]"
    proof -
      have "ring_len ?q = q_cap q" by (simp add: ring_len_def q1_def)
      moreover have "length (ring q1 (q_cap q)) = q_cap q" "q_cap q1 = q_cap q" by (simp_all add: ring_def q1_def)
      ultimately have "ring ?q (ring_len ?q) = ring q1 (q_cap q)" by (simp add: ring_from_0)
      then show ?thesis using r full by simp
    qed
    moreover have "length (ring q1 (q_cap q1)) = q_cap q1" by (simp add: ring_def)
    ultimately show thesis using that [of ?q] push True init inv
      by (simp add: ring_inv_def packs_def q1_def QUEUESIZE_def)
  next
    case False
    then have "ring_len q1 = Suc (ring_len q)" using inv by (auto simp: q1_def t_def ring_inv_def ring_len_def)
    then have "ring_inv q1 \<and> packs q1 = packs q @ [?np]"
      using r init inv by (auto simp: ring_inv_def packs_def q1_def t_def)
    then show thesis using that [of q1] push False by (simp add: q1_def)
  qed
qed

lemma lpop_empty: "ring_inv q \<Longrightarrow> packs q = [] \<Longrightarrow> lpop (Some q) = Inr (None, Some q)"
  by (auto simp: packs_def ring_def ring_len_def ring_inv_def lpop_def split: if_splits)

lemma lpop_first:
  assumes inv: "ring_inv q" and items: "packs q = np # nps"
  obtains q' where "lpop (Some q) = Inr (Some np, Some q')" and "ring_inv q'" and "packs q' = nps" and "q_hash q' = q_hash q"
proof -
  define h where "h = (if q_head q + 1 \<ge> q_cap q then 0 else q_head q + 1)"
  let ?q = "q\<lparr>q_head := h\<rparr>"
  have ne: "q_head q \<noteq> q_tail q" using items by (auto simp: packs_def ring_def ring_len_def)
  obtain n where n: "ring_len q = Suc n" using items by (cases "ring_len q") (auto simp: packs_def ring_def)
  have len: "ring_len ?q = n" using n ne inv by (auto simp: ring_len_def h_def ring_inv_def split: if_splits)
  have idx: "(h + i) mod q_cap q = (q_head q + Suc i) mod q_cap q" for i
    using inv by (auto simp: h_def ring_inv_def mod_simps) (metis Suc_lessI add.commute add_Suc mod_add_self1 le_neq_implies_less not_le)
  have split: "ring q (Suc n) = q_queue q ! q_head q # ring ?q n"
    using inv by (simp add: ring_def upt_conv_Cons map_Suc_upt [symmetric] idx ring_inv_def del: upt_Suc)
  then obtain x where x: "q_queue q ! q_head q = Some x" using inv n by (cases "q_queue q ! q_head q") (auto simp: ring_inv_def)
  then have "x = np" "packs ?q = nps" using items split n len by (simp_all add: packs_def)
  moreover have "ring_inv ?q" using inv split n len by (auto simp: ring_inv_def h_def)
  moreover have "lpop (Some q) = Inr (Some x, Some ?q)" using ne x inv by (simp add: lpop_def ring_inv_def h_def)
  ultimately show thesis using that by simp
qed

interpretation net_ring: fifo
  "\<lambda>q (fd, buffer). push_data (Some q) fd buffer"
  "\<lambda>q. bindR (lpop (Some q)) (\<lambda>(r, qo). Inr (map_option (\<lambda>np. (np_id np, np_buffer np)) r, the qo))"
  "\<lambda>q. map (\<lambda>np. (np_id np, np_buffer np)) (packs q)" ring_inv
proof unfold_locales
  fix q :: queue and x :: "int \<times> byte option list"
  assume "ring_inv q"
  then obtain q' where "push_data (Some q) (fst x) (snd x) = Inr q'" "ring_inv q'" "packs q' = packs q @ [new_pack (fst x) (snd x)]"
    by (rule push_data_ok)
  then show "\<exists>q'. (case x of (fd, buffer) \<Rightarrow> push_data (Some q) fd buffer) = Inr q' \<and> ring_inv q' \<and>
      map (\<lambda>np. (np_id np, np_buffer np)) (packs q') = map (\<lambda>np. (np_id np, np_buffer np)) (packs q) @ [x]"
    by (cases x) (simp add: new_pack_def)
next
  fix q :: queue
  assume "ring_inv q" "map (\<lambda>np. (np_id np, np_buffer np)) (packs q) = []"
  then show "\<exists>q'. bindR (lpop (Some q)) (\<lambda>(r, qo). Inr (map_option (\<lambda>np. (np_id np, np_buffer np)) r, the qo)) = Inr (None, q') \<and>
      ring_inv q' \<and> map (\<lambda>np. (np_id np, np_buffer np)) (packs q') = []"
    by (simp add: lpop_empty)
next
  fix q :: queue and x xs
  assume inv: "ring_inv q" and "map (\<lambda>np. (np_id np, np_buffer np)) (packs q) = x # xs"
  then obtain np nps where nps: "packs q = np # nps" "x = (np_id np, np_buffer np)" "xs = map (\<lambda>np. (np_id np, np_buffer np)) nps"
    by (auto simp: map_eq_Cons_conv)
  obtain q' where "lpop (Some q) = Inr (Some np, Some q')" "ring_inv q'" "packs q' = nps" using lpop_first [OF inv nps(1)] .
  then show "\<exists>q'. bindR (lpop (Some q)) (\<lambda>(r, qo). Inr (map_option (\<lambda>np. (np_id np, np_buffer np)) r, the qo)) = Inr (Some x, q') \<and>
      ring_inv q' \<and> map (\<lambda>np. (np_id np, np_buffer np)) (packs q') = xs"
    using nps by simp
qed

section \<open>The table of incomplete packages as a map\<close>

definition uc_ok :: "uncomplete \<Rightarrow> bool" where
  "uc_ok u \<longleftrightarrow>
     (if uc_read u < 0 then uc_read u = -1 \<and> 0 \<le> uc_header u \<and> uc_header u < 256
      else uc_read u < uc_size u \<and> uc_size u < 65536 \<and> length (uc_buffer u) = nat (uc_size u) \<and>
        None \<notin> set (take (nat (uc_read u)) (uc_buffer u)))"

text \<open>The bytes that an incomplete package has received so far.\<close>

definition uc_bytes :: "uncomplete \<Rightarrow> byte list" where
  "uc_bytes u =
     (if uc_read u < 0 then [of_int (uc_header u)]
      else write_size (nat (uc_size u)) @ map the (take (nat (uc_read u)) (uc_buffer u)))"

definition hash_inv :: "queue \<Rightarrow> bool" where
  "hash_inv q \<longleftrightarrow> length (q_hash q) = HASHSIZE \<and>
     (\<forall>h < HASHSIZE. distinct (map uc_id (q_hash q ! h)) \<and> (\<forall>u \<in> set (q_hash q ! h). hash_fd (uc_id u) = h \<and> uc_ok u))"

definition waiting :: "queue \<Rightarrow> int \<Rightarrow> uncomplete option" where
  "waiting q fd = find (\<lambda>u. uc_id u = fd) (q_hash q ! hash_fd fd)"

definition pending_bytes :: "queue \<Rightarrow> int \<Rightarrow> byte list" where
  "pending_bytes q fd = (case waiting q fd of None \<Rightarrow> [] | Some u \<Rightarrow> uc_bytes u)"

definition net_inv :: "queue \<Rightarrow> bool" where
  "net_inv q \<longleftrightarrow> ring_inv q \<and> hash_inv q"

lemma hash_fd_less [simp]: "hash_fd fd < HASHSIZE"
  by (simp add: hash_fd_def HASHSIZE_def)

lemma new_queue: "net_inv (get_queue None)" "packs (get_queue None) = []" "pending_bytes (get_queue None) fd = []"
  by (simp_all add: net_inv_def ring_inv_def hash_inv_def get_queue_def packs_def ring_def ring_len_def QUEUESIZE_def
      pending_bytes_def waiting_def)

lemma unlink_filter:
  "distinct (map uc_id us) \<Longrightarrow> unlink us fd = (find (\<lambda>u. uc_id u = fd) us, filter (\<lambda>u. uc_id u \<noteq> fd) us)"
proof (induction us)
  case (Cons u us)
  then have "filter (\<lambda>v. uc_id v \<noteq> uc_id u) us = us" by (auto simp: filter_id_conv image_iff)
  then show ?case using Cons by auto
qed simp

lemma find_filter_neq: "a \<noteq> b \<Longrightarrow> find (\<lambda>u. uc_id u = a) (filter (\<lambda>u. uc_id u \<noteq> b) us) = find (\<lambda>u. uc_id u = a) us"
  by (induction us) auto

lemma find_uncomplete_ok:
  assumes inv: "hash_inv q"
  obtains q' where "find_uncomplete (Some q) fd = Inr (waiting q fd, Some q')" and "hash_inv q'"
    and "waiting q' = (waiting q)(fd := None)" and "q' = q\<lparr>q_hash := q_hash q'\<rparr>"
proof -
  let ?h = "hash_fd fd"
  let ?b = "filter (\<lambda>u. uc_id u \<noteq> fd) (q_hash q ! ?h)"
  let ?q = "q\<lparr>q_hash := (q_hash q)[?h := ?b]\<rparr>"
  have b: "length (q_hash q) = HASHSIZE" "distinct (map uc_id (q_hash q ! ?h))" using inv by (simp_all add: hash_inv_def)
  then have "find_uncomplete (Some q) fd = Inr (waiting q fd, Some ?q)"
    by (simp add: find_uncomplete_def Let_def unlink_filter waiting_def)
  moreover have "hash_inv ?q"
    using inv b by (auto simp: hash_inv_def nth_list_update distinct_map_filter)
  moreover have "waiting ?q = (waiting q)(fd := None)"
    using b by (auto simp: fun_eq_iff waiting_def nth_list_update find_filter_neq find_None_iff)
  ultimately show thesis using that [of ?q] by simp
qed

lemma link_uncomplete_ok:
  assumes inv: "hash_inv q" and none: "waiting q (uc_id uc) = None" and ok: "uc_ok uc"
  obtains q' where "link_uncomplete q uc = Inr q'" and "hash_inv q'" and "waiting q' = (waiting q)(uc_id uc \<mapsto> uc)"
    and "q' = q\<lparr>q_hash := q_hash q'\<rparr>"
proof -
  let ?h = "hash_fd (uc_id uc)"
  let ?q = "q\<lparr>q_hash := (q_hash q)[?h := uc # q_hash q ! ?h]\<rparr>"
  have len: "length (q_hash q) = HASHSIZE" using inv by (simp add: hash_inv_def)
  then have "link_uncomplete q uc = Inr ?q" by (simp add: link_uncomplete_def Let_def)
  moreover have "uc_id uc \<notin> uc_id ` set (q_hash q ! ?h)"
    using none by (auto simp: waiting_def find_None_iff)
  then have "hash_inv ?q" using inv len ok by (auto simp: hash_inv_def nth_list_update)
  moreover have "waiting ?q = (waiting q)(uc_id uc \<mapsto> uc)"
    using len by (auto simp: fun_eq_iff waiting_def nth_list_update)
  ultimately show thesis using that [of ?q] by simp
qed

lemma ring_hash [simp]:
  "ring_inv (q\<lparr>q_hash := x\<rparr>) = ring_inv q" "packs (q\<lparr>q_hash := x\<rparr>) = packs q"
  by (simp_all add: ring_inv_def packs_def ring_def ring_len_def)

section \<open>Frames\<close>

text \<open>The packages of a stream of bytes and what is left over.\<close>

function frames :: "byte list \<Rightarrow> byte list list \<times> byte list" where
  "frames (b0 # b1 # d) =
     (let n = unat b0 * 256 + unat b1 in
      if length d < n then ([], b0 # b1 # d)
      else let (ps, rest) = frames (drop n d) in (take n d # ps, rest))"
| "frames [b0] = ([], [b0])"
| "frames [] = ([], [])"
  by pat_completeness auto
termination
  by (relation "measure length") auto

declare frames.simps(1) [simp del]

lemma frames_append:
  "frames x = (ps, rest) \<Longrightarrow> frames (x @ y) = (case frames (rest @ y) of (ps', rest') \<Rightarrow> (ps @ ps', rest'))"
proof (induction x arbitrary: ps rule: frames.induct)
  case (1 b0 b1 d)
  let ?n = "unat b0 * 256 + unat b1"
  show ?case
  proof (cases "length d < ?n")
    case True
    then show ?thesis using 1(2) by (auto simp: frames.simps(1) [of b0 b1 d] split: prod.splits)
  next
    case False
    then obtain ps' where ps: "frames (drop ?n d) = (ps', rest)" "ps = take ?n d # ps'"
      using 1(2) by (auto simp: frames.simps(1) Let_def split: prod.splits)
    then show ?thesis using 1(1) [OF refl False ps(1)] False
      by (auto simp: frames.simps(1) [of b0 b1 "d @ y"] Let_def split: prod.splits)
  qed
qed (auto split: prod.splits)

lemma byte_less: "unat (b :: byte) < 256"
  using unsigned_less [of b] by simp

lemma read_size_ok: "read_size (b0 # b1 # d) = Inr (unat b0 * 256 + unat b1)"
proof -
  have "push_bit 8 (uint b0) OR uint b1 = push_bit 8 (uint b0) + uint b1"
    by (rule disjunctive_add [symmetric]) (auto simp: bit_simps dest: bit_imp_le_length)
  then have "nat (push_bit 8 (uint b0) OR uint b1) = unat b0 * 256 + unat b1"
    by (simp add: push_bit_eq_mult nat_add_distrib nat_mult_distrib)
  then show ?thesis by (simp add: read_size_def)
qed

lemma write_size_read: "write_size (unat b0 * 256 + unat b1) = [b0, b1]"
  using byte_less [of b0] byte_less [of b1] by (simp add: write_size_def)

lemma size_less: "unat (b0 :: byte) * 256 + unat (b1 :: byte) < 65536"
  using byte_less [of b0] byte_less [of b1] by linarith

text \<open>A queue takes over the packages \<open>ps\<close> of \<open>fd\<close> and keeps \<open>rest\<close>; nothing changes for other sockets.\<close>

definition advances :: "queue \<Rightarrow> queue \<Rightarrow> int \<Rightarrow> byte list list \<Rightarrow> byte list \<Rightarrow> bool" where
  "advances q q' fd ps rest \<longleftrightarrow>
     net_inv q' \<and> packs q' = packs q @ map (\<lambda>p. new_pack fd (map Some p)) ps \<and> pending_bytes q' = (pending_bytes q)(fd := rest)"

lemma link_advances:
  assumes "net_inv q" and "waiting q fd = None" and "uc_ok uc" and "uc_id uc = fd"
  obtains q' where "link_uncomplete q uc = Inr q'" and "advances q q' fd [] (uc_bytes uc)"
proof -
  obtain q' where q': "link_uncomplete q uc = Inr q'" "hash_inv q'" "waiting q' = (waiting q)(uc_id uc \<mapsto> uc)" "q' = q\<lparr>q_hash := q_hash q'\<rparr>"
    using link_uncomplete_ok [of q uc] assms by (auto simp: net_inv_def)
  have "ring_inv q'" "packs q' = packs q" using q'(4) assms(1) ring_hash [where q = q and x = "q_hash q'"] by (simp_all add: net_inv_def)
  then show thesis
    using that [OF q'(1)] q'(2,3) assms(4) by (auto simp: advances_def net_inv_def pending_bytes_def fun_eq_iff)
qed

lemma keep_header_ok:
  assumes "net_inv q" and "waiting q fd = None"
  obtains q' where "keep_header (Some q) fd [b] = Inr q'" and "advances q q' fd [] [b]"
proof -
  let ?uc = "\<lparr>uc_id = fd, uc_size = 0, uc_buffer = [], uc_read = -1, uc_header = uint b\<rparr>"
  have "uc_ok ?uc" "uc_bytes ?uc = [b]" using uint_lt2p [of b] by (simp_all add: uc_ok_def uc_bytes_def)
  then show thesis
    using link_advances [OF assms, of ?uc] that by (auto simp: keep_header_def save_uncomplete_def get_queue_def)
qed

lemma keep_part_ok:
  assumes "net_inv q" and "waiting q fd = None" and "length d < n" and "n < 65536"
  obtains q' where "keep_part (Some q) fd n d = Inr q'" and "advances q q' fd [] (write_size n @ d)"
proof -
  let ?uc = "\<lparr>uc_id = fd, uc_size = int n, uc_buffer = map Some d @ replicate (n - length d) None, uc_read = int (length d), uc_header = 0\<rparr>"
  have "uc_ok ?uc" "uc_bytes ?uc = write_size n @ d" using assms by (auto simp: uc_ok_def uc_bytes_def o_def)
  moreover have "keep_part (Some q) fd n d = link_uncomplete q ?uc"
    using assms(3) by (simp add: keep_part_def save_uncomplete_def get_queue_def)
  ultimately show thesis using link_advances [OF assms(1,2), of ?uc] that by auto
qed

lemma push_advances:
  assumes "net_inv q" and "waiting q fd = None"
  obtains q' where "push_data (Some q) fd (map Some p) = Inr q'" and "net_inv q'" and "waiting q' = waiting q"
    and "packs q' = packs q @ [new_pack fd (map Some p)]"
proof -
  obtain q' where "push_data (Some q) fd (map Some p) = Inr q'" "ring_inv q'" "packs q' = packs q @ [new_pack fd (map Some p)]"
      "q_hash q' = q_hash q"
    using push_data_ok [of q fd "map Some p"] assms(1) by (auto simp: net_inv_def)
  then show thesis using that [of q'] assms(1) by (auto simp: net_inv_def hash_inv_def waiting_def fun_eq_iff)
qed

lemma push_more_ok:
  assumes "net_inv q" and "waiting q fd = None" and "d \<noteq> []"
  shows "\<exists>q'. push_more (Some q) fd d = Inr q' \<and> advances q q' fd (fst (frames d)) (snd (frames d))"
  using assms
proof (induction "length d" arbitrary: d q rule: less_induct)
  case less
  show ?case
  proof (cases "length d = 1")
    case True
    then obtain b where "d = [b]" by (auto simp: length_Suc_conv)
    then show ?thesis using keep_header_ok [OF less.prems(1,2), of b] by (subst push_more.simps) auto
  next
    case False
    then obtain b0 b1 r where d: "d = b0 # b1 # r" using less.prems(3) by (cases d rule: frames.cases) auto
    define n where "n = unat b0 * 256 + unat b1"
    have step: "push_more (Some q) fd d =
        (if length r < n then keep_part (Some q) fd n r
         else bindR (push_data (Some q) fd (map Some (take n r))) (\<lambda>q.
              if length (drop n r) > 0 then push_more (Some q) fd (drop n r) else Inr q))"
      by (subst push_more.simps) (cases "length r = n"; cases "length r < n"; simp add: d read_size_ok Let_def flip: n_def)
    show ?thesis
    proof (cases "length r < n")
      case True
      then have "frames d = ([], d)" by (simp add: d frames.simps(1) n_def)
      then show ?thesis using keep_part_ok [OF less.prems(1,2) True] size_less [of b0 b1] step True
        by (auto simp: n_def write_size_read d)
    next
      case False
      obtain q1 where q1: "push_data (Some q) fd (map Some (take n r)) = Inr q1" "net_inv q1" "waiting q1 = waiting q"
          "packs q1 = packs q @ [new_pack fd (map Some (take n r))]"
        using push_advances [OF less.prems(1,2)] .
      have pb: "pending_bytes q1 = pending_bytes q" by (simp add: pending_bytes_def q1(3) fun_eq_iff)
      obtain ps rest where fr: "frames (drop n r) = (ps, rest)" by fastforce
      have frd: "frames d = (take n r # ps, rest)" using False fr by (simp add: d frames.simps(1) n_def)
      show ?thesis
      proof (cases "drop n r = []")
        case True
        then have "frames d = ([take n r], [])" using frd fr by simp
        then show ?thesis using step False True q1 pb less.prems(2)
          by (auto simp: advances_def pending_bytes_def fun_eq_iff)
      next
        case ne: False
        have "length (drop n r) < length d" by (simp add: d)
        from less.hyps [OF this q1(2) _ ne] obtain q2
          where q2: "push_more (Some q1) fd (drop n r) = Inr q2" "advances q1 q2 fd ps rest"
          using q1(3) less.prems(2) fr by auto
        then show ?thesis using step False ne q1 pb frd by (auto simp: advances_def)
      qed
    qed
  qed
qed

section \<open>The filter\<close>

text \<open>What a call of the filter hands to its caller or to the ring.\<close>

definition outcome :: "int \<Rightarrow> queue option \<Rightarrow> event \<Rightarrow> queue option \<Rightarrow> byte list list \<Rightarrow> bool" where
  "outcome fd qo e qo' ps \<longleftrightarrow>
     (case e of
        E_none \<Rightarrow> ps = [] \<and> packs (get_queue qo') = packs (get_queue qo)
      | E_data fd' cells sz \<Rightarrow> fd' = fd \<and> packs (get_queue qo') = packs (get_queue qo) \<and>
          (\<exists>p. ps = [p] \<and> cells = map Some p \<and> sz = int (length p))
      | E_more \<Rightarrow> ps \<noteq> [] \<and> packs (get_queue qo') = packs (get_queue qo) @ map (\<lambda>p. new_pack fd (map Some p)) ps
      | _ \<Rightarrow> False)"

lemma get_queue_Some [simp]: "get_queue (Some q) = q"
  by (simp add: get_queue_def)

lemma get_queue_args [simp]:
  "push_data (Some (get_queue qo)) fd b = push_data qo fd b" "keep_header (Some (get_queue qo)) fd d = keep_header qo fd d"
  "keep_part (Some (get_queue qo)) fd n d = keep_part qo fd n d"
  by (simp_all add: push_data_def keep_header_def keep_part_def save_uncomplete_def)

lemma filter_fresh:
  assumes inv: "net_inv (get_queue qo)" and none: "waiting (get_queue qo) fd = None" and find: "find_uncomplete qo fd = Inr (None, qo1)"
    and q1: "get_queue qo1 = get_queue qo" and d: "d \<noteq> []"
  shows "\<exists>e qo'. filter_data' qo fd d = Inr (e, qo') \<and> net_inv (get_queue qo') \<and> outcome fd qo e qo' (fst (frames d)) \<and>
     pending_bytes (get_queue qo') = (pending_bytes (get_queue qo))(fd := snd (frames d))"
proof (cases "length d = 1")
  case True
  then obtain b where b: "d = [b]" by (auto simp: length_Suc_conv)
  obtain q' where "keep_header (Some (get_queue qo1)) fd [b] = Inr q'" "advances (get_queue qo) q' fd [] [b]"
    using keep_header_ok [of "get_queue qo1" fd b] inv none q1 by auto
  then show ?thesis using b find by (auto simp: filter_data'_def advances_def outcome_def)
next
  case False
  then obtain b0 b1 r where dd: "d = b0 # b1 # r" using d by (cases d rule: frames.cases) auto
  define n where "n = unat b0 * 256 + unat b1"
  consider "length r < n" | "length r = n" | "n < length r" by linarith
  then show ?thesis
  proof cases
    case 1
    obtain q' where "keep_part (Some (get_queue qo1)) fd n r = Inr q'" "advances (get_queue qo) q' fd [] (write_size n @ r)"
      using keep_part_ok [of "get_queue qo1" fd r n] inv none q1 1 size_less [of b0 b1] by (auto simp: n_def)
    moreover have "frames d = ([], d)" using 1 by (simp add: dd frames.simps(1) n_def)
    ultimately show ?thesis using find 1
      by (auto simp: filter_data'_def dd read_size_ok Let_def advances_def outcome_def write_size_read n_def)
  next
    case 2
    have "frames d = ([r], [])" using 2 by (simp add: dd frames.simps(1) n_def)
    moreover have "filter_data' qo fd d = Inr (E_data fd (map Some r) (int (length r)), qo1)"
      using find 2 by (simp add: filter_data'_def dd read_size_ok Let_def n_def)
    moreover have "pending_bytes (get_queue qo) fd = []" using none by (simp add: pending_bytes_def)
    ultimately show ?thesis using inv q1 by (auto simp: outcome_def fun_eq_iff)
  next
    case 3
    obtain q2 where q2: "push_data (Some (get_queue qo1)) fd (map Some (take n r)) = Inr q2" "net_inv q2"
        "waiting q2 = waiting (get_queue qo)" "packs q2 = packs (get_queue qo) @ [new_pack fd (map Some (take n r))]"
      using push_advances [of "get_queue qo1" fd] inv none q1 by metis
    obtain q3 where q3: "push_more (Some q2) fd (drop n r) = Inr q3" "advances q2 q3 fd (fst (frames (drop n r))) (snd (frames (drop n r)))"
      using push_more_ok [of q2 fd "drop n r"] q2 none 3 by auto
    have "frames d = (take n r # fst (frames (drop n r)), snd (frames (drop n r)))"
      using 3 by (simp add: dd frames.simps(1) n_def Let_def split: prod.splits)
    moreover have "filter_data' qo fd d = Inr (E_more, Some q3)"
      using find q2(1) q3(1) 3 by (simp add: filter_data'_def dd read_size_ok Let_def flip: n_def)
    moreover have "pending_bytes q2 = pending_bytes (get_queue qo)" by (simp add: pending_bytes_def q2(3) fun_eq_iff)
    ultimately show ?thesis using q2(4) q3(2) by (auto simp: outcome_def advances_def)
  qed
qed

lemma write_size_cases:
  assumes "n < 65536"
  obtains b0 b1 where "write_size n = [b0, b1]" and "unat b0 * 256 + unat b1 = n"
proof -
  have "n div 256 < 256" "n mod 256 < 256" using assms by auto
  then have "unat (of_nat (n div 256 mod 256) :: byte) = n div 256" "unat (of_nat (n mod 256) :: byte) = n mod 256"
    by (simp_all add: unsigned_of_nat take_bit_nat_eq_self)
  then show thesis using that by (simp add: write_size_def)
qed

lemma frames_sized:
  assumes "n < 65536"
  shows "frames (write_size n @ x) =
    (if length x < n then ([], write_size n @ x) else (take n x # fst (frames (drop n x)), snd (frames (drop n x))))"
proof -
  obtain b0 b1 where "write_size n = [b0, b1]" "unat b0 * 256 + unat b1 = n" using write_size_cases [OF assms] .
  then show ?thesis by (simp add: frames.simps(1) Let_def split: prod.splits)
qed

lemma map_Some_the: "None \<notin> set xs \<Longrightarrow> map (Some \<circ> the) xs = xs"
  by (induction xs) auto

lemma complete_header_ok:
  assumes "uc_ok uc" and "d \<noteq> []"
  obtains uc' d' n got more where "complete_header uc d = Inr (uc', d')" and "uc_id uc' = uc_id uc"
    and "uc_read uc' = int (length got)" and "uc_size uc' = int n" and "uc_buffer uc' = map Some got @ more"
    and "length got + length more = n" and "n < 65536" and "uc_bytes uc @ d = write_size n @ got @ d'"
proof (cases "uc_read uc < 0")
  case True
  obtain b d' where d: "d = b # d'" using assms(2) by (cases d) auto
  let ?h = "of_int (uc_header uc) :: byte"
  have h: "uc_read uc = -1" "0 \<le> uc_header uc" "uc_header uc < 256" using True assms(1) by (simp_all add: uc_ok_def)
  then have uh: "uint ?h = uc_header uc" by (simp add: unsigned_of_int take_bit_int_eq_self)
  define n where "n = unat ?h * 256 + unat b"
  have "uint b OR push_bit 8 (uint ?h) = uint b + push_bit 8 (uint ?h)"
    by (rule disjunctive_add [symmetric]) (auto simp: bit_simps dest: bit_imp_le_length)
  then have size: "uint b OR push_bit 8 (uc_header uc) = int n"
    unfolding uh by (simp add: n_def push_bit_eq_mult uh flip: uint_nat)
  show thesis
  proof (rule that [of "uc\<lparr>uc_size := int n, uc_buffer := replicate n None, uc_read := 0\<rparr>" d' "[]" n "replicate n None"])
    show "complete_header uc d = Inr (uc\<lparr>uc_size := int n, uc_buffer := replicate n None, uc_read := 0\<rparr>, d')"
      using True h(1) d size by (simp add: complete_header_def Let_def)
    show "n < 65536" unfolding n_def by (rule size_less)
    show "uc_bytes uc @ d = write_size n @ [] @ d'" using True d by (simp add: uc_bytes_def n_def write_size_read)
  qed simp_all
next
  case False
  let ?k = "nat (uc_read uc)" and ?n = "nat (uc_size uc)"
  have ok: "uc_read uc < uc_size uc" "uc_size uc < 65536" "length (uc_buffer uc) = ?n" "None \<notin> set (take ?k (uc_buffer uc))"
    using False assms(1) by (simp_all add: uc_ok_def)
  let ?got = "map the (take ?k (uc_buffer uc))"
  have "map Some ?got = take ?k (uc_buffer uc)" using map_Some_the [OF ok(4)] by simp
  moreover have "length ?got = ?k" using ok by simp
  ultimately show thesis
    using that [of uc d ?got ?n "drop ?k (uc_buffer uc)"] False ok by (simp add: complete_header_def uc_bytes_def)
qed

lemma filter_waiting:
  assumes inv: "net_inv q" and uc: "waiting q fd = Some uc" and d: "d \<noteq> []"
  shows "\<exists>e q'. filter_data' (Some q) fd d = Inr (e, Some q') \<and> net_inv q' \<and> outcome fd (Some q) e (Some q') (fst (frames (uc_bytes uc @ d))) \<and>
     pending_bytes q' = (pending_bytes q)(fd := snd (frames (uc_bytes uc @ d)))"
proof -
  obtain q1 where q1: "find_uncomplete (Some q) fd = Inr (Some uc, Some q1)" "hash_inv q1" "waiting q1 = (waiting q)(fd := None)"
      "q1 = q\<lparr>q_hash := q_hash q1\<rparr>"
    using find_uncomplete_ok [of q fd] inv uc by (auto simp: net_inv_def)
  have net1: "net_inv q1" "packs q1 = packs q" "waiting q1 fd = None"
    using q1 inv ring_hash [where q = q and x = "q_hash q1"] by (simp_all add: net_inv_def)
  have pb1: "(pending_bytes q1)(fd := x) = (pending_bytes q)(fd := x)" for x
    using q1(3) by (auto simp: pending_bytes_def fun_eq_iff)
  have "find (\<lambda>u. uc_id u = fd) (q_hash q ! hash_fd fd) = Some uc" using uc by (simp add: waiting_def)
  then have "uc_id uc = fd" "uc \<in> set (q_hash q ! hash_fd fd)" by (auto simp: find_Some_iff)
  then have "uc_ok uc" using inv hash_fd_less unfolding net_inv_def hash_inv_def by blast
  obtain uc' d' n got more where f: "complete_header uc d = Inr (uc', d')" "uc_id uc' = uc_id uc" "uc_read uc' = int (length got)"
      "uc_size uc' = int n" "uc_buffer uc' = map Some got @ more" "length got + length more = n" "n < 65536"
      "uc_bytes uc @ d = write_size n @ got @ d'"
    using complete_header_ok [OF \<open>uc_ok uc\<close> d] .
  define need where "need = n - length got"
  have need: "nat (uc_size uc' - uc_read uc') = need" "need = length more" using f by (simp_all add: need_def)
  show ?thesis
  proof (cases "length d' < need")
    case True
    let ?uc = "uc'\<lparr>uc_buffer := map Some (got @ d') @ drop (length d') more, uc_read := int (length got + length d')\<rparr>"
    have "memcpyR (uc_buffer uc') (nat (uc_read uc')) (map Some d') = Inr (uc_buffer ?uc)"
      using True f need(2) by (simp add: memcpyR_def)
    moreover have "uc_ok ?uc" "uc_bytes ?uc = write_size n @ got @ d'"
      using True f need by (auto simp: uc_ok_def uc_bytes_def o_def nat_add_distrib)
    then obtain q2 where "link_uncomplete q1 ?uc = Inr q2" "advances q1 q2 fd [] (write_size n @ got @ d')"
      using link_advances [OF net1(1,3), of ?uc] f(2) \<open>uc_id uc = fd\<close> by auto
    moreover have "frames (uc_bytes uc @ d) = ([], write_size n @ got @ d')"
      using frames_sized [OF f(7), of "got @ d'"] True f need by simp
    ultimately show ?thesis
      using q1(1) f(1,3) need(1) True net1(2) pb1
      by (auto simp: filter_data'_def advances_def outcome_def)
  next
    case False
    let ?p = "got @ take need d'" and ?rest = "drop need d'"
    have cells: "memcpyR (uc_buffer uc') (nat (uc_read uc')) (map Some (take need d')) = Inr (map Some ?p)"
      using False f need(2) by (simp add: memcpyR_def)
    have len: "length ?p = n" using False f need by simp
    have fr: "frames (uc_bytes uc @ d) = (?p # fst (frames ?rest), snd (frames ?rest))"
      using frames_sized [OF f(7), of "got @ d'"] False f(6,8) need(2) by (simp flip: need_def)
    show ?thesis
    proof (cases "?rest = []")
      case True
      then have "filter_data' (Some q) fd d = Inr (E_data fd (map Some ?p) (int n), Some q1)"
        using q1(1) f(1,4) need(1) False cells by (simp add: filter_data'_def Let_def)
      moreover have "pending_bytes q1 = (pending_bytes q)(fd := [])"
        using q1(3) by (auto simp: pending_bytes_def fun_eq_iff)
      ultimately show ?thesis using fr True net1 len by (auto simp: outcome_def)
    next
      case ne: False
      obtain q2 where q2: "push_data (Some q1) fd (map Some ?p) = Inr q2" "net_inv q2" "waiting q2 = waiting q1"
          "packs q2 = packs q1 @ [new_pack fd (map Some ?p)]"
        using push_advances [OF net1(1,3)] .
      obtain q3 where q3: "push_more (Some q2) fd ?rest = Inr q3" "advances q2 q3 fd (fst (frames ?rest)) (snd (frames ?rest))"
        using push_more_ok [of q2 fd ?rest] q2 net1(3) ne by auto
      have "filter_data' (Some q) fd d = Inr (E_more, Some q3)"
        using q1(1) f(1,4) need(1) False cells ne q2(1) q3(1) by (simp add: filter_data'_def Let_def)
      moreover have "pending_bytes q2 = pending_bytes q1" by (simp add: pending_bytes_def q2(3) fun_eq_iff)
      ultimately show ?thesis using fr q2(4) q3(2) net1(2) pb1 by (auto simp: outcome_def advances_def)
    qed
  qed
qed

lemma filter_ok:
  assumes inv: "net_inv (get_queue qo)" and d: "d \<noteq> []"
  shows "\<exists>e qo'. filter_data qo fd d = Inr (e, qo') \<and> net_inv (get_queue qo') \<and>
     outcome fd qo e qo' (fst (frames (pending_bytes (get_queue qo) fd @ d))) \<and>
     pending_bytes (get_queue qo') = (pending_bytes (get_queue qo))(fd := snd (frames (pending_bytes (get_queue qo) fd @ d)))"
proof (cases "waiting (get_queue qo) fd")
  case None
  then have pb: "pending_bytes (get_queue qo) fd = []" by (simp add: pending_bytes_def)
  have "\<exists>qo1. find_uncomplete qo fd = Inr (None, qo1) \<and> get_queue qo1 = get_queue qo"
  proof (cases qo)
    case None
    then show ?thesis by (simp add: find_uncomplete_def)
  next
    case (Some q)
    let ?b = "q_hash q ! hash_fd fd"
    have "find (\<lambda>u. uc_id u = fd) ?b = None" using None Some by (simp add: waiting_def)
    then have "filter (\<lambda>u. uc_id u \<noteq> fd) ?b = ?b" "distinct (map uc_id ?b)" "length (q_hash q) = HASHSIZE"
      using inv Some by (auto simp: find_None_iff filter_id_conv net_inv_def hash_inv_def)
    then have "find_uncomplete (Some q) fd = Inr (None, Some q)"
      using \<open>find (\<lambda>u. uc_id u = fd) ?b = None\<close> by (simp add: find_uncomplete_def Let_def unlink_filter)
    then show ?thesis using Some by simp
  qed
  then show ?thesis using filter_fresh [OF inv None _ _ d] pb by (auto simp: filter_data_def)
next
  case (Some uc)
  then obtain q where q: "qo = Some q" by (cases qo) (auto simp: waiting_def get_queue_def)
  then have "pending_bytes q fd = uc_bytes uc" "waiting q fd = Some uc" "net_inv q" using Some inv by (simp_all add: pending_bytes_def)
  then show ?thesis using filter_waiting [of q fd uc d] d q by (auto simp: filter_data_def)
qed

text \<open>The filter cuts a stream into its packages, whatever pieces the socket delivers: a call with new bytes for a
  socket hands out exactly the packages that are complete now, directly when it is a single one with nothing behind it and
  through the ring otherwise, in order, and keeps the bytes of the incomplete package. Other sockets are not
  affected, and no assertion fails and no byte is read or written out of bounds.\<close>

theorem filter_hands_out_frames:
  assumes "net_inv (get_queue qo)" and "d \<noteq> []" and "frames (pending_bytes (get_queue qo) fd @ d) = (ps, rest)"
  shows "\<exists>e qo'. filter_data qo fd d = Inr (e, qo') \<and> net_inv (get_queue qo') \<and> outcome fd qo e qo' ps \<and>
     pending_bytes (get_queue qo') = (pending_bytes (get_queue qo))(fd := rest)"
  using filter_ok [OF assms(1,2), of fd] assms(3) by simp

theorem filter_hands_out_frames_witness:
  "\<exists>e qo'. filter_data None 3 [0, 1, 7, 0] = Inr (e, qo') \<and> net_inv (get_queue qo') \<and> outcome 3 None e qo' [[7]] \<and>
     pending_bytes (get_queue qo') = (pending_bytes (get_queue None))(3 := [0])"
  using filter_hands_out_frames [of None "[0, 1, 7, 0]" 3 "[[7]]" "[0]"] new_queue by (simp add: frames.simps(1) Let_def)

section \<open>Streams\<close>

text \<open>The consumer of the filter takes a package that it returns, and takes everything from the ring when there is more.\<close>

fun drain :: "nat \<Rightarrow> queue option \<Rightarrow> ((int \<times> byte option list) list \<times> queue option) res" where
  "drain fuel qo =
     bindR (lpop qo) (\<lambda>(r, qo).
     case r of
       None \<Rightarrow> Inr ([], qo)
     | Some np \<Rightarrow>
         (case fuel of
            0 \<Rightarrow> Inl Endless_loop
          | Suc f \<Rightarrow> bindR (drain f qo) (\<lambda>(nps, qo). Inr ((np_id np, np_buffer np) # nps, qo))))"

declare drain.simps [simp del]

fun serve :: "queue option \<Rightarrow> (int \<times> byte list) list \<Rightarrow> ((int \<times> byte option list) list \<times> queue option) res" where
  "serve qo [] = Inr ([], qo)"
| "serve qo ((fd, d) # evs) =
     bindR (filter_data qo fd d) (\<lambda>(e, qo).
     bindR (case e of
              E_data fd' cells sz \<Rightarrow> Inr ([(fd', cells)], qo)
            | E_more \<Rightarrow> drain (q_cap (get_queue qo)) qo
            | _ \<Rightarrow> Inr ([], qo)) (\<lambda>(out, qo).
     bindR (serve qo evs) (\<lambda>(outs, qo). Inr (out @ outs, qo))))"

lemma drain_ok:
  "net_inv q \<Longrightarrow> length (packs q) \<le> fuel \<Longrightarrow>
   \<exists>q'. drain fuel (Some q) = Inr (map (\<lambda>np. (np_id np, np_buffer np)) (packs q), Some q') \<and> net_inv q' \<and> packs q' = [] \<and>
     pending_bytes q' = pending_bytes q"
proof (induction fuel arbitrary: q)
  case 0
  then show ?case using lpop_empty [of q] by (subst drain.simps) (simp add: net_inv_def)
next
  case (Suc f)
  show ?case
  proof (cases "packs q")
    case Nil
    then show ?thesis using Suc.prems lpop_empty [of q] by (subst drain.simps) (simp add: net_inv_def)
  next
    case (Cons np nps)
    obtain q1 where q1: "lpop (Some q) = Inr (Some np, Some q1)" "ring_inv q1" "packs q1 = nps" "q_hash q1 = q_hash q"
      using lpop_first [OF _ Cons] Suc.prems(1) by (auto simp: net_inv_def)
    then have "net_inv q1" "pending_bytes q1 = pending_bytes q"
      using Suc.prems(1) by (auto simp: net_inv_def hash_inv_def pending_bytes_def waiting_def fun_eq_iff)
    then show ?thesis using Suc.IH [of q1] Suc.prems(2) q1 Cons by (subst drain.simps) auto
  qed
qed

definition of_fd :: "int \<Rightarrow> (int \<times> 'a) list \<Rightarrow> 'a list" where
  "of_fd fd evs = map snd (filter (\<lambda>e. fst e = fd) evs)"

lemma pending_incomplete:
  assumes "net_inv q"
  shows "frames (pending_bytes q fd) = ([], pending_bytes q fd)"
proof (cases "waiting q fd")
  case (Some uc)
  then have "uc \<in> set (q_hash q ! hash_fd fd)" by (auto simp: waiting_def find_Some_iff)
  then have "uc_ok uc" using assms hash_fd_less unfolding net_inv_def hash_inv_def by blast
  then have "frames (uc_bytes uc) = ([], uc_bytes uc)"
    using frames_sized [of "nat (uc_size uc)"] by (auto simp: uc_ok_def uc_bytes_def split: if_splits)
  then show ?thesis using Some by (simp add: pending_bytes_def)
qed (simp add: pending_bytes_def)

definition log_of :: "int \<Rightarrow> byte list list \<Rightarrow> (int \<times> byte option list) list" where
  "log_of fd ps = map (\<lambda>p. (fd, map Some p)) ps"

lemma of_fd_simps [simp]:
  "of_fd fd [] = []" "of_fd fd (x # xs) = (if fst x = fd then snd x # of_fd fd xs else of_fd fd xs)"
  "of_fd fd (xs @ ys) = of_fd fd xs @ of_fd fd ys"
  "of_fd fd (log_of fd' ps) = (if fd = fd' then map (map Some) ps else [])"
  by (auto simp: of_fd_def log_of_def o_def)

text \<open>One event: what the consumer gets are the complete packages, and the ring is empty again.\<close>

lemma serve_step:
  assumes inv: "net_inv (get_queue qo)" and empty: "packs (get_queue qo) = []" and d: "d \<noteq> []"
    and fr: "frames (pending_bytes (get_queue qo) fd @ d) = (ps, rest)"
  obtains qo' where "serve qo ((fd, d) # evs) = bindR (serve qo' evs) (\<lambda>(outs, qo). Inr (log_of fd ps @ outs, qo))"
    and "net_inv (get_queue qo')" and "packs (get_queue qo') = []"
    and "pending_bytes (get_queue qo') = (pending_bytes (get_queue qo))(fd := rest)"
proof -
  obtain e qo1 where f: "filter_data qo fd d = Inr (e, qo1)" "net_inv (get_queue qo1)" "outcome fd qo e qo1 ps"
      "pending_bytes (get_queue qo1) = (pending_bytes (get_queue qo))(fd := rest)"
    using filter_ok [OF inv d, of fd] fr by auto
  show thesis
  proof (cases "e = E_more")
    case True
    then have "packs (get_queue qo1) = map (\<lambda>p. new_pack fd (map Some p)) ps" "ps \<noteq> []"
      using f(3) empty by (simp_all add: outcome_def)
    moreover then obtain q1 where q1: "qo1 = Some q1" using new_queue(2) by (cases qo1) auto
    moreover have "length (packs q1) \<le> q_cap q1"
      using f(2) ring_len_less [of q1] by (simp add: q1 net_inv_def packs_def ring_def)
    ultimately obtain q2 where "drain (q_cap q1) (Some q1) = Inr (log_of fd ps, Some q2)" "net_inv q2" "packs q2 = []"
        "pending_bytes q2 = pending_bytes q1"
      using drain_ok [of q1 "q_cap q1"] f(2) by (auto simp: log_of_def new_pack_def o_def)
    then show thesis using that [of "Some q2"] f(1,4) True q1 by simp
  next
    case False
    then have "packs (get_queue qo1) = []" using f(3) empty by (auto simp: outcome_def split: event.splits)
    moreover have "serve qo ((fd, d) # evs) = bindR (serve qo1 evs) (\<lambda>(outs, qo). Inr (log_of fd ps @ outs, qo))"
      using f(1,3) False by (auto simp: outcome_def log_of_def split: event.splits)
    ultimately show thesis using that [of qo1] f(2,4) by blast
  qed
qed

lemma serve_frames:
  assumes "net_inv (get_queue qo)" and "packs (get_queue qo) = []" and "\<forall>e \<in> set evs. snd e \<noteq> []"
  shows "\<exists>outs qo'. serve qo evs = Inr (outs, qo') \<and>
     (\<forall>fd. \<exists>ps rest. frames (pending_bytes (get_queue qo) fd @ concat (of_fd fd evs)) = (ps, rest) \<and> of_fd fd outs = map (map Some) ps)"
  using assms
proof (induction evs arbitrary: qo)
  case Nil
  then show ?case using pending_incomplete by simp
next
  case (Cons ev evs)
  obtain fd d where ev: "ev = (fd, d)" by (cases ev)
  obtain ps rest where fr: "frames (pending_bytes (get_queue qo) fd @ d) = (ps, rest)" by fastforce
  obtain qo1 where q1: "serve qo ((fd, d) # evs) = bindR (serve qo1 evs) (\<lambda>(outs, qo). Inr (log_of fd ps @ outs, qo))"
      "net_inv (get_queue qo1)" "packs (get_queue qo1) = []"
      "pending_bytes (get_queue qo1) = (pending_bytes (get_queue qo))(fd := rest)"
    using serve_step [OF Cons.prems(1,2) _ fr] Cons.prems(3) ev by auto
  obtain outs qo2 where q2: "serve qo1 evs = Inr (outs, qo2)"
      "\<forall>fd. \<exists>ps rest. frames (pending_bytes (get_queue qo1) fd @ concat (of_fd fd evs)) = (ps, rest) \<and> of_fd fd outs = map (map Some) ps"
    using Cons.IH [OF q1(2,3)] Cons.prems(3) by auto
  have "\<exists>ps' rest'. frames (pending_bytes (get_queue qo) g @ concat (of_fd g (ev # evs))) = (ps', rest') \<and>
      of_fd g (log_of fd ps @ outs) = map (map Some) ps'" for g
  proof -
    obtain ps1 rest1 where 1: "frames (pending_bytes (get_queue qo1) g @ concat (of_fd g evs)) = (ps1, rest1)"
        "of_fd g outs = map (map Some) ps1"
      using q2(2) by blast
    show ?thesis
    proof (cases "g = fd")
      case True
      then show ?thesis using 1 q1(4) frames_append [OF fr, of "concat (of_fd fd evs)"] by (simp add: ev)
    next
      case False
      then show ?thesis using 1 q1(4) by (simp add: ev)
    qed
  qed
  then show ?case using q1(1) q2(1) ev by simp
qed

lemma frames_packed: "\<forall>m \<in> set ms. length m < 0x10000 \<Longrightarrow> frames (concat (map (\<lambda>m. write_size (length m) @ m) ms)) = (ms, [])"
  by (induction ms) (auto simp: frames_sized)

text \<open>C26. What is packed on one side arrives on the other: when the bytes received on every socket are the packed messages
  that were sent on it, one behind the other, then whatever pieces they are cut into and in whatever order the pieces of
  different sockets arrive, the consumer gets exactly the messages of each socket, in order.\<close>

theorem packed_messages_arrive:
  assumes "\<forall>e \<in> set evs. snd e \<noteq> []" and "\<And>fd. \<forall>m \<in> set (sent fd). \<exists>b. lpack m = Inr b"
    and "\<And>fd. concat (of_fd fd evs) = concat (map (\<lambda>m. case lpack m of Inr b \<Rightarrow> b) (sent fd))"
  shows "\<exists>outs qo'. serve None evs = Inr (outs, qo') \<and> (\<forall>fd. of_fd fd outs = map (map Some) (sent fd))"
proof -
  have short: "\<forall>m \<in> set (sent fd). length m < 0x10000" for fd
    using assms(2) [of fd] by (auto simp: lpack_def split: if_splits)
  have "map (\<lambda>m. case lpack m of Inr b \<Rightarrow> b) (sent fd) = map (\<lambda>m. write_size (length m) @ m) (sent fd)" for fd
  proof (intro map_cong refl)
    fix m assume "m \<in> set (sent fd)"
    then have "length m < 0x10000" using short by blast
    then show "(case lpack m of Inr b \<Rightarrow> b) = write_size (length m) @ m" by (simp add: lpack_def)
  qed
  then have "frames (concat (of_fd fd evs)) = (sent fd, [])" for fd
    using frames_packed [OF short [of fd]] assms(3) [of fd] by metis
  then show ?thesis using serve_frames [of None evs] new_queue assms(1) by auto
qed

theorem packed_messages_arrive_witness:
  "\<exists>outs qo'. serve None [(3, [0]), (4, [0, 1, 9]), (3, [2, 7, 8])] = Inr (outs, qo') \<and>
     (\<forall>fd. of_fd fd outs = map (map Some) (if fd = 3 then [[7, 8]] else if fd = 4 then [[9]] else []))"
  by (rule packed_messages_arrive) (auto simp: lpack_def write_size_def)

end
