(* ===== verification/Des.thy ===== *)
theory Des
  imports Chunk
begin

text \<open>
  DES in \<^verbatim>\<open>lualib-src/lua-crypt.c\<close>: the tables, the key schedule, the block cipher and the Lua
  functions \<^verbatim>\<open>desencode\<close> and \<^verbatim>\<open>desdecode\<close>, which pad a text with a byte 0x80 and zeros to a
  multiple of eight bytes. Macros that assign to their arguments return the pair of them.
  The text is assumed to be shorter than 2^31 bytes, the range of the loop variables.
\<close>

section \<open>Tables\<close>

definition SB1 :: "u32 list" where
  "SB1 =
     [0x1010400, 0, 0x10000, 0x1010404, 0x1010004, 0x10404, 0x4, 0x10000,
      0x400, 0x1010400, 0x1010404, 0x400, 0x1000404, 0x1010004, 0x1000000, 0x4,
      0x404, 0x1000400, 0x1000400, 0x10400, 0x10400, 0x1010000, 0x1010000, 0x1000404,
      0x10004, 0x1000004, 0x1000004, 0x10004, 0, 0x404, 0x10404, 0x1000000,
      0x10000, 0x1010404, 0x4, 0x1010000, 0x1010400, 0x1000000, 0x1000000, 0x400,
      0x1010004, 0x10000, 0x10400, 0x1000004, 0x400, 0x4, 0x1000404, 0x10404,
      0x1010404, 0x10004, 0x1010000, 0x1000404, 0x1000004, 0x404, 0x10404, 0x1010400,
      0x404, 0x1000400, 0x1000400, 0, 0x10004, 0x10400, 0, 0x1010004]"

definition SB2 :: "u32 list" where
  "SB2 =
     [0x80108020, 0x80008000, 0x8000, 0x108020, 0x100000, 0x20, 0x80100020, 0x80008020,
      0x80000020, 0x80108020, 0x80108000, 0x80000000, 0x80008000, 0x100000, 0x20, 0x80100020,
      0x108000, 0x100020, 0x80008020, 0, 0x80000000, 0x8000, 0x108020, 0x80100000,
      0x100020, 0x80000020, 0, 0x108000, 0x8020, 0x80108000, 0x80100000, 0x8020,
      0, 0x108020, 0x80100020, 0x100000, 0x80008020, 0x80100000, 0x80108000, 0x8000,
      0x80100000, 0x80008000, 0x20, 0x80108020, 0x108020, 0x20, 0x8000, 0x80000000,
      0x8020, 0x80108000, 0x100000, 0x80000020, 0x100020, 0x80008020, 0x80000020, 0x100020,
      0x108000, 0, 0x80008000, 0x8020, 0x80000000, 0x80100020, 0x80108020, 0x108000]"

definition SB3 :: "u32 list" where
  "SB3 =
     [0x208, 0x8020200, 0, 0x8020008, 0x8000200, 0, 0x20208, 0x8000200,
      0x20008, 0x8000008, 0x8000008, 0x20000, 0x8020208, 0x20008, 0x8020000, 0x208,
      0x8000000, 0x8, 0x8020200, 0x200, 0x20200, 0x8020000, 0x8020008, 0x20208,
      0x8000208, 0x20200, 0x20000, 0x8000208, 0x8, 0x8020208, 0x200, 0x8000000,
      0x8020200, 0x8000000, 0x20008, 0x208, 0x20000, 0x8020200, 0x8000200, 0,
      0x200, 0x20008, 0x8020208, 0x8000200, 0x8000008, 0x200, 0, 0x8020008,
      0x8000208, 0x20000, 0x8000000, 0x8020208, 0x8, 0x20208, 0x20200, 0x8000008,
      0x8020000, 0x8000208, 0x208, 0x8020000, 0x20208, 0x8, 0x8020008, 0x20200]"

definition SB4 :: "u32 list" where
  "SB4 =
     [0x802001, 0x2081, 0x2081, 0x80, 0x802080, 0x800081, 0x800001, 0x2001,
      0, 0x802000, 0x802000, 0x802081, 0x81, 0, 0x800080, 0x800001,
      0x1, 0x2000, 0x800000, 0x802001, 0x80, 0x800000, 0x2001, 0x2080,
      0x800081, 0x1, 0x2080, 0x800080, 0x2000, 0x802080, 0x802081, 0x81,
      0x800080, 0x800001, 0x802000, 0x802081, 0x81, 0, 0, 0x802000,
      0x2080, 0x800080, 0x800081, 0x1, 0x802001, 0x2081, 0x2081, 0x80,
      0x802081, 0x81, 0x1, 0x2000, 0x800001, 0x2001, 0x802080, 0x800081,
      0x2001, 0x2080, 0x800000, 0x802001, 0x80, 0x800000, 0x2000, 0x802080]"

definition SB5 :: "u32 list" where
  "SB5 =
     [0x100, 0x2080100, 0x2080000, 0x42000100, 0x80000, 0x100, 0x40000000, 0x2080000,
      0x40080100, 0x80000, 0x2000100, 0x40080100, 0x42000100, 0x42080000, 0x80100, 0x40000000,
      0x2000000, 0x40080000, 0x40080000, 0, 0x40000100, 0x42080100, 0x42080100, 0x2000100,
      0x42080000, 0x40000100, 0, 0x42000000, 0x2080100, 0x2000000, 0x42000000, 0x80100,
      0x80000, 0x42000100, 0x100, 0x2000000, 0x40000000, 0x2080000, 0x42000100, 0x40080100,
      0x2000100, 0x40000000, 0x42080000, 0x2080100, 0x40080100, 0x100, 0x2000000, 0x42080000,
      0x42080100, 0x80100, 0x42000000, 0x42080100, 0x2080000, 0, 0x40080000, 0x42000000,
      0x80100, 0x2000100, 0x40000100, 0x80000, 0, 0x40080000, 0x2080100, 0x40000100]"

definition SB6 :: "u32 list" where
  "SB6 =
     [0x20000010, 0x20400000, 0x4000, 0x20404010, 0x20400000, 0x10, 0x20404010, 0x400000,
      0x20004000, 0x404010, 0x400000, 0x20000010, 0x400010, 0x20004000, 0x20000000, 0x4010,
      0, 0x400010, 0x20004010, 0x4000, 0x404000, 0x20004010, 0x10, 0x20400010,
      0x20400010, 0, 0x404010, 0x20404000, 0x4010, 0x404000, 0x20404000, 0x20000000,
      0x20004000, 0x10, 0x20400010, 0x404000, 0x20404010, 0x400000, 0x4010, 0x20000010,
      0x400000, 0x20004000, 0x20000000, 0x4010, 0x20000010, 0x20404010, 0x404000, 0x20400000,
      0x404010, 0x20404000, 0, 0x20400010, 0x10, 0x4000, 0x20400000, 0x404010,
      0x4000, 0x400010, 0x20004010, 0, 0x20404000, 0x20000000, 0x400010, 0x20004010]"

definition SB7 :: "u32 list" where
  "SB7 =
     [0x200000, 0x4200002, 0x4000802, 0, 0x800, 0x4000802, 0x200802, 0x4200800,
      0x4200802, 0x200000, 0, 0x4000002, 0x2, 0x4000000, 0x4200002, 0x802,
      0x4000800, 0x200802, 0x200002, 0x4000800, 0x4000002, 0x4200000, 0x4200800, 0x200002,
      0x4200000, 0x800, 0x802, 0x4200802, 0x200800, 0x2, 0x4000000, 0x200800,
      0x4000000, 0x200800, 0x200000, 0x4000802, 0x4000802, 0x4200002, 0x4200002, 0x2,
      0x200002, 0x4000000, 0x4000800, 0x200000, 0x4200800, 0x802, 0x200802, 0x4200800,
      0x802, 0x4000002, 0x4200802, 0x4200000, 0x200800, 0, 0x2, 0x4200802,
      0, 0x200802, 0x4200000, 0x800, 0x4000002, 0x4000800, 0x800, 0x200002]"

definition SB8 :: "u32 list" where
  "SB8 =
     [0x10001040, 0x1000, 0x40000, 0x10041040, 0x10000000, 0x10001040, 0x40, 0x10000000,
      0x40040, 0x10040000, 0x10041040, 0x41000, 0x10041000, 0x41040, 0x1000, 0x40,
      0x10040000, 0x10000040, 0x10001000, 0x1040, 0x41000, 0x40040, 0x10040040, 0x10041000,
      0x1040, 0, 0, 0x10040040, 0x10000040, 0x10001000, 0x41040, 0x40000,
      0x41040, 0x40000, 0x10041000, 0x1000, 0x40, 0x10040040, 0x1000, 0x41040,
      0x10001000, 0x40, 0x10000040, 0x10040000, 0x10040040, 0x10000000, 0x40000, 0x10001040,
      0, 0x10041040, 0x40040, 0x10000040, 0x10040000, 0x10001000, 0x10001040, 0,
      0x10041040, 0x41000, 0x41000, 0x1040, 0x1040, 0x40040, 0x10000000, 0x10041000]"

definition LHs :: "u32 list" where
  "LHs =
     [0, 0x1, 0x100, 0x101, 0x10000, 0x10001, 0x10100, 0x10101,
      0x1000000, 0x1000001, 0x1000100, 0x1000101, 0x1010000, 0x1010001, 0x1010100, 0x1010101]"

definition RHs :: "u32 list" where
  "RHs =
     [0, 0x1000000, 0x10000, 0x1010000, 0x100, 0x1000100, 0x10100, 0x1010100,
      0x1, 0x1000001, 0x10001, 0x1010001, 0x101, 0x1000101, 0x10101, 0x1010101]"

section \<open>Blocks of eight bytes\<close>

definition GET_UINT32 :: "byte list \<Rightarrow> nat \<Rightarrow> u32 res" where
  "GET_UINT32 b i =
     bindR (rd b i) (\<lambda>b0. bindR (rd b (i + 1)) (\<lambda>b1. bindR (rd b (i + 2)) (\<lambda>b2. bindR (rd b (i + 3)) (\<lambda>b3.
     Inr (push_bit 24 (ucast b0) OR push_bit 16 (ucast b1) OR push_bit 8 (ucast b2) OR ucast b3)))))"

definition PUT_UINT32 :: "u32 \<Rightarrow> byte list" where
  "PUT_UINT32 n = [ucast (drop_bit 24 n), ucast (drop_bit 16 n), ucast (drop_bit 8 n), ucast n]"

text \<open>One line of the permutations: \<^verbatim>\<open>T = ((X >> n) ^ Y) & m; Y ^= T; X ^= (T << n)\<close>.\<close>

definition swap_bits :: "nat \<Rightarrow> u32 \<Rightarrow> u32 \<Rightarrow> u32 \<Rightarrow> u32 \<times> u32" where
  "swap_bits n m X Y = (let T = (drop_bit n X XOR Y) AND m in (X XOR push_bit n T, Y XOR T))"

definition DES_IP :: "u32 \<Rightarrow> u32 \<Rightarrow> u32 \<times> u32" where
  "DES_IP X Y =
     (let (X, Y) = swap_bits 4 0x0F0F0F0F X Y;
          (X, Y) = swap_bits 16 0x0000FFFF X Y;
          (Y, X) = swap_bits 2 0x33333333 Y X;
          (Y, X) = swap_bits 8 0x00FF00FF Y X;
          Y = (push_bit 1 Y OR drop_bit 31 Y) AND 0xFFFFFFFF;
          (X, Y) = swap_bits 0 0xAAAAAAAA X Y;
          X = (push_bit 1 X OR drop_bit 31 X) AND 0xFFFFFFFF in
      (X, Y))"

definition DES_FP :: "u32 \<Rightarrow> u32 \<Rightarrow> u32 \<times> u32" where
  "DES_FP X Y =
     (let X = (push_bit 31 X OR drop_bit 1 X) AND 0xFFFFFFFF;
          (X, Y) = swap_bits 0 0xAAAAAAAA X Y;
          Y = (push_bit 31 Y OR drop_bit 1 Y) AND 0xFFFFFFFF;
          (Y, X) = swap_bits 8 0x00FF00FF Y X;
          (Y, X) = swap_bits 2 0x33333333 Y X;
          (X, Y) = swap_bits 16 0x0000FFFF X Y;
          (X, Y) = swap_bits 4 0x0F0F0F0F X Y in
      (X, Y))"

text \<open>The round \<^verbatim>\<open>DES_ROUND(X,Y)\<close> with the two words of the key schedule that it takes; it returns
  the new \<^verbatim>\<open>Y\<close>.\<close>

definition sbox :: "u32 list \<Rightarrow> nat \<Rightarrow> u32 \<Rightarrow> u32" where
  "sbox SB n T = SB ! unat (drop_bit n T AND 0x3F)"

definition DES_ROUND :: "u32 \<Rightarrow> u32 \<Rightarrow> u32 \<Rightarrow> u32 \<Rightarrow> u32" where
  "DES_ROUND k1 k2 X Y =
     (let T = k1 XOR X;
          Y = Y XOR (sbox SB8 0 T XOR sbox SB6 8 T XOR sbox SB4 16 T XOR sbox SB2 24 T);
          T = k2 XOR (push_bit 28 X OR drop_bit 4 X) in
      Y XOR (sbox SB7 0 T XOR sbox SB5 8 T XOR sbox SB3 16 T XOR sbox SB1 24 T))"

section \<open>Key schedule\<close>

definition LH :: "nat \<Rightarrow> u32 \<Rightarrow> u32" where
  "LH n X = LHs ! unat (drop_bit n X AND 0xF)"

definition RH :: "nat \<Rightarrow> u32 \<Rightarrow> u32" where
  "RH n Y = RHs ! unat (drop_bit n Y AND 0xF)"

definition PC1 :: "u32 \<Rightarrow> u32 \<Rightarrow> u32 \<times> u32" where
  "PC1 X Y =
     (let (Y, X) = swap_bits 4 0x0F0F0F0F Y X;
          (Y, X) = swap_bits 0 0x10101010 Y X;
          X = push_bit 3 (LH 0 X) OR push_bit 2 (LH 8 X) OR push_bit 1 (LH 16 X) OR LH 24 X OR
              push_bit 7 (LH 5 X) OR push_bit 6 (LH 13 X) OR push_bit 5 (LH 21 X) OR push_bit 4 (LH 29 X);
          Y = push_bit 3 (RH 1 Y) OR push_bit 2 (RH 9 Y) OR push_bit 1 (RH 17 Y) OR RH 25 Y OR
              push_bit 7 (RH 4 Y) OR push_bit 6 (RH 12 Y) OR push_bit 5 (RH 20 Y) OR push_bit 4 (RH 28 Y) in
      (X AND 0x0FFFFFFF, Y AND 0x0FFFFFFF))"

definition ks_rotate :: "nat \<Rightarrow> u32 \<Rightarrow> u32" where
  "ks_rotate i X =
     (if i < 2 \<or> i = 8 \<or> i = 15 then (push_bit 1 X OR drop_bit 27 X) AND 0x0FFFFFFF
      else (push_bit 2 X OR drop_bit 26 X) AND 0x0FFFFFFF)"

definition subkey1 :: "u32 \<Rightarrow> u32 \<Rightarrow> u32" where
  "subkey1 X Y =
      (push_bit 4 X AND 0x24000000) OR (push_bit 28 X AND 0x10000000) OR (push_bit 14 X AND 0x8000000) OR
      (push_bit 18 X AND 0x2080000) OR (push_bit 6 X AND 0x1000000) OR (push_bit 9 X AND 0x200000) OR
      (drop_bit 1 X AND 0x100000) OR (push_bit 10 X AND 0x40000) OR (push_bit 2 X AND 0x20000) OR
      (drop_bit 10 X AND 0x10000) OR (drop_bit 13 Y AND 0x2000) OR (drop_bit 4 Y AND 0x1000) OR
      (push_bit 6 Y AND 0x800) OR (drop_bit 1 Y AND 0x400) OR (drop_bit 14 Y AND 0x200) OR
      (Y AND 0x100) OR (drop_bit 5 Y AND 0x20) OR (drop_bit 10 Y AND 0x10) OR
      (drop_bit 3 Y AND 0x8) OR (drop_bit 18 Y AND 0x4) OR (drop_bit 26 Y AND 0x2) OR
      (drop_bit 24 Y AND 0x1)"

definition subkey2 :: "u32 \<Rightarrow> u32 \<Rightarrow> u32" where
  "subkey2 X Y =
      (push_bit 15 X AND 0x20000000) OR (push_bit 17 X AND 0x10000000) OR (push_bit 10 X AND 0x8000000) OR
      (push_bit 22 X AND 0x4000000) OR (drop_bit 2 X AND 0x2000000) OR (push_bit 1 X AND 0x1000000) OR
      (push_bit 16 X AND 0x200000) OR (push_bit 11 X AND 0x100000) OR (push_bit 3 X AND 0x80000) OR
      (drop_bit 6 X AND 0x40000) OR (push_bit 15 X AND 0x20000) OR (drop_bit 4 X AND 0x10000) OR
      (drop_bit 2 Y AND 0x2000) OR (push_bit 8 Y AND 0x1000) OR (drop_bit 14 Y AND 0x808) OR
      (drop_bit 9 Y AND 0x400) OR (Y AND 0x200) OR (push_bit 7 Y AND 0x100) OR
      (drop_bit 7 Y AND 0x20) OR (drop_bit 3 Y AND 0x11) OR (push_bit 2 Y AND 0x4) OR
      (drop_bit 21 Y AND 0x2)"

fun ks_loop :: "nat \<Rightarrow> nat \<Rightarrow> u32 \<Rightarrow> u32 \<Rightarrow> u32 list" where
  "ks_loop i 0 X Y = []"
| "ks_loop i (Suc n) X Y =
     (let X = ks_rotate i X; Y = ks_rotate i Y in
      subkey1 X Y # subkey2 X Y # ks_loop (Suc i) n X Y)"

definition des_main_ks :: "byte list \<Rightarrow> u32 list res" where
  "des_main_ks key =
     bindR (GET_UINT32 key 0) (\<lambda>X.
     bindR (GET_UINT32 key 4) (\<lambda>Y.
     let (X, Y) = PC1 X Y in Inr (ks_loop 0 16 X Y)))"

section \<open>The block cipher\<close>

text \<open>The sixteen rounds, a line of two at a time. A round takes two words of the key schedule, so that 32
  words make eight lines.\<close>

fun des_rounds :: "u32 list \<Rightarrow> u32 \<Rightarrow> u32 \<Rightarrow> u32 \<times> u32" where
  "des_rounds (k1 # k2 # k3 # k4 # SK) X Y =
     (let X = DES_ROUND k1 k2 Y X; Y = DES_ROUND k3 k4 X Y in des_rounds SK X Y)"
| "des_rounds SK X Y = (X, Y)"

definition des_crypt :: "u32 list \<Rightarrow> byte list \<Rightarrow> byte list res" where
  "des_crypt SK input =
     bindR (GET_UINT32 input 0) (\<lambda>X.
     bindR (GET_UINT32 input 4) (\<lambda>Y.
     let (X, Y) = DES_IP X Y;
         (X, Y) = des_rounds SK X Y;
         (Y, X) = DES_FP Y X in
     Inr (PUT_UINT32 Y @ PUT_UINT32 X)))"

section \<open>Lua functions\<close>

definition des_key :: "byte list \<Rightarrow> u32 list res" where
  "des_key key = (if length key \<noteq> 8 then Inl (Lua_error ''Invalid key size %d, need 8 bytes'') else des_main_ks key)"

text \<open>\<^verbatim>\<open>for (i=0; i<end; i+=8) des_crypt(SK, text+i, buffer+i)\<close>: the last \<open>i\<close> and the buffer.\<close>

function crypt_loop :: "u32 list \<Rightarrow> byte list \<Rightarrow> nat \<Rightarrow> nat \<Rightarrow> byte option list \<Rightarrow> (nat \<times> byte option list) res" where
  "crypt_loop SK text end i buffer =
     (if i < end
      then bindR (des_crypt SK (drop i text)) (\<lambda>out.
           bindR (memcpyR buffer i (map Some out)) (\<lambda>buffer'. crypt_loop SK text end (i + 8) buffer'))
      else Inr (i, buffer))"
  by pat_completeness auto
termination
  by (relation "measure (\<lambda>(SK, text, end, i, buffer). end - i)") auto

definition tail_block :: "byte list \<Rightarrow> nat \<Rightarrow> byte list" where
  "tail_block text i =
     (let bytes = length text - i in
      map (\<lambda>j. if j < bytes then text ! (i + j) else if j = bytes then 0x80 else 0) [0..<8])"

definition ldesencode :: "byte list \<Rightarrow> byte list \<Rightarrow> byte list res" where
  "ldesencode key text =
     bindR (des_key key) (\<lambda>SK.
     let textsz = length text; chunksz = nat ((int textsz + 8) AND NOT 7) in
     bindR (crypt_loop SK text (textsz - 7) 0 (chunk_buffer chunksz)) (\<lambda>(i, buffer).
     bindR (des_crypt SK (tail_block text i)) (\<lambda>out.
     bindR (memcpyR buffer i (map Some out)) (\<lambda>buffer.
     lua_pushlstring buffer chunksz))))"

definition reverse_ks :: "u32 list \<Rightarrow> u32 list" where
  "reverse_ks ESK = concat (map (\<lambda>i. [ESK ! (30 - 2 * i), ESK ! (31 - 2 * i)]) [0..<16])"

text \<open>\<^verbatim>\<open>for (i=textsz-1; i>=textsz-8; i--)\<close>. \<^verbatim>\<open>i\<close> is an \<^verbatim>\<open>int\<close> and \<^verbatim>\<open>textsz\<close> a \<^verbatim>\<open>size_t\<close>, so that \<^verbatim>\<open>i\<close> is converted to an
  unsigned number of 64 bits for the comparison.\<close>

function pad_loop :: "byte option list \<Rightarrow> nat \<Rightarrow> int \<Rightarrow> nat \<Rightarrow> nat res" where
  "pad_loop buffer textsz i padding =
     (if textsz - 8 \<le> unat (word_of_int i :: u64)
      then if i < 0 then Inl Out_of_bounds
           else bindR (bindR (rd buffer (nat i)) initialised) (\<lambda>b.
                if b = 0 then pad_loop buffer textsz (i - 1) (padding + 1)
                else if b = 0x80 then Inr padding
                else Inl (Lua_error ''Invalid des crypt text''))
      else Inr padding)"
  by pat_completeness auto
termination
  by (relation "measure (\<lambda>(buffer, textsz, i, padding). nat (i + 1))") auto

definition ldesdecode :: "byte list \<Rightarrow> byte list \<Rightarrow> byte list res" where
  "ldesdecode key text =
     bindR (des_key key) (\<lambda>ESK.
     let SK = reverse_ks ESK; textsz = length text in
     if textsz mod 8 \<noteq> 0 \<or> textsz = 0 then Inl (Lua_error ''Invalid des crypt text length %d'')
     else
       bindR (crypt_loop SK text textsz 0 (chunk_buffer textsz)) (\<lambda>(_, buffer).
       bindR (pad_loop buffer textsz (int textsz - 1) 1) (\<lambda>padding.
       if padding > 8 then Inl (Lua_error ''Invalid des crypt text'')
       else lua_pushlstring buffer (textsz - padding))))"

declare crypt_loop.simps [simp del] pad_loop.simps [simp del]

section \<open>Every table is read inside its bounds\<close>

lemma and_less_table: "unat (x AND 0x3F :: u32) < 64" "unat (x AND 0xF :: u32) < 16"
  using word_and_le1 [of x "0x3F"] word_and_le1 [of x "0xF"] by (auto simp: word_le_nat_alt)

lemma table_lengths:
  "length SB1 = 64" "length SB2 = 64" "length SB3 = 64" "length SB4 = 64"
  "length SB5 = 64" "length SB6 = 64" "length SB7 = 64" "length SB8 = 64" "length LHs = 16" "length RHs = 16"
  by (simp_all add: SB1_def SB2_def SB3_def SB4_def SB5_def SB6_def SB7_def SB8_def LHs_def RHs_def)

section \<open>The permutations are inverse to each other\<close>

lemma swap_bits_involution:
  assumes "drop_bit n (push_bit n m) = m" and "swap_bits n m X Y = (X', Y')"
  shows "swap_bits n m X' Y' = (X, Y)"
proof -
  define T where "T = (drop_bit n X XOR Y) AND m"
  have "drop_bit n (push_bit n T) = T"
  proof (rule bit_word_eqI)
    fix k assume k: "k < LENGTH(32)"
    have "bit (drop_bit n (push_bit n m)) k = bit m k" using assms(1) by simp
    then show "bit (drop_bit n (push_bit n T)) k = bit T k"
      using k by (auto simp: T_def bit_simps)
  qed
  moreover have "X' = X XOR push_bit n T" "Y' = Y XOR T"
    using assms(2) by (simp_all add: swap_bits_def T_def Let_def)
  ultimately have "(drop_bit n X' XOR Y') AND m = T"
    by (simp add: drop_bit_xor xor.assoc xor.left_commute) (simp add: T_def xor.commute)
  then show ?thesis
    using \<open>X' = _\<close> \<open>Y' = _\<close> by (simp add: swap_bits_def Let_def xor.assoc)
qed

lemma swap_bits_masks:
  "drop_bit 4 (push_bit 4 (0x0F0F0F0F :: u32)) = 0x0F0F0F0F" "drop_bit 16 (push_bit 16 (0x0000FFFF :: u32)) = 0x0000FFFF"
  "drop_bit 2 (push_bit 2 (0x33333333 :: u32)) = 0x33333333" "drop_bit 8 (push_bit 8 (0x00FF00FF :: u32)) = 0x00FF00FF"
  "drop_bit 0 (push_bit 0 (0xAAAAAAAA :: u32)) = 0xAAAAAAAA"
  by simp_all

lemmas swap_back = swap_bits_masks [THEN swap_bits_involution]

lemma full_mask [simp]: "(x :: u32) AND 0xFFFFFFFF = x"
proof -
  have "(0xFFFFFFFF :: u32) = - 1" by simp
  then show ?thesis by (simp only: and.right_neutral)
qed

lemma rotate_back:
  fixes x :: u32
  assumes "r + s = 32"
  shows "push_bit s (push_bit r x OR drop_bit s x) OR drop_bit r (push_bit r x OR drop_bit s x) = x"
proof (rule bit_word_eqI)
  fix k assume "k < LENGTH(32)"
  then show "bit (push_bit s (push_bit r x OR drop_bit s x) OR drop_bit r (push_bit r x OR drop_bit s x)) k = bit x k"
    using assms by (cases "k < s") (auto simp: bit_simps dest: bit_imp_le_length)
qed

lemma rotate_31_1 [simp]:
  fixes x :: u32
  shows "push_bit 31 (push_bit 1 x OR drop_bit 31 x) OR drop_bit 1 (push_bit 1 x OR drop_bit 31 x) = x"
    and "push_bit 1 (push_bit 31 x OR drop_bit 1 x) OR drop_bit 31 (push_bit 31 x OR drop_bit 1 x) = x"
  by (rule rotate_back, simp)+

text \<open>A chain of swaps and rotations is undone by the same swaps and the opposite rotations, in the
  opposite order.\<close>

lemma DES_FP_IP: 
  assumes "DES_IP X Y = (X', Y')"
  shows "DES_FP X' Y' = (X, Y)"
proof -
  obtain X1 Y1 where 1: "swap_bits 4 0x0F0F0F0F X Y = (X1, Y1)" by fastforce
  obtain X2 Y2 where 2: "swap_bits 16 0x0000FFFF X1 Y1 = (X2, Y2)" by fastforce
  obtain X3 Y3 where 3: "swap_bits 2 0x33333333 Y2 X2 = (Y3, X3)" by fastforce
  obtain X4 Y4 where 4: "swap_bits 8 0x00FF00FF Y3 X3 = (Y4, X4)" by fastforce
  obtain X5 Y5 where 5: "swap_bits 0 0xAAAAAAAA X4 (push_bit 1 Y4 OR drop_bit 31 Y4) = (X5, Y5)" by fastforce
  have "X' = push_bit 1 X5 OR drop_bit 31 X5" "Y' = Y5"
    using assms unfolding DES_IP_def Let_def 1 2 3 4 5 prod.case full_mask by simp_all
  then show ?thesis
    unfolding DES_FP_def Let_def
    by (simp only: full_mask rotate_31_1 prod.case swap_back(5) [OF 5] swap_back(4) [OF 4]
        swap_back(3) [OF 3] swap_back(2) [OF 2] swap_back(1) [OF 1])
qed

lemma DES_IP_FP: 
  assumes "DES_FP X Y = (X', Y')"
  shows "DES_IP X' Y' = (X, Y)"
proof -
  obtain X1 Y1 where 1: "swap_bits 0 0xAAAAAAAA (push_bit 31 X OR drop_bit 1 X) Y = (X1, Y1)" by fastforce
  obtain X2 Y2 where 2: "swap_bits 8 0x00FF00FF (push_bit 31 Y1 OR drop_bit 1 Y1) X1 = (Y2, X2)" by fastforce
  obtain X3 Y3 where 3: "swap_bits 2 0x33333333 Y2 X2 = (Y3, X3)" by fastforce
  obtain X4 Y4 where 4: "swap_bits 16 0x0000FFFF X3 Y3 = (X4, Y4)" by fastforce
  obtain X5 Y5 where 5: "swap_bits 4 0x0F0F0F0F X4 Y4 = (X5, Y5)" by fastforce
  have "X' = X5" "Y' = Y5"
    using assms unfolding DES_FP_def Let_def full_mask 1 2 3 4 5 prod.case by simp_all
  then show ?thesis
    unfolding DES_IP_def Let_def
    by (simp only: full_mask rotate_31_1 prod.case swap_back(5) [OF 1] swap_back(4) [OF 2]
        swap_back(3) [OF 3] swap_back(2) [OF 4] swap_back(1) [OF 5])
qed

section \<open>Reading and writing blocks\<close>

lemma PUT_GET:
  assumes "length b = 8"
  obtains X Y where "GET_UINT32 b 0 = Inr X" and "GET_UINT32 b 4 = Inr Y" and "PUT_UINT32 X @ PUT_UINT32 Y = b"
proof -
  have u: "ucast (drop_bit n (push_bit 24 (ucast b0) OR push_bit 16 (ucast b1) OR push_bit 8 (ucast b2) OR ucast b3 :: u32)) =
      (if n = 24 then b0 else if n = 16 then b1 else if n = 8 then b2 else b3)"
    if "n \<in> {0, 8, 16, 24}" for b0 b1 b2 b3 :: byte and n
    using that by (intro bit_word_eqI) (auto simp: bit_simps dest: bit_imp_le_length)
  obtain b0 b1 b2 b3 b4 b5 b6 b7 where b: "b = [b0, b1, b2, b3, b4, b5, b6, b7]"
    using assms by (auto simp: numeral_eq_Suc length_Suc_conv)
  show thesis
    by (rule that [of "push_bit 24 (ucast b0) OR push_bit 16 (ucast b1) OR push_bit 8 (ucast b2) OR ucast b3"
          "push_bit 24 (ucast b4) OR push_bit 16 (ucast b5) OR push_bit 8 (ucast b6) OR ucast b7"])
      (use u [of 24] u [of 16] u [of 8] u [of 0] in \<open>simp_all add: b GET_UINT32_def PUT_UINT32_def\<close>)
qed

lemma GET_PUT: "GET_UINT32 (PUT_UINT32 X @ PUT_UINT32 Y @ z) 0 = Inr X" "GET_UINT32 (PUT_UINT32 X @ PUT_UINT32 Y @ z) 4 = Inr Y"
proof -
  have "push_bit 24 (ucast (ucast (drop_bit 24 n) :: byte)) OR push_bit 16 (ucast (ucast (drop_bit 16 n) :: byte)) OR
      push_bit 8 (ucast (ucast (drop_bit 8 n) :: byte)) OR ucast (ucast n :: byte) = n" for n :: u32
  proof (rule bit_word_eqI)
    fix k assume "k < LENGTH(32)"
    then consider "k < 8" | "8 \<le> k" "k < 16" | "16 \<le> k" "k < 24" | "24 \<le> k" "k < 32" by fastforce
    then show "bit (push_bit 24 (ucast (ucast (drop_bit 24 n) :: byte)) OR push_bit 16 (ucast (ucast (drop_bit 16 n) :: byte)) OR
        push_bit 8 (ucast (ucast (drop_bit 8 n) :: byte)) OR ucast (ucast n :: byte) :: u32) k = bit n k"
      by cases (auto simp: bit_simps)
  qed
  then show "GET_UINT32 (PUT_UINT32 X @ PUT_UINT32 Y @ z) 0 = Inr X" "GET_UINT32 (PUT_UINT32 X @ PUT_UINT32 Y @ z) 4 = Inr Y"
    by (simp_all add: GET_UINT32_def PUT_UINT32_def)
qed

lemma PUT_length [simp]: "length (PUT_UINT32 X) = 4"
  by (simp add: PUT_UINT32_def)

section \<open>Decryption undoes encryption of a block\<close>

lemma DES_ROUND_involution [simp]: "DES_ROUND k1 k2 X (DES_ROUND k1 k2 X Y) = Y"
  by (simp add: DES_ROUND_def Let_def xor.assoc xor.left_commute)

fun rev_pairs :: "'a list \<Rightarrow> 'a list" where
  "rev_pairs (a # b # xs) = rev_pairs xs @ [a, b]"
| "rev_pairs xs = xs"

lemma rev_pairs_length [simp]: "length (rev_pairs xs) = length xs"
  by (induction xs rule: rev_pairs.induct) auto

lemma reverse_ks_pairs:
  assumes "length SK = 32"
  shows "reverse_ks SK = rev_pairs SK"
proof -
  have "rev_pairs xs = concat (map (\<lambda>i. [xs ! (2 * m - 2 - 2 * i), xs ! (2 * m - 1 - 2 * i)]) [0..<m])"
    if "length xs = 2 * m" for xs :: "u32 list" and m
    using that
  proof (induction xs arbitrary: m rule: rev_pairs.induct)
    case (1 a b xs)
    then obtain n where m: "m = Suc n" "length xs = 2 * n" by (cases m) auto
    have *: "2 * Suc n - 2 - 2 * i = Suc (Suc (2 * n - 2 - 2 * i))" "2 * Suc n - 1 - 2 * i = Suc (Suc (2 * n - 1 - 2 * i))"
      if "i \<in> set [0..<n]" for i
      using that by auto
    have "map (\<lambda>i. [(a # b # xs) ! (2 * Suc n - 2 - 2 * i), (a # b # xs) ! (2 * Suc n - 1 - 2 * i)]) [0..<n] =
        map (\<lambda>i. [xs ! (2 * n - 2 - 2 * i), xs ! (2 * n - 1 - 2 * i)]) [0..<n]"
      by (rule map_cong [OF refl]) (simp only: * nth_Cons_Suc)
    then have "concat (map (\<lambda>i. [(a # b # xs) ! (2 * Suc n - 2 - 2 * i), (a # b # xs) ! (2 * Suc n - 1 - 2 * i)]) [0..<Suc n]) =
        concat (map (\<lambda>i. [xs ! (2 * n - 2 - 2 * i), xs ! (2 * n - 1 - 2 * i)]) [0..<n]) @ [a, b]"
      by (simp only: upt_Suc_append map_append concat_append) simp
    then show ?case using 1(1) [OF m(2)] by (simp only: m rev_pairs.simps)
  qed auto
  from this [of SK 16] assms show ?thesis by (simp add: reverse_ks_def)
qed

lemma des_rounds_append:
  "length SK mod 4 = 0 \<Longrightarrow> des_rounds (SK @ SK') X Y = (case des_rounds SK X Y of (X', Y') \<Rightarrow> des_rounds SK' X' Y')"
proof (induction SK X Y rule: des_rounds.induct)
  case (1 k1 k2 k3 k4 SK X Y)
  from 1(2) have "length SK mod 4 = 0" by simp
  with 1(1) [OF refl refl this] show ?case by (simp add: Let_def)
qed auto

lemma des_rounds_back:
  "length SK mod 4 = 0 \<Longrightarrow> des_rounds SK X Y = (X', Y') \<Longrightarrow> des_rounds (rev_pairs SK) Y' X' = (Y, X)"
proof (induction SK X Y rule: des_rounds.induct)
  case (1 k1 k2 k3 k4 SK X Y)
  define X1 where "X1 = DES_ROUND k1 k2 Y X"
  define Y1 where "Y1 = DES_ROUND k3 k4 X1 Y"
  from 1(2) have m: "length SK mod 4 = 0" by simp
  have "des_rounds (rev_pairs SK) Y' X' = (Y1, X1)"
    using 1(1) [OF X1_def Y1_def m] 1(3) by (simp add: Let_def X1_def Y1_def)
  then show ?case
    using des_rounds_append [of "rev_pairs SK" "[k3, k4, k1, k2]"] m
    by (simp add: Let_def Y1_def) (simp add: X1_def)
qed auto

lemma ks_loop_length: "length (ks_loop i n X Y) = 2 * n"
  by (induction i n X Y rule: ks_loop.induct) (auto simp: Let_def)

lemma des_key_ok:
  assumes "length key = 8"
  obtains SK where "des_key key = Inr SK" and "length SK = 32"
proof -
  obtain X Y where "GET_UINT32 key 0 = Inr X" "GET_UINT32 key 4 = Inr Y" using PUT_GET [OF assms] by metis
  then show thesis
    using assms that [of "case PC1 X Y of (X, Y) \<Rightarrow> ks_loop 0 16 X Y"]
    by (simp add: des_key_def des_main_ks_def ks_loop_length split: prod.splits)
qed

lemma des_crypt_inverse:
  assumes "length b = 8" and "length SK = 32"
  obtains c where "des_crypt SK (b @ z) = Inr c" and "length c = 8" and "des_crypt (reverse_ks SK) (c @ z') = Inr b"
proof -
  obtain X Y where b: "PUT_UINT32 X @ PUT_UINT32 Y = b" using PUT_GET [OF assms(1)] by metis
  obtain X1 Y1 where 1: "DES_IP X Y = (X1, Y1)" by fastforce
  obtain X2 Y2 where 2: "des_rounds SK X1 Y1 = (X2, Y2)" by fastforce
  obtain Y3 X3 where 3: "DES_FP Y2 X2 = (Y3, X3)" by fastforce
  have "des_rounds (reverse_ks SK) Y2 X2 = (Y1, X1)"
    using des_rounds_back [OF _ 2] assms(2) by (simp add: reverse_ks_pairs)
  then have "des_crypt (reverse_ks SK) ((PUT_UINT32 Y3 @ PUT_UINT32 X3) @ z') = Inr b"
    using DES_IP_FP [OF 3] DES_FP_IP [OF 1] b by (simp add: des_crypt_def GET_PUT)
  moreover have "des_crypt SK (b @ z) = Inr (PUT_UINT32 Y3 @ PUT_UINT32 X3)"
    using 1 2 3 by (simp add: des_crypt_def GET_PUT flip: b)
  ultimately show thesis using that by simp
qed

section \<open>Whole texts\<close>

definition is_crypted :: "u32 list \<Rightarrow> byte list \<Rightarrow> byte list \<Rightarrow> bool" where
  "is_crypted SK b c \<longleftrightarrow> length b = 8 \<and> length c = 8 \<and> (\<forall>z. des_crypt SK (b @ z) = Inr c)"

lemma is_crypted_both:
  assumes "length b = 8" and "length SK = 32"
  obtains c where "is_crypted SK b c" and "is_crypted (reverse_ks SK) c b"
  proof -
  have "des_crypt SK (x @ z) = des_crypt SK x" if "length x = 8" for SK x z
    using that by (simp add: des_crypt_def GET_UINT32_def nth_append)
  then show thesis
    using des_crypt_inverse [OF assms, of "[]" "[]"] that assms(1) by (simp add: is_crypted_def) metis
qed

lemma crypted_lengths:
  "list_all2 (is_crypted SK) bs cs \<Longrightarrow> length (concat bs) = 8 * length bs \<and> length (concat cs) = 8 * length bs"
  by (induction rule: list_all2_induct) (auto simp: is_crypted_def)

lemma crypted_blocks:
  assumes "\<forall>b \<in> set bs. length b = 8" and "length SK = 32"
  obtains cs where "list_all2 (is_crypted SK) bs cs" and "list_all2 (is_crypted (reverse_ks SK)) cs bs"
  using assms
proof (induction bs arbitrary: thesis)
  case (Cons b bs)
  obtain c where "is_crypted SK b c" "is_crypted (reverse_ks SK) c b" using is_crypted_both [of b SK] Cons.prems by auto
  moreover obtain cs where "list_all2 (is_crypted SK) bs cs" "list_all2 (is_crypted (reverse_ks SK)) cs bs"
    using Cons by auto
  ultimately show ?case using Cons.prems(1) [of "c # cs"] by simp
qed simp

lemma split_blocks:
  obtains bs rest where "(xs :: byte list) = concat bs @ rest" and "\<forall>b \<in> set bs. length b = 8" and "length rest < 8"
proof -
  have "\<exists>bs rest. (xs :: byte list) = concat bs @ rest \<and> (\<forall>b \<in> set bs. length b = 8) \<and> length rest < 8"
  proof (induction "length xs" arbitrary: xs rule: less_induct)
    case less
    show ?case
    proof (cases "length xs < 8")
      case True
      then show ?thesis by (intro exI [of _ "[]"] exI [of _ xs]) simp
    next
      case False
      then obtain bs rest where "drop 8 xs = concat bs @ rest" "\<forall>b \<in> set bs. length b = 8" "length rest < 8"
        using less [of "drop 8 xs"] by force
      then show ?thesis using False append_take_drop_id [of 8 xs] by (intro exI [of _ "take 8 xs # bs"] exI [of _ rest]) auto
    qed
  qed
  then show thesis using that by blast
qed

text \<open>The loop encrypts block after block and fills the buffer from the left. \<open>end\<close> stops it behind the
  last full block.\<close>

lemma crypt_loop_ok:
  assumes "list_all2 (is_crypted SK) bs cs" and "i = length out" and "length pre = i"
    and "i + 8 * length bs \<le> length buf" and "i + 8 * length bs < end + 8" and "end \<le> i + 8 * length bs"
  shows "crypt_loop SK (pre @ concat bs @ rest) end i (map Some out @ drop i buf) =
    Inr (i + 8 * length bs, map Some (out @ concat cs) @ drop (i + 8 * length bs) buf)"
  using assms
proof (induction bs cs arbitrary: i out pre rule: list_all2_induct)
  case Nil
  then show ?case by (subst crypt_loop.simps) simp
next
  case (Cons b bs c cs)
  have bc: "length b = 8" "length c = 8" "des_crypt SK (b @ concat bs @ rest) = Inr c"
    using Cons.hyps by (auto simp: is_crypted_def)
  have "memcpyR (map Some out @ drop i buf) i (map Some c) = Inr (map Some (out @ c) @ drop (i + 8) buf)"
    using Cons.prems bc memcpyR_next [of i "map Some out" "map Some c" buf] by simp
  moreover have "drop i (pre @ concat (b # bs) @ rest) = b @ concat bs @ rest" using Cons.prems by simp
  ultimately have "crypt_loop SK (pre @ concat (b # bs) @ rest) end i (map Some out @ drop i buf) =
      crypt_loop SK ((pre @ b) @ concat bs @ rest) end (i + 8) (map Some (out @ c) @ drop (i + 8) buf)"
    using Cons.prems bc(3) by (subst crypt_loop.simps) simp
  also have "\<dots> = Inr (i + 8 + 8 * length bs, map Some ((out @ c) @ concat cs) @ drop (i + 8 + 8 * length bs) buf)"
    using Cons.prems bc by (intro Cons.IH) auto
  finally show ?case by (simp add: algebra_simps)
qed

definition padded :: "byte list \<Rightarrow> byte list" where
  "padded rest = rest @ 0x80 # replicate (7 - length rest) 0"

lemma tail_block_padded:
  assumes "length rest < 8" and "length pre = i"
  shows "tail_block (pre @ rest) i = padded rest"
proof (rule nth_equalityI)
  show "length (tail_block (pre @ rest) i) = length (padded rest)" using assms by (simp add: tail_block_def padded_def Let_def)
next
  fix j assume "j < length (tail_block (pre @ rest) i)"
  then have "j < 8" by (simp add: tail_block_def Let_def)
  then show "tail_block (pre @ rest) i ! j = padded rest ! j"
    using assms by (auto simp: tail_block_def padded_def Let_def nth_append nth_Cons')
qed

lemma chunk_size: "nat ((int n + 8) AND NOT 7) = 8 * (n div 8 + 1)"
proof -
  have "(x :: int) AND NOT (mask 3) = push_bit 3 (drop_bit 3 x)" for x
    by (rule bit_eqI) (auto simp: bit_simps)
  then have "(int n + 8) AND NOT 7 = 8 * ((int n + 8) div 8)"
    by (simp add: mask_eq_exp_minus_1 push_bit_eq_mult drop_bit_eq_div)
  moreover have "(n + 8) div 8 = n div 8 + 1" by simp
  ultimately show ?thesis by (simp add: nat_mult_distrib nat_add_distrib nat_div_distrib)
qed

lemma pad_loop_nat:
  assumes "m < 2 ^ 64"
  shows "pad_loop buffer textsz (int m) p =
     (if textsz - 8 \<le> m
      then bindR (bindR (rd buffer m) initialised) (\<lambda>b.
           if b = 0 then pad_loop buffer textsz (int m - 1) (p + 1)
           else if b = 0x80 then Inr p else Inl (Lua_error ''Invalid des crypt text''))
      else Inr p)"
proof -
  have "unat (word_of_int (int m) :: u64) = m" using assms by (simp add: unsigned_of_nat take_bit_nat_eq_self)
  then show ?thesis by (subst pad_loop.simps) simp
qed

lemma pad_loop_zeros:
  assumes "j \<le> k" and "k < 8" and "textsz = length t + 1 + k" and "textsz < 2 ^ 31"
  shows "pad_loop (map Some (t @ 0x80 # replicate k 0) @ more) textsz (int (length t + j)) p = Inr (p + j)"
  using assms(1)
proof (induction j arbitrary: p)
  case 0
  then show ?case using assms by (subst pad_loop_nat) (simp_all add: nth_append)
next
  case (Suc j)
  have "(map Some (t @ 0x80 # replicate k 0) @ more) ! (length t + Suc j) = Some 0" using Suc.prems by (simp add: nth_append)
  moreover have dec: "int (Suc (length t + j)) - 1 = int (length t + j)" by simp
  moreover have "length t + k - 7 \<le> Suc (length t + j)" using assms(2) by linarith
  ultimately show ?case using assms Suc
    by (subst pad_loop_nat) (simp_all add: dec del: of_nat_add of_nat_Suc map_append)
qed

text \<open>C21. \<^verbatim>\<open>desdecode\<close> inverts \<^verbatim>\<open>desencode\<close>: for every key of eight bytes and every text, encoding succeeds, gives a
  multiple of eight bytes that is longer than the text by at most eight, and decoding that gives the text
  back. No buffer, table or text is read or written outside its bounds on the way.\<close>

theorem desdecode_desencode:
  assumes "length key = 8" and "length text < 2 ^ 31 - 8"
  shows "\<exists>c. ldesencode key text = Inr c \<and> length c = 8 * (length text div 8 + 1) \<and> ldesdecode key c = Inr text"
proof -
  obtain SK where SK: "des_key key = Inr SK" "length SK = 32" using des_key_ok [OF assms(1)] .
  obtain bs rest where split: "text = concat bs @ rest" "\<forall>b \<in> set bs. length b = 8" "length rest < 8" using split_blocks .
  let ?n = "8 * length bs"
  have "length (padded rest) = 8" using split(3) by (simp add: padded_def)
  then obtain t where t: "is_crypted SK (padded rest) t" "is_crypted (reverse_ks SK) t (padded rest)"
    using is_crypted_both SK(2) by blast
  obtain cs where cs: "list_all2 (is_crypted SK) bs cs" "list_all2 (is_crypted (reverse_ks SK)) cs bs"
    using crypted_blocks [OF split(2) SK(2)] .
  note len = crypted_lengths [OF cs(1)] list_all2_lengthD [OF cs(1)]
  have lt: "length t = 8" "length (padded rest) = 8" using t(1) by (simp_all add: is_crypted_def)
  have size: "length text = ?n + length rest" "length text div 8 = length bs" using len split by auto
  let ?buf = "chunk_buffer (?n + 8)"
  have "crypt_loop SK ([] @ concat bs @ rest) (length text - 7) 0 (map Some [] @ drop 0 ?buf) =
      Inr (0 + ?n, map Some ([] @ concat cs) @ drop (0 + ?n) ?buf)"
    using size split(3) chunk_buffer_length [of "?n + 8"] by (intro crypt_loop_ok cs) (simp_all del: chunk_buffer_length)
  moreover have "tail_block text ?n = padded rest" using tail_block_padded [OF split(3), of "concat bs"] len split(1) by simp
  moreover have "memcpyR (map Some (concat cs) @ drop ?n ?buf) ?n (map Some t) =
      Inr (map Some (concat cs @ t) @ drop (?n + 8) ?buf)"
    using memcpyR_next [of ?n "map Some (concat cs)" "map Some t" ?buf] len lt(1) chunk_buffer_length [of "?n + 8"] by simp
  moreover have "nat ((int (length text) + 8) AND NOT 7) = ?n + 8" unfolding chunk_size size(2) by simp
  moreover have "lua_pushlstring (map Some (concat cs @ t) @ drop (?n + 8) ?buf) (?n + 8) = Inr (concat cs @ t)"
    using len lt(1) by (intro pushlstring_prefix) simp
  moreover have "des_crypt SK (padded rest) = Inr t" using t(1) by (auto simp: is_crypted_def dest: spec [of _ "[]"])
  ultimately have "ldesencode key text = Inr (concat cs @ t)"
    using SK(1) split(1) len lt(1) by (simp add: ldesencode_def Let_def)
  moreover have "ldesdecode key (concat cs @ t) = Inr text"
  proof -
    have all: "list_all2 (is_crypted (reverse_ks SK)) (cs @ [t]) (bs @ [padded rest])"
      using cs(2) t(2) by (simp add: list_all2_appendI)
    have "crypt_loop (reverse_ks SK) ([] @ concat (cs @ [t]) @ []) (?n + 8) 0 (map Some [] @ drop 0 ?buf) =
        Inr (0 + 8 * length (cs @ [t]), map Some ([] @ concat (bs @ [padded rest])) @ drop (0 + 8 * length (cs @ [t])) ?buf)"
      using len chunk_buffer_length [of "?n + 8"] by (intro crypt_loop_ok all) (simp_all del: chunk_buffer_length)
    then have "crypt_loop (reverse_ks SK) (concat cs @ t) (?n + 8) 0 ?buf =
        Inr (?n + 8, map Some (text @ 0x80 # replicate (7 - length rest) 0) @ drop (?n + 8) ?buf)"
      using len split(1) by (simp add: padded_def add.commute)
    moreover have "pad_loop (map Some (text @ 0x80 # replicate (7 - length rest) 0) @ drop (?n + 8) ?buf) (?n + 8)
        (int (length text + (7 - length rest))) 1 = Inr (1 + (7 - length rest))"
      using size split(3) assms(2) by (intro pad_loop_zeros) auto
    moreover have "int (length text + (7 - length rest)) = int (?n + 8) - 1" using size split(3) by simp
    moreover have "lua_pushlstring (map Some text @ more) (?n + 8 - (1 + (7 - length rest))) = Inr text" for more
      using size split(3) by simp
    ultimately show ?thesis
      using SK(1) len lt(1) by (simp add: ldesdecode_def Let_def)
  qed
  ultimately show ?thesis using len lt(1) size by auto
qed

theorem desdecode_desencode_witness:
  "\<exists>c. ldesencode (replicate 8 1) [2, 3] = Inr c \<and> length c = 8 \<and> ldesdecode (replicate 8 1) c = Inr [2, 3]"
  using desdecode_desencode [of "replicate 8 1" "[2, 3]"] by simp

text \<open>C25. A single block that decrypts to zeros makes \<^verbatim>\<open>desdecode\<close> read in front of its buffer: the loop over the
  padding compares a negative \<^verbatim>\<open>i\<close> with a \<^verbatim>\<open>size_t\<close> and does not end at the start of the buffer. There is such a
  text for every key.\<close>

theorem desdecode_reads_before_buffer:
  assumes "length key = 8"
  shows "\<exists>text. length text = 8 \<and> ldesdecode key text = Inl Out_of_bounds"
proof -
  obtain SK where SK: "des_key key = Inr SK" "length SK = 32" using des_key_ok [OF assms] .
  obtain c where c: "is_crypted SK (replicate 8 0) c" "is_crypted (reverse_ks SK) c (replicate 8 0)"
    using is_crypted_both [of "replicate 8 0" SK] SK(2) by auto
  then have "length c = 8" by (simp add: is_crypted_def)
  have "crypt_loop (reverse_ks SK) ([] @ concat [c] @ []) 8 0 (map Some [] @ drop 0 (chunk_buffer 8)) =
      Inr (0 + 8 * length [c], map Some ([] @ concat [replicate 8 0]) @ drop (0 + 8 * length [c]) (chunk_buffer 8))"
    using c(2) chunk_buffer_length [of 8] by (intro crypt_loop_ok) (simp_all del: chunk_buffer_length)
  moreover have "pad_loop (replicate 8 (Some 0) @ more) 8 (int n - 1) p = Inl Out_of_bounds" if "n \<le> 8" for n p more
    using that
  proof (induction n arbitrary: p)
    case (Suc n)
    then show ?case by (subst pad_loop.simps) (simp add: nth_append)
  qed (subst pad_loop.simps, simp)
  from this [of 8] have "pad_loop (replicate 8 (Some 0) @ more) 8 7 p = Inl Out_of_bounds" for p more by simp
  ultimately have "ldesdecode key c = Inl Out_of_bounds"
    using SK(1) \<open>length c = 8\<close> by (simp add: ldesdecode_def Let_def)
  then show ?thesis using \<open>length c = 8\<close> by blast
qed

theorem desdecode_reads_before_buffer_witness:
  "\<exists>text. length text = 8 \<and> ldesdecode (replicate 8 1) text = Inl Out_of_bounds"
  using desdecode_reads_before_buffer [of "replicate 8 1"] by simp

end
