(* ===== verification/Base64.thy ===== *)
theory Base64
  imports Chunk
begin

text \<open>
  Base64 in \<^verbatim>\<open>lualib-src/lua-crypt.c\<close>: \<^verbatim>\<open>lb64encode\<close>, \<^verbatim>\<open>b64index\<close> and \<^verbatim>\<open>lb64decode\<close>. The decoder skips every
  character that is not of the alphabet. Texts are shorter than 2^31 bytes, the range of the loop
  variables.
\<close>

section \<open>Encoding\<close>

definition encoding :: "byte list" where
  "encoding = map of_char ''ABCDEFGHIJKLMNOPQRSTUVWXYZabcdefghijklmnopqrstuvwxyz0123456789+/''"

definition enc :: "u32 \<Rightarrow> byte option res" where
  "enc v = bindR (rd encoding (unat v)) (\<lambda>c. Inr (Some c))"

definition pad_char :: byte where "pad_char = of_char (CHR ''='')"

definition encode4 :: "byte option list \<Rightarrow> nat \<Rightarrow> u32 \<Rightarrow> u32 \<Rightarrow> u32 \<Rightarrow> u32 \<Rightarrow> byte option list res" where
  "encode4 buffer j v0 v1 v2 v3 =
     bindR (enc v0) (\<lambda>c0. bindR (enc v1) (\<lambda>c1. bindR (enc v2) (\<lambda>c2. bindR (enc v3) (\<lambda>c3.
     memcpyR buffer j [c0, c1, c2, c3]))))"

function encode_loop :: "byte list \<Rightarrow> nat \<Rightarrow> nat \<Rightarrow> byte option list \<Rightarrow> (nat \<times> nat \<times> byte option list) res" where
  "encode_loop text i j buffer =
     (if i < length text - 2
      then
        bindR (rd text i) (\<lambda>b0. bindR (rd text (i + 1)) (\<lambda>b1. bindR (rd text (i + 2)) (\<lambda>b2.
        let v = push_bit 16 (ucast b0) OR push_bit 8 (ucast b1) OR ucast b2 :: u32 in
        bindR (encode4 buffer j (drop_bit 18 v) (drop_bit 12 v AND 0x3f) (drop_bit 6 v AND 0x3f) (v AND 0x3f)) (\<lambda>buffer'.
        encode_loop text (i + 3) (j + 4) buffer'))))
      else Inr (i, j, buffer))"
  by pat_completeness auto
termination
  by (relation "measure (\<lambda>(text, i, j, buffer). length text - i)") auto

definition encode_rest :: "byte list \<Rightarrow> nat \<Rightarrow> nat \<Rightarrow> byte option list \<Rightarrow> byte option list res" where
  "encode_rest text i j buffer =
     (let padding = length text - i in
      if padding = 1 then
        bindR (rd text i) (\<lambda>b0.
        let v = ucast b0 :: u32 in
        bindR (enc (drop_bit 2 v)) (\<lambda>c0. bindR (enc (push_bit 4 (v AND 3))) (\<lambda>c1.
        memcpyR buffer j [c0, c1, Some pad_char, Some pad_char])))
      else if padding = 2 then
        bindR (rd text i) (\<lambda>b0. bindR (rd text (i + 1)) (\<lambda>b1.
        let v = push_bit 8 (ucast b0) OR ucast b1 :: u32 in
        bindR (enc (drop_bit 10 v)) (\<lambda>c0. bindR (enc (drop_bit 4 v AND 0x3f)) (\<lambda>c1. bindR (enc (push_bit 2 (v AND 0xf))) (\<lambda>c2.
        memcpyR buffer j [c0, c1, c2, Some pad_char])))))
      else Inr buffer)"

definition lb64encode :: "byte list \<Rightarrow> byte list res" where
  "lb64encode text =
     (let encode_sz = (length text + 2) div 3 * 4 in
      bindR (encode_loop text 0 0 (chunk_buffer encode_sz)) (\<lambda>(i, j, buffer).
      bindR (encode_rest text i j buffer) (\<lambda>buffer.
      lua_pushlstring buffer encode_sz)))"

section \<open>Decoding\<close>

definition decoding :: "int list" where
  "decoding = [62,-1,-1,-1,63,52,53,54,55,56,57,58,59,60,61,-1,-1,-1,-2,-1,-1,-1,0,1,2,3,4,5,6,7,8,9,10,11,12,13,14,15,
     16,17,18,19,20,21,22,23,24,25,-1,-1,-1,-1,-1,-1,26,27,28,29,30,31,32,33,34,35,36,37,38,39,40,41,42,43,44,45,46,47,
     48,49,50,51]"

definition b64index :: "byte \<Rightarrow> int" where
  "b64index c =
     (if c < 43 then -1
      else let c = c - 43 in if unat c \<ge> length decoding then -1 else decoding ! unat c)"

text \<open>The inner loop collects four characters of the alphabet.\<close>

function decode_group :: "byte list \<Rightarrow> nat \<Rightarrow> int list \<Rightarrow> nat \<Rightarrow> (nat \<times> int list \<times> nat) res" where
  "decode_group text i c padding =
     (if length c < 4 then
        if i \<ge> length text then Inl (Lua_error ''Invalid base64 text'')
        else
          let x = b64index (text ! i) in
          if x = -1 then decode_group text (i + 1) c padding
          else decode_group text (i + 1) (c @ [x]) (if x = -2 then padding + 1 else padding)
      else Inr (i, c, padding))"
  by pat_completeness auto
termination
  by (relation "measure (\<lambda>(text, i, c, padding). length text - i)") auto

declare encode_loop.simps [simp del] decode_group.simps [simp del]

definition decode_bytes :: "int list \<Rightarrow> nat \<Rightarrow> byte list res" where
  "decode_bytes c padding =
     (let w = \<lambda>i. word_of_int (c ! i) :: u32 in
      if padding = 0 then
        let v = push_bit 18 (w 0) OR push_bit 12 (w 1) OR push_bit 6 (w 2) OR w 3 in
        Inr [ucast (drop_bit 16 v), ucast (drop_bit 8 v AND 0xff), ucast (v AND 0xff)]
      else if padding = 1 then
        if c ! 3 \<noteq> -2 \<or> (c ! 2 AND 3) \<noteq> 0 then Inl (Lua_error ''Invalid base64 text'')
        else let v = push_bit 10 (w 0) OR push_bit 4 (w 1) OR word_of_int (drop_bit 2 (c ! 2)) in
             Inr [ucast (drop_bit 8 v), ucast (v AND 0xff)]
      else if padding = 2 then
        if c ! 3 \<noteq> -2 \<or> c ! 2 \<noteq> -2 \<or> (c ! 1 AND 0xf) \<noteq> 0 then Inl (Lua_error ''Invalid base64 text'')
        else let v = push_bit 2 (w 0) OR word_of_int (drop_bit 4 (c ! 1)) in Inr [ucast v]
      else Inl (Lua_error ''Invalid base64 text''))"

lemma decode_group_end:
  "decode_group text i c padding = Inr (i', c', p) \<Longrightarrow> length c \<le> 4 \<Longrightarrow> i + 4 \<le> i' + length c"
proof (induction "text" i c padding rule: decode_group.induct)
  case (1 "text" i c padding)
  let ?x = "b64index (text ! i)"
  show ?case
  proof (cases "length c < 4 \<and> i < length text")
    case True
    then show ?thesis using 1(1) [OF _ _ refl] 1(2) [OF _ _ refl] 1(3)
      by (subst (asm) decode_group.simps) (auto simp: Let_def split: if_splits)
  next
    case False
    then show ?thesis using 1(3,4)
      by (subst (asm) decode_group.simps) (auto split: if_splits)
  qed
qed

function decode_loop :: "byte list \<Rightarrow> nat \<Rightarrow> nat \<Rightarrow> byte option list \<Rightarrow> (nat \<times> byte option list) res" where
  "decode_loop text i out buffer =
     (if i < length text
      then
        bindR (decode_group text i [] 0) (\<lambda>(i', c, padding).
        bindR (decode_bytes c padding) (\<lambda>bytes.
        bindR (memcpyR buffer out (map Some bytes)) (\<lambda>buffer'.
        decode_loop text i' (out + length bytes) buffer')))
      else Inr (out, buffer))"
  by pat_completeness auto
termination
proof (relation "measure (\<lambda>(text, i, out, buffer). length text - i)", simp, goal_cases)
  case (1 "text" i out buffer)
  then show ?case
    using decode_group_end [of "text" i "[]" 0] by fastforce
qed

declare decode_loop.simps [simp del]

definition lb64decode :: "byte list \<Rightarrow> byte list res" where
  "lb64decode text =
     bindR (decode_loop text 0 0 (chunk_buffer ((length text + 3) div 4 * 3))) (\<lambda>(output, buffer).
     lua_pushlstring buffer output)"

section \<open>Groups of bits\<close>

lemma masks: "(0x3f :: u32) = mask 6" "(0xf :: u32) = mask 4" "(3 :: u32) = mask 2" "(0xff :: u32) = mask 8"
  by (simp_all add: mask_eq_exp_minus_1)

lemma and_mask_less: "unat (x AND 0x3f :: u32) < 64"
  using word_and_le1 [of x "0x3f"] by (simp add: word_le_nat_alt)

lemma less_64: "(x :: u32) AND 0x3f = x \<Longrightarrow> unat x < 64"
  using and_mask_less [of x] by simp

text \<open>Three bytes, two bytes and one byte, taken apart into groups of six bits and put together again.\<close>

lemma three_bytes:
  fixes b0 b1 b2 :: byte
  defines "v \<equiv> push_bit 16 (ucast b0) OR push_bit 8 (ucast b1) OR ucast b2 :: u32"
  shows "unat (drop_bit 18 v) < 64"
    and "push_bit 18 (drop_bit 18 v) OR push_bit 12 (drop_bit 12 v AND 0x3f) OR push_bit 6 (drop_bit 6 v AND 0x3f) OR (v AND 0x3f) = v"
    and "ucast (drop_bit 16 v) = b0" and "ucast (drop_bit 8 v AND 0xff) = b1" and "ucast (v AND 0xff) = b2"
proof -
  have "drop_bit 18 v AND 0x3f = drop_bit 18 v"
    unfolding masks by (rule bit_word_eqI) (auto simp: v_def bit_simps simp del: mask_numeral dest: bit_imp_le_length)
  then show "unat (drop_bit 18 v) < 64" by (rule less_64)
  show "push_bit 18 (drop_bit 18 v) OR push_bit 12 (drop_bit 12 v AND 0x3f) OR push_bit 6 (drop_bit 6 v AND 0x3f) OR (v AND 0x3f) = v"
    unfolding masks
  proof (rule bit_word_eqI)
    fix k assume "k < LENGTH(32)"
    then consider "k < 6" | "6 \<le> k" "k < 12" | "12 \<le> k" "k < 18" | "18 \<le> k" "k < 32" by fastforce
    then show "bit (push_bit 18 (drop_bit 18 v) OR push_bit 12 (drop_bit 12 v AND mask 6) OR push_bit 6 (drop_bit 6 v AND mask 6) OR
      (v AND mask 6)) k = bit v k"
      by cases (auto simp: bit_simps simp del: mask_numeral)
  qed
  show "ucast (drop_bit 16 v) = b0" "ucast (drop_bit 8 v AND 0xff) = b1" "ucast (v AND 0xff) = b2"
    unfolding masks
    by (rule bit_word_eqI; auto simp: v_def bit_simps simp del: mask_numeral dest: bit_imp_le_length)+
qed

lemma two_bytes:
  fixes b0 b1 :: byte
  defines "v \<equiv> push_bit 8 (ucast b0) OR ucast b1 :: u32"
  shows "unat (drop_bit 10 v) < 64" and "unat (push_bit 2 (v AND 0xf)) < 64" and "push_bit 2 (v AND 0xf) AND 3 = 0"
    and "push_bit 10 (drop_bit 10 v) OR push_bit 4 (drop_bit 4 v AND 0x3f) OR drop_bit 2 (push_bit 2 (v AND 0xf)) = v"
    and "ucast (drop_bit 8 v) = b0" and "ucast (v AND 0xff) = b1"
proof -
  have "drop_bit 10 v AND 0x3f = drop_bit 10 v" "push_bit 2 (v AND 0xf) AND 0x3f = push_bit 2 (v AND 0xf)"
    unfolding masks
    by (rule bit_word_eqI; auto simp: v_def bit_simps simp del: mask_numeral dest: bit_imp_le_length)+
  then show "unat (drop_bit 10 v) < 64" "unat (push_bit 2 (v AND 0xf)) < 64" by (blast intro: less_64)+
  show "push_bit 2 (v AND 0xf) AND 3 = 0" "ucast (drop_bit 8 v) = b0" "ucast (v AND 0xff) = b1"
    unfolding masks
    by (rule bit_word_eqI; auto simp: v_def bit_simps simp del: mask_numeral dest: bit_imp_le_length)+
  show "push_bit 10 (drop_bit 10 v) OR push_bit 4 (drop_bit 4 v AND 0x3f) OR drop_bit 2 (push_bit 2 (v AND 0xf)) = v"
    unfolding masks
  proof (rule bit_word_eqI)
    fix k assume "k < LENGTH(32)"
    then consider "k < 4" | "4 \<le> k" "k < 10" | "10 \<le> k" "k < 32" by fastforce
    then show "bit (push_bit 10 (drop_bit 10 v) OR push_bit 4 (drop_bit 4 v AND mask 6) OR drop_bit 2 (push_bit 2 (v AND mask 4))) k = bit v k"
      by cases (auto simp: bit_simps simp del: mask_numeral)
  qed
qed

lemma one_byte:
  fixes b0 :: byte
  defines "v \<equiv> ucast b0 :: u32"
  shows "unat (drop_bit 2 v) < 64" and "unat (push_bit 4 (v AND 3)) < 64" and "push_bit 4 (v AND 3) AND 0xf = 0"
    and "push_bit 2 (drop_bit 2 v) OR drop_bit 4 (push_bit 4 (v AND 3)) = v"
    and "ucast v = b0"
proof -
  have "drop_bit 2 v AND 0x3f = drop_bit 2 v" "push_bit 4 (v AND 3) AND 0x3f = push_bit 4 (v AND 3)"
    unfolding masks
    by (rule bit_word_eqI; auto simp: v_def bit_simps simp del: mask_numeral dest: bit_imp_le_length)+
  then show "unat (drop_bit 2 v) < 64" "unat (push_bit 4 (v AND 3)) < 64" by (blast intro: less_64)+
  show "push_bit 4 (v AND 3) AND 0xf = 0" "ucast v = b0"
    unfolding masks
    by (rule bit_word_eqI; auto simp: v_def bit_simps simp del: mask_numeral dest: bit_imp_le_length)+
  show "push_bit 2 (drop_bit 2 v) OR drop_bit 4 (push_bit 4 (v AND 3)) = v"
    unfolding masks
  proof (rule bit_word_eqI)
    fix k assume "k < LENGTH(32)"
    then show "bit (push_bit 2 (drop_bit 2 v) OR drop_bit 4 (push_bit 4 (v AND mask 2))) k = bit v k"
      by (cases "k < 2") (auto simp: v_def bit_simps le_iff_add not_less simp del: mask_numeral dest: bit_imp_le_length)
  qed
qed

section \<open>The alphabet\<close>

lemma encoding_length [simp]: "length encoding = 64"
  by (simp add: encoding_def)

definition e64 :: "u32 \<Rightarrow> byte" where
  "e64 v = encoding ! unat v"

lemma enc_ok [simp]: "unat v < 64 \<Longrightarrow> enc v = Inr (Some (e64 v))"
  by (simp add: enc_def e64_def)

lemma b64index_encoding: "n < 64 \<Longrightarrow> b64index (encoding ! n) = int n"
proof -
  have "\<forall>n \<in> set [0..<64]. b64index (encoding ! n) = int n"
    by (simp add: b64index_def encoding_def decoding_def upt_conv_Cons)
  then show "n < 64 \<Longrightarrow> b64index (encoding ! n) = int n" by simp
qed

lemma b64index_e64 [simp]: "unat v < 64 \<Longrightarrow> b64index (e64 v) = uint v"
  by (simp add: e64_def b64index_encoding)

lemma b64index_pad [simp]: "b64index pad_char = -2"
  by (simp add: b64index_def pad_char_def decoding_def)

lemma uint_nonneg [simp]: "uint (v :: u32) \<noteq> - 1" "uint v \<noteq> - 2"
  using uint_ge_0 [of v] by linarith+

lemma drop_bit_uint [simp]: "word_of_int (drop_bit n (uint (v :: u32))) = drop_bit n v"
  by (rule bit_word_eqI) (auto simp: bit_simps dest: bit_imp_le_length)

lemma and_uint: "(v :: u32) AND 3 = 0 \<Longrightarrow> uint v AND 3 = 0" "v AND 0xf = 0 \<Longrightarrow> uint v AND 0xf = 0"
proof -
  have "uint (v AND 3) = uint v AND 3" "uint (v AND 0xf) = uint v AND 0xf" by (simp_all add: unsigned_and_eq)
  then show "v AND 3 = 0 \<Longrightarrow> uint v AND 3 = 0" "v AND 0xf = 0 \<Longrightarrow> uint v AND 0xf = 0" by simp_all
qed

section \<open>What the encoder writes and how the decoder reads it\<close>

fun b64_text :: "byte list \<Rightarrow> byte list" where
  "b64_text (b0 # b1 # b2 # bs) =
     (let v = push_bit 16 (ucast b0) OR push_bit 8 (ucast b1) OR ucast b2 in
      [e64 (drop_bit 18 v), e64 (drop_bit 12 v AND 0x3f), e64 (drop_bit 6 v AND 0x3f), e64 (v AND 0x3f)] @ b64_text bs)"
| "b64_text [b0, b1] =
     (let v = push_bit 8 (ucast b0) OR ucast b1 in
      [e64 (drop_bit 10 v), e64 (drop_bit 4 v AND 0x3f), e64 (push_bit 2 (v AND 0xf)), pad_char])"
| "b64_text [b0] =
     (let v = ucast b0 in [e64 (drop_bit 2 v), e64 (push_bit 4 (v AND 3)), pad_char, pad_char])"
| "b64_text [] = []"

lemma b64_text_length: "length (b64_text xs) = (length xs + 2) div 3 * 4"
  by (induction xs rule: b64_text.induct) (simp_all add: Let_def, presburger)

lemma encode_loop_stop: "length text \<le> i + 2 \<Longrightarrow> encode_loop text i j buffer = Inr (i, j, buffer)"
  by (subst encode_loop.simps) auto

lemma encode_ok:
  "i = length pre \<Longrightarrow> j = length out \<Longrightarrow> j + length (b64_text xs) \<le> length buf \<Longrightarrow>
   bindR (encode_loop (pre @ xs) i j (map Some out @ drop j buf)) (\<lambda>(i, j, buffer). encode_rest (pre @ xs) i j buffer) =
   Inr (map Some (out @ b64_text xs) @ drop (j + length (b64_text xs)) buf)"
proof (induction xs arbitrary: i j pre out rule: b64_text.induct)
  case (1 b0 b1 b2 bs)
  define v :: u32 where "v = push_bit 16 (ucast b0) OR push_bit 8 (ucast b1) OR ucast b2"
  let ?g = "[e64 (drop_bit 18 v), e64 (drop_bit 12 v AND 0x3f), e64 (drop_bit 6 v AND 0x3f), e64 (v AND 0x3f)]"
  have t: "b64_text (b0 # b1 # b2 # bs) = ?g @ b64_text bs" by (simp add: v_def Let_def)
  have "memcpyR (map Some out @ drop j buf) j (map Some ?g) = Inr (map Some (out @ ?g) @ drop (j + 4) buf)"
    using 1(3,4) memcpyR_next [of j "map Some out" "map Some ?g" buf] by (simp add: t eval_nat_numeral)
  then have "encode4 (map Some out @ drop j buf) j (drop_bit 18 v) (drop_bit 12 v AND 0x3f) (drop_bit 6 v AND 0x3f) (v AND 0x3f) =
      Inr (map Some (out @ ?g) @ drop (j + 4) buf)"
    using three_bytes(1) [of b0 b1 b2] and_mask_less by (simp add: encode4_def v_def)
  then have "encode_loop (pre @ b0 # b1 # b2 # bs) i j (map Some out @ drop j buf) =
      encode_loop ((pre @ [b0, b1, b2]) @ bs) (i + 3) (j + 4) (map Some (out @ ?g) @ drop (j + 4) buf)"
    using 1(2) by (subst encode_loop.simps) (simp add: nth_append v_def Let_def numeral_3_eq_3)
  then show ?case
    using 1(1) [OF v_def, of "i + 3" "pre @ [b0, b1, b2]" "j + 4" "out @ ?g"] 1(2-4) unfolding t
    by (simp add: eval_nat_numeral add.commute del: b64_text.simps)
next
  case (2 b0 b1)
  then show ?case
    using two_bytes(1,2) [of b0 b1] and_mask_less memcpyR_next [of j "map Some out" "map Some (b64_text [b0, b1])" buf]
    by (subst encode_loop.simps) (simp add: encode_rest_def Let_def nth_append)
next
  case (3 b0)
  then show ?case
    using one_byte(1,2) [of b0] memcpyR_next [of j "map Some out" "map Some (b64_text [b0])" buf]
    by (simp add: encode_loop_stop encode_rest_def Let_def)
next
  case 4
  then show ?case by (simp add: encode_loop_stop encode_rest_def)
qed

lemma decode_group_next:
  assumes "length c < 4" and "b64index x \<noteq> -1"
  shows "decode_group (pre @ x # rest) (length pre) c p =
    decode_group ((pre @ [x]) @ rest) (length (pre @ [x])) (c @ [b64index x]) (if b64index x = -2 then p + 1 else p)"
  using assms by (subst decode_group.simps) (simp add: Let_def)

lemma decode_group_four:
  assumes "b64index x0 \<noteq> -1" and "b64index x1 \<noteq> -1" and "b64index x2 \<noteq> -1" and "b64index x3 \<noteq> -1"
  shows "decode_group (pre @ x0 # x1 # x2 # x3 # rest) (length pre) [] 0 =
    Inr (length pre + 4, map b64index [x0, x1, x2, x3], length (filter (\<lambda>x. b64index x = -2) [x0, x1, x2, x3]))"
  unfolding decode_group_next [of "[]" x0 pre, OF _ assms(1), simplified list.size zero_less_numeral, OF TrueI]
  using assms decode_group_next [of "[b64index x0]" x1 "pre @ [x0]"] decode_group_next [of "[b64index x0, b64index x1]" x2 "pre @ [x0, x1]"]
    decode_group_next [of "[b64index x0, b64index x1, b64index x2]" x3 "pre @ [x0, x1, x2]"]
  by (simp add: decode_group.simps [of _ _ "[b64index x0, b64index x1, b64index x2, b64index x3]"])

lemma decode_bytes_words:
  fixes w0 w1 w2 w3 :: u32
  shows "decode_bytes [uint w0, uint w1, uint w2, uint w3] 0 =
      (let v = push_bit 18 w0 OR push_bit 12 w1 OR push_bit 6 w2 OR w3 in
       Inr [ucast (drop_bit 16 v), ucast (drop_bit 8 v AND 0xff), ucast (v AND 0xff)])"
    and "w2 AND 3 = 0 \<Longrightarrow> decode_bytes [uint w0, uint w1, uint w2, -2] 1 =
      (let v = push_bit 10 w0 OR push_bit 4 w1 OR drop_bit 2 w2 in Inr [ucast (drop_bit 8 v), ucast (v AND 0xff)])"
    and "w1 AND 0xf = 0 \<Longrightarrow> decode_bytes [uint w0, uint w1, -2, -2] 2 =
      (let v = push_bit 2 w0 OR drop_bit 4 w1 in Inr [ucast v])"
  using and_uint(1) [of w2] and_uint(2) [of w1] by (simp_all add: decode_bytes_def Let_def)

lemma decode_bytes_three:
  fixes b0 b1 b2 :: byte
  defines "v \<equiv> push_bit 16 (ucast b0) OR push_bit 8 (ucast b1) OR ucast b2 :: u32"
  shows "decode_bytes [uint (drop_bit 18 v), uint (drop_bit 12 v AND 0x3f), uint (drop_bit 6 v AND 0x3f), uint (v AND 0x3f)] 0 =
    Inr [b0, b1, b2]"
  unfolding decode_bytes_words(1) Let_def three_bytes(2-5) [of b0 b1 b2, folded v_def] ..

lemma decode_bytes_two:
  fixes b0 b1 :: byte
  defines "v \<equiv> push_bit 8 (ucast b0) OR ucast b1 :: u32"
  shows "decode_bytes [uint (drop_bit 10 v), uint (drop_bit 4 v AND 0x3f), uint (push_bit 2 (v AND 0xf)), -2] 1 = Inr [b0, b1]"
  unfolding decode_bytes_words(2) [OF two_bytes(3) [of b0 b1, folded v_def]] Let_def two_bytes(4-6) [of b0 b1, folded v_def] ..

lemma decode_bytes_one:
  fixes b0 :: byte
  defines "v \<equiv> ucast b0 :: u32"
  shows "decode_bytes [uint (drop_bit 2 v), uint (push_bit 4 (v AND 3)), -2, -2] 2 = Inr [b0]"
  unfolding decode_bytes_words(3) [OF one_byte(3) [of b0, folded v_def]] Let_def one_byte(4-5) [of b0, folded v_def] ..

lemma decode_loop_step:
  assumes "decode_group text i [] 0 = Inr (i', c, p)" and "decode_bytes c p = Inr bytes" and "i < length text"
    and "j = length out" and "j + length bytes \<le> length buf"
  shows "decode_loop text i j (map Some out @ drop j buf) =
    decode_loop text i' (j + length bytes) (map Some (out @ bytes) @ drop (j + length bytes) buf)"
  using assms memcpyR_next [of j "map Some out" "map Some bytes" buf]
  by (subst decode_loop.simps) simp

lemma decode_ok:
  "i = length pre \<Longrightarrow> j = length out \<Longrightarrow> j + length xs \<le> length buf \<Longrightarrow>
   decode_loop (pre @ b64_text xs) i j (map Some out @ drop j buf) =
   Inr (j + length xs, map Some (out @ xs) @ drop (j + length xs) buf)"
proof (induction xs arbitrary: i j pre out rule: b64_text.induct)
  case (1 b0 b1 b2 bs)
  define v :: u32 where "v = push_bit 16 (ucast b0) OR push_bit 8 (ucast b1) OR ucast b2"
  let ?g = "[e64 (drop_bit 18 v), e64 (drop_bit 12 v AND 0x3f), e64 (drop_bit 6 v AND 0x3f), e64 (v AND 0x3f)]"
  have t: "pre @ b64_text (b0 # b1 # b2 # bs) = (pre @ ?g) @ b64_text bs" by (simp add: v_def Let_def)
  have less: "unat (drop_bit 18 v) < 64" using three_bytes(1) [of b0 b1 b2] by (simp add: v_def)
  have "decode_group (pre @ b64_text (b0 # b1 # b2 # bs)) i [] 0 =
      Inr (i + 4, [uint (drop_bit 18 v), uint (drop_bit 12 v AND 0x3f), uint (drop_bit 6 v AND 0x3f), uint (v AND 0x3f)], 0)"
    unfolding t using less and_mask_less decode_group_four [of "?g ! 0" "?g ! 1" "?g ! 2" "?g ! 3" pre "b64_text bs"] 1(2) by simp
  then have "decode_loop (pre @ b64_text (b0 # b1 # b2 # bs)) i j (map Some out @ drop j buf) =
      decode_loop ((pre @ ?g) @ b64_text bs) (i + 4) (j + 3) (map Some (out @ [b0, b1, b2]) @ drop (j + 3) buf)"
    using decode_bytes_three [of b0 b1 b2, folded v_def] 1(2-4) unfolding t
    by (subst decode_loop_step [where bytes = "[b0, b1, b2]"]) (simp_all add: eval_nat_numeral)
  then show ?case
    using 1(1) [OF v_def, of "i + 4" "pre @ ?g" "j + 3" "out @ [b0, b1, b2]"] 1(2-4) by (simp add: add.commute eval_nat_numeral)
next
  case (2 b0 b1)
  define v :: u32 where "v = push_bit 8 (ucast b0) OR ucast b1"
  let ?g = "[e64 (drop_bit 10 v), e64 (drop_bit 4 v AND 0x3f), e64 (push_bit 2 (v AND 0xf)), pad_char]"
  have t: "pre @ b64_text [b0, b1] = pre @ ?g" by (simp add: v_def Let_def)
  have "decode_group (pre @ ?g) i [] 0 =
      Inr (i + 4, [uint (drop_bit 10 v), uint (drop_bit 4 v AND 0x3f), uint (push_bit 2 (v AND 0xf)), -2], 1)"
    using two_bytes(1,2) [of b0 b1, folded v_def] and_mask_less decode_group_four [of "?g ! 0" "?g ! 1" "?g ! 2" "?g ! 3" pre "[]"] 2 by simp
  then show ?case
    using decode_bytes_two [of b0 b1, folded v_def] 2 unfolding t
    by (subst decode_loop_step [where bytes = "[b0, b1]"]) (simp_all, simp add: decode_loop.simps)
next
  case (3 b0)
  define v :: u32 where "v = ucast b0"
  let ?g = "[e64 (drop_bit 2 v), e64 (push_bit 4 (v AND 3)), pad_char, pad_char]"
  have t: "pre @ b64_text [b0] = pre @ ?g" by (simp add: v_def Let_def)
  have "decode_group (pre @ ?g) i [] 0 = Inr (i + 4, [uint (drop_bit 2 v), uint (push_bit 4 (v AND 3)), -2, -2], 2)"
    using one_byte(1,2) [of b0, folded v_def] decode_group_four [of "?g ! 0" "?g ! 1" "?g ! 2" "?g ! 3" pre "[]"] 3 by simp
  then show ?case
    using decode_bytes_one [of b0, folded v_def] 3 unfolding t
    by (subst decode_loop_step [where bytes = "[b0]"]) (simp_all, simp add: decode_loop.simps)
next
  case 4
  then show ?case by (subst decode_loop.simps) simp
qed


end
