(* ===== verification/Crypt.thy ===== *)
theory Crypt
  imports Chunk
begin

text \<open>
  The functions of \<^verbatim>\<open>lualib-src/lua-crypt.c\<close> besides DES and base64: random keys, the hash of a key,
  hexadecimal text, the keyed hash of 64 bits, the Diffie-Hellman key exchange modulo the largest
  prime of 64 bits, and the exclusive or of strings. A string is a list of bytes.
\<close>

section \<open>Random keys and hashes\<close>

text \<open>\<open>rnd\<close> holds the values of the eight calls of \<^verbatim>\<open>random()\<close>.\<close>

definition lrandomkey :: "(nat \<Rightarrow> u64) \<Rightarrow> byte list" where
  "lrandomkey rnd =
     (let tmp = map (\<lambda>i. ucast (rnd i AND 0xff)) [0..<8]; x = fold (XOR) tmp 0 in
      if x = 0 then tmp[0 := tmp ! 0 OR 1] else tmp)"

definition put_le32 :: "u32 \<Rightarrow> byte list" where
  "put_le32 n = [ucast (n AND 0xff), ucast (drop_bit 8 n AND 0xff), ucast (drop_bit 16 n AND 0xff), ucast (drop_bit 24 n AND 0xff)]"

definition get_le32 :: "byte list \<Rightarrow> nat \<Rightarrow> u32" where
  "get_le32 x i = ucast (x ! i) OR push_bit 8 (ucast (x ! (i + 1))) OR push_bit 16 (ucast (x ! (i + 2))) OR push_bit 24 (ucast (x ! (i + 3)))"

fun hash_loop :: "byte list \<Rightarrow> u32 \<Rightarrow> u32 \<Rightarrow> u32 \<times> u32" where
  "hash_loop [] djb_hash js_hash = (djb_hash, js_hash)"
| "hash_loop (c # cs) djb_hash js_hash =
     hash_loop cs (djb_hash + (push_bit 5 djb_hash + ucast c))
       (js_hash XOR (push_bit 5 js_hash + ucast c + drop_bit 2 js_hash))"

definition Hash :: "byte list \<Rightarrow> byte list" where
  "Hash str = (let (djb_hash, js_hash) = hash_loop str 5381 1315423911 in put_le32 djb_hash @ put_le32 js_hash)"

definition lhashkey :: "byte list \<Rightarrow> byte list" where
  "lhashkey key = Hash key"

section \<open>Hexadecimal text\<close>

definition hex_digits :: "byte list" where
  "hex_digits = map of_char ''0123456789abcdef''"

definition ltohex :: "byte list \<Rightarrow> byte list res" where
  "ltohex text =
     (let sz = length text in
      bindR (forR sz (\<lambda>i buffer.
               bindR (rd text i) (\<lambda>b.
               bindR (rd hex_digits (unat (drop_bit 4 b))) (\<lambda>h.
               bindR (rd hex_digits (unat (b AND 0xf))) (\<lambda>l.
               memcpyR buffer (i * 2) [Some h, Some l]))))
             (chunk_buffer (sz * 2))) (\<lambda>buffer.
      lua_pushlstring buffer (sz * 2)))"

text \<open>The macro \<^verbatim>\<open>HEX\<close>; its value is a \<^verbatim>\<open>uint8_t\<close>.\<close>

definition HEX :: "byte \<Rightarrow> byte" where
  "HEX c = (if 48 \<le> c \<and> c \<le> 57 then c - 48 else c - 97 + 10)"

definition lfromhex :: "byte list \<Rightarrow> byte list res" where
  "lfromhex text =
     (let sz = length text in
      if sz mod 2 = 1 then Inl (Lua_error ''Invalid hex text size %d'')
      else
        bindR (forR (sz div 2) (\<lambda>i buffer.
                 bindR (rd text (2 * i)) (\<lambda>c1.
                 bindR (rd text (2 * i + 1)) (\<lambda>c2.
                 let hi = HEX c1; low = HEX c2 in
                 if hi > 16 \<or> low > 16 then Inl (Lua_error ''Invalid hex text'')
                 else memcpyR buffer i [Some (push_bit 4 hi OR low)])))
               (chunk_buffer (sz div 2))) (\<lambda>buffer.
        lua_pushlstring buffer (sz div 2)))"

section \<open>The keyed hash\<close>

definition k_table :: "u32 list" where
  "k_table =
     [0xd76aa478, 0xe8c7b756, 0x242070db, 0xc1bdceee, 0xf57c0faf, 0x4787c62a, 0xa8304613, 0xfd469501,
      0x698098d8, 0x8b44f7af, 0xffff5bb1, 0x895cd7be, 0x6b901122, 0xfd987193, 0xa679438e, 0x49b40821,
      0xf61e2562, 0xc040b340, 0x265e5a51, 0xe9b6c7aa, 0xd62f105d, 0x2441453, 0xd8a1e681, 0xe7d3fbc8,
      0x21e1cde6, 0xc33707d6, 0xf4d50d87, 0x455a14ed, 0xa9e3e905, 0xfcefa3f8, 0x676f02d9, 0x8d2a4c8a,
      0xfffa3942, 0x8771f681, 0x6d9d6122, 0xfde5380c, 0xa4beea44, 0x4bdecfa9, 0xf6bb4b60, 0xbebfbc70,
      0x289b7ec6, 0xeaa127fa, 0xd4ef3085, 0x4881d05, 0xd9d4d039, 0xe6db99e5, 0x1fa27cf8, 0xc4ac5665,
      0xf4292244, 0x432aff97, 0xab9423a7, 0xfc93a039, 0x655b59c3, 0x8f0ccc92, 0xffeff47d, 0x85845dd1,
      0x6fa87e4f, 0xfe2ce6e0, 0xa3014314, 0x4e0811a1, 0xf7537e82, 0xbd3af235, 0x2ad7d2bb, 0xeb86d391]"

definition r_table :: "nat list" where
  "r_table =
     [7, 12, 17, 22, 7, 12, 17, 22, 7, 12, 17, 22, 7, 12, 17, 22,
      5, 9, 14, 20, 5, 9, 14, 20, 5, 9, 14, 20, 5, 9, 14, 20,
      4, 11, 16, 23, 4, 11, 16, 23, 4, 11, 16, 23, 4, 11, 16, 23,
      6, 10, 15, 21, 6, 10, 15, 21, 6, 10, 15, 21, 6, 10, 15, 21]"

definition LEFTROTATE :: "u32 \<Rightarrow> nat \<Rightarrow> u32" where
  "LEFTROTATE x c = push_bit c x OR drop_bit (32 - c) x"

definition hmac_f :: "nat \<Rightarrow> u32 \<Rightarrow> u32 \<Rightarrow> u32 \<Rightarrow> u32 \<times> nat" where
  "hmac_f i b c d =
     (if i < 16 then ((b AND c) OR (NOT b AND d), i)
      else if i < 32 then ((d AND b) OR (NOT d AND c), (5 * i + 1) mod 16)
      else if i < 48 then (b XOR c XOR d, (3 * i + 5) mod 16)
      else (c XOR (b OR NOT d), (7 * i) mod 16))"

definition hmac_step :: "u32 list \<Rightarrow> nat \<Rightarrow> u32 \<times> u32 \<times> u32 \<times> u32 \<Rightarrow> u32 \<times> u32 \<times> u32 \<times> u32" where
  "hmac_step w i = (\<lambda>(a, b, c, d).
     let (f, g) = hmac_f i b c d in (d, b + LEFTROTATE (a + f + k_table ! i + w ! g) (r_table ! i), b, c))"

definition hmac :: "u32 \<times> u32 \<Rightarrow> u32 \<times> u32 \<Rightarrow> u32 \<times> u32" where
  "hmac x y =
     (let w = concat (replicate 4 [snd x, fst x, snd y, fst y]);
          (a, b, c, d) = fold (hmac_step w) [0..<64] (0x67452301, 0xefcdab89, 0x98badcfe, 0x10325476) in
      (c XOR d, a XOR b))"

definition read64 :: "byte list \<Rightarrow> byte list \<Rightarrow> ((u32 \<times> u32) \<times> (u32 \<times> u32)) res" where
  "read64 x y =
     (if length x \<noteq> 8 then Inl (Lua_error ''Invalid uint64 x'')
      else if length y \<noteq> 8 then Inl (Lua_error ''Invalid uint64 y'')
      else Inr ((get_le32 x 0, get_le32 x 4), (get_le32 y 0, get_le32 y 4)))"

definition pushqword :: "u32 \<times> u32 \<Rightarrow> byte list" where
  "pushqword result = put_le32 (fst result) @ put_le32 (snd result)"

definition lhmac64 :: "byte list \<Rightarrow> byte list \<Rightarrow> byte list res" where
  "lhmac64 x y = bindR (read64 x y) (\<lambda>(x, y). Inr (pushqword (hmac x y)))"

definition lhmac_hash :: "byte list \<Rightarrow> byte list \<Rightarrow> byte list res" where
  "lhmac_hash x text =
     (if length x \<noteq> 8 then Inl (Lua_error ''Invalid uint64 key'')
      else let h = Hash text in
        Inr (pushqword (hmac (get_le32 h 0, get_le32 h 4) (get_le32 x 0, get_le32 x 4))))"

section \<open>Diffie-Hellman key exchange\<close>

definition P :: u64 where "P = 0xffffffffffffffc5"

definition G :: u64 where "G = 5"

lemma unat_half [simp]: "unat (drop_bit 1 (b :: u64)) = unat b div 2" "unat (drop_bit (Suc 0) b) = unat b div 2"
  unfolding unat_drop_bit_eq by (simp_all add: drop_bit_eq_div)

function mul_loop :: "u64 \<Rightarrow> u64 \<Rightarrow> u64 \<Rightarrow> u64" where
  "mul_loop a b m =
     (if b = 0 then m
      else
        let m' = (if b AND 1 \<noteq> 0 then let t = P - a in if m \<ge> t then m - t else m + a else m);
            a' = (if a \<ge> P - a then a * 2 - P else a * 2) in
        mul_loop a' (drop_bit 1 b) m')"
  by pat_completeness auto
termination
proof (relation "measure (\<lambda>(a, b, m). unat b)", simp)
  fix a b m :: u64 and x xa
  assume "b \<noteq> 0"
  then have "0 < unat b" using unat_eq_zero by blast
  then show "((xa, drop_bit 1 b, x), a, b, m) \<in> measure (\<lambda>(a, b, m). unat b)" unfolding in_measure prod.case unat_half by simp
qed

declare mul_loop.simps [simp del]

definition mul_mod_p :: "u64 \<Rightarrow> u64 \<Rightarrow> u64" where
  "mul_mod_p a b = mul_loop a b 0"

text \<open>The recursion halves \<^verbatim>\<open>b\<close> until it is 1; for \<^verbatim>\<open>b = 0\<close> it never ends, which is the value \<open>None\<close>.\<close>

partial_function (option) pow_mod_p :: "u64 \<Rightarrow> u64 \<Rightarrow> u64 option" where
  "pow_mod_p a b =
     (if b = 1 then Some a
      else Option.bind (pow_mod_p a (drop_bit 1 b)) (\<lambda>t.
        let t = mul_mod_p t t in
        Some (if b mod 2 \<noteq> 0 then mul_mod_p t a else t)))"

definition powmodp :: "u64 \<Rightarrow> u64 \<Rightarrow> u64 option" where
  "powmodp a b = pow_mod_p (if a > P then a mod P else a) b"

definition push64 :: "u64 \<Rightarrow> byte list" where
  "push64 r = map (\<lambda>i. ucast (drop_bit (8 * i) r AND 0xff)) [0..<8]"

definition ends :: "u64 option \<Rightarrow> u64 res" where
  "ends v = (case v of None \<Rightarrow> Inl Endless_loop | Some x \<Rightarrow> Inr x)"

definition ldhsecret :: "byte list \<Rightarrow> byte list \<Rightarrow> byte list res" where
  "ldhsecret x y =
     bindR (read64 x y) (\<lambda>(x, y).
     let xx = ucast (fst x) OR push_bit 32 (ucast (snd x));
         yy = ucast (fst y) OR push_bit 32 (ucast (snd y)) in
     if xx = 0 \<or> yy = 0 then Inl (Lua_error ''Can't be 0'')
     else bindR (ends (powmodp xx yy)) (\<lambda>r. Inr (push64 r)))"

definition ldhexchange :: "byte list \<Rightarrow> byte list res" where
  "ldhexchange x =
     (if length x \<noteq> 8 then Inl (Lua_error ''Invalid dh uint64 key'')
      else
        let x64 = ucast (get_le32 x 0) OR push_bit 32 (ucast (get_le32 x 4)) in
        if x64 = 0 then Inl (Lua_error ''Can't be 0'')
        else bindR (ends (powmodp G x64)) (\<lambda>r. Inr (push64 r)))"

section \<open>Exclusive or\<close>

definition lxor_str :: "byte list \<Rightarrow> byte list \<Rightarrow> byte list res" where
  "lxor_str s1 s2 =
     (if length s2 = 0 then Inl (Lua_error ''Can't xor empty string'')
      else Inr (map (\<lambda>i. s1 ! i XOR s2 ! (i mod length s2)) [0..<length s1]))"

section \<open>Multiplication and powers modulo P\<close>

lemma unat_P: "unat P = 18446744073709551557"
  by (simp add: P_def)

text \<open>\<^verbatim>\<open>m + a\<close> modulo \<^verbatim>\<open>P\<close> without leaving 64 bits, and twice \<^verbatim>\<open>a\<close>.\<close>

lemma add_mod_P:
  assumes "a \<le> P" and "m < P"
  shows "unat (let t = P - a in if m \<ge> t then m - t else m + a) = (unat m + unat a) mod unat P"
proof -
  have t: "unat (P - a) = unat P - unat a" using assms(1) by (rule unat_sub)
  have le: "unat a \<le> unat P" "unat m < unat P" using assms by (simp_all add: word_le_nat_alt word_less_nat_alt)
  show ?thesis
  proof (cases "P - a \<le> m")
    case True
    then have "unat (m - (P - a)) = unat m + unat a - unat P" "unat P \<le> unat m + unat a"
      using le t by (auto simp: unat_sub word_le_nat_alt)
    then show ?thesis using True le by (simp add: Let_def mod_if)
  next
    case False
    then have "unat m + unat a < unat P" using le t by (simp add: word_le_nat_alt)
    moreover have "unat P < 2 ^ 64" by (simp add: P_def)
    ultimately have "unat (m + a) = unat m + unat a" by (subst unat_add_lem [symmetric]) simp
    then show ?thesis using False \<open>unat m + unat a < unat P\<close> by (simp add: Let_def)
  qed
qed

lemma double_mod_P:
  assumes "a \<le> P"
  shows "(if a \<ge> P - a then a * 2 - P else a * 2) \<le> P"
    and "unat (if a \<ge> P - a then a * 2 - P else a * 2) mod unat P = (2 * unat a) mod unat P"
proof -
  have t: "unat (P - a) = unat P - unat a" using assms by (rule unat_sub)
  have le: "unat a \<le> unat P" using assms by (simp add: word_le_nat_alt)
  have "(if a \<ge> P - a then a * 2 - P else a * 2) \<le> P \<and>
    unat (if a \<ge> P - a then a * 2 - P else a * 2) mod unat P = (2 * unat a) mod unat P"
  proof (cases "P - a \<le> a")
    case True
    have e: "a * 2 - P = a - (P - a)" by (simp add: algebra_simps)
    have u: "unat (a * 2 - P) = 2 * unat a - unat P" "unat P \<le> 2 * unat a"
      unfolding e unat_sub [OF True] t using True le t by (auto simp: word_le_nat_alt)
    then show ?thesis using True le by (simp add: word_le_nat_alt le_mod_geq)
  next
    case False
    then have less: "2 * unat a < unat P" using le t by (simp add: word_le_nat_alt)
    moreover have "unat P < 2 ^ 64" by (simp add: P_def)
    ultimately have "unat (a * 2) = 2 * unat a" by (simp add: mult_2_right unat_word_ariths)
    then show ?thesis using False less by (simp add: word_le_nat_alt)
  qed
  then show "(if a \<ge> P - a then a * 2 - P else a * 2) \<le> P"
    and "unat (if a \<ge> P - a then a * 2 - P else a * 2) mod unat P = (2 * unat a) mod unat P" by blast+
qed

lemma mul_loop_mod:
  "a \<le> P \<Longrightarrow> m < P \<Longrightarrow> unat (mul_loop a b m) = (unat m + unat a * unat b) mod unat P"
proof (induction a b m rule: mul_loop.induct)
  case (1 a b m)
  show ?case
  proof (cases "b = 0")
    case True
    then show ?thesis using 1(3) by (subst mul_loop.simps) (simp add: word_less_nat_alt)
  next
    case False
    define m' where "m' = (if b AND 1 \<noteq> 0 then let t = P - a in if m \<ge> t then m - t else m + a else m)"
    define a' where "a' = (if a \<ge> P - a then a * 2 - P else a * 2)"
    have "(b AND 1 \<noteq> 0) = odd (unat b)" using and_mask_dvd_nat [of 1 b] by simp
    then have m': "unat m' = (unat m + unat a * (unat b mod 2)) mod unat P"
      using add_mod_P [OF 1(2,3)] 1(3) by (simp add: m'_def word_less_nat_alt odd_iff_mod_2_eq_one)
    have "0 < unat P" by (simp add: P_def)
    then have "m' < P" by (simp add: m' word_less_nat_alt)
    moreover have "mul_loop a b m = mul_loop a' (drop_bit 1 b) m'"
      using False by (subst mul_loop.simps) (simp add: Let_def m'_def a'_def)
    moreover have "a' \<le> P" using double_mod_P(1) [OF 1(2)] by (simp add: a'_def)
    ultimately have "unat (mul_loop a b m) = (unat m' + unat a' * (unat b div 2)) mod unat P"
      using 1(1) [OF False m'_def a'_def] by (simp only: unat_half)
    also have "\<dots> = (unat m + unat a * (unat b mod 2) + (unat a' mod unat P) * (unat b div 2)) mod unat P"
      unfolding m' mod_add_left_eq by (metis mod_add_right_eq mod_mult_left_eq)
    also have "\<dots> = (unat m + unat a * (unat b mod 2) + (2 * unat a) * (unat b div 2)) mod unat P"
      using double_mod_P(2) [OF 1(2)] unfolding a'_def by (metis mod_add_right_eq mod_mult_left_eq)
    also have "unat m + unat a * (unat b mod 2) + (2 * unat a) * (unat b div 2) = unat m + unat a * unat b"
      by (metis (no_types, lifting) add.assoc add.commute distrib_left mult.assoc mult.commute mod_mult_div_eq)
    finally show ?thesis .
  qed
qed

lemma odd_unat: "(b mod 2 \<noteq> 0) = odd (unat (b :: u64))"
  using and_mask_dvd_nat [of 1 b] by (simp add: and_one_eq)

lemma mul_mod_p_mod: "a \<le> P \<Longrightarrow> unat (mul_mod_p a b) = (unat a * unat b) mod unat P"
  using mul_loop_mod [of a 0 b] by (simp add: mul_mod_p_def P_def)

lemma pow_mod_p_mod:
  assumes "b \<noteq> 0" and "a \<le> P"
  shows "\<exists>r. pow_mod_p a b = Some r \<and> (if b = 1 then r = a else unat r = unat a ^ unat b mod unat P)"
  using assms(1)
proof (induction "unat b" arbitrary: b rule: less_induct)
  case less
  show ?case
  proof (cases "b = 1")
    case True
    then show ?thesis by (subst pow_mod_p.simps) simp
  next
    case False
    let ?h = "drop_bit 1 b"
    have "unat b \<noteq> 0" "unat b \<noteq> 1" using less(2) False by (auto simp: word_unat_eq_iff)
    then have "unat ?h \<noteq> 0" "unat ?h < unat b" unfolding unat_half by auto
    then have "?h \<noteq> 0" by (metis unat_0)
    then obtain t where t: "pow_mod_p a ?h = Some t" "if ?h = 1 then t = a else unat t = unat a ^ unat ?h mod unat P"
      using less(1) [of ?h] \<open>unat ?h < unat b\<close> by blast
    have "0 < unat P" by (simp add: P_def)
    then have tP: "t \<le> P" "unat t mod unat P = unat a ^ unat ?h mod unat P"
      using t(2) assms(2) by (cases "?h = 1"; simp add: word_le_nat_alt less_imp_le del: unat_half)+
    have "unat (mul_mod_p t t) = (unat t mod unat P) * (unat t mod unat P) mod unat P"
      using mul_mod_p_mod [OF tP(1), of t] by (simp only: mod_mult_eq)
    also have "\<dots> = unat a ^ (2 * (unat b div 2)) mod unat P"
      unfolding tP(2) mod_mult_eq unat_half by (simp add: mult_2 power_add)
    finally have sq: "unat (mul_mod_p t t) = unat a ^ (2 * (unat b div 2)) mod unat P" .
    then have "mul_mod_p t t \<le> P" using \<open>0 < unat P\<close> by (simp add: word_le_nat_alt less_imp_le)
    from mul_mod_p_mod [OF this, of a]
    have odd: "unat (mul_mod_p (mul_mod_p t t) a) = unat a ^ (2 * (unat b div 2) + 1) mod unat P"
      by (simp add: sq mod_simps mult.commute)
    have "pow_mod_p a b = Some (if b mod 2 \<noteq> 0 then mul_mod_p (mul_mod_p t t) a else mul_mod_p t t)"
      using False t(1) by (subst pow_mod_p.simps) (simp add: Let_def)
    moreover have "unat (if b mod 2 \<noteq> 0 then mul_mod_p (mul_mod_p t t) a else mul_mod_p t t) = unat a ^ unat b mod unat P"
      using odd sq odd_unat [of b] by (cases "even (unat b)") simp_all
    ultimately show ?thesis using False by simp
  qed
qed

lemma powmodp_power:
  assumes "b \<noteq> 0" and "\<not> (a = P \<and> b = 1)"
  shows "\<exists>r. powmodp a b = Some r \<and> unat r = unat a ^ unat b mod unat P"
proof -
  let ?a = "if a > P then a mod P else a"
  have "0 < unat P" "P \<noteq> 0" by (simp_all add: P_def)
  have "?a \<le> P" using \<open>0 < unat P\<close> by (simp add: word_le_nat_alt word_less_nat_alt unat_mod less_imp_le)
  have cong: "unat ?a mod unat P = unat a mod unat P" by (simp add: unat_mod)
  obtain r where r: "pow_mod_p ?a b = Some r" "if b = 1 then r = ?a else unat r = unat ?a ^ unat b mod unat P"
    using pow_mod_p_mod [OF assms(1) \<open>?a \<le> P\<close>] by blast
  have "unat r = unat a ^ unat b mod unat P"
  proof (cases "b = 1")
    case True
    then have "a \<noteq> P" using assms(2) by simp
    then have "unat ?a < unat P"
      using \<open>0 < unat P\<close> by (auto simp: word_less_nat_alt unat_mod word_unat_eq_iff not_less)
    then show ?thesis using r True cong by simp
  next
    case False
    then show ?thesis using r cong by (metis power_mod)
  qed
  then show ?thesis using r(1) by (simp add: powmodp_def)
qed



text \<open>The comment promises \<open>a^b % p\<close>, but \<^verbatim>\<open>powmodp(P, 1)\<close> is \<^verbatim>\<open>P\<close> and not 0: the base is reduced only when it is
  greater than \<^verbatim>\<open>P\<close>.\<close>

theorem powmodp_unreduced: "powmodp P 1 = Some P \<and> unat P ^ 1 mod unat P = 0"
  by (simp add: powmodp_def pow_mod_p.simps [of _ 1])

section \<open>Key exchange\<close>

definition dh_number :: "byte list \<Rightarrow> u64" where
  "dh_number x = ucast (get_le32 x 0) OR push_bit 32 (ucast (get_le32 x 4))"

lemma push64_length [simp]: "length (push64 n) = 8"
  by (simp add: push64_def)

lemma low_byte: "(ucast ((x :: 'a :: len word) AND 0xff) :: byte) = ucast x"
proof -
  have m: "(0xff :: 'a word) = mask 8" by (simp add: mask_eq_exp_minus_1)
  show ?thesis unfolding m by (rule bit_word_eqI) (auto simp: bit_simps simp del: mask_numeral dest: bit_imp_le_length)
qed

text \<open>Bit \<open>j\<close> of a little-endian word is bit \<open>j mod 8\<close> of the byte \<open>j div 8\<close>.\<close>

lemma bit_get_le32: "bit (get_le32 x i) j \<longleftrightarrow> j < 32 \<and> bit (x ! (i + j div 8)) (j mod 8)"
proof (cases "j < 32")
  case True
  then consider "j < 8" | "8 \<le> j" "j < 16" | "16 \<le> j" "j < 24" | "24 \<le> j" "j < 32" by fastforce
  then show ?thesis
  proof cases
    case 1
    then show ?thesis by (auto simp: get_le32_def bit_simps)
  next
    case 2
    then have "j div 8 = 1" "j mod 8 = j - 8" by (simp_all add: mod_if)
    with 2 show ?thesis by (auto simp: get_le32_def bit_simps dest: bit_imp_le_length)
  next
    case 3
    then have "j div 8 = 2" "j mod 8 = j - 16" by (simp_all add: mod_if)
    with 3 show ?thesis by (auto simp: get_le32_def bit_simps dest: bit_imp_le_length)
  next
    case 4
    then have "j div 8 = 3" "j mod 8 = j - 24" by (simp_all add: mod_if)
    with 4 show ?thesis by (auto simp: get_le32_def bit_simps dest: bit_imp_le_length)
  qed
qed (auto dest: bit_imp_le_length)

lemma bit_push64: "i < 8 \<Longrightarrow> bit (push64 n ! i) j \<longleftrightarrow> j < 8 \<and> bit n (8 * i + j)"
  by (auto simp: push64_def low_byte bit_simps dest: bit_imp_le_length)

lemma dh_number_push64 [simp]: "dh_number (push64 n) = n"
proof (rule bit_word_eqI)
  fix j assume j: "j < LENGTH(64)"
  have "8 * (j div 8) + j mod 8 = j" by simp
  moreover have "j div 8 < 4 \<longleftrightarrow> j < 32" by auto
  moreover have "(j - 32) div 8 + 4 = j div 8" "(j - 32) mod 8 = j mod 8" if "32 \<le> j"
    using that mod_mult_self2 [of "j - 32" 8 4] div_mult_self2 [of 8 "j - 32" 4] by simp_all
  ultimately show "bit (dh_number (push64 n)) j = bit n j"
    using j bit_push64 [of "j div 8" n "j mod 8"] bit_push64 [of "4 + (j - 32) div 8" n "(j - 32) mod 8"]
    by (cases "j < 32") (auto simp: dh_number_def bit_simps bit_get_le32 add.commute)
qed

lemma dhexchange_ok:
  assumes "length x = 8" and "dh_number x \<noteq> 0"
  shows "\<exists>n. ldhexchange x = Inr (push64 n) \<and> n \<noteq> 0 \<and> unat n = 5 ^ unat (dh_number x) mod unat P"
proof -
  obtain n where n: "powmodp G (dh_number x) = Some n" "unat n = 5 ^ unat (dh_number x) mod unat P"
    using powmodp_power [of "dh_number x" G] assms(2) by (auto simp: G_def P_def)
  have "coprime (5 :: nat) (unat P)" by (simp add: unat_P coprime_iff_gcd_eq_1 gcd_non_0_nat)
  then have "coprime (5 ^ unat (dh_number x)) (unat P)" by simp
  then have "\<not> unat P dvd 5 ^ unat (dh_number x)"
    using coprime_common_divisor [of "5 ^ unat (dh_number x)" "unat P" "unat P"] unat_P by auto
  then have "n \<noteq> 0" using n(2) by (auto simp: dvd_eq_mod_eq_0)
  then show ?thesis using n assms by (intro exI [of _ n]) (simp add: ldhexchange_def dh_number_def [symmetric] ends_def)
qed

lemma dhsecret_ok:
  assumes "length x = 8" and "length y = 8" and "dh_number x \<noteq> 0" and "dh_number x < P" and "dh_number y \<noteq> 0"
  shows "\<exists>n. ldhsecret x y = Inr (push64 n) \<and> unat n = unat (dh_number x) ^ unat (dh_number y) mod unat P"
proof -
  have "dh_number x \<noteq> P" using assms(4) by simp
  then obtain n where "powmodp (dh_number x) (dh_number y) = Some n" "unat n = unat (dh_number x) ^ unat (dh_number y) mod unat P"
    using powmodp_power [of "dh_number y" "dh_number x"] assms(5) by blast
  then show ?thesis using assms by (intro exI [of _ n]) (simp add: ldhsecret_def read64_def dh_number_def [symmetric] ends_def)
qed

text \<open>C23. Two parties with secret keys \<^verbatim>\<open>x\<close> and \<^verbatim>\<open>y\<close> of eight bytes, not zero, agree on a secret: the exchange
  succeeds on both sides, each computes the secret from its own key and what the other sent, and the results
  are the same eight bytes, those of 5 to the power of the product of the keys, modulo \<^verbatim>\<open>P\<close>.\<close>

theorem dh_parties_agree:
  assumes "length x = 8" and "length y = 8" and "dh_number x \<noteq> 0" and "dh_number y \<noteq> 0"
  shows "\<exists>gx gy s. ldhexchange x = Inr gx \<and> ldhexchange y = Inr gy \<and>
     ldhsecret gx y = Inr s \<and> ldhsecret gy x = Inr s \<and>
     unat (dh_number s) = 5 ^ (unat (dh_number x) * unat (dh_number y)) mod unat P"
proof -
  let ?x = "unat (dh_number x)" and ?y = "unat (dh_number y)"
  have "0 < unat P" by (simp add: unat_P)
  obtain nx where nx: "ldhexchange x = Inr (push64 nx)" "nx \<noteq> 0" "unat nx = 5 ^ ?x mod unat P"
    using dhexchange_ok assms by blast
  obtain ny where ny: "ldhexchange y = Inr (push64 ny)" "ny \<noteq> 0" "unat ny = 5 ^ ?y mod unat P"
    using dhexchange_ok assms by blast
  have less: "nx < P" "ny < P" using nx(3) ny(3) \<open>0 < unat P\<close> by (simp_all add: word_less_nat_alt)
  obtain s where s: "ldhsecret (push64 nx) y = Inr (push64 s)" "unat s = unat nx ^ ?y mod unat P"
    using dhsecret_ok [of "push64 nx" y] nx(2) less(1) assms by auto
  obtain t where t: "ldhsecret (push64 ny) x = Inr (push64 t)" "unat t = unat ny ^ ?x mod unat P"
    using dhsecret_ok [of "push64 ny" x] ny(2) less(2) assms by auto
  have "unat s = 5 ^ (?x * ?y) mod unat P" unfolding s(2) nx(3) power_mod by (simp add: power_mult)
  moreover have "unat t = 5 ^ (?x * ?y) mod unat P"
    unfolding t(2) ny(3) power_mod by (simp add: power_mult mult.commute [of ?x])
  ultimately have "s = t" by (simp add: word_unat_eq_iff)
  then show ?thesis using nx ny s t \<open>unat s = 5 ^ (?x * ?y) mod unat P\<close> by simp
qed

theorem dh_parties_agree_witness:
  "\<exists>gx gy s. ldhexchange (replicate 8 1) = Inr gx \<and> ldhexchange (replicate 8 2) = Inr gy \<and>
     ldhsecret gx (replicate 8 2) = Inr s \<and> ldhsecret gy (replicate 8 1) = Inr s"
proof -
  have "dh_number (replicate 8 1) \<noteq> 0" "dh_number (replicate 8 2) \<noteq> 0"
    by (simp_all add: dh_number_def get_le32_def)
  from dh_parties_agree [OF _ _ this] show ?thesis by auto
qed

section \<open>Hexadecimal text is read back\<close>

definition hex_pair :: "byte \<Rightarrow> byte list" where
  "hex_pair b = [hex_digits ! unat (drop_bit 4 b), hex_digits ! unat (b AND 0xf)]"

lemma hex_digits_length [simp]: "length hex_digits = 16"
  by (simp add: hex_digits_def)

lemma nibbles:
  fixes b :: byte
  shows "unat (drop_bit 4 b) < 16" and "unat (b AND 0xf) < 16" and "push_bit 4 (drop_bit 4 b) OR (b AND 0xf) = b"
proof -
  have m: "(0xf :: byte) = mask 4" by (simp add: mask_eq_exp_minus_1)
  have "unat b < 2 ^ 8" using unsigned_less [of b] by simp
  then show "unat (drop_bit 4 b) < 16"
    unfolding unat_drop_bit_eq by (simp add: drop_bit_eq_div less_mult_imp_div_less)
  show "unat (b AND 0xf) < 16" using word_and_le1 [of b "0xf"] by (simp add: word_le_nat_alt)
  show "push_bit 4 (drop_bit 4 b) OR (b AND 0xf) = b"
    unfolding m by (rule bit_word_eqI) (auto simp: bit_simps simp del: mask_numeral)
qed

lemma HEX_digit: "n < 16 \<Longrightarrow> HEX (hex_digits ! n) = of_nat n"
proof -
  have "\<forall>n \<in> set [0..<16]. HEX (hex_digits ! n) = of_nat n"
    by (simp add: HEX_def hex_digits_def upt_conv_Cons)
  then show "n < 16 \<Longrightarrow> HEX (hex_digits ! n) = of_nat n" by simp
qed

lemma HEX_pair [simp]: "HEX (hex_pair b ! 0) = drop_bit 4 b" "HEX (hex_pair b ! 1) = b AND 0xf"
  using nibbles(1,2) [of b] by (simp_all add: hex_pair_def HEX_digit)

lemma ltohex_pairs: "ltohex text = Inr (concat (map hex_pair text))"
proof -
  let ?g = "\<lambda>i. hex_pair (text ! i)"
  have "concat (map ?g [0..<length text]) = concat (map hex_pair text)"
    by (rule arg_cong [of _ _ concat], rule nth_equalityI) simp_all
  moreover have "length (concat (map hex_pair text)) = 2 * length text"
    by (induction "text") (auto simp: hex_pair_def)
  moreover have "forR (length text) (\<lambda>i buffer.
      bindR (rd text i) (\<lambda>b. bindR (rd hex_digits (unat (drop_bit 4 b))) (\<lambda>h.
      bindR (rd hex_digits (unat (b AND 0xf))) (\<lambda>l. memcpyR buffer (i * 2) [Some h, Some l]))))
      (chunk_buffer (length text * 2)) =
      Inr (map Some (concat (map ?g [0..<length text])) @ drop (2 * length text) (chunk_buffer (length text * 2)))"
    using nibbles(1,2) chunk_buffer_length [of "length text * 2"]
    by (intro forR_fill) (auto simp: hex_pair_def mult.commute simp del: chunk_buffer_length)
  ultimately show ?thesis by (simp add: ltohex_def Let_def mult.commute)
qed

lemma concat_pairs_nth:
  "i < length xs \<Longrightarrow> concat (map hex_pair xs) ! (2 * i) = hex_pair (xs ! i) ! 0 \<and>
     concat (map hex_pair xs) ! (2 * i + 1) = hex_pair (xs ! i) ! 1"
proof (induction xs arbitrary: i)
  case (Cons x xs)
  then show ?case by (cases i) (auto simp: hex_pair_def)
qed simp

text \<open>\<^verbatim>\<open>hexdecode\<close> inverts \<^verbatim>\<open>hexencode\<close> for every text, and the encoding has two digits per byte.\<close>

theorem hexdecode_hexencode:
  "\<exists>h. ltohex text = Inr h \<and> length h = 2 * length text \<and> set h \<subseteq> set hex_digits \<and> lfromhex h = Inr text"
proof -
  let ?h = "concat (map hex_pair text)"
  have len: "length ?h = 2 * length text" by (induction "text") (auto simp: hex_pair_def)
  have "forR (length text) (\<lambda>i buffer.
      bindR (rd ?h (2 * i)) (\<lambda>c1. bindR (rd ?h (2 * i + 1)) (\<lambda>c2.
      let hi = HEX c1; low = HEX c2 in
      if hi > 16 \<or> low > 16 then Inl (Lua_error ''Invalid hex text'') else memcpyR buffer i [Some (push_bit 4 hi OR low)])))
      (chunk_buffer (length text)) =
      Inr (map Some (concat (map (\<lambda>i. [text ! i]) [0..<length text])) @ drop (1 * length text) (chunk_buffer (length text)))"
  proof (rule forR_fill)
    fix i b assume i: "i < length text"
    have "\<not> drop_bit 4 (text ! i) > 16" "\<not> (text ! i AND 0xf) > 16"
      using nibbles(1,2) [of "text ! i"] by (simp_all add: word_less_nat_alt)
    then show "bindR (rd ?h (2 * i)) (\<lambda>c1. bindR (rd ?h (2 * i + 1)) (\<lambda>c2.
      let hi = HEX c1; low = HEX c2 in
      if hi > 16 \<or> low > 16 then Inl (Lua_error ''Invalid hex text'') else memcpyR b i [Some (push_bit 4 hi OR low)])) =
      memcpyR b (1 * i) (map Some [text ! i])"
      using i len concat_pairs_nth [OF i] nibbles(3) [of "text ! i"] by (simp add: Let_def del: One_nat_def)
  qed simp_all
  moreover have id: "concat (map (\<lambda>i. [text ! i]) [0..<length text]) = text"
    by (simp add: map_nth concat_map_singleton)
  ultimately have "lfromhex ?h = Inr text"
    using len unfolding id by (simp add: lfromhex_def Let_def)
  moreover have "set ?h \<subseteq> set hex_digits"
    using nibbles(1,2) by (auto simp: hex_pair_def intro!: nth_mem)
  ultimately show ?thesis using ltohex_pairs len by blast
qed

text \<open>\<^verbatim>\<open>hexdecode\<close> also accepts the letter \<^verbatim>\<open>g\<close>, as a digit of value 16: the check of a digit is \<^verbatim>\<open>> 16\<close> where 15
  is the largest one.\<close>

theorem hexdecode_accepts_g: "lfromhex (map of_char ''g0'') = Inr [0]"
proof -
  have "memcpyR (chunk_buffer 1) 0 [Some 0 :: byte option] = Inr (map Some [0] @ drop 1 (chunk_buffer 1))"
    using memcpyR_next [of 0 "[]" "[Some 0]" "chunk_buffer 1"] by simp
  moreover have "lua_pushlstring (map Some [256] @ drop 1 (chunk_buffer 1)) 1 = Inr [256 :: byte]" by (rule pushlstring_prefix) simp
  ultimately show ?thesis by (simp add: lfromhex_def forR_def HEX_def)
qed

section \<open>Exclusive or and random keys\<close>

lemma lxor_str_involution:
  assumes "lxor_str s1 s2 = Inr t"
  shows "lxor_str t s2 = Inr s1"
  using assms by (auto simp: lxor_str_def xor.assoc split: if_splits intro: nth_equalityI)

lemma lrandomkey_nonzero: "length (lrandomkey rnd) = 8 \<and> lrandomkey rnd \<noteq> replicate 8 0"
proof -
  let ?tmp = "map (\<lambda>i. ucast (rnd i AND 0xff)) [0..<8] :: byte list"
  have "bit ((?tmp[0 := ?tmp ! 0 OR 1]) ! 0) 0" by (simp add: bit_simps)
  moreover have "\<not> bit (replicate 8 (0 :: byte) ! 0) 0" by simp
  ultimately have "?tmp[0 := ?tmp ! 0 OR 1] \<noteq> replicate 8 0" by metis
  moreover have "fold (XOR) (replicate n 0) (0 :: byte) = 0" for n by (induction n) auto
  then have "?tmp \<noteq> replicate 8 0" if "fold (XOR) ?tmp 0 \<noteq> 0" using that by metis
  ultimately show ?thesis by (simp add: lrandomkey_def Let_def)
qed

end
