(* ===== verification/Sha1.thy ===== *)
theory Sha1
  imports Crypt
begin

text \<open>
  SHA-1 and HMAC-SHA-1 in \<^verbatim>\<open>lualib-src/lsha1.c\<close>. The eighty unrolled rounds of \<^verbatim>\<open>SHA1_Transform\<close> rename the five
  working variables from line to line; the model keeps the names and rotates the values instead, which
  is back in place after eighty rounds. The machine is little-endian. The message schedule is computed in place
  in the sixteen words of \<^verbatim>\<open>block\<close>. The buffer of a context is not initialised by \<^verbatim>\<open>sat_SHA1_Init\<close>; the model
  faults if it is read before it is written.
\<close>

section \<open>The block function\<close>

type_synonym sha_words = "u32 \<times> u32 \<times> u32 \<times> u32 \<times> u32"

definition rol :: "u32 \<Rightarrow> nat \<Rightarrow> u32" where
  "rol value bits = push_bit bits value OR drop_bit (32 - bits) value"

definition blk0 :: "u32 list \<Rightarrow> nat \<Rightarrow> u32 list" where
  "blk0 l i = l[i := (rol (l ! i) 24 AND 0xFF00FF00) OR (rol (l ! i) 8 AND 0x00FF00FF)]"

definition blk :: "u32 list \<Rightarrow> nat \<Rightarrow> u32 list" where
  "blk l i = l[i mod 16 := rol (l ! ((i + 13) mod 16) XOR l ! ((i + 8) mod 16) XOR l ! ((i + 2) mod 16) XOR l ! (i mod 16)) 1]"

text \<open>The macros \<^verbatim>\<open>R0\<close> to \<^verbatim>\<open>R4\<close>.\<close>

definition sha_round :: "nat \<Rightarrow> sha_words \<times> u32 list \<Rightarrow> sha_words \<times> u32 list" where
  "sha_round i = (\<lambda>((v, w, x, y, z), l).
     let l = (if i < 16 then blk0 l i else blk l i);
         (f, K) =
           (if i < 20 then ((w AND (x XOR y)) XOR y, 0x5A827999)
            else if i < 40 then (w XOR x XOR y, 0x6ED9EBA1)
            else if i < 60 then (((w OR x) AND y) OR (w AND x), 0x8F1BBCDC)
            else (w XOR x XOR y, 0xCA62C1D6)) in
     ((z + (f + l ! (i mod 16) + K + rol v 5), v, rol w 30, x, y), l))"

definition SHA1_Transform :: "sha_words \<Rightarrow> byte list \<Rightarrow> sha_words res" where
  "SHA1_Transform state buffer =
     (if length buffer < 64 then Inl Out_of_bounds
      else
        let l = map (\<lambda>i. get_le32 buffer (4 * i)) [0..<16];
            ((a, b, c, d, e), _) = fold sha_round [0..<80] (state, l);
            (s0, s1, s2, s3, s4) = state in
        Inr (s0 + a, s1 + b, s2 + c, s3 + d, s4 + e))"

section \<open>Contexts\<close>

record SHA1_CTX =
  sha_state :: sha_words
  count0 :: u32
  count1 :: u32
  sha_buffer :: "byte option list"

definition sat_SHA1_Init :: SHA1_CTX where
  "sat_SHA1_Init = \<lparr>sha_state = (0x67452301, 0xEFCDAB89, 0x98BADCFE, 0x10325476, 0xC3D2E1F0), count0 = 0, count1 = 0,
     sha_buffer = replicate 64 None\<rparr>"

text \<open>\<^verbatim>\<open>for (; i + 63 < len; i += 64) SHA1_Transform(context->state, data + i)\<close>\<close>

function update_blocks :: "sha_words \<Rightarrow> byte list \<Rightarrow> nat \<Rightarrow> (nat \<times> sha_words) res" where
  "update_blocks state data i =
     (if i + 63 < length data
      then bindR (SHA1_Transform state (drop i data)) (\<lambda>state'. update_blocks state' data (i + 64))
      else Inr (i, state))"
  by pat_completeness auto
termination
  by (relation "measure (\<lambda>(state, data, i). length data - i)") auto

declare update_blocks.simps [simp del]

text \<open>\<^verbatim>\<open>count[0]\<close> has 32 bits and \<^verbatim>\<open>len\<close> 64, so that the comparison is one of 64 bits.\<close>

definition add_count :: "u32 \<Rightarrow> u32 \<Rightarrow> nat \<Rightarrow> u32 \<times> u32" where
  "add_count c0 c1 len =
     (let bits = push_bit 3 (of_nat len) :: u64;
          c0' = c0 + ucast bits;
          c1' = (if ucast c0' < bits then c1 + 1 else c1) in
      (c0', c1' + ucast (drop_bit 29 (of_nat len :: u64))))"

definition sat_SHA1_Update :: "SHA1_CTX \<Rightarrow> byte list \<Rightarrow> SHA1_CTX res" where
  "sat_SHA1_Update ctx data =
     (let len = length data;
          j = unat (drop_bit 3 (count0 ctx) AND 63);
          (c0, c1) = add_count (count0 ctx) (count1 ctx) len;
          ctx = ctx\<lparr>count0 := c0, count1 := c1\<rparr> in
      bindR (if j + len > 63
             then bindR (memcpyR (sha_buffer ctx) j (map Some (take (64 - j) data))) (\<lambda>buf.
                  bindR (read_bytes buf 64) (\<lambda>block.
                  bindR (SHA1_Transform (sha_state ctx) block) (\<lambda>st.
                  bindR (update_blocks st data (64 - j)) (\<lambda>(i, st').
                  Inr (i, 0, ctx\<lparr>sha_buffer := buf, sha_state := st'\<rparr>)))))
             else Inr (0, j, ctx)) (\<lambda>(i, j, ctx).
      bindR (memcpyR (sha_buffer ctx) j (map Some (drop i data))) (\<lambda>buf.
      Inr (ctx\<lparr>sha_buffer := buf\<rparr>))))"

text \<open>\<^verbatim>\<open>while ((context->count[0] & 504) != 448) sat_SHA1_Update(context, "\0", 1)\<close>, with fuel for 64 iterations.\<close>

fun pad_zeros :: "nat \<Rightarrow> SHA1_CTX \<Rightarrow> SHA1_CTX res" where
  "pad_zeros fuel ctx =
     (if count0 ctx AND 504 \<noteq> 448
      then case fuel of 0 \<Rightarrow> Inl Endless_loop
           | Suc n \<Rightarrow> bindR (sat_SHA1_Update ctx [0]) (pad_zeros n)
      else Inr ctx)"

declare pad_zeros.simps [simp del]

definition SHA1_DIGEST_SIZE :: nat where "SHA1_DIGEST_SIZE = 20"

definition sat_SHA1_Final :: "SHA1_CTX \<Rightarrow> byte list res" where
  "sat_SHA1_Final ctx =
     (let finalcount = map (\<lambda>i. ucast (drop_bit ((3 - i mod 4) * 8) (if i \<ge> 4 then count0 ctx else count1 ctx) AND 255)) [0..<8] in
      bindR (sat_SHA1_Update ctx [0x80]) (\<lambda>ctx.
      bindR (pad_zeros 64 ctx) (\<lambda>ctx.
      bindR (sat_SHA1_Update ctx finalcount) (\<lambda>ctx.
      let (s0, s1, s2, s3, s4) = sha_state ctx; st = [s0, s1, s2, s3, s4] in
      Inr (map (\<lambda>i. ucast (drop_bit ((3 - i mod 4) * 8) (st ! (i div 4)) AND 255)) [0..<SHA1_DIGEST_SIZE])))))"

section \<open>Lua functions\<close>

definition lsha1 :: "byte list \<Rightarrow> byte list res" where
  "lsha1 buffer = bindR (sat_SHA1_Update sat_SHA1_Init buffer) sat_SHA1_Final"

definition BLOCKSIZE :: nat where "BLOCKSIZE = 64"

text \<open>The four bytes of a word of the key are exclusive-ored with those of the 32-bit constant.\<close>

definition xor_key :: "byte list \<Rightarrow> u32 \<Rightarrow> byte list" where
  "xor_key key x = concat (map (\<lambda>n. put_le32 (get_le32 key (4 * n) XOR x)) [0..<BLOCKSIZE div 4])"

definition lhmac_sha1 :: "byte list \<Rightarrow> byte list \<Rightarrow> byte list res" where
  "lhmac_sha1 key text =
     bindR (if length key > BLOCKSIZE
            then bindR (sat_SHA1_Update sat_SHA1_Init key) (\<lambda>ctx.
                 bindR (sat_SHA1_Final ctx) (\<lambda>digest. memcpyR (replicate BLOCKSIZE 0) 0 digest))
            else memcpyR (replicate BLOCKSIZE 0) 0 key) (\<lambda>rkey.
     let rkey = xor_key rkey 0x5c5c5c5c in
     bindR (sat_SHA1_Update sat_SHA1_Init rkey) (\<lambda>ctx1.
     let rkey = xor_key rkey (0x5c5c5c5c XOR 0x36363636) in
     bindR (sat_SHA1_Update sat_SHA1_Init rkey) (\<lambda>ctx2.
     bindR (sat_SHA1_Update ctx2 text) (\<lambda>ctx2.
     bindR (sat_SHA1_Final ctx2) (\<lambda>digest2.
     bindR (sat_SHA1_Update ctx1 digest2) (\<lambda>ctx1.
     sat_SHA1_Final ctx1))))))"

section \<open>The standard\<close>

text \<open>SHA-1 as the standard (FIPS 180) defines it: big-endian words, the message schedule as a recursive function, the
  functions Ch, Parity and Maj, and padding of the whole message.\<close>

definition be32 :: "byte list \<Rightarrow> nat \<Rightarrow> u32" where
  "be32 x i = push_bit 24 (ucast (x ! i)) OR push_bit 16 (ucast (x ! (i + 1))) OR push_bit 8 (ucast (x ! (i + 2))) OR ucast (x ! (i + 3))"

definition be_bytes :: "u32 \<Rightarrow> byte list" where
  "be_bytes w = [ucast (drop_bit 24 w), ucast (drop_bit 16 w), ucast (drop_bit 8 w), ucast w]"

fun sha_W :: "byte list \<Rightarrow> nat \<Rightarrow> u32" where
  "sha_W b t = (if t < 16 then be32 b (4 * t)
     else rol (sha_W b (t - 3) XOR sha_W b (t - 8) XOR sha_W b (t - 14) XOR sha_W b (t - 16)) 1)"

declare sha_W.simps [simp del]

definition sha_f :: "nat \<Rightarrow> u32 \<Rightarrow> u32 \<Rightarrow> u32 \<Rightarrow> u32" where
  "sha_f t x y z =
     (if t < 20 then (x AND y) XOR (NOT x AND z)
      else if t < 40 then x XOR y XOR z
      else if t < 60 then (x AND y) XOR (x AND z) XOR (y AND z)
      else x XOR y XOR z)"

definition sha_K :: "nat \<Rightarrow> u32" where
  "sha_K t = (if t < 20 then 0x5A827999 else if t < 40 then 0x6ED9EBA1 else if t < 60 then 0x8F1BBCDC else 0xCA62C1D6)"

definition sha_step :: "byte list \<Rightarrow> nat \<Rightarrow> sha_words \<Rightarrow> sha_words" where
  "sha_step block t = (\<lambda>(a, b, c, d, e). (rol a 5 + sha_f t b c d + e + sha_K t + sha_W block t, a, rol b 30, c, d))"

definition sha_compress :: "sha_words \<Rightarrow> byte list \<Rightarrow> sha_words" where
  "sha_compress st block =
     (let (a, b, c, d, e) = fold (sha_step block) [0..<80] st; (s0, s1, s2, s3, s4) = st in
      (s0 + a, s1 + b, s2 + c, s3 + d, s4 + e))"

text \<open>The hash after the first \<open>n\<close> blocks of a message.\<close>

fun sha_blocks :: "byte list \<Rightarrow> nat \<Rightarrow> sha_words" where
  "sha_blocks m 0 = (0x67452301, 0xEFCDAB89, 0x98BADCFE, 0x10325476, 0xC3D2E1F0)"
| "sha_blocks m (Suc n) = sha_compress (sha_blocks m n) (take 64 (drop (64 * n) m))"

definition sha_pad :: "byte list \<Rightarrow> byte list" where
  "sha_pad m = m @ 0x80 # replicate ((119 - length m mod 64) mod 64) 0 @
     be_bytes (of_nat (8 * length m div 2 ^ 32)) @ be_bytes (of_nat (8 * length m))"

definition sha1_ref :: "byte list \<Rightarrow> byte list" where
  "sha1_ref m =
     (let p = sha_pad m; (s0, s1, s2, s3, s4) = sha_blocks p (length p div 64) in
      be_bytes s0 @ be_bytes s1 @ be_bytes s2 @ be_bytes s3 @ be_bytes s4)"

section \<open>The block function follows the standard\<close>

lemma word_bit_outside: "32 \<le> n \<Longrightarrow> \<not> bit (l :: u32) n"
  by (auto dest: bit_imp_le_length)

lemma swap_bytes_bit:
  assumes "j < 32"
  shows "bit ((rol l 24 AND 0xFF00FF00) OR (rol l 8 AND 0x00FF00FF)) j = bit l (8 * (3 - j div 8) + j mod 8)"
proof -
  have "\<forall>j \<in> set [0..<32]. bit ((rol l 24 AND 0xFF00FF00) OR (rol l 8 AND 0x00FF00FF)) j = bit l (8 * (3 - j div 8) + j mod 8)"
    by (simp add: upt_conv_Cons rol_def bit_simps) (simp add: numeral_eq_Suc word_bit_outside)
  then show ?thesis using assms by simp
qed

lemma bit_be32: "bit (be32 x i) j \<longleftrightarrow> j < 32 \<and> bit (x ! (i + (3 - j div 8))) (j mod 8)"
proof (cases "j < 32")
  case True
  then consider "j < 8" | "8 \<le> j" "j < 16" | "16 \<le> j" "j < 24" | "24 \<le> j" "j < 32" by fastforce
  then show ?thesis
  proof cases
    case 1
    then show ?thesis by (auto simp: be32_def bit_simps)
  next
    case 2
    then have "j div 8 = 1" "j mod 8 = j - 8" by (simp_all add: mod_if)
    with 2 show ?thesis by (auto simp: be32_def bit_simps dest: bit_imp_le_length)
  next
    case 3
    then have "j div 8 = 2" "j mod 8 = j - 16" by (simp_all add: mod_if)
    with 3 show ?thesis by (auto simp: be32_def bit_simps dest: bit_imp_le_length)
  next
    case 4
    then have "j div 8 = 3" "j mod 8 = j - 24" by (simp_all add: mod_if)
    with 4 show ?thesis by (auto simp: be32_def bit_simps dest: bit_imp_le_length)
  qed
qed (auto dest: bit_imp_le_length)

lemma swap_le_be: "(rol (get_le32 x i) 24 AND 0xFF00FF00) OR (rol (get_le32 x i) 8 AND 0x00FF00FF) = be32 x i"
proof (rule bit_word_eqI)
  fix j assume "j < LENGTH(32)"
  then have j: "j < 32" by simp
  then have "j div 8 < 4" by auto
  then have "(8 * (3 - j div 8) + j mod 8) div 8 = 3 - j div 8" "(8 * (3 - j div 8) + j mod 8) mod 8 = j mod 8"
      "8 * (3 - j div 8) + j mod 8 < 32"
    by simp_all
  then show "bit ((rol (get_le32 x i) 24 AND 0xFF00FF00) OR (rol (get_le32 x i) 8 AND 0x00FF00FF)) j = bit (be32 x i) j"
    using j by (simp add: swap_bytes_bit bit_get_le32 bit_be32)
qed

lemma Ch_Maj:
  fixes w x y :: u32
  shows "(w AND (x XOR y)) XOR y = (w AND x) XOR (NOT w AND y)"
    and "((w OR x) AND y) OR (w AND x) = (w AND x) XOR (w AND y) XOR (x AND y)"
  by (rule bit_word_eqI; auto simp: bit_simps)+

text \<open>The sixteen words hold the last sixteen values of the message schedule, and before that the words of the block that
  are still to be read.\<close>

definition schedule_ok :: "byte list \<Rightarrow> nat \<Rightarrow> u32 list \<Rightarrow> bool" where
  "schedule_ok b n l \<longleftrightarrow> length l = 16 \<and>
     (\<forall>t < n. n \<le> t + 16 \<longrightarrow> l ! (t mod 16) = sha_W b t) \<and> (\<forall>k < 16. n \<le> k \<longrightarrow> l ! k = get_le32 b (4 * k))"

lemma mod_16_neq: "t < n \<Longrightarrow> n < t + 16 \<Longrightarrow> t mod 16 \<noteq> n mod (16 :: nat)"
  by (metis add.commute le_add_diff_inverse less_imp_le_nat mod_less mod_eq_dvd_iff_nat nat_less_le zero_less_diff dvd_imp_le linorder_not_less less_diff_conv2)

lemma schedule_step:
  assumes ok: "schedule_ok b n l"
  defines "l' \<equiv> (if n < 16 then blk0 l n else blk l n)"
  shows "schedule_ok b (Suc n) l' \<and> l' ! (n mod 16) = sha_W b n"
proof -
  have len: "length l = 16" using ok by (simp add: schedule_ok_def)
  have l': "l' = l[n mod 16 := sha_W b n]"
  proof (cases "n < 16")
    case True
    then have "l ! n = get_le32 b (4 * n)" using ok by (simp add: schedule_ok_def)
    then show ?thesis using True by (simp add: l'_def blk0_def swap_le_be sha_W.simps [of b n])
  next
    case False
    have prev: "l ! ((n + 16 - k) mod 16) = sha_W b (n - k)" if "0 < k" "k \<le> 16" for k
    proof -
      have "(n + 16 - k) mod 16 = (n - k) mod 16" using False that by (metis add.commute add_diff_assoc le_trans mod_add_self1 not_le_imp_less less_imp_le_nat)
      then show ?thesis using ok False that by (simp add: schedule_ok_def)
    qed
    from prev [of 3] prev [of 8] prev [of 14] prev [of 16] show ?thesis
      using False by (simp add: l'_def blk_def sha_W.simps [of b n] add.commute [of n])
  qed
  have "l' ! (t mod 16) = sha_W b t" if "t < Suc n" "Suc n \<le> t + 16" for t
    using that ok len mod_16_neq [of t n] by (cases "t = n") (auto simp: l' schedule_ok_def)
  moreover have "l' ! k = get_le32 b (4 * k)" if "k < 16" "Suc n \<le> k" for k
    using that ok len by (auto simp: l' schedule_ok_def)
  ultimately show ?thesis using len by (simp add: schedule_ok_def l')
qed

lemma sha_round_step:
  assumes "schedule_ok b n l"
  obtains l' where "sha_round n (st, l) = (sha_step b n st, l')" and "schedule_ok b (Suc n) l'"
proof -
  obtain v w x y z where st: "st = (v, w, x, y, z)" by (cases st) auto
  let ?l = "if n < 16 then blk0 l n else blk l n"
  have f: "(if n < 20 then ((w AND (x XOR y)) XOR y, 0x5A827999)
      else if n < 40 then (w XOR x XOR y, 0x6ED9EBA1)
      else if n < 60 then (((w OR x) AND y) OR (w AND x), 0x8F1BBCDC)
      else (w XOR x XOR y, 0xCA62C1D6)) = (sha_f n w x y, sha_K n)"
    by (simp add: sha_f_def sha_K_def Ch_Maj)
  have "sha_round n (st, l) = (sha_step b n st, ?l)"
    using schedule_step [OF assms] unfolding st sha_round_def Let_def prod.case f
    by (simp add: sha_step_def add_ac)
  then show thesis using schedule_step [OF assms] that by blast
qed

lemma sha_rounds:
  assumes "schedule_ok b 0 l"
  shows "\<exists>l'. fold sha_round [0..<n] (st, l) = (fold (sha_step b) [0..<n] st, l') \<and> schedule_ok b n l'"
proof (induction n)
  case 0
  then show ?case using assms by simp
next
  case (Suc n)
  then obtain l' where l': "fold sha_round [0..<n] (st, l) = (fold (sha_step b) [0..<n] st, l')" "schedule_ok b n l'" by blast
  obtain l'' where "sha_round n (fold (sha_step b) [0..<n] st, l') = (sha_step b n (fold (sha_step b) [0..<n] st), l'')"
      "schedule_ok b (Suc n) l''"
    using sha_round_step [OF l'(2)] .
  then show ?case using l'(1) by simp
qed

lemma Transform_compress:
  assumes "length b = 64"
  shows "SHA1_Transform st (b @ z) = Inr (sha_compress st b)"
proof -
  let ?l = "map (\<lambda>i. get_le32 (b @ z) (4 * i)) [0..<16]"
  have "schedule_ok b 0 ?l" using assms by (auto simp: schedule_ok_def get_le32_def nth_append)
  then obtain l' where "fold sha_round [0..<80] (st, ?l) = (fold (sha_step b) [0..<80] st, l')"
    using sha_rounds [of b ?l 80 st] by blast
  then show ?thesis using assms
    by (simp add: SHA1_Transform_def sha_compress_def Let_def split: prod.splits)
qed

section \<open>Contexts stand for the bytes put into them\<close>

text \<open>The two words of the count, for \<open>n\<close> bytes.\<close>

definition bits_lo :: "nat \<Rightarrow> u32" where "bits_lo n = of_nat (8 * n)"

definition bits_hi :: "nat \<Rightarrow> u32" where "bits_hi n = of_nat (8 * n div 2 ^ 32)"

definition ctx_rep :: "SHA1_CTX \<Rightarrow> byte list \<Rightarrow> bool" where
  "ctx_rep ctx m \<longleftrightarrow>
     sha_state ctx = sha_blocks m (length m div 64) \<and> length (sha_buffer ctx) = 64 \<and>
     take (length m mod 64) (sha_buffer ctx) = map Some (drop (64 * (length m div 64)) m) \<and>
     count0 ctx = bits_lo (length m) \<and> count1 ctx = bits_hi (length m)"

lemma Init_rep: "ctx_rep sat_SHA1_Init []"
  by (simp add: ctx_rep_def sat_SHA1_Init_def bits_lo_def bits_hi_def)

lemma sha_blocks_append: "64 * n \<le> length m \<Longrightarrow> sha_blocks (m @ d) n = sha_blocks m n"
  by (induction n) auto

lemma of_nat_8: "(of_nat (8 * n) :: u32) = push_bit 3 (of_nat n)"
  by (simp add: push_bit_eq_mult mult.commute)

lemma word_mod_64: "(of_nat n :: u32) AND mask 6 = of_nat (n mod 64)"
  by (rule bit_word_eqI) (auto simp: bit_simps simp del: mask_numeral simp flip: take_bit_eq_mod [of 6 n, simplified])

lemma unat_of_nat_less: "n < 2 ^ 32 \<Longrightarrow> unat (of_nat n :: u32) = n" "n < 2 ^ 64 \<Longrightarrow> unat (of_nat n :: u64) = n"
  by (simp_all add: unsigned_of_nat take_bit_nat_eq_self)

lemma ucast_of_nat_32: "(ucast (of_nat n :: u64) :: u32) = of_nat n"
  by (rule bit_word_eqI) (simp add: bit_simps)

lemma count_position: "unat (drop_bit 3 (bits_lo n) AND 63) = n mod 64"
proof -
  have "drop_bit 3 (bits_lo n) AND mask 6 = of_nat n AND mask 6"
    unfolding bits_lo_def of_nat_8 by (rule bit_word_eqI) (auto simp: bit_simps simp del: mask_numeral)
  moreover have "(63 :: u32) = mask 6" by (simp add: mask_eq_exp_minus_1)
  moreover have "n mod 64 < 2 ^ 32" by (rule less_trans [of _ 64]) simp_all
  ultimately show ?thesis by (simp only: word_mod_64 unat_of_nat_less)
qed

lemma count_full: "bits_lo n AND 504 = 448 \<longleftrightarrow> n mod 64 = 56"
proof -
  have "bits_lo n AND push_bit 3 (mask 6) = push_bit 3 (of_nat n AND mask 6)"
    unfolding bits_lo_def of_nat_8 by (rule bit_word_eqI) (auto simp: bit_simps simp del: mask_numeral)
  moreover have "(504 :: u32) = push_bit 3 (mask 6)" by (simp add: mask_eq_exp_minus_1)
  ultimately have "bits_lo n AND 504 = of_nat (8 * (n mod 64))" by (simp only: word_mod_64 of_nat_8)
  moreover have "8 * (n mod 64) < 2 ^ 32" by (rule less_trans [of _ 512]) simp_all
  ultimately have "unat (bits_lo n AND 504) = 8 * (n mod 64)" by (simp only: unat_of_nat_less)
  moreover have "bits_lo n AND 504 = 448 \<longleftrightarrow> unat (bits_lo n AND 504) = 448" by (simp add: word_unat_eq_iff)
  ultimately show ?thesis by auto
qed

lemma carry:
  fixes M :: nat
  assumes "b < M"
  shows "(a + b) div M = a div M + (if (a + b) mod M < b then 1 else 0)"
proof -
  have r: "a mod M < M" using assms by simp
  have "(a mod M + b) div M = 1" if "\<not> a mod M + b < M"
    by (rule div_nat_eqI) (use that add_strict_mono [OF r assms] in simp_all)
  then have "(a mod M + b) div M = (if a mod M + b < M then 0 else 1)" by simp
  moreover have "(a mod M + b) mod M = (if a mod M + b < M then a mod M + b else a mod M + b - M)"
    using add_strict_mono [OF r assms] by (simp add: le_mod_geq)
  moreover have "(a + b) mod M = (a mod M + b) mod M" by (simp add: mod_simps)
  moreover have "(a + b) div M = a div M + (a mod M + b) div M" using div_add1_eq [of a b M] assms by simp
  moreover have "a mod M + b - M < b" if "\<not> a mod M + b < M" using r that by linarith
  ultimately show ?thesis using assms by auto
qed

text \<open>The two words count bits as one number of 64 bits, as long as less than 2^29 bytes are put in at a time.\<close>

lemma add_count_ok:
  assumes "len < 2 ^ 29"
  shows "add_count (bits_lo n) (bits_hi n) len = (bits_lo (n + len), bits_hi (n + len))"
proof -
  have less: "8 * len < 2 ^ 32" using assms by simp
  have bits: "push_bit 3 (of_nat len :: u64) = of_nat (8 * len)" by (simp add: push_bit_eq_mult mult.commute)
  have "8 * len < 2 ^ 64" using less by simp
  then have ubits: "unat (of_nat (8 * len) :: u64) = 8 * len" by (rule unat_of_nat_less)
  have c0: "bits_lo n + ucast (of_nat (8 * len) :: u64) = bits_lo (n + len)"
    unfolding ucast_of_nat_32 by (simp add: bits_lo_def)
  have "unat (bits_lo (n + len)) = (8 * n + 8 * len) mod 2 ^ 32"
    unfolding bits_lo_def distrib_left by (simp only: unsigned_of_nat take_bit_eq_mod of_nat_id len_of_numeral_defs) simp
  then have "(ucast (bits_lo (n + len)) < (of_nat (8 * len) :: u64)) = ((8 * n + 8 * len) mod 2 ^ 32 < 8 * len)"
    unfolding word_less_nat_alt ubits
    using less_trans [of "(8 * n + 8 * len) mod 2 ^ 32" "2 ^ 32" "2 ^ 64"] by (simp add: unsigned_ucast_eq take_bit_nat_eq_self)
  moreover have "bits_hi (n + len) = bits_hi n + (if (8 * n + 8 * len) mod 2 ^ 32 < 8 * len then 1 else 0)"
    unfolding bits_hi_def distrib_left carry [OF less, of "8 * n"] by simp
  moreover have "drop_bit 29 (of_nat len :: u64) = 0"
  proof -
    have "unat (of_nat len :: u64) = len" using assms by (simp add: unat_of_nat_less)
    then have "unat (drop_bit 29 (of_nat len :: u64)) = 0" using assms unfolding unat_drop_bit_eq by (simp add: drop_bit_eq_div)
    then show ?thesis by (simp add: unat_eq_0)
  qed
  ultimately show ?thesis unfolding add_count_def Let_def bits c0 by simp
qed

lemma update_blocks_ok:
  assumes "i \<le> length d" and "length m + i = 64 * q"
  shows "\<exists>i'. update_blocks (sha_blocks (m @ d) q) d i = Inr (i', sha_blocks (m @ d) ((length m + length d) div 64)) \<and>
     i' \<le> length d \<and> length m + i' = 64 * ((length m + length d) div 64)"
  using assms
proof (induction "length d - i" arbitrary: i q rule: less_induct)
  case less
  show ?case
  proof (cases "i + 63 < length d")
    case True
    have "drop (64 * q) (m @ d) = drop i d" unfolding less.prems(2) [symmetric] by simp
    then have "SHA1_Transform (sha_blocks (m @ d) q) (drop i d) = Inr (sha_blocks (m @ d) (Suc q))"
      using Transform_compress [of "take 64 (drop i d)" "sha_blocks (m @ d) q" "drop 64 (drop i d)"] True
      unfolding append_take_drop_id by simp
    then have "update_blocks (sha_blocks (m @ d) q) d i = update_blocks (sha_blocks (m @ d) (Suc q)) d (i + 64)"
      using True by (subst update_blocks.simps) simp
    moreover have "length d - (i + 64) < length d - i" "i + 64 \<le> length d" using True by linarith+
    moreover have "length m + (i + 64) = 64 * Suc q" using less.prems(2) by simp
    ultimately show ?thesis using less.hyps by presburger
  next
    case False
    then have "(length m + length d) div 64 = q" using less.prems by (intro div_nat_eqI) auto
    then show ?thesis using False less.prems by (subst update_blocks.simps) auto
  qed
qed

lemma Update_short:
  assumes rep: "ctx_rep ctx m" and len: "length d < 2 ^ 29" and short: "length m mod 64 + length d < 64"
  shows "\<exists>ctx'. sat_SHA1_Update ctx d = Inr ctx' \<and> ctx_rep ctx' (m @ d)"
proof -
  define q j n where "q = length m div 64" and "j = length m mod 64" and "n = length m + length d"
  have n: "n = 64 * q + (j + length d)" "j + length d < 64" and m: "64 * q \<le> length m" "length m = 64 * q + j"
    using short by (simp_all add: n_def q_def j_def)
  have nq: "n div 64 = q" "n mod 64 = j + length d" using n by simp_all
  have r: "sha_state ctx = sha_blocks m q" "length (sha_buffer ctx) = 64" "take j (sha_buffer ctx) = map Some (drop (64 * q) m)"
      "count0 ctx = bits_lo (length m)" "count1 ctx = bits_hi (length m)"
    using rep by (simp_all add: ctx_rep_def flip: q_def j_def)
  let ?buf = "take j (sha_buffer ctx) @ map Some d @ drop (j + length d) (sha_buffer ctx)"
  have "sat_SHA1_Update ctx d = Inr (ctx\<lparr>count0 := bits_lo n, count1 := bits_hi n, sha_buffer := ?buf\<rparr>)"
    using n(2) r(2) unfolding sat_SHA1_Update_def Let_def r(4,5) add_count_ok [OF len] count_position
    by (simp add: memcpyR_def flip: j_def n_def)
  moreover have "take (j + length d) ?buf = map Some (drop (64 * q) (m @ d))" "length ?buf = 64"
    using r(2,3) n(2) m(1) by (simp_all flip: r(3))
  moreover have "length (m @ d) = n" by (simp add: n_def)
  ultimately show ?thesis using r(1) m(1) by (simp add: ctx_rep_def nq sha_blocks_append del: length_append)
qed

lemma Update_long:
  assumes rep: "ctx_rep ctx m" and len: "length d < 2 ^ 29" and long: "64 \<le> length m mod 64 + length d"
  shows "\<exists>ctx'. sat_SHA1_Update ctx d = Inr ctx' \<and> ctx_rep ctx' (m @ d)"
proof -
  define q j n where "q = length m div 64" and "j = length m mod 64" and "n = length m + length d"
  have m: "length m = 64 * q + j" "j < 64" and d: "64 - j \<le> length d" using long by (simp_all add: q_def j_def)
  have r: "sha_state ctx = sha_blocks m q" "length (sha_buffer ctx) = 64" "take j (sha_buffer ctx) = map Some (drop (64 * q) m)"
      "count0 ctx = bits_lo (length m)" "count1 ctx = bits_hi (length m)"
    using rep by (simp_all add: ctx_rep_def flip: q_def j_def)
  define block where "block = drop (64 * q) m @ take (64 - j) d"
  have block: "length block = 64" "take 64 (drop (64 * q) (m @ d)) = block" using m d by (simp_all add: block_def)
  have 1: "memcpyR (sha_buffer ctx) j (map Some (take (64 - j) d)) = Inr (map Some block)"
    using r(2,3) m(2) d by (simp add: memcpyR_def block_def)
  have 2: "read_bytes (map Some block) 64 = Inr block" using pushlstring_prefix [of 64 block "[]"] block(1) by simp
  have 3: "SHA1_Transform (sha_state ctx) block = Inr (sha_blocks (m @ d) (Suc q))"
    using Transform_compress [OF block(1), of "sha_state ctx" "[]"] r(1) m sha_blocks_append [of q m d] block(2) by simp
  obtain i where i: "update_blocks (sha_blocks (m @ d) (Suc q)) d (64 - j) = Inr (i, sha_blocks (m @ d) (n div 64))"
      "i \<le> length d" "length m + i = 64 * (n div 64)"
    using update_blocks_ok [of "64 - j" d m "Suc q"] m d unfolding n_def by auto
  have tail: "length (drop i d) = n mod 64" "n mod 64 \<le> 64"
    using i(2,3) by (simp_all add: n_def minus_mult_div_eq_mod [symmetric])
  let ?buf = "map Some (drop i d) @ drop (n mod 64) (map Some block)"
  have 4: "memcpyR (map Some block) 0 (map Some (drop i d)) = Inr ?buf"
    using tail by (simp only: memcpyR_def length_map block(1)) simp
  have "63 < j + length d" using long by (simp add: j_def)
  then have "sat_SHA1_Update ctx d =
      Inr (ctx\<lparr>count0 := bits_lo n, count1 := bits_hi n, sha_buffer := ?buf, sha_state := sha_blocks (m @ d) (n div 64)\<rparr>)"
    using 2 3 i(1) 4 unfolding sat_SHA1_Update_def Let_def r(4,5) add_count_ok [OF len] count_position
    by (simp add: 1 del: map_append flip: j_def n_def)
  moreover have "drop (64 * (n div 64)) (m @ d) = drop i d" by (simp flip: i(3))
  moreover have "length ?buf = 64" using tail block(1) by simp
  moreover have "take (n mod 64) ?buf = map Some (drop i d)" by (simp flip: tail(1))
  ultimately show ?thesis by (simp add: ctx_rep_def del: map_append flip: n_def)
qed

lemma Update_rep:
  "ctx_rep ctx m \<Longrightarrow> length d < 2 ^ 29 \<Longrightarrow> \<exists>ctx'. sat_SHA1_Update ctx d = Inr ctx' \<and> ctx_rep ctx' (m @ d)"
  using Update_short [of ctx m d] Update_long [of ctx m d] by (cases "length m mod 64 + length d < 64") auto

text \<open>\<^verbatim>\<open>sat_SHA1_Update\<close> appends: a context that stands for the bytes \<open>m\<close> stands for \<open>m @ d\<close> afterwards, whatever the
  lengths of both, so that it makes no difference into which pieces a text is cut. Every block is hashed from initialised memory.\<close>

theorem sha1_update_appends:
  assumes "ctx_rep ctx m" and "length d < 2 ^ 29"
  shows "\<exists>ctx'. sat_SHA1_Update ctx d = Inr ctx' \<and> ctx_rep ctx' (m @ d)"
  using assms by (rule Update_rep)

theorem sha1_update_appends_witness:
  "\<exists>ctx'. sat_SHA1_Update sat_SHA1_Init [1, 2, 3] = Inr ctx' \<and> ctx_rep ctx' [1, 2, 3]"
  using sha1_update_appends [OF Init_rep, of "[1, 2, 3]"] by simp

section \<open>Digests\<close>

lemma pad_zeros_ok:
  assumes "ctx_rep ctx m" and "k \<le> fuel" and "(length m + k) mod 64 = 56" and "k < 64"
  shows "\<exists>ctx'. pad_zeros fuel ctx = Inr ctx' \<and> ctx_rep ctx' (m @ replicate k 0)"
  using assms
proof (induction k arbitrary: fuel ctx m)
  case 0
  then have "count0 ctx AND 504 = 448" by (simp add: ctx_rep_def count_full)
  then show ?case using 0(1) by (subst pad_zeros.simps) simp
next
  case (Suc k)
  have "length m mod 64 \<noteq> 56"
  proof
    assume "length m mod 64 = 56"
    then have "(56 + Suc k) mod 64 = 56" using Suc.prems(3) by (metis mod_add_left_eq)
    then show False using Suc.prems(4) by (auto simp: mod_if split: if_splits)
  qed
  then have go: "count0 ctx AND 504 \<noteq> 448" using Suc.prems(1) by (simp add: ctx_rep_def count_full)
  obtain f where f: "fuel = Suc f" using Suc.prems(2) by (cases fuel) auto
  obtain ctx' where 1: "sat_SHA1_Update ctx [0] = Inr ctx'" "ctx_rep ctx' (m @ [0])" using Update_rep [OF Suc.prems(1), of "[0]"] by auto
  have "\<exists>c. pad_zeros f ctx' = Inr c \<and> ctx_rep c ((m @ [0]) @ replicate k 0)"
    using Suc.prems 1(2) f by (intro Suc.IH) auto
  then show ?case using go f 1(1) by (subst pad_zeros.simps) simp
qed

lemma digest_bytes:
  "map (\<lambda>i. ucast (drop_bit ((3 - i mod 4) * 8) ([s0, s1, s2, s3, s4] ! (i div 4)) AND 255)) [0..<SHA1_DIGEST_SIZE] =
   be_bytes s0 @ be_bytes s1 @ be_bytes s2 @ be_bytes s3 @ be_bytes s4"
  by (simp add: SHA1_DIGEST_SIZE_def upt_conv_Cons be_bytes_def low_byte)

lemma count_bytes:
  "map (\<lambda>i. ucast (drop_bit ((3 - i mod 4) * 8) (if i \<ge> 4 then c0 else c1) AND 255)) [0..<8] = be_bytes c1 @ be_bytes c0"
  by (simp add: upt_conv_Cons be_bytes_def low_byte)

lemma Final_rep:
  assumes "ctx_rep ctx m"
  shows "sat_SHA1_Final ctx = Inr (sha1_ref m)"
proof -
  let ?k = "(119 - length m mod 64) mod 64"
  have "(r + 1 + (119 - r) mod 64) mod 64 = 56" if "r < 64" for r :: nat
  proof (cases "r \<le> 55")
    case True
    then have "(119 - r) mod 64 = 55 - r" using le_mod_geq [of 64 "119 - r"] by simp
    then show ?thesis using True by simp
  next
    case False
    then show ?thesis using that by simp
  qed
  from this [of "length m mod 64"] have pad: "(length (m @ [0x80]) + ?k) mod 64 = 56"
    using mod_add_left_eq [of "length m" 64 "1 + ?k"] by simp
  obtain ctx1 where 1: "sat_SHA1_Update ctx [0x80] = Inr ctx1" "ctx_rep ctx1 (m @ [0x80])"
    using Update_rep [OF assms, of "[0x80]"] by auto
  obtain ctx2 where 2: "pad_zeros 64 ctx1 = Inr ctx2" "ctx_rep ctx2 ((m @ [0x80]) @ replicate ?k 0)"
    using pad_zeros_ok [OF 1(2) _ pad, of 64] by auto
  let ?len = "be_bytes (bits_hi (length m)) @ be_bytes (bits_lo (length m))"
  obtain ctx3 where 3: "sat_SHA1_Update ctx2 ?len = Inr ctx3" "ctx_rep ctx3 (((m @ [0x80]) @ replicate ?k 0) @ ?len)"
    using Update_rep [OF 2(2), of ?len] by (auto simp: be_bytes_def)
  obtain s0 s1 s2 s3 s4 where s: "sha_state ctx3 = (s0, s1, s2, s3, s4)" by (cases "sha_state ctx3") auto
  have "((m @ [0x80]) @ replicate ?k 0) @ ?len = sha_pad m" by (simp add: sha_pad_def bits_hi_def bits_lo_def)
  then have "sha_blocks (sha_pad m) (length (sha_pad m) div 64) = (s0, s1, s2, s3, s4)"
    using 3(2) s unfolding ctx_rep_def by metis
  moreover have "count0 ctx = bits_lo (length m)" "count1 ctx = bits_hi (length m)"
    using assms by (simp_all add: ctx_rep_def)
  ultimately show ?thesis
    unfolding sat_SHA1_Final_def Let_def count_bytes
    using 1(1) 2(1) 3(1) s digest_bytes by (simp add: sha1_ref_def Let_def)
qed

text \<open>C19. \<^verbatim>\<open>sha1\<close> computes SHA-1 as the standard defines it, for every text of less than 2^29 bytes: the streaming
  implementation with its buffer of one block, its schedule of sixteen words and its padding byte by byte gives the
  hash of the padded message, and the loop of the padding ends.\<close>

theorem lsha1_is_sha1:
  assumes "length text < 2 ^ 29"
  shows "lsha1 text = Inr (sha1_ref text)"
  using Update_rep [OF Init_rep assms] Final_rep by (auto simp: lsha1_def)

theorem lsha1_is_sha1_witness: "lsha1 [1, 2, 3] = Inr (sha1_ref [1, 2, 3])"
  using lsha1_is_sha1 [of "[1, 2, 3]"] by simp

text \<open>A text of 2^29 bytes or more is counted wrongly: \<^verbatim>\<open>count[0]\<close> has 32 bits and is compared with a \<^verbatim>\<open>len << 3\<close> of 64, so
  that a carry is added although \<^verbatim>\<open>len >> 29\<close> already accounts for it. After 2^29 bytes the context claims 2^33 bits
  instead of 2^32.\<close>

theorem sha1_count_wrong: "add_count 0 0 (2 ^ 29) = (0, 2) \<and> (bits_lo (2 ^ 29), bits_hi (2 ^ 29)) = (0, 1)"
  by (simp add: add_count_def bits_lo_def bits_hi_def)

section \<open>HMAC-SHA-1\<close>

lemma sha1_ref_length: "length (sha1_ref m) = 20"
  by (simp add: sha1_ref_def Let_def be_bytes_def split: prod.splits)

text \<open>HMAC after RFC 2104.\<close>

definition hmac_key :: "byte list \<Rightarrow> byte list" where
  "hmac_key key = (let k = (if length key > 64 then sha1_ref key else key) in k @ replicate (64 - length k) 0)"

definition hmac_ref :: "byte list \<Rightarrow> byte list \<Rightarrow> byte list" where
  "hmac_ref key text =
     sha1_ref (map (\<lambda>b. b XOR 0x5c) (hmac_key key) @ sha1_ref (map (\<lambda>b. b XOR 0x36) (hmac_key key) @ text))"

lemma bit_put_le32: "i < 4 \<Longrightarrow> bit (put_le32 n ! i) j \<longleftrightarrow> j < 8 \<and> bit n (8 * i + j)"
proof -
  assume "i < 4"
  then have "i = 0 \<or> i = 1 \<or> i = 2 \<or> i = 3" by auto
  then show ?thesis by (auto simp: put_le32_def low_byte bit_simps dest: bit_imp_le_length)
qed

lemma concat_nth:
  assumes "\<And>i. length (f i) = c"
  shows "q < n \<Longrightarrow> t < c \<Longrightarrow> concat (map f [0..<n]) ! (c * q + t) = f q ! t"
proof (induction n)
  case (Suc n)
  have len: "length (concat (map f [0..<n])) = c * n" using assms by (induction n) auto
  show ?case
  proof (cases "q = n")
    case True
    then show ?thesis using len by (simp add: nth_append)
  next
    case False
    then have "c * Suc q \<le> c * n" using Suc.prems by (intro mult_le_mono2) auto
    then have "c * q + t < c * n" using Suc.prems by simp
    then show ?thesis using Suc False len by (simp add: nth_append)
  qed
qed simp

lemma xor_key_bytes:
  assumes key: "length key = 64" and x: "\<And>i j. i < 4 \<Longrightarrow> j < 8 \<Longrightarrow> bit x (8 * i + j) = bit c j"
  shows "xor_key key x = map (\<lambda>b. b XOR c) key"
proof (rule nth_equalityI)
  show "length (xor_key key x) = length (map (\<lambda>b. b XOR c) key)"
    using key by (simp add: xor_key_def BLOCKSIZE_def upt_conv_Cons put_le32_def)
next
  fix p assume "p < length (xor_key key x)"
  then have "p < 64" by (simp add: xor_key_def BLOCKSIZE_def upt_conv_Cons put_le32_def)
  define q t where "q = p div 4" and "t = p mod 4"
  have p: "p = 4 * q + t" "t < 4" "q < 16" using \<open>p < 64\<close> by (auto simp: q_def t_def)
  have "xor_key key x ! p = put_le32 (get_le32 key (4 * q) XOR x) ! t"
    unfolding xor_key_def p(1) using p(2,3) by (subst concat_nth) (simp_all add: put_le32_def BLOCKSIZE_def)
  also have "\<dots> = key ! p XOR c"
  proof (rule bit_word_eqI)
    fix j assume "j < LENGTH(8)"
    then have j: "j < 8" by simp
    then have "(8 * t + j) div 8 = t" "(8 * t + j) mod 8 = j" "8 * t + j < 32" using p(2) by auto
    then show "bit (put_le32 (get_le32 key (4 * q) XOR x) ! t) j = bit (key ! p XOR c) j"
      using j p x [OF p(2) j] by (simp add: bit_put_le32 bit_simps bit_get_le32)
  qed
  finally show "xor_key key x ! p = map (\<lambda>b. b XOR c) key ! p" using \<open>p < 64\<close> key by simp
qed

lemma key_constants:
  "\<forall>i \<in> set [0..<4]. \<forall>j \<in> set [0..<8]. bit (0x5c5c5c5c :: u32) (8 * i + j) = bit (0x5c :: byte) j"
  "\<forall>i \<in> set [0..<4]. \<forall>j \<in> set [0..<8]. bit (0x5c5c5c5c XOR 0x36363636 :: u32) (8 * i + j) = bit (0x6a :: byte) j"
  by (simp_all add: upt_conv_Cons)

lemma xor_keys:
  assumes "length key = 64"
  shows "xor_key key 0x5c5c5c5c = map (\<lambda>b. b XOR 0x5c) key"
    and "xor_key (xor_key key 0x5c5c5c5c) (0x5c5c5c5c XOR 0x36363636) = map (\<lambda>b. b XOR 0x36) key"
proof -
  show 1: "xor_key key 0x5c5c5c5c = map (\<lambda>b. b XOR 0x5c) key"
    using key_constants(1) by (intro xor_key_bytes assms) auto
  have "xor_key (xor_key key 0x5c5c5c5c) (0x5c5c5c5c XOR 0x36363636) = map (\<lambda>b. b XOR 0x6a) (xor_key key 0x5c5c5c5c)"
    using key_constants(2) assms by (intro xor_key_bytes) (auto simp: 1)
  then show "xor_key (xor_key key 0x5c5c5c5c) (0x5c5c5c5c XOR 0x36363636) = map (\<lambda>b. b XOR 0x36) key"
    by (simp add: 1 xor.assoc)
qed

text \<open>C20. \<^verbatim>\<open>hmac_sha1\<close> is HMAC (RFC 2104) over SHA-1, for keys shorter and longer than a block.\<close>

theorem lhmac_sha1_is_hmac:
  assumes "length key < 2 ^ 29" and "length text < 2 ^ 29"
  shows "lhmac_sha1 key text = Inr (hmac_ref key text)"
proof -
  let ?K = "hmac_key key"
  have K: "length ?K = 64" by (simp add: hmac_key_def Let_def sha1_ref_length)
  obtain c0 where c0: "sat_SHA1_Update sat_SHA1_Init key = Inr c0" "sat_SHA1_Final c0 = Inr (sha1_ref key)"
    using Update_rep [OF Init_rep assms(1)] Final_rep by fastforce
  have rkey: "(if length key > BLOCKSIZE
      then bindR (sat_SHA1_Update sat_SHA1_Init key) (\<lambda>ctx.
           bindR (sat_SHA1_Final ctx) (\<lambda>digest. memcpyR (replicate BLOCKSIZE 0) 0 digest))
      else memcpyR (replicate BLOCKSIZE 0) 0 key) = Inr ?K"
    by (simp add: c0 BLOCKSIZE_def memcpyR_def hmac_key_def Let_def sha1_ref_length)
  let ?o = "map (\<lambda>b. b XOR 0x5c) ?K" and ?i = "map (\<lambda>b. b XOR 0x36) ?K"
  obtain c1 where c1: "sat_SHA1_Update sat_SHA1_Init ?o = Inr c1" "ctx_rep c1 ?o"
    using Update_rep [OF Init_rep, of ?o] K by auto
  obtain c2 where c2: "sat_SHA1_Update sat_SHA1_Init ?i = Inr c2" "ctx_rep c2 ?i"
    using Update_rep [OF Init_rep, of ?i] K by auto
  obtain c3 where c3: "sat_SHA1_Update c2 text = Inr c3" "ctx_rep c3 (?i @ text)"
    using Update_rep [OF c2(2) assms(2)] by auto
  let ?d = "sha1_ref (?i @ text)"
  obtain c4 where c4: "sat_SHA1_Update c1 ?d = Inr c4" "ctx_rep c4 (?o @ ?d)"
    using Update_rep [OF c1(2), of ?d] sha1_ref_length by auto
  show ?thesis
    unfolding lhmac_sha1_def rkey
    using c1(1) c2(1) c3(1) c4(1) Final_rep [OF c3(2)] Final_rep [OF c4(2)] xor_keys [OF K]
    unfolding bindR_Inr Let_def by (simp only: bindR_Inr hmac_ref_def)
qed

theorem lhmac_sha1_is_hmac_witness: "lhmac_sha1 [1, 2] [3] = Inr (hmac_ref [1, 2] [3])"
  using lhmac_sha1_is_hmac [of "[1, 2]" "[3]"] by simp

end
