(* ===== verification/Bytes.thy ===== *)
theory Bytes
  imports Chunk
begin

text \<open>
  Integers in memory. The program copies integers to and from byte buffers with \<^verbatim>\<open>memcpy\<close>, in the byte order of the
  machine; the model has the little-endian order of x86 and ARM. \<open>host_bytes n w\<close> are the first \<open>n\<close> bytes of \<open>w\<close> in
  memory and \<open>host_word\<close> reads them back.
\<close>

definition host_bytes :: "nat \<Rightarrow> 'a::len word \<Rightarrow> byte list" where
  "host_bytes n w = map (\<lambda>i. ucast (drop_bit (8 * i) w)) [0..<n]"

definition host_word :: "byte list \<Rightarrow> 'a::len word" where
  "host_word bs = foldr (\<lambda>b w. ucast b OR push_bit 8 w) bs 0"

lemma length_host_bytes [simp]: "length (host_bytes n w) = n"
  by (simp add: host_bytes_def)

lemma host_bytes_Suc: "host_bytes (Suc n) w = ucast w # host_bytes n (drop_bit 8 w)"
  by (rule nth_equalityI) (auto simp: host_bytes_def nth_Cons add.commute simp del: upt_Suc split: nat.splits)

lemma host_word_Nil [simp]: "host_word [] = 0"
  by (simp add: host_word_def)

lemma host_word_Cons [simp]: "host_word (b # bs) = ucast b OR push_bit 8 (host_word bs)"
  by (simp add: host_word_def)

lemma host_word_take: "host_word (host_bytes n w) = take_bit (8 * n) w"
proof (induction n arbitrary: w)
  case 0
  then show ?case by (simp add: host_bytes_def)
next
  case (Suc n)
  show ?case
    unfolding host_bytes_Suc host_word_Cons Suc
    by (rule bit_word_eqI) (auto simp: bit_simps)
qed

text \<open>An integer that is copied into a buffer as a whole is read back unchanged.\<close>

lemma host_word_host_bytes [simp]:
  fixes w :: "'a::len word"
  assumes "LENGTH('a) \<le> 8 * n"
  shows "host_word (host_bytes n w) = w"
  unfolding host_word_take by (rule bit_word_eqI) (use assms in \<open>auto simp: bit_simps\<close>)

end
