(* ===== verification/Seri.thy ===== *)
theory Seri
  imports Bytes "HOL-Library.AList"
begin

text \<open>
  The serialisation of Lua values in \<^verbatim>\<open>lualib-src/lua-seri.c\<close>: \<^verbatim>\<open>luaseri_pack\<close> writes its arguments into a chain of
  blocks and copies them into one buffer, \<^verbatim>\<open>luaseri_unpack\<close> reads such a buffer.

  A Lua value is a value of the datatype \<open>lua_value\<close>; a number is the bit pattern of a double. A table is the list of its
  keys and values in the order in which \<^verbatim>\<open>lua_next\<close> visits them. A table with a metamethod \<^verbatim>\<open>__pairs\<close> is a \<open>Proxy\<close> with the
  pairs that the iterator of the metamethod gives one after the other. The length of a table (\<^verbatim>\<open>lua_rawlen\<close>), which Lua
  leaves open for a table with holes, is the parameter \<open>rawlen\<close>. The limits of the Lua stack and of memory, and the release
  of the blocks by \<^verbatim>\<open>wb_free\<close>, are not part of the model.
\<close>

section \<open>Lua values\<close>

datatype lua_value =
    LuaNil
  | LuaBoolean bool
  | LuaInteger u64
  | LuaNumber u64
  | LuaString "byte list"
  | LuaPointer u64
  | Table "(lua_value \<times> lua_value) list"
  | Proxy "(lua_value \<times> lua_value) list"
  | Other string

type_synonym lua_table = "(lua_value \<times> lua_value) list"

fun is_table :: "lua_value \<Rightarrow> bool" where
  "is_table (Table _) = True"
| "is_table (Proxy _) = True"
| "is_table _ = False"

definition mantissa :: "u64 \<Rightarrow> nat" where "mantissa d = unat d mod 2 ^ 52"

definition exponent :: "u64 \<Rightarrow> nat" where "exponent d = unat d div 2 ^ 52 mod 2048"

definition is_nan :: "u64 \<Rightarrow> bool" where
  "is_nan d = (exponent d = 2047 \<and> mantissa d \<noteq> 0)"

text \<open>The magnitude of a double that is an integer, and the 64-bit integer it is, if there is one.\<close>

definition integral_part :: "u64 \<Rightarrow> nat option" where
  "integral_part d =
     (if exponent d = 0 then if mantissa d = 0 then Some 0 else None
      else if exponent d = 2047 then None
      else if exponent d \<ge> 1075 then Some ((2 ^ 52 + mantissa d) * 2 ^ (exponent d - 1075))
      else if (2 ^ 52 + mantissa d) mod 2 ^ (1075 - exponent d) = 0
      then Some ((2 ^ 52 + mantissa d) div 2 ^ (1075 - exponent d))
      else None)"

definition tointeger :: "u64 \<Rightarrow> u64 option" where
  "tointeger d =
     (case integral_part d of
        None \<Rightarrow> None
      | Some n \<Rightarrow>
          if bit d 63 then if n \<le> 2 ^ 63 then Some (word_of_int (- int n)) else None
          else if n < 2 ^ 63 then Some (of_nat n) else None)"

text \<open>A table stores a key that is a number with an integral value as that integer.\<close>

definition norm_key :: "lua_value \<Rightarrow> lua_value" where
  "norm_key k =
     (case k of LuaNumber d \<Rightarrow> (case tointeger d of None \<Rightarrow> k | Some i \<Rightarrow> LuaInteger i) | _ \<Rightarrow> k)"

text \<open>Assigning \<^verbatim>\<open>nil\<close> removes an entry. A table that is used as a key is a new object and different from all
  keys there are.\<close>

definition table_set :: "lua_table \<Rightarrow> lua_value \<Rightarrow> lua_value \<Rightarrow> lua_table" where
  "table_set t k v =
     (if is_table k then if v = LuaNil then t else t @ [(k, v)]
      else if v = LuaNil then AList.delete k t else AList.update k v t)"

definition lua_rawset :: "lua_table \<Rightarrow> lua_value \<Rightarrow> lua_value \<Rightarrow> lua_table res" where
  "lua_rawset t k v =
     (case k of
        LuaNil \<Rightarrow> Inl (Lua_error ''table index is nil'')
      | LuaNumber d \<Rightarrow> if is_nan d then Inl (Lua_error ''table index is NaN'') else Inr (table_set t (norm_key k) v)
      | _ \<Rightarrow> Inr (table_set t k v))"

definition lua_rawseti :: "lua_table \<Rightarrow> nat \<Rightarrow> lua_value \<Rightarrow> lua_table" where
  "lua_rawseti t i v = table_set t (LuaInteger (of_nat i)) v"

definition lua_rawgeti :: "lua_table \<Rightarrow> nat \<Rightarrow> lua_value" where
  "lua_rawgeti t i = (case map_of t (LuaInteger (of_nat i)) of None \<Rightarrow> LuaNil | Some v \<Rightarrow> v)"

section \<open>Blocks to write to\<close>

definition TYPE_NIL :: byte where "TYPE_NIL = 0"
definition TYPE_BOOLEAN :: byte where "TYPE_BOOLEAN = 1"
definition TYPE_NUMBER :: byte where "TYPE_NUMBER = 2"
definition TYPE_NUMBER_ZERO :: byte where "TYPE_NUMBER_ZERO = 0"
definition TYPE_NUMBER_BYTE :: byte where "TYPE_NUMBER_BYTE = 1"
definition TYPE_NUMBER_WORD :: byte where "TYPE_NUMBER_WORD = 2"
definition TYPE_NUMBER_DWORD :: byte where "TYPE_NUMBER_DWORD = 4"
definition TYPE_NUMBER_QWORD :: byte where "TYPE_NUMBER_QWORD = 6"
definition TYPE_NUMBER_REAL :: byte where "TYPE_NUMBER_REAL = 8"
definition TYPE_USERDATA :: byte where "TYPE_USERDATA = 3"
definition TYPE_SHORT_STRING :: byte where "TYPE_SHORT_STRING = 4"
definition TYPE_LONG_STRING :: byte where "TYPE_LONG_STRING = 5"
definition TYPE_TABLE :: byte where "TYPE_TABLE = 6"
definition MAX_COOKIE :: nat where "MAX_COOKIE = 32"
definition BLOCK_SIZE :: nat where "BLOCK_SIZE = 128"
definition MAX_DEPTH :: nat where "MAX_DEPTH = 32"

definition COMBINE_TYPE :: "byte \<Rightarrow> byte \<Rightarrow> byte" where
  "COMBINE_TYPE t v = t OR push_bit 3 v"

text \<open>The chain of blocks is a list, \<open>wb_current\<close> the position of the block that is written to.\<close>

record write_block =
  wb_blocks :: "byte option list list"
  wb_current :: nat
  wb_len :: nat
  wb_ptr :: nat

definition blk_alloc :: "byte option list" where
  "blk_alloc = replicate BLOCK_SIZE None"

definition wb_init :: write_block where
  "wb_init = \<lparr>wb_blocks = [blk_alloc], wb_current = 0, wb_len = 0, wb_ptr = 0\<rparr>"

definition wb_extend :: "write_block \<Rightarrow> write_block" where
  "wb_extend b =
     b\<lparr>wb_blocks := take (Suc (wb_current b)) (wb_blocks b) @ [blk_alloc],
       wb_current := Suc (wb_current b), wb_ptr := 0\<rparr>"

text \<open>Copying \<open>xs\<close> behind the bytes in the current block; \<^verbatim>\<open>b->len\<close> is an \<^verbatim>\<open>int\<close>.\<close>

definition wb_copy :: "write_block \<Rightarrow> byte list \<Rightarrow> write_block res" where
  "wb_copy b xs =
     bindR (rd (wb_blocks b) (wb_current b)) (\<lambda>blk.
     bindR (memcpyR blk (wb_ptr b) (map Some xs)) (\<lambda>blk'.
     if wb_len b + length xs < 2 ^ 31
     then Inr (b\<lparr>wb_blocks := (wb_blocks b)[wb_current b := blk'], wb_len := wb_len b + length xs\<rparr>)
     else Inl Int_overflow))"

function wb_write :: "write_block \<Rightarrow> byte list \<Rightarrow> write_block res" where
  "wb_write b buffer =
     (if wb_ptr b + length buffer \<le> BLOCK_SIZE
      then bindR (wb_copy b buffer) (\<lambda>b'. Inr (b'\<lparr>wb_ptr := wb_ptr b' + length buffer\<rparr>))
      else
        let copy = BLOCK_SIZE - wb_ptr b in
        bindR (wb_copy b (take copy buffer)) (\<lambda>b'. wb_write (wb_extend b') (drop copy buffer)))"
  by pat_completeness auto
termination
  by (relation "measure (\<lambda>(b, buffer). 2 * length buffer + (if wb_ptr b < BLOCK_SIZE then 0 else 1))")
    (auto simp: wb_extend_def BLOCK_SIZE_def)

declare wb_write.simps [simp del]

definition wb_push :: "write_block \<Rightarrow> byte list \<Rightarrow> write_block res" where
  "wb_push b buffer = wb_write (if wb_ptr b = BLOCK_SIZE then wb_extend b else b) buffer"

section \<open>Packing\<close>

definition wb_nil :: "write_block \<Rightarrow> write_block res" where
  "wb_nil wb = wb_push wb [TYPE_NIL]"

definition wb_boolean :: "write_block \<Rightarrow> bool \<Rightarrow> write_block res" where
  "wb_boolean wb boolean = wb_push wb [COMBINE_TYPE TYPE_BOOLEAN (if boolean then 1 else 0)]"

definition wb_integer :: "write_block \<Rightarrow> u64 \<Rightarrow> write_block res" where
  "wb_integer wb v =
     (if v = 0 then wb_push wb [COMBINE_TYPE TYPE_NUMBER TYPE_NUMBER_ZERO]
      else if v \<noteq> scast (ucast v :: u32) then
        bindR (wb_push wb [COMBINE_TYPE TYPE_NUMBER TYPE_NUMBER_QWORD]) (\<lambda>wb. wb_push wb (host_bytes 8 v))
      else if sint v < 0 then
        bindR (wb_push wb [COMBINE_TYPE TYPE_NUMBER TYPE_NUMBER_DWORD]) (\<lambda>wb.
        wb_push wb (host_bytes 4 (ucast v :: u32)))
      else if sint v < 0x100 then
        bindR (wb_push wb [COMBINE_TYPE TYPE_NUMBER TYPE_NUMBER_BYTE]) (\<lambda>wb.
        wb_push wb (host_bytes 1 (ucast v :: byte)))
      else if sint v < 0x10000 then
        bindR (wb_push wb [COMBINE_TYPE TYPE_NUMBER TYPE_NUMBER_WORD]) (\<lambda>wb.
        wb_push wb (host_bytes 2 (ucast v :: u16)))
      else
        bindR (wb_push wb [COMBINE_TYPE TYPE_NUMBER TYPE_NUMBER_DWORD]) (\<lambda>wb.
        wb_push wb (host_bytes 4 (ucast v :: u32))))"

definition wb_real :: "write_block \<Rightarrow> u64 \<Rightarrow> write_block res" where
  "wb_real wb v =
     bindR (wb_push wb [COMBINE_TYPE TYPE_NUMBER TYPE_NUMBER_REAL]) (\<lambda>wb. wb_push wb (host_bytes 8 v))"

definition wb_pointer :: "write_block \<Rightarrow> u64 \<Rightarrow> write_block res" where
  "wb_pointer wb v = bindR (wb_push wb [TYPE_USERDATA]) (\<lambda>wb. wb_push wb (host_bytes 8 v))"

definition wb_string :: "write_block \<Rightarrow> byte list \<Rightarrow> int \<Rightarrow> write_block res" where
  "wb_string wb str len =
     (if len < int MAX_COOKIE then
        bindR (wb_push wb [COMBINE_TYPE TYPE_SHORT_STRING (word_of_int len)]) (\<lambda>wb.
        if len > 0 then wb_push wb (take (nat len) str) else Inr wb)
      else
        bindR (if len < 0x10000 then
                 bindR (wb_push wb [COMBINE_TYPE TYPE_LONG_STRING 2]) (\<lambda>wb.
                 wb_push wb (host_bytes 2 (word_of_int len :: u16)))
               else
                 bindR (wb_push wb [COMBINE_TYPE TYPE_LONG_STRING 4]) (\<lambda>wb.
                 wb_push wb (host_bytes 4 (word_of_int len :: u32)))) (\<lambda>wb.
        wb_push wb (take (nat len) str)))"

text \<open>The functions for tables call \<^verbatim>\<open>pack_one\<close> for the keys and values, always with the depth of the table: \<open>pack\<close> is
  \<^verbatim>\<open>pack_one\<close> at that depth.\<close>

type_synonym packer = "write_block \<Rightarrow> lua_value \<Rightarrow> write_block res"

definition wb_table_array :: "(lua_table \<Rightarrow> nat) \<Rightarrow> packer \<Rightarrow> write_block \<Rightarrow> lua_table \<Rightarrow> (int \<times> write_block) res" where
  "wb_table_array rawlen pack wb t =
     (let array_size = sint (of_nat (rawlen t) :: u32) in
      bindR (if array_size \<ge> int MAX_COOKIE - 1 then
               bindR (wb_push wb [COMBINE_TYPE TYPE_TABLE (of_nat (MAX_COOKIE - 1))]) (\<lambda>wb.
               wb_integer wb (word_of_int array_size))
             else wb_push wb [COMBINE_TYPE TYPE_TABLE (word_of_int array_size)]) (\<lambda>wb.
      bindR (forR (nat array_size) (\<lambda>i wb. pack wb (lua_rawgeti t (i + 1))) wb) (\<lambda>wb.
      Inr (array_size, wb))))"

definition in_array :: "int \<Rightarrow> lua_value \<Rightarrow> bool" where
  "in_array array_size k = (case k of LuaInteger x \<Rightarrow> sint x > 0 \<and> sint x \<le> array_size | _ \<Rightarrow> False)"

fun wb_table_hash :: "packer \<Rightarrow> write_block \<Rightarrow> lua_table \<Rightarrow> int \<Rightarrow> write_block res" where
  "wb_table_hash pack wb [] array_size = wb_nil wb"
| "wb_table_hash pack wb ((k, v) # t) array_size =
     (if in_array array_size k then wb_table_hash pack wb t array_size
      else bindR (pack wb k) (\<lambda>wb. bindR (pack wb v) (\<lambda>wb. wb_table_hash pack wb t array_size)))"

fun metapairs_loop :: "packer \<Rightarrow> write_block \<Rightarrow> lua_table \<Rightarrow> write_block res" where
  "metapairs_loop pack wb [] = wb_nil wb"
| "metapairs_loop pack wb ((k, v) # ps) =
     (if k = LuaNil then wb_nil wb
      else bindR (pack wb k) (\<lambda>wb. bindR (pack wb v) (\<lambda>wb. metapairs_loop pack wb ps)))"

definition wb_table_metapairs :: "packer \<Rightarrow> write_block \<Rightarrow> lua_table \<Rightarrow> write_block res" where
  "wb_table_metapairs pack wb ps =
     bindR (wb_push wb [COMBINE_TYPE TYPE_TABLE 0]) (\<lambda>wb. metapairs_loop pack wb ps)"

definition wb_table :: "(lua_table \<Rightarrow> nat) \<Rightarrow> packer \<Rightarrow> write_block \<Rightarrow> lua_table \<Rightarrow> write_block res" where
  "wb_table rawlen pack wb t =
     bindR (wb_table_array rawlen pack wb t) (\<lambda>(array_size, wb). wb_table_hash pack wb t array_size)"

function pack_one :: "(lua_table \<Rightarrow> nat) \<Rightarrow> nat \<Rightarrow> write_block \<Rightarrow> lua_value \<Rightarrow> write_block res" where
  "pack_one rawlen depth wb v =
     (if depth > MAX_DEPTH then Inl (Lua_error ''serialize can't pack too depth table'')
      else case v of
        LuaNil \<Rightarrow> wb_nil wb
      | LuaInteger x \<Rightarrow> wb_integer wb x
      | LuaNumber n \<Rightarrow> wb_real wb n
      | LuaBoolean b \<Rightarrow> wb_boolean wb b
      | LuaString str \<Rightarrow> wb_string wb str (sint (of_nat (length str) :: u32))
      | LuaPointer p \<Rightarrow> wb_pointer wb p
      | Table t \<Rightarrow> wb_table rawlen (pack_one rawlen (depth + 1)) wb t
      | Proxy ps \<Rightarrow> wb_table_metapairs (pack_one rawlen (depth + 1)) wb ps
      | Other type \<Rightarrow> Inl (Lua_error ''Unsupport type %s to serialize''))"
  by pat_completeness auto
termination
  by (relation "measure (\<lambda>(rawlen, depth, wb, v). Suc MAX_DEPTH - depth)") auto

declare pack_one.simps [simp del]

fun pack_from :: "(lua_table \<Rightarrow> nat) \<Rightarrow> write_block \<Rightarrow> lua_value list \<Rightarrow> write_block res" where
  "pack_from rawlen b [] = Inr b"
| "pack_from rawlen b (v # vs) = bindR (pack_one rawlen 0 b v) (\<lambda>b. pack_from rawlen b vs)"

text \<open>The blocks are copied into one buffer.\<close>

function seri_copy :: "byte option list list \<Rightarrow> nat \<Rightarrow> byte option list \<Rightarrow> nat \<Rightarrow> nat \<Rightarrow> byte option list res" where
  "seri_copy blocks b buffer ptr len =
     (if len > 0 then
        bindR (rd blocks b) (\<lambda>blk.
        if len \<ge> BLOCK_SIZE then
          bindR (memcpyR buffer ptr (take BLOCK_SIZE blk)) (\<lambda>buffer.
          seri_copy blocks (b + 1) buffer (ptr + BLOCK_SIZE) (len - BLOCK_SIZE))
        else memcpyR buffer ptr (take len blk))
      else Inr buffer)"
  by pat_completeness auto
termination
  by (relation "measure (\<lambda>(blocks, b, buffer, ptr, len). len)") (auto simp: BLOCK_SIZE_def)

declare seri_copy.simps [simp del]

definition seri :: "byte option list list \<Rightarrow> nat \<Rightarrow> (byte option list \<times> nat) res" where
  "seri blocks len = bindR (seri_copy blocks 0 (replicate len None) 0 len) (\<lambda>buffer. Inr (buffer, len))"

definition luaseri_pack :: "(lua_table \<Rightarrow> nat) \<Rightarrow> lua_value list \<Rightarrow> (byte option list \<times> nat) res" where
  "luaseri_pack rawlen vs =
     bindR (pack_from rawlen wb_init vs) (\<lambda>wb. seri (wb_blocks wb) (wb_len wb))"

section \<open>Unpacking\<close>

record read_block =
  rb_buffer :: "byte option list"
  rb_len :: int
  rb_ptr :: nat

definition rball_init :: "byte option list \<Rightarrow> int \<Rightarrow> read_block" where
  "rball_init buffer sz = \<lparr>rb_buffer = buffer, rb_len = sz, rb_ptr = 0\<rparr>"

text \<open>\<^verbatim>\<open>rb_read\<close> returns a position in the buffer, \<open>None\<close> for \<^verbatim>\<open>NULL\<close>; a negative size passes the test, see \<open>get_buffer\<close>.\<close>

definition rb_read :: "read_block \<Rightarrow> nat \<Rightarrow> nat option \<times> read_block" where
  "rb_read rb sz =
     (if rb_len rb < int sz then (None, rb)
      else (Some (rb_ptr rb), rb\<lparr>rb_ptr := rb_ptr rb + sz, rb_len := rb_len rb - int sz\<rparr>))"

definition invalid_stream :: fault where
  "invalid_stream = Lua_error ''Invalid serialize stream %d (line:%d)''"

text \<open>The pattern of all the readers: \<^verbatim>\<open>rb_read\<close>, an error if it gives \<^verbatim>\<open>NULL\<close>, and \<^verbatim>\<open>memcpy\<close> from there.\<close>

definition rb_fetch :: "read_block \<Rightarrow> nat \<Rightarrow> (byte list \<times> read_block) res" where
  "rb_fetch rb sz =
     (case rb_read rb sz of
        (None, _) \<Rightarrow> Inl invalid_stream
      | (Some p, rb') \<Rightarrow> bindR (read_bytes (drop p (rb_buffer rb)) sz) (\<lambda>bs. Inr (bs, rb')))"

definition get_integer :: "read_block \<Rightarrow> byte \<Rightarrow> (u64 \<times> read_block) res" where
  "get_integer rb cookie =
     (if cookie = TYPE_NUMBER_ZERO then Inr (0, rb)
      else if cookie = TYPE_NUMBER_BYTE then
        bindR (rb_fetch rb 1) (\<lambda>(bs, rb). Inr (ucast (host_word bs :: byte), rb))
      else if cookie = TYPE_NUMBER_WORD then
        bindR (rb_fetch rb 2) (\<lambda>(bs, rb). Inr (ucast (host_word bs :: u16), rb))
      else if cookie = TYPE_NUMBER_DWORD then
        bindR (rb_fetch rb 4) (\<lambda>(bs, rb). Inr (scast (host_word bs :: u32), rb))
      else if cookie = TYPE_NUMBER_QWORD then
        bindR (rb_fetch rb 8) (\<lambda>(bs, rb). Inr (host_word bs, rb))
      else Inl invalid_stream)"

definition get_real :: "read_block \<Rightarrow> (u64 \<times> read_block) res" where
  "get_real rb = bindR (rb_fetch rb 8) (\<lambda>(bs, rb). Inr (host_word bs, rb))"

definition get_pointer :: "read_block \<Rightarrow> (u64 \<times> read_block) res" where
  "get_pointer rb = bindR (rb_fetch rb 8) (\<lambda>(bs, rb). Inr (host_word bs, rb))"

text \<open>A negative length passes \<^verbatim>\<open>rb_read\<close>; as a \<^verbatim>\<open>size_t\<close> it is too large for \<^verbatim>\<open>lua_pushlstring\<close>, which raises an error.\<close>

definition get_buffer :: "read_block \<Rightarrow> int \<Rightarrow> (byte list \<times> read_block) res" where
  "get_buffer rb len =
     (if len < 0 then
        if rb_len rb < len then Inl invalid_stream
        else Inl (Lua_error ''memory allocation error: block too big'')
      else rb_fetch rb (nat len))"

text \<open>\<open>unpack\<close> is \<^verbatim>\<open>unpack_one\<close>. The loop over the hash part reads at least one byte per round, so that one more round
  than there are bytes is enough fuel.\<close>

type_synonym unpacker = "read_block \<Rightarrow> (lua_value \<times> read_block) res"

fun unpack_hash :: "unpacker \<Rightarrow> nat \<Rightarrow> lua_table \<Rightarrow> read_block \<Rightarrow> (lua_table \<times> read_block) res" where
  "unpack_hash unpack 0 t rb = Inl Endless_loop"
| "unpack_hash unpack (Suc n) t rb =
     bindR (unpack rb) (\<lambda>(k, rb).
     if k = LuaNil then Inr (t, rb)
     else bindR (unpack rb) (\<lambda>(v, rb). bindR (lua_rawset t k v) (\<lambda>t. unpack_hash unpack n t rb)))"

definition table_size :: "read_block \<Rightarrow> byte \<Rightarrow> (int \<times> read_block) res" where
  "table_size rb cookie =
     (if unat cookie = MAX_COOKIE - 1 then
        bindR (rb_fetch rb 1) (\<lambda>(bs, rb).
        let type = hd bs; cookie = drop_bit 3 type in
        if type AND 7 \<noteq> TYPE_NUMBER \<or> cookie = TYPE_NUMBER_REAL then Inl invalid_stream
        else bindR (get_integer rb cookie) (\<lambda>(v, rb). Inr (sint (ucast v :: u32), rb)))
      else Inr (int (unat cookie), rb))"

definition unpack_table :: "unpacker \<Rightarrow> read_block \<Rightarrow> byte \<Rightarrow> (lua_value \<times> read_block) res" where
  "unpack_table unpack rb cookie =
     bindR (table_size rb cookie) (\<lambda>(array_size, rb).
     bindR (forR (nat array_size) (\<lambda>i (t, rb).
              bindR (unpack rb) (\<lambda>(v, rb). Inr (lua_rawseti t (i + 1) v, rb))) ([], rb)) (\<lambda>(t, rb).
     bindR (unpack_hash unpack (Suc (nat (rb_len rb))) t rb) (\<lambda>(t, rb).
     Inr (Table t, rb))))"

definition push_value :: "unpacker \<Rightarrow> read_block \<Rightarrow> byte \<Rightarrow> byte \<Rightarrow> (lua_value \<times> read_block) res" where
  "push_value unpack rb type cookie =
     (if type = TYPE_NIL then Inr (LuaNil, rb)
      else if type = TYPE_BOOLEAN then Inr (LuaBoolean (cookie \<noteq> 0), rb)
      else if type = TYPE_NUMBER then
        if cookie = TYPE_NUMBER_REAL then bindR (get_real rb) (\<lambda>(n, rb). Inr (LuaNumber n, rb))
        else bindR (get_integer rb cookie) (\<lambda>(x, rb). Inr (LuaInteger x, rb))
      else if type = TYPE_USERDATA then bindR (get_pointer rb) (\<lambda>(p, rb). Inr (LuaPointer p, rb))
      else if type = TYPE_SHORT_STRING then
        bindR (get_buffer rb (int (unat cookie))) (\<lambda>(s, rb). Inr (LuaString s, rb))
      else if type = TYPE_LONG_STRING then
        bindR (if cookie = 2 then
                 bindR (rb_fetch rb 2) (\<lambda>(bs, rb). get_buffer rb (int (unat (host_word bs :: u16))))
               else if cookie \<noteq> 4 then Inl invalid_stream
               else bindR (rb_fetch rb 4) (\<lambda>(bs, rb). get_buffer rb (sint (host_word bs :: u32))))
          (\<lambda>(s, rb). Inr (LuaString s, rb))
      else if type = TYPE_TABLE then unpack_table unpack rb cookie
      else Inl invalid_stream)"

text \<open>The fuel of \<open>unpack_one\<close> bounds the nesting of tables; each level reads a byte.\<close>

fun unpack_one :: "nat \<Rightarrow> read_block \<Rightarrow> (lua_value \<times> read_block) res" where
  "unpack_one 0 rb = Inl Endless_loop"
| "unpack_one (Suc n) rb =
     bindR (rb_fetch rb 1) (\<lambda>(bs, rb). push_value (unpack_one n) rb (hd bs AND 7) (drop_bit 3 (hd bs)))"

fun unpack_loop :: "nat \<Rightarrow> nat \<Rightarrow> read_block \<Rightarrow> lua_value list res" where
  "unpack_loop fuel 0 rb = Inl Endless_loop"
| "unpack_loop fuel (Suc n) rb =
     (case rb_read rb 1 of
        (None, _) \<Rightarrow> Inr []
      | (Some p, rb) \<Rightarrow>
          bindR (bindR (rd (rb_buffer rb) p) initialised) (\<lambda>type.
          bindR (push_value (unpack_one fuel) rb (type AND 7) (drop_bit 3 type)) (\<lambda>(v, rb).
          bindR (unpack_loop fuel n rb) (\<lambda>vs. Inr (v # vs)))))"

datatype unpack_arg =
    ArgNil
  | ArgString "byte list"
  | ArgUserdata "byte option list option" u64

definition unpack_buffer :: "byte option list option \<Rightarrow> int \<Rightarrow> lua_value list res" where
  "unpack_buffer buffer len =
     (if len = 0 then Inr []
      else case buffer of
        None \<Rightarrow> Inl (Lua_error ''deserialize null pointer'')
      | Some buf \<Rightarrow> unpack_loop (Suc (nat len)) (Suc (nat len)) (rball_init buf len))"

definition luaseri_unpack :: "unpack_arg \<Rightarrow> lua_value list res" where
  "luaseri_unpack arg =
     (case arg of
        ArgNil \<Rightarrow> Inr []
      | ArgString s \<Rightarrow> unpack_buffer (Some (map Some s)) (sint (of_nat (length s) :: u32))
      | ArgUserdata buffer n \<Rightarrow> unpack_buffer buffer (sint (ucast n :: u32)))"

section \<open>What the blocks hold\<close>

text \<open>\<open>wb_holds wb bs\<close>: the blocks hold the bytes \<open>bs\<close>; all of them but the last one are full.\<close>

definition wb_holds :: "write_block \<Rightarrow> byte list \<Rightarrow> bool" where
  "wb_holds wb bs \<longleftrightarrow>
     length (wb_blocks wb) = Suc (wb_current wb) \<and> (\<forall>b \<in> set (wb_blocks wb). length b = BLOCK_SIZE) \<and>
     wb_ptr wb \<le> BLOCK_SIZE \<and> wb_len wb = BLOCK_SIZE * wb_current wb + wb_ptr wb \<and>
     wb_len wb = length bs \<and> length bs < 2 ^ 31 \<and> take (length bs) (concat (wb_blocks wb)) = map Some bs"

lemma length_concat_blocks:
  "\<forall>b \<in> set bs. length b = n \<Longrightarrow> length (concat bs) = n * length bs"
  by (induction bs) auto

lemma wb_holds_init: "wb_holds wb_init []"
  by (simp add: wb_holds_def wb_init_def blk_alloc_def)

lemma wb_holds_extend:
  assumes "wb_holds wb bs" and "wb_ptr wb = BLOCK_SIZE"
  shows "wb_holds (wb_extend wb) bs"
proof -
  have "length (concat (wb_blocks wb)) = length bs"
    using assms length_concat_blocks [of "wb_blocks wb" BLOCK_SIZE] by (simp add: wb_holds_def)
  then show ?thesis using assms by (auto simp: wb_holds_def wb_extend_def blk_alloc_def)
qed

lemma wb_copy_holds:
  assumes wb: "wb_holds wb bs" and room: "wb_ptr wb + length xs \<le> BLOCK_SIZE"
    and small: "length bs + length xs < 2 ^ 31"
  shows "\<exists>wb'. wb_copy wb xs = Inr wb' \<and> wb_ptr wb' = wb_ptr wb \<and>
     wb_holds (wb'\<lparr>wb_ptr := wb_ptr wb + length xs\<rparr>) (bs @ xs)"
proof -
  obtain pre blk where blocks: "wb_blocks wb = pre @ [blk]" and pre: "length pre = wb_current wb"
    using wb by (cases "wb_blocks wb" rule: rev_cases) (auto simp: wb_holds_def)
  have len: "length blk = BLOCK_SIZE" "length (concat pre) = BLOCK_SIZE * wb_current wb"
    using wb blocks pre length_concat_blocks [of pre BLOCK_SIZE] by (auto simp: wb_holds_def)
  let ?blk = "take (wb_ptr wb) blk @ map Some xs @ drop (wb_ptr wb + length xs) blk"
  let ?wb = "wb\<lparr>wb_blocks := pre @ [?blk], wb_len := wb_len wb + length xs\<rparr>"
  have "wb_copy wb xs = Inr ?wb"
    using wb blocks pre len room small by (simp add: wb_copy_def wb_holds_def nth_append list_update_append)
  moreover have "concat pre @ take (wb_ptr wb) blk = map Some bs"
    using wb blocks len by (auto simp: wb_holds_def)
  then have "wb_holds (?wb\<lparr>wb_ptr := wb_ptr wb + length xs\<rparr>) (bs @ xs)"
    using wb blocks pre len room small by (auto simp: wb_holds_def)
  ultimately show ?thesis by auto
qed

lemma wb_copy_overflow:
  assumes "wb_holds wb bs" and "wb_ptr wb + length xs \<le> BLOCK_SIZE" and "\<not> length bs + length xs < 2 ^ 31"
  shows "wb_copy wb xs = Inl Int_overflow"
proof -
  have "length (wb_blocks wb ! wb_current wb) = BLOCK_SIZE" "wb_current wb < length (wb_blocks wb)"
    using assms(1) by (auto simp: wb_holds_def)
  then show ?thesis using assms by (simp add: wb_copy_def wb_holds_def)
qed

text \<open>\<open>writes f bs\<close>: the function \<open>f\<close> appends the bytes \<open>bs\<close>, unless there are 2 GiB or more of them.\<close>

definition writes :: "(write_block \<Rightarrow> write_block res) \<Rightarrow> byte list \<Rightarrow> bool" where
  "writes f bs \<longleftrightarrow> (\<forall>wb cs. wb_holds wb cs \<longrightarrow>
     (if length cs + length bs < 2 ^ 31 then \<exists>wb'. f wb = Inr wb' \<and> wb_holds wb' (cs @ bs)
      else f wb = Inl Int_overflow))"

lemma writesD:
  assumes "writes f bs" and "wb_holds wb cs"
  shows "if length cs + length bs < 2 ^ 31 then \<exists>wb'. f wb = Inr wb' \<and> wb_holds wb' (cs @ bs)
    else f wb = Inl Int_overflow"
  using assms unfolding writes_def by blast

lemma wb_write_writes:
  "wb_holds wb cs \<Longrightarrow>
   (if length cs + length bs < 2 ^ 31 then \<exists>wb'. wb_write wb bs = Inr wb' \<and> wb_holds wb' (cs @ bs)
    else wb_write wb bs = Inl Int_overflow)"
proof (induction wb bs arbitrary: cs rule: wb_write.induct)
  case (1 wb bs)
  note [simp] = wb_write.simps [of wb bs]
  show ?case
  proof (cases "wb_ptr wb + length bs \<le> BLOCK_SIZE")
    case True
    then show ?thesis
      using wb_copy_holds [OF "1.prems", of bs] wb_copy_overflow [OF "1.prems", of bs] by fastforce
  next
    case False
    let ?n = "BLOCK_SIZE - wb_ptr wb"
    have n: "wb_ptr wb + ?n = BLOCK_SIZE" "?n < length bs" "length (take ?n bs) = ?n"
      using False "1.prems" by (auto simp: wb_holds_def)
    show ?thesis
    proof (cases "length cs + ?n < 2 ^ 31")
      case small: True
      obtain wb1 where wb1: "wb_copy wb (take ?n bs) = Inr wb1"
        "wb_holds (wb1\<lparr>wb_ptr := BLOCK_SIZE\<rparr>) (cs @ take ?n bs)"
        using wb_copy_holds [OF "1.prems", of "take ?n bs"] n small by auto
      have "wb_holds (wb_extend wb1) (cs @ take ?n bs)"
        using wb_holds_extend [OF wb1(2)] by (simp add: wb_extend_def)
      from "1.IH" [OF False refl wb1(1) this] show ?thesis using False wb1 n by (auto split: if_splits)
    next
      case False2: False
      have "wb_copy wb (take ?n bs) = Inl Int_overflow"
        using wb_copy_overflow [OF "1.prems", of "take ?n bs"] n False2 by simp
      moreover have "\<not> length cs + length bs < 2 ^ 31" using False2 n(2) by linarith
      ultimately show ?thesis using False by simp
    qed
  qed
qed

lemma writes_push [intro]: "writes (\<lambda>wb. wb_push wb bs) bs"
  unfolding writes_def wb_push_def
  using wb_write_writes [OF wb_holds_extend, of _ _ bs] wb_write_writes [of _ _ bs] by simp

lemma writes_seq [intro]:
  assumes "writes f bs" and "writes g cs"
  shows "writes (\<lambda>wb. bindR (f wb) g) (bs @ cs)"
  unfolding writes_def
proof (intro allI impI)
  fix wb ds assume wb: "wb_holds wb ds"
  show "if length ds + length (bs @ cs) < 2 ^ 31
      then \<exists>wb'. bindR (f wb) g = Inr wb' \<and> wb_holds wb' (ds @ bs @ cs)
      else bindR (f wb) g = Inl Int_overflow"
  proof (cases "length ds + length bs < 2 ^ 31")
    case True
    then obtain wb1 where wb1: "f wb = Inr wb1" "wb_holds wb1 (ds @ bs)"
      using writesD [OF assms(1) wb] by auto
    then show ?thesis using writesD [OF assms(2) wb1(2)] by (auto split: if_splits)
  next
    case False
    then have "f wb = Inl Int_overflow" using writesD [OF assms(1) wb] by simp
    then show ?thesis using False by simp
  qed
qed

lemma writes_skip: "writes Inr []"
  by (auto simp: writes_def wb_holds_def)

text \<open>The buffer of \<^verbatim>\<open>seri\<close> gets what the blocks hold.\<close>

lemma seri_copy_holds:
  "\<forall>b \<in> set blocks. length b = BLOCK_SIZE \<Longrightarrow> ptr = BLOCK_SIZE * b \<Longrightarrow> length buffer = ptr + len \<Longrightarrow> len \<le> length (concat (drop b blocks)) \<Longrightarrow>
    seri_copy blocks b buffer ptr len = Inr (take ptr buffer @ take len (concat (drop b blocks)))"
proof (induction blocks b buffer ptr len rule: seri_copy.induct)
  case (1 blocks b buffer ptr len)
  note [simp] = seri_copy.simps [of blocks b buffer "BLOCK_SIZE * b" len]
  show ?case
  proof (cases "len = 0")
    case False
    then have b: "b < length blocks" using "1.prems"(4) by (cases "b < length blocks") auto
    then have blk: "drop b blocks = blocks ! b # drop (b + 1) blocks" "length (blocks ! b) = BLOCK_SIZE"
      using "1.prems"(1) by (auto simp: Cons_nth_drop_Suc)
    show ?thesis
    proof (cases "len \<ge> BLOCK_SIZE")
      case True
      then show ?thesis using "1.IH" [of "blocks ! b" "take ptr buffer @ blocks ! b @ drop (ptr + BLOCK_SIZE) buffer"]
        False b blk "1.prems" by (simp add: algebra_simps take_add)
    next
      case small: False
      then show ?thesis using False b blk "1.prems" by simp
    qed
  qed (use "1.prems" in \<open>simp add: seri_copy.simps\<close>)
qed

lemma seri_holds:
  assumes "wb_holds wb bs"
  shows "seri (wb_blocks wb) (wb_len wb) = Inr (map Some bs, length bs)"
proof -
  have "length (concat (wb_blocks wb)) \<ge> length bs"
    using assms length_concat_blocks [of "wb_blocks wb" BLOCK_SIZE] by (auto simp: wb_holds_def)
  moreover have "wb_len wb = length bs" using assms by (simp add: wb_holds_def)
  ultimately show ?thesis
    using assms seri_copy_holds [of "wb_blocks wb" 0 0 "replicate (length bs) None" "length bs"]
    by (auto simp: seri_def wb_holds_def)
qed

end
