(* ===== verification/Seri_Laws.thy ===== *)
theory Seri_Laws
  imports Seri
begin

text \<open>
  The round trip of \<^verbatim>\<open>luaseri_pack\<close> and \<^verbatim>\<open>luaseri_unpack\<close>, and what unpacking does with arbitrary bytes.
  \<open>reads u bs v\<close> says that the reader \<open>u\<close> turns the bytes \<open>bs\<close> into \<open>v\<close>, whatever follows them; it is the counterpart of
  \<open>writes\<close>.
\<close>

section \<open>Readers\<close>

definition rb_holds :: "read_block \<Rightarrow> byte list \<Rightarrow> bool" where
  "rb_holds rb bs \<longleftrightarrow>
     rb_len rb = int (length bs) \<and> (\<exists>zs. drop (rb_ptr rb) (rb_buffer rb) = map Some bs @ zs)"

definition reads :: "(read_block \<Rightarrow> ('a \<times> read_block) res) \<Rightarrow> byte list \<Rightarrow> 'a \<Rightarrow> bool" where
  "reads u bs v \<longleftrightarrow> (\<forall>rb rest. rb_holds rb (bs @ rest) \<longrightarrow> (\<exists>rb'. u rb = Inr (v, rb') \<and> rb_holds rb' rest))"

lemma readsD:
  assumes "reads u bs v" and "rb_holds rb (bs @ rest)"
  obtains rb' where "u rb = Inr (v, rb')" and "rb_holds rb' rest"
  using assms unfolding reads_def by blast

lemma reads_fetch:
  assumes "length bs = n"
  shows "reads (\<lambda>rb. rb_fetch rb n) bs bs"
  unfolding reads_def
proof (intro allI impI)
  fix rb rest assume rb: "rb_holds rb (bs @ rest)"
  then obtain zs where zs: "drop (rb_ptr rb) (rb_buffer rb) = map Some bs @ map Some rest @ zs"
    by (auto simp: rb_holds_def)
  have "drop (rb_ptr rb + n) (rb_buffer rb) = map Some rest @ zs"
    using arg_cong [OF zs, of "drop n"] assms by (simp add: add.commute)
  then show "\<exists>rb'. rb_fetch rb n = Inr (bs, rb') \<and> rb_holds rb' rest"
    using rb zs assms by (simp add: rb_fetch_def rb_read_def rb_holds_def)
qed

lemma fetch_short: "rb_holds rb bs \<Longrightarrow> length bs < n \<Longrightarrow> rb_fetch rb n = Inl invalid_stream"
  by (simp add: rb_fetch_def rb_read_def rb_holds_def)

lemma reads_return: "reads (\<lambda>rb. Inr (v, rb)) [] v"
  by (simp add: reads_def)

lemma reads_seq:
  assumes "reads u bs v" and "reads (f v) cs w"
  shows "reads (\<lambda>rb. bindR (u rb) (\<lambda>(v, rb). f v rb)) (bs @ cs) w"
  unfolding reads_def
proof (intro allI impI)
  fix rb rest assume "rb_holds rb ((bs @ cs) @ rest)"
  then obtain rb1 where rb1: "u rb = Inr (v, rb1)" "rb_holds rb1 (cs @ rest)"
    using readsD [OF assms(1), of rb "cs @ rest"] by auto
  then show "\<exists>rb'. bindR (u rb) (\<lambda>(v, rb). f v rb) = Inr (w, rb') \<and> rb_holds rb' rest"
    using readsD [OF assms(2) rb1(2)] by auto
qed

lemma reads_map:
  assumes "reads u bs v"
  shows "reads (\<lambda>rb. bindR (u rb) (\<lambda>(v, rb). Inr (g v, rb))) bs (g v)"
  using reads_seq [OF assms reads_return, of g] by simp

lemma reads_word:
  fixes w :: "'a::len word"
  assumes "LENGTH('a) \<le> 8 * n"
  shows "reads (\<lambda>rb. bindR (rb_fetch rb n) (\<lambda>(bs, rb). Inr (g (host_word bs :: 'a word), rb))) (host_bytes n w) (g w)"
  using reads_map [OF reads_fetch, of "host_bytes n w" n "\<lambda>bs. g (host_word bs)"] assms by simp

section \<open>Integers and strings\<close>

lemma combine_type:
  assumes "unat t < 8" and "unat v < 32"
  shows "COMBINE_TYPE t v AND 7 = t" and "drop_bit 3 (COMBINE_TYPE t v) = v"
proof -
  have t: "i < 3" if "bit t i" for i
  proof -
    have "take_bit 3 t = t" using assms(1) by (simp add: word_unat_eq_iff unsigned_take_bit_eq take_bit_nat_eq_self)
    then show ?thesis using that bit_take_bit_iff [of 3 t i] by metis
  qed
  have v: "i < 5" if "bit v i" for i
  proof -
    have "take_bit 5 v = v" using assms(2) by (simp add: word_unat_eq_iff unsigned_take_bit_eq take_bit_nat_eq_self)
    then show ?thesis using that bit_take_bit_iff [of 5 v i] by metis
  qed
  have seven: "(7 :: byte) = mask 3" by (simp add: mask_eq_exp_minus_1)
  show "COMBINE_TYPE t v AND 7 = t" unfolding seven
    by (rule bit_word_eqI) (auto simp: COMBINE_TYPE_def bit_simps simp del: mask_numeral dest: t)
  show "drop_bit 3 (COMBINE_TYPE t v) = v"
    by (rule bit_word_eqI) (auto simp: COMBINE_TYPE_def bit_simps dest: t v)
qed

lemma sint_u64_small:
  fixes v :: u64
  assumes "0 \<le> sint v" and "sint v < int n"
  obtains m where "v = of_nat m" and "m < n"
proof
  show "v = of_nat (nat (sint v))" using assms(1) by (simp add: of_nat_nat)
  show "nat (sint v) < n" using assms by simp
qed

lemma ucast_small:
  fixes v :: u64
  assumes "0 \<le> sint v" and "sint v < 2 ^ LENGTH('b)" and "LENGTH('b::len) \<le> 64"
  shows "ucast (ucast v :: 'b word) = v"
proof -
  obtain m where m: "v = of_nat m" "m < 2 ^ LENGTH('b)"
    using sint_u64_small [OF assms(1), of "2 ^ LENGTH('b)"] assms(2) by auto
  then have "m < 2 ^ 64" using assms(3) power_increasing [of "LENGTH('b)" 64 "2::nat"] by simp
  with m show ?thesis
    by (simp add: word_unat_eq_iff unsigned_ucast_eq unsigned_of_nat unsigned_take_bit_eq take_bit_nat_eq_self)
qed

lemmas type_defs = TYPE_NIL_def TYPE_BOOLEAN_def TYPE_NUMBER_def TYPE_NUMBER_ZERO_def TYPE_NUMBER_BYTE_def
  TYPE_NUMBER_WORD_def TYPE_NUMBER_DWORD_def TYPE_NUMBER_QWORD_def TYPE_NUMBER_REAL_def TYPE_USERDATA_def
  TYPE_SHORT_STRING_def TYPE_LONG_STRING_def TYPE_TABLE_def

lemma writes_Cons:
  assumes "writes g bs"
  shows "writes (\<lambda>wb. bindR (wb_push wb [b]) g) (b # bs)"
  using writes_seq [OF writes_push [of "[b]"] assms] by simp

lemma writes_two [simp]: "writes (\<lambda>wb. bindR (wb_push wb [b]) (\<lambda>wb. wb_push wb bs)) (b # bs)"
  by (rule writes_Cons) (rule writes_push)

lemma integer_coded:
  obtains cookie bs where "writes (\<lambda>wb. wb_integer wb v) (COMBINE_TYPE TYPE_NUMBER cookie # bs)"
    and "unat cookie < 32" and "cookie \<noteq> TYPE_NUMBER_REAL" and "reads (\<lambda>rb. get_integer rb cookie) bs v"
proof -
  consider "v = 0" | "v \<noteq> 0" "v \<noteq> scast (ucast v :: u32)"
    | "v \<noteq> 0" "v = scast (ucast v :: u32)" "sint v < 0 \<or> 0x10000 \<le> sint v"
    | "v \<noteq> 0" "v = scast (ucast v :: u32)" "0 \<le> sint v" "sint v < 0x100"
    | "v \<noteq> 0" "v = scast (ucast v :: u32)" "0x100 \<le> sint v" "sint v < 0x10000"
    by linarith
  then show thesis
  proof cases
    case 1
    then show thesis
      by (intro that [of TYPE_NUMBER_ZERO "[]"])
        (auto simp: wb_integer_def get_integer_def type_defs reads_return intro: writes_push)
  next
    case 2
    then show thesis
      by (intro that [of TYPE_NUMBER_QWORD "host_bytes 8 v"])
        (auto simp: wb_integer_def get_integer_def type_defs reads_word [where g = "\<lambda>w. w"] intro: writes_push)
  next
    case 3
    have "reads (\<lambda>rb. get_integer rb TYPE_NUMBER_DWORD) (host_bytes 4 (ucast v :: u32)) (scast (ucast v :: u32))"
      using reads_word [of 4 "scast" "ucast v :: u32"] by (simp add: get_integer_def type_defs)
    then have "reads (\<lambda>rb. get_integer rb TYPE_NUMBER_DWORD) (host_bytes 4 (ucast v :: u32)) v"
      by (simp only: 3(2) [symmetric])
    with 3 show thesis
      by (intro that [of TYPE_NUMBER_DWORD "host_bytes 4 (ucast v :: u32)"])
        (auto simp: wb_integer_def type_defs intro: writes_push)
  next
    case 4
    have "reads (\<lambda>rb. get_integer rb TYPE_NUMBER_BYTE) (host_bytes 1 (ucast v :: byte)) (ucast (ucast v :: byte))"
      using reads_word [of 1 "ucast" "ucast v :: byte"] by (simp add: get_integer_def type_defs)
    moreover have "ucast (ucast v :: byte) = v" using 4(3,4) by (intro ucast_small) simp_all
    ultimately have "reads (\<lambda>rb. get_integer rb TYPE_NUMBER_BYTE) (host_bytes 1 (ucast v :: byte)) v"
      by (simp only:)
    with 4 show thesis
      by (intro that [of TYPE_NUMBER_BYTE "host_bytes 1 (ucast v :: byte)"])
        (auto simp: wb_integer_def type_defs intro: writes_push)
  next
    case 5
    have "reads (\<lambda>rb. get_integer rb TYPE_NUMBER_WORD) (host_bytes 2 (ucast v :: u16)) (ucast (ucast v :: u16))"
      using reads_word [of 2 "ucast" "ucast v :: u16"] by (simp add: get_integer_def type_defs)
    moreover have "ucast (ucast v :: u16) = v" using 5(3,4) by (intro ucast_small) simp_all
    ultimately have "reads (\<lambda>rb. get_integer rb TYPE_NUMBER_WORD) (host_bytes 2 (ucast v :: u16)) v"
      by (simp only:)
    with 5 show thesis
      by (intro that [of TYPE_NUMBER_WORD "host_bytes 2 (ucast v :: u16)"])
        (auto simp: wb_integer_def type_defs intro: writes_push)
  qed
qed

text \<open>The bytes \<open>bs\<close> are unpacked to \<open>v\<close>, with as much fuel as there are bytes.\<close>

definition decodes :: "byte list \<Rightarrow> lua_value \<Rightarrow> bool" where
  "decodes bs v \<longleftrightarrow> bs \<noteq> [] \<and> (\<forall>n \<ge> length bs. reads (unpack_one n) bs v)"

lemma decodes_tag:
  assumes "unat t < 8" and "unat c < 32"
    and "\<And>n. length bs \<le> n \<Longrightarrow> reads (\<lambda>rb. push_value (unpack_one n) rb t c) bs v"
  shows "decodes (COMBINE_TYPE t c # bs) v"
  unfolding decodes_def
proof (intro conjI allI impI)
  fix n assume "length (COMBINE_TYPE t c # bs) \<le> n"
  then obtain m where m: "n = Suc m" "length bs \<le> m" by (cases n) auto
  have eq: "unpack_one n = (\<lambda>rb. bindR (rb_fetch rb 1) (\<lambda>(xs, rb).
      push_value (unpack_one m) rb (hd xs AND 7) (drop_bit 3 (hd xs))))"
    by (auto simp: m)
  show "reads (unpack_one n) (COMBINE_TYPE t c # bs) v"
    unfolding eq
    using reads_seq [where f = "\<lambda>xs rb. push_value (unpack_one m) rb (hd xs AND 7) (drop_bit 3 (hd xs))",
        OF reads_fetch [of "[COMBINE_TYPE t c]" 1], of bs v] assms m(2)
    by (simp add: combine_type)
qed simp

lemma combine_zero: "t = COMBINE_TYPE t 0"
  by (simp add: COMBINE_TYPE_def)

lemma u32_of_u64: "n < 2 ^ 31 \<Longrightarrow> sint (ucast (of_nat n :: u64) :: u32) = int n"
proof -
  assume n: "n < 2 ^ 31"
  have "ucast (of_nat n :: u64) = (of_nat n :: u32)" by (rule bit_word_eqI) (simp add: bit_simps)
  then show ?thesis using n by (simp add: signed_of_nat signed_take_bit_int_eq_self)
qed

lemma int_length_u32: "length s < 2 ^ 31 \<Longrightarrow> sint (of_nat (length s) :: u32) = int (length s)"
  by (simp add: signed_of_nat signed_take_bit_int_eq_self)

lemma reads_buffer: "reads (\<lambda>rb. get_buffer rb (int (length s))) s s"
  using reads_fetch [of s "length s"] by (simp add: get_buffer_def)

lemma string_coded:
  assumes "length s < 2 ^ 31"
  shows "\<exists>bs. writes (\<lambda>wb. wb_string wb s (int (length s))) bs \<and> decodes bs (LuaString s)"
proof -
  let ?n = "int (length s)"
  consider "length s < 32" | "32 \<le> length s" "length s < 0x10000" | "0x10000 \<le> length s" by linarith
  then show ?thesis
  proof cases
    case 1
    let ?c = "word_of_int ?n :: byte"
    have c: "unat ?c = length s" using 1 by (simp add: unsigned_of_nat take_bit_nat_eq_self)
    have "writes (\<lambda>wb. wb_string wb s ?n) (COMBINE_TYPE TYPE_SHORT_STRING ?c # s)"
      using 1 writes_Cons [OF writes_skip] by (cases s) (simp_all add: wb_string_def MAX_COOKIE_def)
    moreover have "decodes (COMBINE_TYPE TYPE_SHORT_STRING ?c # s) (LuaString s)"
      using c 1 reads_map [OF reads_buffer, of s LuaString]
      by (intro decodes_tag) (simp_all add: push_value_def type_defs)
    ultimately show ?thesis by blast
  next
    case 2
    let ?l = "host_bytes 2 (word_of_int ?n :: u16)"
    have "writes (\<lambda>wb. wb_string wb s ?n) (COMBINE_TYPE TYPE_LONG_STRING 2 # ?l @ s)"
      using 2 writes_seq [OF writes_two [of _ ?l] writes_push [of s]]
      by (simp add: wb_string_def MAX_COOKIE_def)
    moreover have "unat (word_of_int ?n :: u16) = length s"
      using 2 by (simp add: unsigned_of_nat take_bit_nat_eq_self)
    then have "reads (\<lambda>rb. bindR (rb_fetch rb 2) (\<lambda>(bs, rb). get_buffer rb (int (unat (host_word bs :: u16))))) (?l @ s) s"
      using reads_seq [OF reads_fetch [of ?l 2], where f = "\<lambda>bs rb. get_buffer rb (int (unat (host_word bs :: u16)))"]
        reads_buffer [of s] by simp
    then have "decodes (COMBINE_TYPE TYPE_LONG_STRING 2 # ?l @ s) (LuaString s)"
      using reads_map [of _ "?l @ s" s LuaString]
      by (intro decodes_tag) (simp_all add: push_value_def type_defs)
    ultimately show ?thesis by blast
  next
    case 3
    let ?l = "host_bytes 4 (word_of_int ?n :: u32)"
    have "writes (\<lambda>wb. wb_string wb s ?n) (COMBINE_TYPE TYPE_LONG_STRING 4 # ?l @ s)"
      using 3 writes_seq [OF writes_two [of _ ?l] writes_push [of s]]
      by (simp add: wb_string_def MAX_COOKIE_def)
    moreover have "sint (word_of_int ?n :: u32) = int (length s)"
      using int_length_u32 [OF assms] by simp
    then have "reads (\<lambda>rb. bindR (rb_fetch rb 4) (\<lambda>(bs, rb). get_buffer rb (sint (host_word bs :: u32)))) (?l @ s) s"
      using reads_seq [OF reads_fetch [of ?l 4], where f = "\<lambda>bs rb. get_buffer rb (sint (host_word bs :: u32))"]
        reads_buffer [of s] by simp
    then have "decodes (COMBINE_TYPE TYPE_LONG_STRING 4 # ?l @ s) (LuaString s)"
      using reads_map [of _ "?l @ s" s LuaString]
      by (intro decodes_tag) (simp_all add: push_value_def type_defs)
    ultimately show ?thesis by blast
  qed
qed

section \<open>Values that can be packed\<close>

text \<open>What Lua guarantees of a table: its keys are different, neither \<^verbatim>\<open>nil\<close> nor NaN, and integers where they can be; no value
  is \<^verbatim>\<open>nil\<close>; \<^verbatim>\<open>lua_rawlen\<close> is a border. Keys that are tables are excluded: a copy of a table is a different key.\<close>

definition key_ok :: "lua_value \<Rightarrow> bool" where
  "key_ok k \<longleftrightarrow> k \<noteq> LuaNil \<and> \<not> is_table k \<and> norm_key k = k \<and> (\<forall>d. k = LuaNumber d \<longrightarrow> \<not> is_nan d)"

definition table_ok :: "lua_table \<Rightarrow> bool" where
  "table_ok t \<longleftrightarrow> distinct (map fst t) \<and> (\<forall>(k, v) \<in> set t. key_ok k \<and> v \<noteq> LuaNil)"

definition is_border :: "lua_table \<Rightarrow> nat \<Rightarrow> bool" where
  "is_border t n \<longleftrightarrow> (n = 0 \<or> lua_rawgeti t n \<noteq> LuaNil) \<and> lua_rawgeti t (n + 1) = LuaNil"

text \<open>\<open>seri_ok rawlen d v\<close>: strings and arrays have less than \<open>2 ^ 31\<close> elements, all types are supported, and \<open>v\<close> is nested less
  than \<open>d\<close> deep.\<close>

fun seri_ok :: "(lua_table \<Rightarrow> nat) \<Rightarrow> nat \<Rightarrow> lua_value \<Rightarrow> bool" where
  "seri_ok rawlen 0 v = False"
| "seri_ok rawlen (Suc d) v =
     (case v of
        LuaString s \<Rightarrow> length s < 2 ^ 31
      | Other _ \<Rightarrow> False
      | Table t \<Rightarrow> rawlen t < 2 ^ 31 \<and> is_border t (rawlen t) \<and> table_ok t \<and>
          (\<forall>(k, x) \<in> set t. seri_ok rawlen d k \<and> seri_ok rawlen d x)
      | Proxy t \<Rightarrow> table_ok t \<and> (\<forall>(k, x) \<in> set t. seri_ok rawlen d k \<and> seri_ok rawlen d x)
      | _ \<Rightarrow> True)"

text \<open>Values that Lua code cannot tell apart, except that tables are different objects, may be traversed in another order
  and have no metatables.\<close>

inductive same :: "lua_value \<Rightarrow> lua_value \<Rightarrow> bool" where
  same_atom: "\<not> is_table v \<Longrightarrow> same v v"
| same_table: "dom (map_of t) = dom (map_of t') \<Longrightarrow>
    (\<And>k v v'. map_of t k = Some v \<Longrightarrow> map_of t' k = Some v' \<Longrightarrow> same v v') \<Longrightarrow> same (Table t) (Table t')"
| same_proxy: "dom (map_of t) = dom (map_of t') \<Longrightarrow>
    (\<And>k v v'. map_of t k = Some v \<Longrightarrow> map_of t' k = Some v' \<Longrightarrow> same v v') \<Longrightarrow> same (Proxy t) (Table t')"

inductive_cases same_NilE: "same v LuaNil"

lemma same_atomD: "same v v' \<Longrightarrow> \<not> is_table v \<Longrightarrow> v' = v"
  by (auto elim: same.cases)

lemma same_Nil [simp]: "same v LuaNil \<longleftrightarrow> v = LuaNil"
  by (auto elim: same_NilE intro: same_atom)

lemma map_of_table_set:
  "\<not> is_table k \<Longrightarrow> map_of (table_set t k v) = (map_of t)(k := if v = LuaNil then None else Some v)"
  by (auto simp: table_set_def update_conv' delete_conv')

lemma rawset_ok: "key_ok k \<Longrightarrow> lua_rawset t k v = Inr (table_set t k v)"
  by (cases k) (auto simp: key_ok_def lua_rawset_def)

lemma decodes_nil: "decodes [TYPE_NIL] LuaNil"
  using decodes_tag [of TYPE_NIL 0 "[]" LuaNil] reads_return [of LuaNil]
  by (simp add: push_value_def type_defs flip: combine_zero)

lemma atom_coded:
  assumes ok: "seri_ok r (Suc d) v" and atom: "\<not> is_table v" and depth: "depth \<le> MAX_DEPTH"
  shows "\<exists>bs. writes (\<lambda>wb. pack_one r depth wb v) bs \<and> decodes bs v"
proof -
  have bool: "decodes [COMBINE_TYPE TYPE_BOOLEAN (if b then 1 else 0)] (LuaBoolean b)" for b
    by (intro decodes_tag) (simp_all add: push_value_def type_defs reads_return)
  have real: "decodes (COMBINE_TYPE TYPE_NUMBER TYPE_NUMBER_REAL # host_bytes 8 n) (LuaNumber n)" for n
    using reads_word [of 8 LuaNumber n]
    by (intro decodes_tag) (simp_all add: push_value_def get_real_def type_defs bindR_assoc case_prod_unfold)
  have ptr: "decodes (COMBINE_TYPE TYPE_USERDATA 0 # host_bytes 8 n) (LuaPointer n)" for n
    using reads_word [of 8 LuaPointer n]
    by (intro decodes_tag) (simp_all add: push_value_def get_pointer_def type_defs bindR_assoc case_prod_unfold)
  have int: "\<exists>bs. writes (\<lambda>wb. wb_integer wb x) bs \<and> decodes bs (LuaInteger x)" for x
  proof (rule integer_coded [of x])
    fix c bs assume "writes (\<lambda>wb. wb_integer wb x) (COMBINE_TYPE TYPE_NUMBER c # bs)"
      and "unat c < 32" and "c \<noteq> TYPE_NUMBER_REAL" and "reads (\<lambda>rb. get_integer rb c) bs x"
    moreover from this have "decodes (COMBINE_TYPE TYPE_NUMBER c # bs) (LuaInteger x)"
      using reads_map [of _ bs x LuaInteger] by (intro decodes_tag) (simp_all add: push_value_def type_defs)
    ultimately show ?thesis by blast
  qed
  have rule: "\<exists>bs. writes f bs \<and> decodes bs v" if "writes f bs" "decodes bs v" for f bs
    using that by blast
  show ?thesis
  proof (cases v)
    case LuaNil
    then show ?thesis using depth rule [OF writes_push, of "[TYPE_NIL]"] decodes_nil by (simp add: pack_one.simps wb_nil_def)
  next
    case (LuaBoolean b)
    then show ?thesis using depth rule [OF writes_push] bool by (simp add: pack_one.simps wb_boolean_def)
  next
    case (LuaInteger x)
    then show ?thesis using depth int by (simp add: pack_one.simps)
  next
    case (LuaNumber n)
    then show ?thesis using depth rule [OF writes_two] real by (simp add: pack_one.simps wb_real_def)
  next
    case (LuaString s)
    then show ?thesis using depth ok string_coded [of s] int_length_u32 [of s] by (simp add: pack_one.simps)
  next
    case (LuaPointer n)
    then show ?thesis using depth rule [OF writes_two] ptr [unfolded combine_zero [symmetric]]
      by (simp add: pack_one.simps wb_pointer_def)
  qed (use ok atom in auto)
qed

section \<open>Tables\<close>

lemma upt_first: "[k..<k + Suc n] = k # [Suc k..<Suc k + n]"
  by (simp add: upt_conv_Cons del: upt_Suc)

lemma writes_forR_from:
  "(\<And>i. k \<le> i \<Longrightarrow> i < k + n \<Longrightarrow> writes (f i) (g i)) \<Longrightarrow> writes (forR_from k n f) (concat (map g [k..<k + n]))"
proof (induction n arbitrary: k)
  case 0
  have "forR_from k 0 f = Inr" by auto
  then show ?case using writes_skip by simp
next
  case (Suc n)
  have "writes (forR_from (Suc k) n f) (concat (map g [Suc k..<Suc k + n]))"
    by (rule Suc.IH) (simp add: Suc.prems)
  then have "writes (\<lambda>wb. bindR (f k wb) (forR_from (Suc k) n f)) (g k @ concat (map g [Suc k..<Suc k + n]))"
    using Suc.prems [of k] by (intro writes_seq) simp_all
  then show ?case unfolding upt_first by simp
qed

lemma writes_forR:
  "(\<And>i. i < n \<Longrightarrow> writes (f i) (g i)) \<Longrightarrow> writes (forR n f) (concat (map g [0..<n]))"
  using writes_forR_from [of 0 n f g] by (simp add: forR_def [abs_def])

definition pairs_bytes :: "(lua_value \<Rightarrow> byte list) \<Rightarrow> lua_table \<Rightarrow> byte list" where
  "pairs_bytes enc t = concat (map (\<lambda>(k, v). enc k @ enc v) t)"

lemma pairs_bytes_simps [simp]:
  "pairs_bytes enc [] = []" "pairs_bytes enc ((k, v) # t) = enc k @ enc v @ pairs_bytes enc t"
  by (simp_all add: pairs_bytes_def)

lemma writes_hash:
  assumes "\<forall>(k, v) \<in> set t. writes (\<lambda>wb. pack wb k) (enc k) \<and> writes (\<lambda>wb. pack wb v) (enc v)"
  shows "writes (\<lambda>wb. wb_table_hash pack wb t n) (pairs_bytes enc (filter (\<lambda>(k, v). \<not> in_array n k) t) @ [TYPE_NIL])"
  using assms
proof (induction t)
  case Nil
  then show ?case using writes_push [of "[TYPE_NIL]"] by (simp add: wb_nil_def)
next
  case (Cons p t)
  obtain k v where p: "p = (k, v)" by fastforce
  let ?r = "pairs_bytes enc (filter (\<lambda>(k, v). \<not> in_array n k) t) @ [TYPE_NIL]"
  have "writes (\<lambda>wb. wb_table_hash pack wb t n) ?r" using Cons by simp
  then have "writes (\<lambda>wb. bindR (pack wb k) (\<lambda>wb. bindR (pack wb v) (\<lambda>wb. wb_table_hash pack wb t n))) (enc k @ enc v @ ?r)"
    using Cons.prems p by (intro writes_seq) simp_all
  then show ?case using Cons p by simp
qed

lemma writes_metapairs:
  assumes "\<forall>(k, v) \<in> set t. writes (\<lambda>wb. pack wb k) (enc k) \<and> writes (\<lambda>wb. pack wb v) (enc v) \<and> k \<noteq> LuaNil"
  shows "writes (\<lambda>wb. metapairs_loop pack wb t) (pairs_bytes enc t @ [TYPE_NIL])"
  using assms
proof (induction t)
  case Nil
  then show ?case using writes_push [of "[TYPE_NIL]"] by (simp add: wb_nil_def)
next
  case (Cons p t)
  obtain k v where p: "p = (k, v)" by fastforce
  let ?r = "pairs_bytes enc t @ [TYPE_NIL]"
  have "writes (\<lambda>wb. metapairs_loop pack wb t) ?r" using Cons by simp
  then have "writes (\<lambda>wb. bindR (pack wb k) (\<lambda>wb. bindR (pack wb v) (\<lambda>wb. metapairs_loop pack wb t))) (enc k @ enc v @ ?r)"
    using Cons.prems p by (intro writes_seq) simp_all
  then show ?case using Cons p by simp
qed

text \<open>The array part and the hash part are read back by the two loops of \<^verbatim>\<open>unpack_table\<close>.\<close>

definition array_table :: "(nat \<Rightarrow> lua_value) \<Rightarrow> nat \<Rightarrow> lua_table" where
  "array_table x n = fold (\<lambda>i t. lua_rawseti t (i + 1) (x i)) [0..<n] []"

definition hash_table :: "(lua_value \<Rightarrow> lua_value) \<Rightarrow> lua_table \<Rightarrow> lua_table \<Rightarrow> lua_table" where
  "hash_table dec ps t = fold (\<lambda>(k, v) t. table_set t k (dec v)) ps t"

lemma reads_array_from:
  "(\<And>i. k \<le> i \<Longrightarrow> i < k + n \<Longrightarrow> reads unpack (g i) (x i)) \<Longrightarrow> rb_holds rb (concat (map g [k..<k + n]) @ rest) \<Longrightarrow>
   \<exists>rb'. forR_from k n (\<lambda>i (t, rb). bindR (unpack rb) (\<lambda>(v, rb). Inr (lua_rawseti t (i + 1) v, rb))) (t, rb)
       = Inr (fold (\<lambda>i t. lua_rawseti t (i + 1) (x i)) [k..<k + n] t, rb') \<and> rb_holds rb' rest"
proof (induction n arbitrary: k t rb)
  case 0
  then show ?case by simp
next
  case (Suc n)
  have "rb_holds rb (g k @ concat (map g [Suc k..<Suc k + n]) @ rest)"
    using Suc.prems(2) unfolding upt_first by simp
  then obtain rb1 where rb1: "unpack rb = Inr (x k, rb1)" "rb_holds rb1 (concat (map g [Suc k..<Suc k + n]) @ rest)"
    using readsD [OF Suc.prems(1) [of k]] by auto
  have "\<exists>rb'. forR_from (Suc k) n (\<lambda>i (t, rb). bindR (unpack rb) (\<lambda>(v, rb). Inr (lua_rawseti t (i + 1) v, rb)))
      (lua_rawseti t (k + 1) (x k), rb1)
    = Inr (fold (\<lambda>i t. lua_rawseti t (i + 1) (x i)) [Suc k..<Suc k + n] (lua_rawseti t (k + 1) (x k)), rb') \<and> rb_holds rb' rest"
    by (rule Suc.IH [OF _ rb1(2)]) (simp add: Suc.prems(1))
  then show ?case unfolding upt_first using rb1(1) by simp
qed

lemma reads_array:
  assumes "\<And>i. i < n \<Longrightarrow> reads unpack (g i) (x i)" and "rb_holds rb (concat (map g [0..<n]) @ rest)"
  obtains rb' where "forR n (\<lambda>i (t, rb). bindR (unpack rb) (\<lambda>(v, rb). Inr (lua_rawseti t (i + 1) v, rb))) ([], rb)
       = Inr (array_table x n, rb')" and "rb_holds rb' rest"
proof -
  have "\<exists>rb'. forR n (\<lambda>i (t, rb). bindR (unpack rb) (\<lambda>(v, rb). Inr (lua_rawseti t (i + 1) v, rb))) ([], rb)
       = Inr (array_table x n, rb') \<and> rb_holds rb' rest"
    using reads_array_from [of 0 n unpack g x rb rest "[]"] assms by (simp add: forR_def array_table_def)
  then show thesis using that by blast
qed

lemma reads_hash:
  assumes "\<forall>(k, v) \<in> set ps. reads unpack (enc k) k \<and> reads unpack (enc v) (dec v) \<and> key_ok k"
    and "reads unpack nil LuaNil"
  shows "length ps < n \<Longrightarrow> rb_holds rb (pairs_bytes enc ps @ nil @ rest) \<Longrightarrow>
    \<exists>rb'. unpack_hash unpack n t rb = Inr (hash_table dec ps t, rb') \<and> rb_holds rb' rest"
  using assms(1)
proof (induction ps arbitrary: n t rb)
  case Nil
  then obtain m where "n = Suc m" by (cases n) auto
  moreover obtain rb' where "unpack rb = Inr (LuaNil, rb')" "rb_holds rb' rest"
    using Nil.prems(2) by (auto intro: readsD [OF assms(2)])
  ultimately show ?case by (simp add: hash_table_def)
next
  case (Cons p ps)
  obtain k v where p: "p = (k, v)" by fastforce
  obtain m where m: "n = Suc m" "length ps < m" using Cons.prems(1) by (cases n) auto
  have kv: "reads unpack (enc k) k" "reads unpack (enc v) (dec v)" "key_ok k" using Cons.prems(3) p by auto
  obtain rb1 where rb1: "unpack rb = Inr (k, rb1)" "rb_holds rb1 (enc v @ pairs_bytes enc ps @ nil @ rest)"
    using Cons.prems(2) p by (auto intro: readsD [OF kv(1)])
  obtain rb2 where rb2: "unpack rb1 = Inr (dec v, rb2)" "rb_holds rb2 (pairs_bytes enc ps @ nil @ rest)"
    using readsD [OF kv(2) rb1(2)] .
  have "k \<noteq> LuaNil" using kv(3) by (simp add: key_ok_def)
  then show ?case
    using Cons.IH [OF m(2) rb2(2), of "table_set t k (dec v)"] Cons.prems(3) m rb1(1) rb2(1) kv(3) p
    by (simp add: rawset_ok hash_table_def)
qed

text \<open>Contents of the tables that are built.\<close>

lemma in_array_Suc:
  assumes "Suc m < 2 ^ 31"
  shows "in_array (int (Suc m)) k \<longleftrightarrow> in_array (int m) k \<or> k = LuaInteger (of_nat (Suc m))"
proof (cases k)
  case (LuaInteger x)
  have s: "sint (of_nat (Suc m) :: u64) = int (Suc m)"
    using assms by (simp only: signed_of_nat) (simp add: signed_take_bit_int_eq_self)
  have "x = of_nat (Suc m) \<longleftrightarrow> sint x = int (Suc m)"
    unfolding s [symmetric] by (rule word_eq_iff_signed)
  then show ?thesis using LuaInteger by (auto simp: in_array_def simp del: of_nat_Suc)
qed (auto simp: in_array_def)

lemma map_of_array_table:
  assumes "dec LuaNil = LuaNil" and "\<forall>v \<in> ran (map_of t). dec v \<noteq> LuaNil" and "m < 2 ^ 31"
  shows "map_of (array_table (\<lambda>i. dec (lua_rawgeti t (i + 1))) m)
    = (\<lambda>k. if in_array (int m) k then map_option dec (map_of t k) else None)"
  using assms(3)
proof (induction m)
  case 0
  then show ?case by (auto simp: array_table_def in_array_def fun_eq_iff split: lua_value.splits)
next
  case (Suc m)
  let ?k = "LuaInteger (of_nat (Suc m))" and ?t = "array_table (\<lambda>i. dec (lua_rawgeti t (i + 1))) m"
  have "array_table (\<lambda>i. dec (lua_rawgeti t (i + 1))) (Suc m) = table_set ?t ?k (dec (lua_rawgeti t (Suc m)))"
    by (simp add: array_table_def lua_rawseti_def del: of_nat_Suc)
  then have "map_of (array_table (\<lambda>i. dec (lua_rawgeti t (i + 1))) (Suc m))
      = (map_of ?t)(?k := if dec (lua_rawgeti t (Suc m)) = LuaNil then None else Some (dec (lua_rawgeti t (Suc m))))"
    by (simp add: map_of_table_set del: of_nat_Suc)
  also have "\<dots> = (map_of ?t)(?k := map_option dec (map_of t ?k))"
    using assms(1,2) by (auto simp: lua_rawgeti_def ran_def simp del: of_nat_Suc split: option.splits)
  finally show ?case
    using Suc in_array_Suc [of m] by (auto simp: fun_eq_iff simp del: of_nat_Suc)
qed

lemma map_of_hash_table:
  assumes "distinct (map fst ps)" and "\<forall>(k, v) \<in> set ps. \<not> is_table k \<and> dec v \<noteq> LuaNil"
  shows "map_of (hash_table dec ps t) k = (case map_of ps k of None \<Rightarrow> map_of t k | Some v \<Rightarrow> Some (dec v))"
  using assms
proof (induction ps arbitrary: t)
  case (Cons p ps)
  obtain k' v where p: "p = (k', v)" by fastforce
  have none: "map_of ps k' = None" using Cons.prems(1) p by (simp add: map_of_eq_None_iff)
  have "hash_table dec (p # ps) t = hash_table dec ps (table_set t k' (dec v))"
    by (simp add: hash_table_def p)
  then show ?case using Cons p none by (auto simp: map_of_table_set split: option.splits)
qed (simp add: hash_table_def)

lemma map_of_filter_not: "map_of (filter (\<lambda>(k, v). \<not> P k) t) k = (if P k then None else map_of t k)"
  by (induction t) auto

lemma table_ok_entry: "table_ok t \<Longrightarrow> (k, v) \<in> set t \<Longrightarrow> key_ok k \<and> \<not> is_table k \<and> v \<noteq> LuaNil"
  by (auto simp: table_ok_def key_ok_def)

lemma table_ok_filter: "table_ok t \<Longrightarrow> table_ok (filter P t)"
  by (auto simp: table_ok_def distinct_map_filter)

lemma map_of_rebuilt:
  assumes "table_ok t" and "dec LuaNil = LuaNil" and "\<forall>(k, v) \<in> set t. dec v \<noteq> LuaNil" and "n < 2 ^ 31"
  shows "map_of (hash_table dec (filter (\<lambda>(k, v). \<not> in_array (int n) k) t)
      (array_table (\<lambda>i. dec (lua_rawgeti t (i + 1))) n)) = map_option dec \<circ> map_of t"
proof
  fix k
  have "\<forall>v \<in> ran (map_of t). dec v \<noteq> LuaNil"
    using assms(3) by (auto simp: ran_def dest: map_of_SomeD)
  note map_of_array_table [OF assms(2) this assms(4)]
  moreover have "distinct (map fst (filter (\<lambda>(k, v). \<not> in_array (int n) k) t))"
    using table_ok_filter [OF assms(1)] by (simp add: table_ok_def)
  ultimately show "map_of (hash_table dec (filter (\<lambda>(k, v). \<not> in_array (int n) k) t)
      (array_table (\<lambda>i. dec (lua_rawgeti t (i + 1))) n)) k = (map_option dec \<circ> map_of t) k"
    using assms table_ok_entry [OF assms(1)]
    by (subst map_of_hash_table) (auto simp: map_of_filter_not split: option.splits)
qed

lemma same_tables:
  assumes "map_of t' = map_option dec \<circ> map_of t" and "\<forall>(k, v) \<in> set t. same v (dec v)"
  shows "same (Table t) (Table t')" and "same (Proxy t) (Table t')"
  using assms by (fastforce intro!: same_table same_proxy dest: map_of_SomeD)+

text \<open>The header of a table: its tag and the size of the array part.\<close>

lemma size_coded:
  assumes "n < 2 ^ 31"
  obtains c hs where "unat c < 32" and "reads (\<lambda>rb. table_size rb c) hs (int n)"
    and "writes (\<lambda>wb. if int n \<ge> int MAX_COOKIE - 1
           then bindR (wb_push wb [COMBINE_TYPE TYPE_TABLE (of_nat (MAX_COOKIE - 1))]) (\<lambda>wb. wb_integer wb (word_of_int (int n)))
           else wb_push wb [COMBINE_TYPE TYPE_TABLE (word_of_int (int n))]) (COMBINE_TYPE TYPE_TABLE c # hs)"
proof (cases "n < 31")
  case True
  have "unat (of_nat n :: byte) = n" using True by (simp add: unsigned_of_nat take_bit_nat_eq_self)
  with True show ?thesis
    by (intro that [of "of_nat n" "[]"])
      (simp_all add: table_size_def MAX_COOKIE_def reads_return writes_push)
next
  case False
  show ?thesis
  proof (rule integer_coded [of "word_of_int (int n)"])
    fix c bs
    assume w: "writes (\<lambda>wb. wb_integer wb (word_of_int (int n))) (COMBINE_TYPE TYPE_NUMBER c # bs)"
      and c: "unat c < 32" "c \<noteq> TYPE_NUMBER_REAL" and rd: "reads (\<lambda>rb. get_integer rb c) bs (word_of_int (int n))"
    note n = u32_of_u64 [OF assms]
    have eq: "(\<lambda>rb. table_size rb 31) = (\<lambda>rb. bindR (rb_fetch rb 1) (\<lambda>(xs, rb).
        if hd xs AND 7 \<noteq> TYPE_NUMBER \<or> drop_bit 3 (hd xs) = TYPE_NUMBER_REAL then Inl invalid_stream
        else bindR (get_integer rb (drop_bit 3 (hd xs))) (\<lambda>(v, rb). Inr (sint (ucast v :: u32), rb))))"
      by (simp add: table_size_def MAX_COOKIE_def Let_def)
    have "reads (\<lambda>rb. table_size rb 31) (COMBINE_TYPE TYPE_NUMBER c # bs) (int n)"
      unfolding eq
      using reads_seq [OF reads_fetch [of "[COMBINE_TYPE TYPE_NUMBER c]" 1], where cs = bs and w = "int n"
        and f = "\<lambda>xs rb. if hd xs AND 7 \<noteq> TYPE_NUMBER \<or> drop_bit 3 (hd xs) = TYPE_NUMBER_REAL then Inl invalid_stream
        else bindR (get_integer rb (drop_bit 3 (hd xs))) (\<lambda>(v, rb). Inr (sint (ucast v :: u32), rb))"]
        reads_map [OF rd, of "\<lambda>v. sint (ucast v :: u32)"] c n
      by (simp add: combine_type TYPE_NUMBER_def)
    then show ?thesis
      using False writes_Cons [OF w] by (intro that [of 31 "COMBINE_TYPE TYPE_NUMBER c # bs"]) (simp_all add: MAX_COOKIE_def)
  qed
qed

lemma decodesD: "decodes bs v \<Longrightarrow> length bs \<le> n \<Longrightarrow> reads (unpack_one n) bs v"
  by (simp add: decodes_def)

lemma length_concat_ge: "x \<in> set xs \<Longrightarrow> length (g x) \<le> length (concat (map g xs))"
  by (induction xs) auto

lemma pairs_bytes_ge:
  "(k, v) \<in> set ps \<Longrightarrow> length (enc k) \<le> length (pairs_bytes enc ps) \<and> length (enc v) \<le> length (pairs_bytes enc ps)"
  by (induction ps) auto

lemma length_pairs_bytes: "\<forall>(k, v) \<in> set ps. enc k \<noteq> [] \<Longrightarrow> length ps \<le> length (pairs_bytes enc ps)"
proof (induction ps)
  case (Cons p ps)
  then have "length ps \<le> length (pairs_bytes enc ps)" "enc (fst p) \<noteq> []" by (auto split: prod.splits)
  then show ?case by (cases p; cases "enc (fst p)") auto
qed simp

lemma table_decodes:
  assumes c: "unat c < 32" and size: "reads (\<lambda>rb. table_size rb c) hs (int n)"
    and elems: "\<And>i. i < n \<Longrightarrow> decodes (g i) (x i)"
    and pairs: "\<forall>(k, v) \<in> set ps. decodes (enc k) k \<and> decodes (enc v) (dec v) \<and> key_ok k"
  shows "decodes (COMBINE_TYPE TYPE_TABLE c # hs @ concat (map g [0..<n]) @ pairs_bytes enc ps @ [TYPE_NIL])
    (Table (hash_table dec ps (array_table x n)))"
proof (rule decodes_tag [OF _ c])
  fix m assume m: "length (hs @ concat (map g [0..<n]) @ pairs_bytes enc ps @ [TYPE_NIL]) \<le> m"
  have elems': "reads (unpack_one m) (g i) (x i)" if "i < n" for i
    using elems [OF that] length_concat_ge [of i "[0..<n]" g] that m by (auto intro: decodesD)
  have pairs': "\<forall>(k, v) \<in> set ps. reads (unpack_one m) (enc k) k \<and> reads (unpack_one m) (enc v) (dec v) \<and> key_ok k"
    using pairs pairs_bytes_ge [of _ _ ps enc] m by (fastforce intro: decodesD)
  have nil: "reads (unpack_one m) [TYPE_NIL] LuaNil" using decodes_nil m by (auto intro: decodesD)
  show "reads (\<lambda>rb. push_value (unpack_one m) rb TYPE_TABLE c) (hs @ concat (map g [0..<n]) @ pairs_bytes enc ps @ [TYPE_NIL])
      (Table (hash_table dec ps (array_table x n)))"
    unfolding reads_def
  proof (intro allI impI)
    fix rb rest assume rb: "rb_holds rb ((hs @ concat (map g [0..<n]) @ pairs_bytes enc ps @ [TYPE_NIL]) @ rest)"
    obtain rb1 where rb1: "table_size rb c = Inr (int n, rb1)"
        "rb_holds rb1 (concat (map g [0..<n]) @ pairs_bytes enc ps @ [TYPE_NIL] @ rest)"
      using rb by (auto intro: readsD [OF size])
    obtain rb2 where rb2: "forR n (\<lambda>i (t, rb). bindR (unpack_one m rb) (\<lambda>(v, rb). Inr (lua_rawseti t (i + 1) v, rb))) ([], rb1)
       = Inr (array_table x n, rb2)" "rb_holds rb2 (pairs_bytes enc ps @ [TYPE_NIL] @ rest)"
      using reads_array [OF elems' rb1(2)] .
    have "length ps \<le> length (pairs_bytes enc ps)" using pairs by (intro length_pairs_bytes) (auto simp: decodes_def)
    then have "length ps < Suc (nat (rb_len rb2))" using rb2(2) by (simp add: rb_holds_def nat_add_distrib)
    from reads_hash [OF pairs' nil this rb2(2), of "array_table x n"]
    show "\<exists>rb'. push_value (unpack_one m) rb TYPE_TABLE c = Inr (Table (hash_table dec ps (array_table x n)), rb') \<and> rb_holds rb' rest"
      using rb1(1) rb2(1) by (auto simp: push_value_def unpack_table_def type_defs)
  qed
qed (simp add: TYPE_TABLE_def)

lemma pairs_coded:
  assumes coded: "\<And>x. seri_ok r d x \<Longrightarrow> writes (\<lambda>wb. pack wb x) (enc x) \<and> decodes (enc x) (dec x) \<and> same x (dec x)"
    and ok: "table_ok ps" "\<forall>(k, x) \<in> set ps. seri_ok r d k \<and> seri_ok r d x" and kx: "(k, x) \<in> set ps"
  shows "writes (\<lambda>wb. pack wb k) (enc k)" and "writes (\<lambda>wb. pack wb x) (enc x)" and "decodes (enc k) k"
    and "decodes (enc x) (dec x)" and "key_ok k" and "\<not> is_table k" and "k \<noteq> LuaNil" and "same x (dec x)" and "dec x \<noteq> LuaNil"
proof -
  have k: "seri_ok r d k" "seri_ok r d x" "key_ok k" "\<not> is_table k" "x \<noteq> LuaNil" "k \<noteq> LuaNil"
    using ok(2) kx table_ok_entry [OF ok(1) kx] by (auto simp: key_ok_def)
  have "dec k = k" using coded [OF k(1)] same_atomD k(4) by blast
  with k coded [OF k(1)] coded [OF k(2)]
  show "writes (\<lambda>wb. pack wb k) (enc k)" and "writes (\<lambda>wb. pack wb x) (enc x)" and "decodes (enc k) k"
    and "decodes (enc x) (dec x)" and "key_ok k" and "\<not> is_table k" and "k \<noteq> LuaNil" and "same x (dec x)" and "dec x \<noteq> LuaNil"
    by auto
qed

lemma proxy_coded:
  assumes coded: "\<And>x. seri_ok r d x \<Longrightarrow>
      writes (\<lambda>wb. pack_one r (Suc depth) wb x) (enc x) \<and> decodes (enc x) (dec x) \<and> same x (dec x)"
    and depth: "depth \<le> MAX_DEPTH" and v: "seri_ok r (Suc d) (Proxy ps)"
  shows "\<exists>bs v'. writes (\<lambda>wb. pack_one r depth wb (Proxy ps)) bs \<and> decodes bs v' \<and> same (Proxy ps) v'"
proof -
  have ps: "table_ok ps" "\<forall>(k, x) \<in> set ps. seri_ok r d k \<and> seri_ok r d x" using v by auto
  note c = pairs_coded [OF coded ps]
  let ?bs = "COMBINE_TYPE TYPE_TABLE 0 # pairs_bytes enc ps @ [TYPE_NIL]"
  have "writes (\<lambda>wb. metapairs_loop (pack_one r (Suc depth)) wb ps) (pairs_bytes enc ps @ [TYPE_NIL])"
    using c(7) by (intro writes_metapairs) (auto simp: c(1,2))
  then have "writes (\<lambda>wb. pack_one r depth wb (Proxy ps)) ?bs"
    using depth writes_Cons by (simp add: pack_one.simps [of r depth] wb_table_metapairs_def)
  moreover have "decodes ?bs (Table (hash_table dec ps []))"
  proof -
    have "\<forall>(k, x) \<in> set ps. decodes (enc k) k \<and> decodes (enc x) (dec x) \<and> key_ok k" using c(3-5) by blast
    then show ?thesis using table_decodes [of 0 "[]" 0 "\<lambda>_. []" undefined ps enc dec]
      by (simp add: table_size_def MAX_COOKIE_def reads_return array_table_def)
  qed
  moreover have "map_of (hash_table dec ps []) k = (map_option dec \<circ> map_of ps) k" for k
  proof -
    have "\<forall>(k, x) \<in> set ps. \<not> is_table k \<and> dec x \<noteq> LuaNil" using c(6,9) by blast
    then show ?thesis using map_of_hash_table [of ps dec "[]" k] ps(1) by (auto simp: table_ok_def split: option.splits)
  qed
  then have "same (Proxy ps) (Table (hash_table dec ps []))"
    using c(8) by (intro same_tables(2) ext) auto
  ultimately show ?thesis by blast
qed

lemma table_coded:
  assumes coded: "\<And>x. seri_ok r d x \<Longrightarrow>
      writes (\<lambda>wb. pack_one r (Suc depth) wb x) (enc x) \<and> decodes (enc x) (dec x) \<and> same x (dec x)"
    and depth: "depth \<le> MAX_DEPTH" and v: "seri_ok r (Suc d) (Table t)"
  shows "\<exists>bs v'. writes (\<lambda>wb. pack_one r depth wb (Table t)) bs \<and> decodes bs v' \<and> same (Table t) v'"
proof -
  define n where "n = r t"
  have t: "table_ok t" "\<forall>(k, x) \<in> set t. seri_ok r d k \<and> seri_ok r d x" and n: "n < 2 ^ 31" "is_border t n"
    using v by (auto simp: n_def)
  note c = pairs_coded [OF coded t]
  have ok: "seri_ok r d (lua_rawgeti t (Suc i))" if "i < n" for i
  proof -
    have get: "lua_rawgeti t j = LuaNil \<or> (\<exists>k. (k, lua_rawgeti t j) \<in> set t)" for j
      by (auto simp: lua_rawgeti_def split: option.splits dest: map_of_SomeD)
    obtain k where "(k, lua_rawgeti t n) \<in> set t" using get [of n] n(2) \<open>i < n\<close> by (cases "n = 0") (auto simp: is_border_def)
    then have "d \<noteq> 0" using t(2) by (cases d) auto
    then have "seri_ok r d LuaNil" by (cases d) auto
    then show ?thesis using get [of "Suc i"] t(2) by auto
  qed
  have x: "writes (\<lambda>wb. pack_one r (Suc depth) wb (lua_rawgeti t (Suc i))) (enc (lua_rawgeti t (Suc i)))"
      "decodes (enc (lua_rawgeti t (Suc i))) (dec (lua_rawgeti t (Suc i)))" if "i < n" for i
    using coded [OF ok [OF that]] by auto
  let ?ps = "filter (\<lambda>(k, v). \<not> in_array (int n) k) t"
  obtain h hs where h: "unat h < 32" "reads (\<lambda>rb. table_size rb h) hs (int n)"
    and w: "writes (\<lambda>wb. if int n \<ge> int MAX_COOKIE - 1
           then bindR (wb_push wb [COMBINE_TYPE TYPE_TABLE (of_nat (MAX_COOKIE - 1))]) (\<lambda>wb. wb_integer wb (word_of_int (int n)))
           else wb_push wb [COMBINE_TYPE TYPE_TABLE (word_of_int (int n))]) (COMBINE_TYPE TYPE_TABLE h # hs)"
    using size_coded [OF n(1)] .
  let ?es = "concat (map (\<lambda>i. enc (lua_rawgeti t (Suc i))) [0..<n])" and ?hash = "pairs_bytes enc ?ps @ [TYPE_NIL]"
  have "writes (\<lambda>wb. pack_one r depth wb (Table t)) ((COMBINE_TYPE TYPE_TABLE h # hs) @ ?es @ ?hash)"
  proof -
    have "writes (\<lambda>wb. wb_table_hash (pack_one r (Suc depth)) wb t (int n)) ?hash"
      by (rule writes_hash) (auto simp: c(1,2))
    with w writes_forR [OF x(1), of n] have "writes (\<lambda>wb. bindR (if int n \<ge> int MAX_COOKIE - 1
           then bindR (wb_push wb [COMBINE_TYPE TYPE_TABLE (of_nat (MAX_COOKIE - 1))]) (\<lambda>wb. wb_integer wb (word_of_int (int n)))
           else wb_push wb [COMBINE_TYPE TYPE_TABLE (word_of_int (int n))])
        (\<lambda>wb. bindR (forR n (\<lambda>i wb. pack_one r (Suc depth) wb (lua_rawgeti t (Suc i))) wb)
        (\<lambda>wb. wb_table_hash (pack_one r (Suc depth)) wb t (int n)))) ((COMBINE_TYPE TYPE_TABLE h # hs) @ ?es @ ?hash)"
      by (intro writes_seq) auto
    moreover have "sint (of_nat (r t) :: u32) = int n"
      using n(1) by (simp add: n_def signed_of_nat signed_take_bit_int_eq_self)
    ultimately show ?thesis
      using depth by (simp add: pack_one.simps [of r depth] wb_table_def wb_table_array_def bindR_assoc Let_def)
  qed
  moreover have "decodes ((COMBINE_TYPE TYPE_TABLE h # hs) @ ?es @ ?hash)
      (Table (hash_table dec ?ps (array_table (\<lambda>i. dec (lua_rawgeti t (Suc i))) n)))"
  proof -
    have "\<forall>(k, x) \<in> set ?ps. decodes (enc k) k \<and> decodes (enc x) (dec x) \<and> key_ok k" using c(3-5) by auto
    then show ?thesis unfolding append_Cons by (intro table_decodes h x(2))
  qed
  moreover have "same (Table t) (Table (hash_table dec ?ps (array_table (\<lambda>i. dec (lua_rawgeti t (Suc i))) n)))"
  proof (cases d)
    case 0
    then have "t = []" using t(2) by (cases t) auto
    moreover from this have "n = 0" using n(2) by (auto simp: is_border_def lua_rawgeti_def)
    ultimately show ?thesis by (auto simp: hash_table_def array_table_def intro: same_table)
  next
    case (Suc e)
    then have "dec LuaNil = LuaNil" using coded [of LuaNil] same_atomD [of LuaNil] by simp
    then have "map_of (hash_table dec ?ps (array_table (\<lambda>i. dec (lua_rawgeti t (Suc i))) n)) = map_option dec \<circ> map_of t"
      using map_of_rebuilt [OF t(1) _ _ n(1), of dec] c(9) by auto
    then show ?thesis using c(8) by (intro same_tables(1)) auto
  qed
  ultimately show ?thesis by blast
qed

lemma value_coded:
  "seri_ok r d v \<Longrightarrow> depth + d = Suc MAX_DEPTH \<Longrightarrow>
   \<exists>bs v'. writes (\<lambda>wb. pack_one r depth wb v) bs \<and> decodes bs v' \<and> same v v'"
proof (induction d arbitrary: v depth)
  case (Suc d)
  have depth: "depth \<le> MAX_DEPTH" using Suc.prems(2) by simp
  have "\<forall>x. \<exists>bs x'. seri_ok r d x \<longrightarrow> writes (\<lambda>wb. pack_one r (Suc depth) wb x) bs \<and> decodes bs x' \<and> same x x'"
    using Suc.IH [of _ "Suc depth"] Suc.prems(2) by auto
  then obtain enc dec where coded: "\<And>x. seri_ok r d x \<Longrightarrow>
      writes (\<lambda>wb. pack_one r (Suc depth) wb x) (enc x) \<and> decodes (enc x) (dec x) \<and> same x (dec x)"
    by metis
  consider (atom) "\<not> is_table v" | (t) t where "v = Table t" | (p) ps where "v = Proxy ps" by (cases v) auto
  then show ?case
  proof cases
    case atom
    then show ?thesis using atom_coded [OF Suc.prems(1) atom depth] same_atom by blast
  next
    case t
    then show ?thesis using table_coded [OF coded depth] Suc.prems(1) by blast
  next
    case p
    then show ?thesis using proxy_coded [OF coded depth] Suc.prems(1) by blast
  qed
qed simp

section \<open>Round trip\<close>

lemma values_coded:
  "\<forall>v \<in> set vs. seri_ok r (Suc MAX_DEPTH) v \<Longrightarrow>
   \<exists>bss vs'. writes (\<lambda>wb. pack_from r wb vs) (concat bss) \<and> list_all2 decodes bss vs' \<and> list_all2 same vs vs'"
proof (induction vs)
  case Nil
  show ?case using writes_skip by (intro exI [of _ "[]"]) simp
next
  case (Cons v vs)
  then obtain bss vs' where vs: "writes (\<lambda>wb. pack_from r wb vs) (concat bss)" "list_all2 decodes bss vs'" "list_all2 same vs vs'"
    by auto
  obtain bs v' where v: "writes (\<lambda>wb. pack_one r 0 wb v) bs" "decodes bs v'" "same v v'"
    using value_coded [of r "Suc MAX_DEPTH" v 0] Cons.prems by auto
  have "writes (\<lambda>wb. pack_from r wb (v # vs)) (concat (bs # bss))"
    using writes_seq [OF v(1) vs(1)] by simp
  then show ?case using v vs by (intro exI [of _ "bs # bss"] exI [of _ "v' # vs'"]) simp
qed

text \<open>A round of the loop of \<^verbatim>\<open>luaseri_unpack\<close> is \<^verbatim>\<open>unpack_one\<close>, if there is a byte.\<close>

lemma unpack_loop_step:
  assumes "1 \<le> rb_len rb"
  shows "unpack_loop fuel (Suc n) rb =
    bindR (unpack_one (Suc fuel) rb) (\<lambda>(v, rb). bindR (unpack_loop fuel n rb) (\<lambda>vs. Inr (v # vs)))"
proof (cases "rb_ptr rb < length (rb_buffer rb)")
  case True
  then obtain b zs where "drop (rb_ptr rb) (rb_buffer rb) = b # zs" "rb_buffer rb ! rb_ptr rb = b"
    by (metis Cons_nth_drop_Suc)
  with True assms show ?thesis
    by (cases b) (simp_all add: rb_read_def rb_fetch_def read_bytes_def initialised_def)
next
  case False
  with assms show ?thesis by (simp add: rb_read_def rb_fetch_def read_bytes_def rd_def)
qed

lemma unpack_loop_coded:
  "list_all2 decodes bss vs \<Longrightarrow> length (concat bss) \<le> fuel \<Longrightarrow> length bss < n \<Longrightarrow> rb_holds rb (concat bss) \<Longrightarrow>
   unpack_loop fuel n rb = Inr vs"
proof (induction bss vs arbitrary: n rb rule: list_all2_induct)
  case Nil
  then show ?case by (cases n) (auto simp: rb_read_def rb_holds_def)
next
  case (Cons bs bss v vs)
  obtain m where m: "n = Suc m" "length bss < m" using Cons.prems(2) by (cases n) auto
  have bs: "bs \<noteq> []" "reads (unpack_one (Suc fuel)) bs v" using Cons.hyps(1) Cons.prems(1) by (auto simp: decodes_def)
  obtain rb1 where rb1: "unpack_one (Suc fuel) rb = Inr (v, rb1)" "rb_holds rb1 (concat bss)"
    using Cons.prems(3) by (auto intro: readsD [OF bs(2)])
  have "1 \<le> rb_len rb" using Cons.prems(3) bs(1) by (cases bs) (auto simp: rb_holds_def)
  then show ?case using unpack_loop_step [of rb fuel m] rb1 Cons.IH [OF _ m(2) rb1(2)] Cons.prems(1) m(1)
    by (simp del: unpack_loop.simps unpack_one.simps)
qed

lemma unpack_packed:
  assumes "list_all2 decodes bss vs" and "length (concat bss) < 2 ^ 31"
  shows "luaseri_unpack (ArgUserdata (Some (map Some (concat bss))) (of_nat (length (concat bss)))) = Inr vs"
proof -
  let ?n = "length (concat bss)"
  have le: "length bss \<le> ?n"
    using assms(1) by (induction bss vs rule: list_all2_induct) (auto simp: decodes_def Suc_le_eq intro: trans_less_add2 le_neq_trans)
  have "unpack_buffer (Some (map Some (concat bss))) (int ?n) = Inr vs"
  proof (cases "?n = 0")
    case True
    then have "bss = []" using le by (metis le_zero_eq length_0_conv)
    then show ?thesis using assms(1) by (simp add: unpack_buffer_def)
  next
    case False
    have "rb_holds (rball_init (map Some (concat bss)) (int ?n)) (concat bss)"
      by (simp add: rb_holds_def rball_init_def)
    with assms(1) le have "unpack_loop (Suc ?n) (Suc ?n) (rball_init (map Some (concat bss)) (int ?n)) = Inr vs"
      by (intro unpack_loop_coded) simp_all
    then show ?thesis using False by (auto simp: unpack_buffer_def simp del: unpack_loop.simps)
  qed
  then show ?thesis using u32_of_u64 [OF assms(2)] by (simp add: luaseri_unpack_def)
qed

text \<open>C27. Whatever values Lua code hands to \<open>skynet.pack\<close> - nested up to 32 levels, of all types that are supported, tables
  with holes and tables with a metamethod \<^verbatim>\<open>__pairs\<close> included - packing succeeds unless it writes 2 GiB or more, and
  unpacking the buffer gives the same values back.\<close>

theorem seri_roundtrip:
  assumes "\<forall>v \<in> set vs. seri_ok rawlen (Suc MAX_DEPTH) v" and "luaseri_pack rawlen vs \<noteq> Inl Int_overflow"
  shows "\<exists>buffer n vs'. luaseri_pack rawlen vs = Inr (buffer, n) \<and>
     luaseri_unpack (ArgUserdata (Some buffer) (of_nat n)) = Inr vs' \<and> list_all2 same vs vs'"
proof -
  obtain bss vs' where w: "writes (\<lambda>wb. pack_from rawlen wb vs) (concat bss)" and vs': "list_all2 decodes bss vs'" "list_all2 same vs vs'"
    using values_coded [OF assms(1)] by blast
  have small: "length (concat bss) < 2 ^ 31"
    using writesD [OF w wb_holds_init] assms(2) by (auto simp: luaseri_pack_def split: if_splits)
  then obtain wb where "pack_from rawlen wb_init vs = Inr wb" "wb_holds wb (concat bss)"
    using writesD [OF w wb_holds_init] by auto
  then have "luaseri_pack rawlen vs = Inr (map Some (concat bss), length (concat bss))"
    by (simp add: luaseri_pack_def seri_holds)
  then show ?thesis using unpack_packed [OF vs'(1) small] vs'(2) by auto
qed

definition ex_rawlen :: "lua_table \<Rightarrow> nat" where
  "ex_rawlen t = (if lua_rawgeti t 1 = LuaNil then 0 else 1)"

definition ex_table :: lua_table where
  "ex_table = [(LuaInteger 1, LuaBoolean True), (LuaString [107], Table [])]"

lemma ex_table_ok:
  "ex_rawlen ex_table = 1" "ex_rawlen [] = 0" "is_border ex_table 1" "is_border [] 0" "table_ok ex_table" "table_ok []"
  by (simp_all add: ex_table_def ex_rawlen_def is_border_def lua_rawgeti_def table_ok_def key_ok_def norm_key_def)

lemma ex_value_ok: "seri_ok ex_rawlen (Suc (Suc (Suc d))) (Table ex_table)" "seri_ok ex_rawlen (Suc d) LuaNil"
proof -
  have "seri_ok ex_rawlen (Suc (Suc d)) (Table [])" by (simp add: ex_table_ok)
  then show "seri_ok ex_rawlen (Suc (Suc (Suc d))) (Table ex_table)"
    using ex_table_ok by (simp add: ex_table_def)
qed simp

lemma pack_one_cases:
  assumes "depth \<le> 32"
  shows "pack_one r depth wb LuaNil = wb_nil wb" "pack_one r depth wb (LuaBoolean b) = wb_boolean wb b"
    "pack_one r depth wb (LuaString s) = wb_string wb s (sint (of_nat (length s) :: u32))"
    "pack_one r depth wb (Table t) = wb_table r (pack_one r (depth + 1)) wb t"
  using assms by (simp_all add: pack_one.simps [of r depth] MAX_DEPTH_def)

lemma ex_packed: "luaseri_pack ex_rawlen [Table ex_table, LuaNil] \<noteq> Inl Int_overflow"
proof -
  have f: "(\<lambda>wb. pack_from ex_rawlen wb [Table ex_table, LuaNil]) = (\<lambda>wb.
      bindR (wb_push wb [COMBINE_TYPE TYPE_TABLE 1]) (\<lambda>wb. bindR (wb_push wb [COMBINE_TYPE TYPE_BOOLEAN 1]) (\<lambda>wb.
      bindR (wb_push wb [COMBINE_TYPE TYPE_SHORT_STRING 1]) (\<lambda>wb. bindR (wb_push wb [107]) (\<lambda>wb.
      bindR (wb_push wb [COMBINE_TYPE TYPE_TABLE 0]) (\<lambda>wb. bindR (wb_push wb [TYPE_NIL]) (\<lambda>wb.
      bindR (wb_push wb [TYPE_NIL]) (\<lambda>wb. bindR (wb_push wb [TYPE_NIL]) Inr))))))))"
    by (simp add: pack_one_cases wb_table_def wb_table_array_def ex_table_ok bindR_assoc MAX_COOKIE_def forR_def
        wb_string_def wb_nil_def wb_boolean_def)
      (simp add: ex_table_def lua_rawgeti_def in_array_def pack_one_cases wb_table_def wb_table_array_def ex_table_ok
        bindR_assoc MAX_COOKIE_def forR_def wb_string_def wb_nil_def wb_boolean_def)
  have "writes (\<lambda>wb. pack_from ex_rawlen wb [Table ex_table, LuaNil]) [COMBINE_TYPE TYPE_TABLE 1, COMBINE_TYPE TYPE_BOOLEAN 1,
      COMBINE_TYPE TYPE_SHORT_STRING 1, 107, COMBINE_TYPE TYPE_TABLE 0, TYPE_NIL, TYPE_NIL, TYPE_NIL]"
    unfolding f by (intro writes_Cons writes_skip)
  from writesD [OF this wb_holds_init] show ?thesis
    by (auto simp: luaseri_pack_def seri_holds simp del: pack_from.simps)
qed

theorem seri_roundtrip_witness:
  "\<exists>buffer n vs'. luaseri_pack ex_rawlen [Table ex_table, LuaNil] = Inr (buffer, n) \<and>
     luaseri_unpack (ArgUserdata (Some buffer) (of_nat n)) = Inr vs' \<and> list_all2 same [Table ex_table, LuaNil] vs'"
proof (rule seri_roundtrip [OF _ ex_packed])
  have depth: "Suc MAX_DEPTH = Suc (Suc (Suc 30))" by (simp add: MAX_DEPTH_def)
  show "\<forall>v \<in> set [Table ex_table, LuaNil]. seri_ok ex_rawlen (Suc MAX_DEPTH) v"
    by (simp only: depth ex_value_ok list.set ball_simps simp_thms)
qed

section \<open>Arbitrary bytes\<close>

text \<open>\<open>safe c l u\<close>: on at most \<open>l\<close> bytes the reader \<open>u\<close> raises a Lua error or reads at least \<open>c\<close> of them.\<close>

definition safe :: "nat \<Rightarrow> nat \<Rightarrow> (read_block \<Rightarrow> ('a \<times> read_block) res) \<Rightarrow> bool" where
  "safe c l u \<longleftrightarrow> (\<forall>rb bs. rb_holds rb bs \<longrightarrow> length bs \<le> l \<longrightarrow>
     (\<exists>m. u rb = Inl (Lua_error m)) \<or>
     (\<exists>v rb' k. u rb = Inr (v, rb') \<and> c \<le> k \<and> k \<le> length bs \<and> rb_holds rb' (drop k bs)))"

lemma safeE:
  assumes "safe c l u" and "rb_holds rb bs" and "length bs \<le> l"
  obtains (error) m where "u rb = Inl (Lua_error m)"
    | (ok) v rb' k where "u rb = Inr (v, rb')" and "c \<le> k" and "k \<le> length bs" and "rb_holds rb' (drop k bs)"
  using assms unfolding safe_def by blast

lemma safe_error: "safe c l (\<lambda>rb. Inl (Lua_error m))"
  by (simp add: safe_def)

lemma safe_invalid: "safe c l (\<lambda>rb. Inl invalid_stream)"
  by (simp add: invalid_stream_def safe_error)

lemma safe_return: "safe 0 l (\<lambda>rb. Inr (v, rb))"
  by (auto simp: safe_def intro: exI [of _ 0])

lemma safe_mono: "safe c l u \<Longrightarrow> c' \<le> c \<Longrightarrow> l' \<le> l \<Longrightarrow> safe c' l' u"
  unfolding safe_def by (meson le_trans)

lemma safe_fetch: "safe n l (\<lambda>rb. rb_fetch rb n)"
  unfolding safe_def
proof (intro allI impI)
  fix rb bs assume rb: "rb_holds rb bs"
  show "(\<exists>m. rb_fetch rb n = Inl (Lua_error m)) \<or>
     (\<exists>v rb' k. rb_fetch rb n = Inr (v, rb') \<and> n \<le> k \<and> k \<le> length bs \<and> rb_holds rb' (drop k bs))"
  proof (cases "n \<le> length bs")
    case True
    then obtain rb' where "rb_fetch rb n = Inr (take n bs, rb')" "rb_holds rb' (drop n bs)"
      using rb by (auto intro: readsD [OF reads_fetch, of "take n bs" n rb "drop n bs"])
    then show ?thesis using True by auto
  next
    case False
    then show ?thesis using fetch_short [OF rb] by (simp add: invalid_stream_def)
  qed
qed

lemma safe_bind:
  assumes "safe a l u" and "\<And>v. a \<le> l \<Longrightarrow> safe b (l - a) (f v)"
  shows "safe (a + b) l (\<lambda>rb. bindR (u rb) (\<lambda>(v, rb). f v rb))"
  unfolding safe_def
proof (intro allI impI)
  fix rb bs assume rb: "rb_holds rb bs" "length bs \<le> l"
  from assms(1) rb show "(\<exists>m. bindR (u rb) (\<lambda>(v, rb). f v rb) = Inl (Lua_error m)) \<or>
     (\<exists>v rb' k. bindR (u rb) (\<lambda>(v, rb). f v rb) = Inr (v, rb') \<and> a + b \<le> k \<and> k \<le> length bs \<and> rb_holds rb' (drop k bs))"
  proof (cases rule: safeE)
    case (ok v rb1 k)
    note u = this
    have "safe b (l - a) (f v)" "length (drop k bs) \<le> l - a" using u assms(2) rb(2) by auto
    from this(1) u(4) this(2) show ?thesis
    proof (cases rule: safeE)
      case (ok w rb2 j)
      then show ?thesis using u(1-3) by (auto intro!: exI [of _ "k + j"] simp: add.commute)
    qed (use u(1) in simp)
  qed simp
qed

lemma safe_then: "safe a l u \<Longrightarrow> (\<And>v. safe 0 l (f v)) \<Longrightarrow> safe a l (\<lambda>rb. bindR (u rb) (\<lambda>(v, rb). f v rb))"
  using safe_bind [of a l u 0 f] safe_mono [of 0 l "f _" 0 "l - a"] by auto

lemma safe_if: "safe c l u \<Longrightarrow> safe c l v \<Longrightarrow> safe c l (\<lambda>rb. if b then u rb else v rb)"
  by (cases b) simp_all

lemma safe_fetch0: "safe 0 l (\<lambda>rb. rb_fetch rb n)"
  by (rule safe_mono [OF safe_fetch [of n l]]) simp_all

lemmas safe_intros = safe_if safe_then safe_return safe_invalid safe_error safe_fetch0

lemma safe_get_integer: "safe 0 l (\<lambda>rb. get_integer rb c)"
  unfolding get_integer_def by (intro safe_intros)

lemma safe_get_buffer: "safe 0 l (\<lambda>rb. get_buffer rb n)"
proof (cases "n < 0")
  case True
  then show ?thesis by (auto simp: safe_def get_buffer_def invalid_stream_def)
next
  case False
  then show ?thesis by (simp add: get_buffer_def safe_fetch0)
qed

lemma safe_table_size: "safe 0 l (\<lambda>rb. table_size rb c)"
  unfolding table_size_def Let_def by (intro safe_intros safe_get_integer)

lemma safe_array:
  assumes "safe c l unpack"
  shows "safe 0 l (\<lambda>rb. forR_from i n (\<lambda>i (t, rb). bindR (unpack rb) (\<lambda>(v, rb). Inr (lua_rawseti t (i + 1) v, rb))) (t, rb))"
proof (induction n arbitrary: i t)
  case 0
  then show ?case by (simp add: safe_return)
next
  case (Suc n)
  have "safe 0 l (\<lambda>rb. bindR (unpack rb) (\<lambda>(v, rb). forR_from (Suc i) n
      (\<lambda>i (t, rb). bindR (unpack rb) (\<lambda>(v, rb). Inr (lua_rawseti t (i + 1) v, rb))) (lua_rawseti t (i + 1) v, rb)))"
    by (rule safe_then) (use Suc.IH safe_mono [OF assms] in auto)
  then show ?case by (simp add: bindR_assoc case_prod_unfold)
qed

lemma rawset_result: "(\<exists>t'. lua_rawset t k v = Inr t') \<or> (\<exists>m. lua_rawset t k v = Inl (Lua_error m))"
  by (cases k) (auto simp: lua_rawset_def)

lemma safe_hash:
  assumes "safe 1 l unpack"
  shows "j \<le> l \<Longrightarrow> j < n \<Longrightarrow> safe 0 j (unpack_hash unpack n t)"
proof (induction n arbitrary: j t)
  case (Suc n)
  have u: "safe 1 j unpack" "safe 1 (j - 1) unpack" using safe_mono [OF assms] Suc.prems(1) by auto
  have set: "safe 0 (j - 1 - 1) (\<lambda>rb. bindR (lua_rawset t k v) (\<lambda>t. unpack_hash unpack n t rb))" if "1 \<le> j" for k v
    using rawset_result [of t k v] Suc.IH [of "j - 1 - 1"] Suc.prems that by (auto simp: safe_error)
  have "safe (1 + 0) j (\<lambda>rb. bindR (unpack rb) (\<lambda>(k, rb). if k = LuaNil then Inr (t, rb)
      else bindR (unpack rb) (\<lambda>(v, rb). bindR (lua_rawset t k v) (\<lambda>t. unpack_hash unpack n t rb))))"
  proof (rule safe_bind [OF u(1)])
    fix k assume j: "1 \<le> j"
    have "safe (1 + 0) (j - 1) (\<lambda>rb. bindR (unpack rb) (\<lambda>(v, rb). bindR (lua_rawset t k v) (\<lambda>t. unpack_hash unpack n t rb)))"
      by (rule safe_bind [OF u(2)]) (rule set [OF j])
    then show "safe 0 (j - 1) (\<lambda>rb. if k = LuaNil then Inr (t, rb)
      else bindR (unpack rb) (\<lambda>(v, rb). bindR (lua_rawset t k v) (\<lambda>t. unpack_hash unpack n t rb)))"
      by (intro safe_if safe_return) (auto intro: safe_mono)
  qed
  then show ?case by (auto intro: safe_mono)
qed simp

lemma safe_table:
  assumes "safe 1 l unpack"
  shows "safe 0 l (\<lambda>rb. unpack_table unpack rb c)"
  unfolding unpack_table_def
proof (rule safe_then [OF safe_table_size])
  fix n
  show "safe 0 l (\<lambda>rb. bindR (forR (nat n) (\<lambda>i (t, rb). bindR (unpack rb) (\<lambda>(v, rb). Inr (lua_rawseti t (i + 1) v, rb))) ([], rb))
     (\<lambda>(t, rb). bindR (unpack_hash unpack (Suc (nat (rb_len rb))) t rb) (\<lambda>(t, rb). Inr (Table t, rb))))"
  proof (rule safe_then)
    show "safe 0 l (\<lambda>rb. forR (nat n) (\<lambda>i (t, rb). bindR (unpack rb) (\<lambda>(v, rb). Inr (lua_rawseti t (i + 1) v, rb))) ([], rb))"
      using safe_array [OF assms, of 0 "nat n" "[]"] by (simp add: forR_def)
  next
    fix t
    have "safe 0 l (\<lambda>rb. unpack_hash unpack (Suc (nat (rb_len rb))) t rb)"
      unfolding safe_def
    proof (intro allI impI)
      fix rb bs assume rb: "rb_holds rb bs" "length bs \<le> l"
      then have "safe 0 (length bs) (unpack_hash unpack (Suc (nat (rb_len rb))) t)"
        using safe_hash [OF assms, of "length bs" "Suc (nat (rb_len rb))" t] by (simp add: rb_holds_def)
      then show "(\<exists>m. unpack_hash unpack (Suc (nat (rb_len rb))) t rb = Inl (Lua_error m)) \<or>
        (\<exists>v rb' k. unpack_hash unpack (Suc (nat (rb_len rb))) t rb = Inr (v, rb') \<and> 0 \<le> k \<and> k \<le> length bs \<and> rb_holds rb' (drop k bs))"
        using rb by (auto simp only: safe_def)
    qed
    then show "safe 0 l (\<lambda>rb. bindR (unpack_hash unpack (Suc (nat (rb_len rb))) t rb) (\<lambda>(t, rb). Inr (Table t, rb)))"
      by (rule safe_then) (rule safe_return)
  qed
qed

lemma safe_push_value:
  assumes "safe 1 l unpack"
  shows "safe 0 l (\<lambda>rb. push_value unpack rb t c)"
  unfolding push_value_def get_real_def get_pointer_def
  by (intro safe_intros safe_get_integer safe_get_buffer safe_table [OF assms])

lemma safe_unpack_one: "l \<le> n \<Longrightarrow> safe 1 l (unpack_one (Suc n))"
proof (induction n arbitrary: l)
  case 0
  then show ?case using fetch_short by (auto simp: safe_def invalid_stream_def)
next
  case (Suc n)
  have "safe (1 + 0) l (\<lambda>rb. bindR (rb_fetch rb 1) (\<lambda>(bs, rb). push_value (unpack_one (Suc n)) rb (hd bs AND 7) (drop_bit 3 (hd bs))))"
    using Suc.prems by (intro safe_bind safe_fetch safe_push_value Suc.IH) simp
  moreover have "unpack_one (Suc (Suc n)) = (\<lambda>rb. bindR (rb_fetch rb 1) (\<lambda>(bs, rb).
      push_value (unpack_one (Suc n)) rb (hd bs AND 7) (drop_bit 3 (hd bs))))"
    by (rule ext) (rule unpack_one.simps(2))
  ultimately show ?case by simp
qed

lemma unpack_loop_safe:
  "rb_holds rb bs \<Longrightarrow> length bs \<le> fuel \<Longrightarrow> length bs < n \<Longrightarrow>
   (\<exists>vs. unpack_loop fuel n rb = Inr vs) \<or> (\<exists>m. unpack_loop fuel n rb = Inl (Lua_error m))"
proof (induction n arbitrary: rb bs)
  case (Suc n)
  show ?case
  proof (cases "bs = []")
    case True
    then show ?thesis using Suc.prems(1) by (auto simp: rb_read_def rb_holds_def)
  next
    case False
    then have "1 \<le> rb_len rb" using Suc.prems(1) by (cases bs) (auto simp: rb_holds_def)
    note step = unpack_loop_step [OF this, of fuel n]
    from safe_unpack_one [OF Suc.prems(2)] Suc.prems(1) order_refl show ?thesis
    proof (cases rule: safeE)
      case (ok v rb' k)
      then have "(\<exists>vs. unpack_loop fuel n rb' = Inr vs) \<or> (\<exists>m. unpack_loop fuel n rb' = Inl (Lua_error m))"
        using Suc.prems Suc.IH [of rb' "drop k bs"] by simp
      then show ?thesis unfolding step ok(1) by auto
    qed (simp only: step bindR_Inl; blast)
  qed
qed simp

text \<open>C28. Unpacking a string of any bytes ends: it returns values or raises a Lua error, and never reads outside the
  string.\<close>

theorem unpack_any_string:
  "(\<exists>vs. luaseri_unpack (ArgString s) = Inr vs) \<or> (\<exists>m. luaseri_unpack (ArgString s) = Inl (Lua_error m))"
proof -
  define len where "len = sint (of_nat (length s) :: u32)"
  let ?rb = "rball_init (map Some s) len"
  have eq: "luaseri_unpack (ArgString s) = unpack_buffer (Some (map Some s)) len"
    by (simp add: luaseri_unpack_def len_def)
  show ?thesis
  proof (cases "len \<le> 0")
    case True
    then show ?thesis unfolding eq by (auto simp: unpack_buffer_def rball_init_def rb_read_def)
  next
    case False
    have "len \<le> int (length s)"
    proof -
      have "len \<le> uint (of_nat (length s) :: u32)"
      proof -
        have "- (2 ^ 31) \<le> uint w" for w :: u32 using uint_ge_0 [of w] by (simp add: order_trans [of "- 2147483648" 0])
        then show ?thesis unfolding len_def sint_uint by (simp only: signed_take_bit_int_less_eq_self_iff) simp
      qed
      also have "\<dots> \<le> int (length s)" by (simp add: unsigned_of_nat)
      finally show ?thesis .
    qed
    then have "rb_holds ?rb (take (nat len) s)"
      using False by (simp add: rb_holds_def rball_init_def flip: map_append) (metis append_take_drop_id map_append)
    from unpack_loop_safe [OF this, of "Suc (nat len)" "Suc (nat len)"] show ?thesis
      unfolding eq using False by (auto simp: unpack_buffer_def simp del: unpack_loop.simps)
  qed
qed

end
