(* ===== verification/Service.thy ===== *)
theory Service
  imports Command
begin

text \<open>
  What the services written in C share: the events that the socket thread sends to them and the numbers in their parameters.
\<close>

definition int_of_long :: "int \<Rightarrow> int" where
  "int_of_long v = sint (word_of_int v :: u32)"

text \<open>\<^verbatim>\<open>%d\<close> of \<^verbatim>\<open>sscanf\<close>: the number and the text behind it, if there is a number.\<close>

definition scan_int :: "string \<Rightarrow> (int \<times> string) option" where
  "scan_int s = (let (v, rest) = strtol 10 s in if length rest = length s then None else Some (int_of_long v, rest))"

text \<open>A message of the socket thread: its type, the socket, \<^verbatim>\<open>ud\<close>, the data it points to and the text behind it.\<close>

record socket_event =
  ev_type :: int
  ev_id :: int
  ev_ud :: int
  ev_buffer :: "byte list"
  ev_text :: string

end
