(* ===== verification/Hashid.thy ===== *)
theory Hashid
  imports Prelude "HOL-Library.Signed_Division"
begin

text \<open>
  The connection table of the gate service, \<^verbatim>\<open>service-src/hashid.h\<close>: a socket id gets a position in an array of fixed
  size; the used positions with the same hash are chained. A node is its position in the array \<^verbatim>\<open>hi->id\<close>, and \<^verbatim>\<open>NULL\<close> is
  \<open>None\<close>. The walks along a chain have as much fuel as there are nodes; a chain of different nodes ends before that.
\<close>

section \<open>Definitions\<close>

record hashid_node =
  hn_id :: int
  hn_next :: "nat option"

record hashid =
  hi_hashmod :: int
  hi_cap :: int
  hi_count :: int
  hi_id :: "hashid_node list"
  hi_hash :: "nat option list"

function hashcap_loop :: "int \<Rightarrow> int \<Rightarrow> int res" where
  "hashcap_loop hashcap maxn =
     (if hashcap < maxn then
        if hashcap \<ge> 2 ^ 30 then Inl Int_overflow
        else if hashcap \<le> 0 then Inl Endless_loop
        else hashcap_loop (hashcap * 2) maxn
      else Inr hashcap)"
  by pat_completeness auto
termination
  by (relation "measure (\<lambda>(hashcap, maxn). nat (maxn - hashcap))") auto

declare hashcap_loop.simps [simp del]

definition free_node :: hashid_node where
  "free_node = \<lparr>hn_id = -1, hn_next = None\<rparr>"

definition hashid_init :: "int \<Rightarrow> hashid res" where
  "hashid_init maxn =
     bindR (hashcap_loop 16 maxn) (\<lambda>hashcap.
     Inr \<lparr>hi_hashmod = hashcap - 1, hi_cap = maxn, hi_count = 0, hi_id = replicate (nat maxn) free_node,
          hi_hash = replicate (nat hashcap) None\<rparr>)"

definition hashid_clear :: "hashid \<Rightarrow> hashid" where
  "hashid_clear hi = hi\<lparr>hi_id := [], hi_hash := [], hi_hashmod := 1, hi_cap := 0, hi_count := 0\<rparr>"

definition bucket :: "hashid \<Rightarrow> int \<Rightarrow> nat" where
  "bucket hi id' = nat (id' AND hi_hashmod hi)"

fun chain_find :: "hashid_node list \<Rightarrow> int \<Rightarrow> nat \<Rightarrow> nat option \<Rightarrow> int res" where
  "chain_find ns id' fuel None = Inr (-1)"
| "chain_find ns id' 0 (Some c) = Inl Endless_loop"
| "chain_find ns id' (Suc fuel) (Some c) =
     bindR (rd ns c) (\<lambda>n. if hn_id n = id' then Inr (int c) else chain_find ns id' fuel (hn_next n))"

definition hashid_lookup :: "hashid \<Rightarrow> int \<Rightarrow> int res" where
  "hashid_lookup hi id' =
     bindR (rd (hi_hash hi) (bucket hi id')) (\<lambda>c. chain_find (hi_id hi) id' (length (hi_id hi)) c)"

text \<open>The loop of \<^verbatim>\<open>hashid_remove\<close> looks at the node behind \<open>c\<close> and unlinks it if it is the right one.\<close>

fun remove_loop :: "hashid_node list \<Rightarrow> int \<Rightarrow> nat \<Rightarrow> nat \<Rightarrow> (nat \<times> hashid_node list) option res" where
  "remove_loop ns id' fuel c =
     bindR (rd ns c) (\<lambda>n.
     case hn_next n of
       None \<Rightarrow> Inr None
     | Some t \<Rightarrow>
         bindR (rd ns t) (\<lambda>m.
         if hn_id m = id' then bindR (wr ns c (n\<lparr>hn_next := hn_next m\<rparr>)) (\<lambda>ns'. Inr (Some (t, ns')))
         else case fuel of 0 \<Rightarrow> Inl Endless_loop | Suc fuel' \<Rightarrow> remove_loop ns id' fuel' t))"

declare remove_loop.simps [simp del]

definition clear_node :: "hashid \<Rightarrow> nat \<Rightarrow> (int \<times> hashid) res" where
  "clear_node hi c =
     bindR (wr (hi_id hi) c free_node) (\<lambda>ns.
     Inr (int c, hi\<lparr>hi_id := ns, hi_count := hi_count hi - 1\<rparr>))"

definition hashid_remove :: "hashid \<Rightarrow> int \<Rightarrow> (int \<times> hashid) res" where
  "hashid_remove hi id' =
     (let h = bucket hi id' in
      bindR (rd (hi_hash hi) h) (\<lambda>head.
      case head of
        None \<Rightarrow> Inr (-1, hi)
      | Some c \<Rightarrow>
          bindR (rd (hi_id hi) c) (\<lambda>n.
          if hn_id n = id' then
            bindR (wr (hi_hash hi) h (hn_next n)) (\<lambda>hash. clear_node (hi\<lparr>hi_hash := hash\<rparr>) c)
          else
            bindR (remove_loop (hi_id hi) id' (length (hi_id hi)) c) (\<lambda>r.
            case r of
              None \<Rightarrow> Inr (-1, hi)
            | Some (t, ns) \<Rightarrow> clear_node (hi\<lparr>hi_id := ns\<rparr>) t))))"

text \<open>\<^verbatim>\<open>(i+id) % hi->cap\<close> truncates towards zero, and the sum is an \<^verbatim>\<open>int\<close>.\<close>

function insert_scan :: "hashid \<Rightarrow> int \<Rightarrow> int \<Rightarrow> nat option res" where
  "insert_scan hi id' i =
     (if i < hi_cap hi then
        if i + id' \<ge> 2 ^ 31 then Inl Int_overflow
        else
          let index = (i + id') smod hi_cap hi in
          if index < 0 then Inl Out_of_bounds
          else bindR (rd (hi_id hi) (nat index)) (\<lambda>n.
               if hn_id n = -1 then Inr (Some (nat index)) else insert_scan hi id' (i + 1))
      else Inr None)"
  by pat_completeness auto
termination
  by (relation "measure (\<lambda>(hi, id', i). nat (hi_cap hi - i))") auto

declare insert_scan.simps [simp del]

definition hashid_insert :: "hashid \<Rightarrow> int \<Rightarrow> (int \<times> hashid) res" where
  "hashid_insert hi id' =
     bindR (insert_scan hi id' 0) (\<lambda>r.
     case r of
       None \<Rightarrow> Inl Assert_failed
     | Some c \<Rightarrow>
         bindR (rd (hi_id hi) c) (\<lambda>n.
         bindR (assertR (hn_next n = None)) (\<lambda>_.
         let h = bucket hi id' in
         bindR (rd (hi_hash hi) h) (\<lambda>head.
         bindR (wr (hi_id hi) c \<lparr>hn_id = id', hn_next = head\<rparr>) (\<lambda>ns.
         bindR (wr (hi_hash hi) h (Some c)) (\<lambda>hash.
         Inr (int c, hi\<lparr>hi_count := hi_count hi + 1, hi_id := ns, hi_hash := hash\<rparr>)))))))"

definition hashid_full :: "hashid \<Rightarrow> bool" where
  "hashid_full hi = (hi_count hi = hi_cap hi)"

section \<open>Chains\<close>

fun chain :: "hashid_node list \<Rightarrow> nat option \<Rightarrow> nat list \<Rightarrow> bool" where
  "chain ns c [] = (c = None)"
| "chain ns c (x # xs) = (c = Some x \<and> x < length ns \<and> chain ns (hn_next (ns ! x)) xs)"

lemma chain_frame: "chain ns c xs \<Longrightarrow> y \<notin> set xs \<Longrightarrow> chain (ns[y := n]) c xs"
  by (induction xs arbitrary: c) auto

lemma chain_bound: "chain ns c xs \<Longrightarrow> set xs \<subseteq> {..<length ns}"
  by (induction xs arbitrary: c) auto

lemma chain_length: "chain ns c xs \<Longrightarrow> distinct xs \<Longrightarrow> length xs \<le> length ns"
  using chain_bound [of ns c xs] card_mono [of "{..<length ns}" "set xs"] by (simp add: distinct_card)

definition used :: "hashid \<Rightarrow> nat set" where
  "used hi = {i. i < length (hi_id hi) \<and> hn_id (hi_id hi ! i) \<noteq> -1}"

text \<open>The position of a socket id.\<close>

definition slot_of :: "hashid \<Rightarrow> int \<Rightarrow> nat option" where
  "slot_of hi id' = (if id' = -1 then None else find (\<lambda>i. hn_id (hi_id hi ! i) = id') [0..<length (hi_id hi)])"

definition hashid_inv :: "hashid \<Rightarrow> bool" where
  "hashid_inv hi \<longleftrightarrow>
     0 \<le> hi_hashmod hi \<and> hi_hashmod hi < int (length (hi_hash hi)) \<and> hi_cap hi = int (length (hi_id hi)) \<and>
     hi_count hi = int (card (used hi)) \<and>
     (\<forall>i < length (hi_id hi). \<forall>j < length (hi_id hi). hn_id (hi_id hi ! i) = hn_id (hi_id hi ! j) \<longrightarrow>
        hn_id (hi_id hi ! i) \<noteq> -1 \<longrightarrow> i = j) \<and>
     (\<forall>i < length (hi_id hi). hn_id (hi_id hi ! i) = -1 \<longrightarrow> hn_next (hi_id hi ! i) = None) \<and>
     (\<forall>h < length (hi_hash hi). \<exists>xs. chain (hi_id hi) (hi_hash hi ! h) xs \<and> distinct xs \<and>
        set xs = {i \<in> used hi. bucket hi (hn_id (hi_id hi ! i)) = h})"

lemma bucket_less: "hashid_inv hi \<Longrightarrow> bucket hi id' < length (hi_hash hi)"
proof -
  assume "hashid_inv hi"
  then have m: "0 \<le> hi_hashmod hi" "hi_hashmod hi < int (length (hi_hash hi))" by (simp_all add: hashid_inv_def)
  then have "id' AND hi_hashmod hi < int (length (hi_hash hi))" using AND_upper2 [OF m(1), of id'] by linarith
  then show ?thesis using m by (simp add: bucket_def nat_less_iff)
qed

lemma chain_cong:
  "(\<And>x. x \<in> set xs \<Longrightarrow> ns' ! x = ns ! x) \<Longrightarrow> length ns' = length ns \<Longrightarrow> chain ns' c xs = chain ns c xs"
  by (induction xs arbitrary: c) auto

lemma hashid_chain:
  assumes "hashid_inv hi" and "h < length (hi_hash hi)"
  obtains xs where "chain (hi_id hi) (hi_hash hi ! h) xs" and "distinct xs"
    and "set xs = {i \<in> used hi. bucket hi (hn_id (hi_id hi ! i)) = h}"
  using assms unfolding hashid_inv_def by blast

lemma slot_of_Some:
  assumes "hashid_inv hi"
  shows "slot_of hi id' = Some i \<longleftrightarrow> id' \<noteq> -1 \<and> i < length (hi_id hi) \<and> hn_id (hi_id hi ! i) = id'"
proof -
  have "hn_id (hi_id hi ! i) = id' \<Longrightarrow> j < i \<Longrightarrow> i < length (hi_id hi) \<Longrightarrow> id' \<noteq> -1 \<Longrightarrow> hn_id (hi_id hi ! j) \<noteq> id'" for j
    using assms unfolding hashid_inv_def by (metis less_imp_neq less_trans)
  then show ?thesis by (auto simp: slot_of_def find_Some_iff)
qed

lemma slot_of_None:
  assumes "hashid_inv hi"
  shows "slot_of hi id' = None \<longleftrightarrow> id' = -1 \<or> (\<forall>i < length (hi_id hi). hn_id (hi_id hi ! i) \<noteq> id')"
  by (auto simp: slot_of_def find_None_iff)

section \<open>Looking up\<close>

lemma chain_find_ok:
  "chain ns c xs \<Longrightarrow> length xs \<le> fuel \<Longrightarrow>
   chain_find ns id' fuel c = Inr (case find (\<lambda>i. hn_id (ns ! i) = id') xs of None \<Rightarrow> -1 | Some i \<Rightarrow> int i)"
proof (induction xs arbitrary: c fuel)
  case (Cons x xs)
  then obtain f where "fuel = Suc f" by (cases fuel) auto
  then show ?case using Cons by simp
qed simp

lemma find_in_chain:
  assumes "hashid_inv hi" and "set xs = {i \<in> used hi. bucket hi (hn_id (hi_id hi ! i)) = bucket hi id'}"
  shows "find (\<lambda>i. hn_id (hi_id hi ! i) = id') xs = slot_of hi id'"
proof (cases "slot_of hi id'")
  case None
  then have "\<forall>i \<in> set xs. hn_id (hi_id hi ! i) \<noteq> id'" using assms by (auto simp: slot_of_None used_def)
  then show ?thesis using None by (simp add: find_None_iff)
next
  case (Some i)
  then have i: "id' \<noteq> -1" "i < length (hi_id hi)" "hn_id (hi_id hi ! i) = id'" using slot_of_Some [OF assms(1)] by auto
  then have "i \<in> set xs" using assms(2) by (simp add: used_def)
  then obtain j where j: "find (\<lambda>i. hn_id (hi_id hi ! i) = id') xs = Some j" using i(3) by (cases "find (\<lambda>i. hn_id (hi_id hi ! i) = id') xs") (auto simp: find_None_iff)
  then have "j \<in> set xs" "hn_id (hi_id hi ! j) = id'" by (auto simp: find_Some_iff)
  then have "slot_of hi id' = Some j" using assms(2) i(1) by (auto simp: slot_of_Some [OF assms(1)] used_def)
  then show ?thesis using j Some by simp
qed

lemma hashid_lookup_ok:
  assumes "hashid_inv hi"
  shows "hashid_lookup hi id' = Inr (case slot_of hi id' of None \<Rightarrow> -1 | Some i \<Rightarrow> int i)"
proof -
  obtain xs where xs: "chain (hi_id hi) (hi_hash hi ! bucket hi id') xs" "distinct xs"
    "set xs = {i \<in> used hi. bucket hi (hn_id (hi_id hi ! i)) = bucket hi id'}"
    using hashid_chain [OF assms bucket_less [OF assms]] .
  show ?thesis
    using chain_find_ok [OF xs(1) chain_length [OF xs(1,2)]] find_in_chain [OF assms xs(3)] bucket_less [OF assms]
    by (simp add: hashid_lookup_def)
qed

section \<open>Inserting\<close>

lemma smod_mod: "0 \<le> a \<Longrightarrow> 0 < b \<Longrightarrow> a smod b = a mod (b :: int)"
  by (cases "a = 0")
    (simp_all add: signed_modulo_int_def signed_divide_int_def minus_div_mult_eq_mod [symmetric] mult.commute)

lemma insert_scan_ok:
  assumes "hi_cap hi = int (length (hi_id hi))" and "0 \<le> id'" and "id' + hi_cap hi < 2 ^ 31"
  shows "0 \<le> i \<Longrightarrow> \<exists>r. insert_scan hi id' i = Inr r \<and>
    (case r of
       None \<Rightarrow> \<forall>j. i \<le> j \<longrightarrow> j < hi_cap hi \<longrightarrow> hn_id (hi_id hi ! nat ((j + id') mod hi_cap hi)) \<noteq> -1
     | Some c \<Rightarrow> c < length (hi_id hi) \<and> hn_id (hi_id hi ! c) = -1)"
proof (induction "nat (hi_cap hi - i)" arbitrary: i)
  case 0
  then show ?case by (simp add: insert_scan.simps)
next
  case (Suc n)
  then have i: "i < hi_cap hi" by simp
  let ?k = "nat ((i + id') mod hi_cap hi)"
  have pos: "0 < hi_cap hi" "0 \<le> i + id'" using i Suc.prems assms(2) by auto
  then have k: "(i + id') smod hi_cap hi = (i + id') mod hi_cap hi" "0 \<le> (i + id') mod hi_cap hi"
    by (simp_all add: smod_mod)
  have "?k < length (hi_id hi)"
    using pos pos_mod_bound [OF pos(1), of "i + id'"] assms(1) by (simp add: nat_less_iff)
  note k = k this
  show ?case
  proof (cases "hn_id (hi_id hi ! ?k) = -1")
    case True
    then show ?thesis using i k assms(3) by (simp add: insert_scan.simps [of hi id' i])
  next
    case False
    have "insert_scan hi id' i = insert_scan hi id' (i + 1)"
      using i k assms(3) False by (simp add: insert_scan.simps [of hi id' i])
    moreover obtain r where r: "insert_scan hi id' (i + 1) = Inr r"
      "case r of None \<Rightarrow> \<forall>j. i + 1 \<le> j \<longrightarrow> j < hi_cap hi \<longrightarrow> hn_id (hi_id hi ! nat ((j + id') mod hi_cap hi)) \<noteq> -1
       | Some c \<Rightarrow> c < length (hi_id hi) \<and> hn_id (hi_id hi ! c) = -1"
    proof -
      have "n = nat (hi_cap hi - (i + 1))" using Suc.hyps(2) by linarith
      then show thesis using Suc.hyps(1) [of "i + 1"] Suc.prems that by auto
    qed
    moreover have "\<forall>j. i \<le> j \<longrightarrow> j < hi_cap hi \<longrightarrow> hn_id (hi_id hi ! nat ((j + id') mod hi_cap hi)) \<noteq> -1"
      if "r = None"
    proof (intro allI impI)
      fix j assume "i \<le> j" "j < hi_cap hi"
      then show "hn_id (hi_id hi ! nat ((j + id') mod hi_cap hi)) \<noteq> -1"
        using r(2) that False by (cases "j = i") auto
    qed
    ultimately show ?thesis by (cases r) auto
  qed
qed

lemma insert_scan_finds:
  assumes inv: "hashid_inv hi" and id: "0 \<le> id'" "id' + hi_cap hi < 2 ^ 31" and room: "hi_count hi < hi_cap hi"
  obtains c where "insert_scan hi id' 0 = Inr (Some c)" and "c < length (hi_id hi)" and "hn_id (hi_id hi ! c) = -1"
proof -
  have cap: "hi_cap hi = int (length (hi_id hi))" using inv by (simp add: hashid_inv_def)
  obtain r where r: "insert_scan hi id' 0 = Inr r"
    "case r of None \<Rightarrow> \<forall>j. 0 \<le> j \<longrightarrow> j < hi_cap hi \<longrightarrow> hn_id (hi_id hi ! nat ((j + id') mod hi_cap hi)) \<noteq> -1
     | Some c \<Rightarrow> c < length (hi_id hi) \<and> hn_id (hi_id hi ! c) = -1"
    using insert_scan_ok [OF cap id, of 0] by auto
  have "\<exists>f < length (hi_id hi). hn_id (hi_id hi ! f) = -1"
  proof (rule ccontr)
    assume "\<not> ?thesis"
    then have "used hi = {..<length (hi_id hi)}" by (auto simp: used_def)
    then show False using room cap inv by (simp add: hashid_inv_def)
  qed
  then obtain f where f: "f < length (hi_id hi)" "hn_id (hi_id hi ! f) = -1" by blast
  have "r \<noteq> None"
  proof
    assume "r = None"
    let ?j = "(int f - id') mod hi_cap hi"
    have "(?j + id') mod hi_cap hi = int f" using f(1) cap by (simp add: mod_add_left_eq)
    moreover have "0 < hi_cap hi" using f(1) cap by linarith
    then have "0 \<le> ?j" "?j < hi_cap hi" by simp_all
    ultimately show False using r(2) \<open>r = None\<close> f(2) by fastforce
  qed
  then show thesis using r that by auto
qed

text \<open>A free node is in no chain.\<close>

lemma used_insert:
  "c < length (hi_id hi) \<Longrightarrow> id' \<noteq> -1 \<Longrightarrow>
   used (hi\<lparr>hi_count := n, hi_id := (hi_id hi)[c := \<lparr>hn_id = id', hn_next = x\<rparr>], hi_hash := hash\<rparr>) = insert c (used hi)"
  by (auto simp: used_def nth_list_update)

lemma hashid_insert_ok:
  assumes inv: "hashid_inv hi" and id: "0 \<le> id'" "id' + hi_cap hi < 2 ^ 31" and room: "hi_count hi < hi_cap hi"
    and new: "slot_of hi id' = None"
  shows "\<exists>c hi'. hashid_insert hi id' = Inr (int c, hi') \<and> hashid_inv hi' \<and> c < length (hi_id hi) \<and> c \<notin> used hi \<and>
    hi_cap hi' = hi_cap hi \<and> hi_count hi' = hi_count hi + 1 \<and> slot_of hi' = (slot_of hi)(id' \<mapsto> c)"
proof -
  obtain c where scan: "insert_scan hi id' 0 = Inr (Some c)" and c: "c < length (hi_id hi)" "hn_id (hi_id hi ! c) = -1"
    using insert_scan_finds [OF inv id room] .
  let ?h = "bucket hi id'"
  let ?ns = "(hi_id hi)[c := \<lparr>hn_id = id', hn_next = hi_hash hi ! ?h\<rparr>]"
  let ?hi = "hi\<lparr>hi_count := hi_count hi + 1, hi_id := ?ns, hi_hash := (hi_hash hi)[?h := Some c]\<rparr>"
  have h: "?h < length (hi_hash hi)" using bucket_less [OF inv] .
  have nonext: "hn_next (hi_id hi ! c) = None" using inv c by (simp add: hashid_inv_def)
  have run: "hashid_insert hi id' = Inr (int c, ?hi)"
    using scan c h nonext by (simp add: hashid_insert_def Let_def)
  have used: "used ?hi = insert c (used hi)" "c \<notin> used hi" using used_insert [OF c(1)] id c by (auto simp: used_def)
  have fin: "finite (used hi)" by (simp add: used_def)
  have fresh: "hn_id (hi_id hi ! i) \<noteq> id'" if "i < length (hi_id hi)" for i
    using new that id slot_of_None [OF inv] by auto
  have keep: "hn_id (?ns ! i) = hn_id (hi_id hi ! i)" if "i \<in> used hi" for i
    using that used(2) by (cases "i = c") auto
  have bucket: "bucket ?hi = bucket hi" by (simp add: bucket_def fun_eq_iff)
  have chains: "\<exists>xs. chain ?ns ((hi_hash hi)[?h := Some c] ! k) xs \<and> distinct xs \<and>
      set xs = {i \<in> insert c (used hi). bucket hi (hn_id (?ns ! i)) = k}" if k: "k < length (hi_hash hi)" for k
  proof -
    obtain xs where xs: "chain (hi_id hi) (hi_hash hi ! k) xs" "distinct xs"
      "set xs = {i \<in> used hi. bucket hi (hn_id (hi_id hi ! i)) = k}"
      using hashid_chain [OF inv k] .
    have cxs: "c \<notin> set xs" using xs(3) used(2) by auto
    have chain: "chain ?ns (hi_hash hi ! k) xs" using chain_frame [OF xs(1) cxs] .
    have set: "set xs = {i \<in> used hi. bucket hi (hn_id (?ns ! i)) = k}"
      unfolding xs(3) using keep by auto
    show ?thesis
    proof (cases "k = ?h")
      case True
      then have "{i \<in> insert c (used hi). bucket hi (hn_id (?ns ! i)) = k} = insert c (set xs)"
        using c(1) unfolding set by auto
      then show ?thesis using True h cxs xs(2) chain c(1) by (intro exI [of _ "c # xs"]) simp
    next
      case False
      then have "{i \<in> insert c (used hi). bucket hi (hn_id (?ns ! i)) = k} = set xs"
        using c(1) unfolding set by auto
      then show ?thesis using False chain xs(2) by (intro exI [of _ xs]) simp
    qed
  qed
  have "hashid_inv ?hi"
    using inv used fin fresh chains id c(1) unfolding hashid_inv_def bucket
    by (auto simp: nth_list_update)
  moreover have "slot_of ?hi = (slot_of hi)(id' \<mapsto> c)"
  proof
    fix k
    show "slot_of ?hi k = ((slot_of hi)(id' \<mapsto> c)) k"
    proof (cases "slot_of ?hi k")
      case None
      then show ?thesis using slot_of_None [OF inv, of k] slot_of_None [OF \<open>hashid_inv ?hi\<close>, of k] c id
        by (auto simp: nth_list_update split: if_splits)
    next
      case (Some i)
      then have "k \<noteq> -1" "i < length (hi_id hi)" "hn_id (?ns ! i) = k" using slot_of_Some [OF \<open>hashid_inv ?hi\<close>, of k i] by auto
      then show ?thesis using Some slot_of_Some [OF inv, of k i] fresh by (cases "i = c") (auto simp: nth_list_update)
    qed
  qed
  ultimately show ?thesis using run c used(2) by auto
qed

section \<open>Removing\<close>

lemma remove_loop_ok:
  "chain ns (Some c) (c # xs) \<Longrightarrow> distinct (c # xs) \<Longrightarrow> length xs \<le> fuel \<Longrightarrow>
   (case find (\<lambda>i. hn_id (ns ! i) = id') xs of
      None \<Rightarrow> remove_loop ns id' fuel c = Inr None
    | Some t \<Rightarrow> \<exists>ns'. remove_loop ns id' fuel c = Inr (Some (t, ns')) \<and> chain ns' (Some c) (c # remove1 t xs) \<and>
        length ns' = length ns \<and> (\<forall>i. hn_id (ns' ! i) = hn_id (ns ! i)) \<and> (\<forall>i. i \<notin> set (c # xs) \<longrightarrow> ns' ! i = ns ! i))"
proof (induction xs arbitrary: c fuel)
  case Nil
  then show ?case by (simp add: remove_loop.simps [of ns])
next
  case (Cons t xs)
  have c: "c < length ns" "hn_next (ns ! c) = Some t" "t < length ns" "chain ns (hn_next (ns ! t)) xs" using Cons.prems(1) by auto
  show ?case
  proof (cases "hn_id (ns ! t) = id'")
    case True
    let ?ns = "ns[c := (ns ! c)\<lparr>hn_next := hn_next (ns ! t)\<rparr>]"
    have "remove_loop ns id' fuel c = Inr (Some (t, ?ns))"
      using c True by (simp add: remove_loop.simps [of ns])
    moreover have "chain ?ns (Some c) (c # xs)" using c Cons.prems(2) chain_frame by auto
    ultimately show ?thesis using True c(1) by (auto simp: nth_list_update)
  next
    case False
    obtain f where f: "fuel = Suc f" "length xs \<le> f" using Cons.prems(3) by (cases fuel) auto
    have step: "remove_loop ns id' fuel c = remove_loop ns id' f t"
      using c f(1) False by (simp add: remove_loop.simps [of ns id' _ c])
    have t: "chain ns (Some t) (t # xs)" "distinct (t # xs)" "c \<notin> set (t # xs)" using c Cons.prems(2) by auto
    note IH = Cons.IH [OF t(1,2) f(2)]
    show ?thesis
    proof (cases "find (\<lambda>i. hn_id (ns ! i) = id') xs")
      case None
      then show ?thesis using IH step False by simp
    next
      case (Some u)
      then obtain ns' where ns': "remove_loop ns id' f t = Inr (Some (u, ns'))" "chain ns' (Some t) (t # remove1 u xs)"
          "length ns' = length ns" "\<forall>i. hn_id (ns' ! i) = hn_id (ns ! i)" "\<forall>i. i \<notin> set (t # xs) \<longrightarrow> ns' ! i = ns ! i"
        using IH by auto
      have "u \<noteq> t" using Some t(2) by (auto simp: find_Some_iff)
      moreover have "ns' ! c = ns ! c" using ns'(5) t(3) by blast
      ultimately show ?thesis using Some step False ns' c by auto
    qed
  qed
qed

lemma used_clear: "t < length (hi_id hi) \<Longrightarrow> length ns = length (hi_id hi) \<Longrightarrow> \<forall>i. hn_id (ns ! i) = hn_id (hi_id hi ! i) \<Longrightarrow>
   used (hi\<lparr>hi_hash := hash, hi_id := ns[t := free_node], hi_count := n\<rparr>) = used hi - {t}"
  by (auto simp: used_def nth_list_update free_node_def)

text \<open>What removing the used position \<open>t\<close> leaves: the chain of its bucket without it, and all others as they were.\<close>

lemma hashid_removed:
  assumes inv: "hashid_inv hi" and t: "t \<in> used hi" and h: "h = bucket hi (hn_id (hi_id hi ! t))"
    and len: "length ns = length (hi_id hi)" "length hash = length (hi_hash hi)"
    and ids: "\<forall>i. hn_id (ns ! i) = hn_id (hi_id hi ! i)"
    and xs: "chain (hi_id hi) (hi_hash hi ! h) xs" "distinct xs" "set xs = {i \<in> used hi. bucket hi (hn_id (hi_id hi ! i)) = h}"
    and new: "chain ns (hash ! h) (remove1 t xs)" and others: "\<forall>i. i \<notin> set xs \<longrightarrow> ns ! i = hi_id hi ! i"
      "\<forall>k. k \<noteq> h \<longrightarrow> hash ! k = hi_hash hi ! k"
  defines "hi' \<equiv> hi\<lparr>hi_hash := hash, hi_id := ns[t := free_node], hi_count := hi_count hi - 1\<rparr>"
  shows "hashid_inv hi'" and "slot_of hi' = (slot_of hi)(hn_id (hi_id hi ! t) := None)"
proof -
  have tl: "t < length (hi_id hi)" "hn_id (hi_id hi ! t) \<noteq> -1" using t by (auto simp: used_def)
  have used: "used hi' = used hi - {t}" unfolding hi'_def by (rule used_clear [OF tl(1) len(1) ids])
  have fin: "finite (used hi)" by (simp add: used_def)
  have idn: "hn_id (hi_id hi' ! i) = (if i = t then -1 else hn_id (hi_id hi ! i))" if "i < length (hi_id hi)" for i
    using that ids len by (simp add: hi'_def nth_list_update free_node_def)
  have bucket: "bucket hi' = bucket hi" by (simp add: bucket_def fun_eq_iff hi'_def)
  have chains: "\<exists>ys. chain (hi_id hi') (hi_hash hi' ! k) ys \<and> distinct ys \<and>
      set ys = {i \<in> used hi'. bucket hi (hn_id (hi_id hi' ! i)) = k}" if k: "k < length (hi_hash hi)" for k
  proof -
    have set: "{i \<in> used hi'. bucket hi (hn_id (hi_id hi' ! i)) = k} = {i \<in> used hi. bucket hi (hn_id (hi_id hi ! i)) = k} - {t}"
      using used idn by (auto simp: used_def)
    show ?thesis
    proof (cases "k = h")
      case True
      have "chain (hi_id hi') (hi_hash hi' ! k) (remove1 t xs)"
        using chain_frame [OF new, of t] xs(2) True by (simp add: hi'_def)
      then show ?thesis unfolding set using xs(2,3) True by (intro exI [of _ "remove1 t xs"]) simp
    next
      case False
      obtain ys where ys: "chain (hi_id hi) (hi_hash hi ! k) ys" "distinct ys"
        "set ys = {i \<in> used hi. bucket hi (hn_id (hi_id hi ! i)) = k}"
        using hashid_chain [OF inv k] .
      have "t \<notin> set ys" "\<forall>i \<in> set ys. i \<notin> set xs" unfolding ys(3) xs(3) using False h by auto
      moreover from this have "chain ns (hi_hash hi ! k) ys"
        using chain_cong [of ys ns "hi_id hi"] others(1) len(1) ys(1) by auto
      ultimately have "chain (hi_id hi') (hi_hash hi' ! k) ys"
        using chain_frame others(2) False by (simp add: hi'_def)
      then show ?thesis unfolding set using ys(2,3) \<open>t \<notin> set ys\<close> by (intro exI [of _ ys]) simp
    qed
  qed
  have len': "length (hi_id hi') = length (hi_id hi)" "length (hi_hash hi') = length (hi_hash hi)" using len by (simp_all add: hi'_def)
  have count: "hi_count hi' = int (card (used hi'))"
  proof -
    have "0 < card (used hi)" using t fin by (auto simp: card_gt_0_iff)
    moreover have "hi_count hi = int (card (used hi))" using inv by (simp add: hashid_inv_def)
    ultimately show ?thesis using t fin used by (simp add: hi'_def of_nat_diff)
  qed
  have free: "hn_next (hi_id hi' ! i) = None" if "i < length (hi_id hi)" "hn_id (hi_id hi' ! i) = -1" for i
  proof (cases "i = t")
    case True
    then show ?thesis using tl(1) len(1) by (simp add: hi'_def free_node_def)
  next
    case False
    then have "hn_id (hi_id hi ! i) = -1" using idn [OF that(1)] that(2) by simp
    then have "ns ! i = hi_id hi ! i" "hn_next (hi_id hi ! i) = None"
      using others(1) inv that(1) by (auto simp: xs(3) used_def hashid_inv_def)
    then show ?thesis using False by (simp add: hi'_def)
  qed
  have inj: "i = j" if "i < length (hi_id hi)" "j < length (hi_id hi)" "hn_id (hi_id hi' ! i) = hn_id (hi_id hi' ! j)"
      "hn_id (hi_id hi' ! i) \<noteq> -1" for i j
    using that inv idn [OF that(1)] idn [OF that(2)] by (auto simp: hashid_inv_def split: if_splits)
  have same: "hi_hashmod hi' = hi_hashmod hi" "hi_cap hi' = hi_cap hi" by (simp_all add: hi'_def)
  show inv': "hashid_inv hi'"
    unfolding hashid_inv_def len' same bucket using inv count free inj chains by (simp add: hashid_inv_def)
  show "slot_of hi' = (slot_of hi)(hn_id (hi_id hi ! t) := None)"
  proof
    fix k
    show "slot_of hi' k = ((slot_of hi)(hn_id (hi_id hi ! t) := None)) k"
    proof (cases "slot_of hi' k")
      case None
      then show ?thesis using slot_of_None [OF inv, of k] slot_of_None [OF inv', of k] idn len'
        by (auto split: if_splits)
    next
      case (Some i)
      then have "k \<noteq> -1" "i < length (hi_id hi)" "hn_id (hi_id hi' ! i) = k" using slot_of_Some [OF inv', of k i] len' by auto
      then have "k \<noteq> -1" "i \<noteq> t" "i < length (hi_id hi)" "hn_id (hi_id hi ! i) = k" using idn [of i] by (auto split: if_splits)
      moreover from this have "k \<noteq> hn_id (hi_id hi ! t)" using inv tl by (auto simp: hashid_inv_def)
      ultimately show ?thesis using Some slot_of_Some [OF inv, of k i] by simp
    qed
  qed
qed

lemma hashid_remove_ok:
  assumes inv: "hashid_inv hi"
  shows "case slot_of hi id' of
      None \<Rightarrow> hashid_remove hi id' = Inr (-1, hi)
    | Some t \<Rightarrow> \<exists>hi'. hashid_remove hi id' = Inr (int t, hi') \<and> hashid_inv hi' \<and> hi_cap hi' = hi_cap hi \<and>
        hi_count hi' = hi_count hi - 1 \<and> slot_of hi' = (slot_of hi)(id' := None)"
proof -
  let ?h = "bucket hi id'"
  have h: "?h < length (hi_hash hi)" using bucket_less [OF inv] .
  obtain xs where xs: "chain (hi_id hi) (hi_hash hi ! ?h) xs" "distinct xs"
    "set xs = {i \<in> used hi. bucket hi (hn_id (hi_id hi ! i)) = ?h}"
    using hashid_chain [OF inv h] .
  note find = find_in_chain [OF inv xs(3)]
  show ?thesis
  proof (cases xs)
    case Nil
    then show ?thesis using xs(1) find h by (simp add: hashid_remove_def)
  next
    case (Cons c ys)
    have c: "hi_hash hi ! ?h = Some c" "c < length (hi_id hi)" "chain (hi_id hi) (hn_next (hi_id hi ! c)) ys" "c \<in> used hi"
      using xs Cons by auto
    show ?thesis
    proof (cases "hn_id (hi_id hi ! c) = id'")
      case True
      let ?hash = "(hi_hash hi)[?h := hn_next (hi_id hi ! c)]"
      have "hashid_remove hi id' = Inr (int c, hi\<lparr>hi_hash := ?hash, hi_id := (hi_id hi)[c := free_node], hi_count := hi_count hi - 1\<rparr>)"
        using c h True by (simp add: hashid_remove_def clear_node_def)
      moreover have "chain (hi_id hi) (?hash ! ?h) (remove1 c xs)" using c(3) Cons h by simp
      then have "hashid_inv (hi\<lparr>hi_hash := ?hash, hi_id := (hi_id hi)[c := free_node], hi_count := hi_count hi - 1\<rparr>)"
          "slot_of (hi\<lparr>hi_hash := ?hash, hi_id := (hi_id hi)[c := free_node], hi_count := hi_count hi - 1\<rparr>) = (slot_of hi)(id' := None)"
        using hashid_removed [where hash = ?hash and ns = "hi_id hi" and h = ?h and xs = xs, OF inv c(4)] True xs by simp_all
      moreover have "slot_of hi id' = Some c" using find [symmetric] Cons True by simp
      ultimately show ?thesis by simp
    next
      case False
      have run: "chain (hi_id hi) (Some c) (c # ys)" "distinct (c # ys)" "length ys \<le> length (hi_id hi)"
        using c xs(2) Cons chain_length [OF xs(1,2)] by auto
      note loop = remove_loop_ok [OF this, of id']
      have slot: "slot_of hi id' = find (\<lambda>i. hn_id (hi_id hi ! i) = id') ys" using find Cons False by simp
      show ?thesis
      proof (cases "slot_of hi id'")
        case None
        then show ?thesis using loop slot c h False by (simp add: hashid_remove_def)
      next
        case (Some t)
        then obtain ns where ns: "remove_loop (hi_id hi) id' (length (hi_id hi)) c = Inr (Some (t, ns))"
            "chain ns (Some c) (c # remove1 t ys)" "length ns = length (hi_id hi)"
            "\<forall>i. hn_id (ns ! i) = hn_id (hi_id hi ! i)" "\<forall>i. i \<notin> set (c # ys) \<longrightarrow> ns ! i = hi_id hi ! i"
          using loop slot by auto
        let ?hi = "hi\<lparr>hi_hash := hi_hash hi, hi_id := ns[t := free_node], hi_count := hi_count hi - 1\<rparr>"
        have t: "t \<in> set ys" "hn_id (hi_id hi ! t) = id'" using Some slot by (auto simp: find_Some_iff)
        then have tu: "t \<in> used hi" "t < length (hi_id hi)" using xs(3) Cons by (auto simp: used_def)
        have "hashid_remove hi id' = Inr (int t, ?hi)"
          using c h False ns(1,3) tu by (simp add: hashid_remove_def clear_node_def)
        moreover have "chain ns (hi_hash hi ! ?h) (remove1 t xs)" using ns(2) c(1) Cons t(1) run(2) by auto
        then have "hashid_inv ?hi" "slot_of ?hi = (slot_of hi)(id' := None)"
          using hashid_removed [where hash = "hi_hash hi" and ns = ns and h = ?h and xs = xs, OF inv tu(1)] t(2) ns xs Cons by simp_all
        ultimately show ?thesis using Some by simp
      qed
    qed
  qed
qed

section \<open>The table as a dictionary\<close>

lemma hashcap_loop_ok: "0 < k \<Longrightarrow> maxn \<le> 2 ^ 30 \<Longrightarrow> \<exists>c. hashcap_loop k maxn = Inr c \<and> 0 < c \<and> maxn \<le> c"
proof (induction k maxn rule: hashcap_loop.induct)
  case (1 k maxn)
  then show ?case by (cases "k < maxn") (auto simp: hashcap_loop.simps [of k])
qed

lemma hashcap_loop_pos: "hashcap_loop k maxn = Inr c \<Longrightarrow> 0 < k \<Longrightarrow> 0 < c"
proof (induction k maxn rule: hashcap_loop.induct)
  case (1 k maxn)
  then show ?case by (auto simp: hashcap_loop.simps [of k] split: if_splits)
qed

lemma hashid_init_inv:
  assumes "hashid_init maxn = Inr hi" and "0 < maxn"
  shows "hashid_inv hi" and "hi_cap hi = maxn" and "hi_count hi = 0" and "slot_of hi = (\<lambda>_. None)"
proof -
  obtain c where c: "hashcap_loop 16 maxn = Inr c"
    and hi: "hi = \<lparr>hi_hashmod = c - 1, hi_cap = maxn, hi_count = 0, hi_id = replicate (nat maxn) free_node, hi_hash = replicate (nat c) None\<rparr>"
    using assms(1) by (auto simp: hashid_init_def res_simps)
  have "used hi = {}" by (auto simp: hi used_def free_node_def)
  then show inv: "hashid_inv hi" using hashcap_loop_pos [OF c] assms(2)
    by (auto simp: hi hashid_inv_def free_node_def intro: exI [of _ "[]"])
  show "slot_of hi = (\<lambda>_. None)" using slot_of_None [OF inv] by (auto simp: fun_eq_iff free_node_def hi)
qed (use assms in \<open>auto simp: hashid_init_def res_simps\<close>)

lemma hashid_init_ok:
  assumes "0 < maxn" and "maxn \<le> 2 ^ 30"
  shows "\<exists>hi. hashid_init maxn = Inr hi \<and> hashid_inv hi \<and> hi_cap hi = maxn \<and> hi_count hi = 0 \<and> slot_of hi = (\<lambda>_. None)"
proof -
  obtain hi where "hashid_init maxn = Inr hi" using hashcap_loop_ok [of 16 maxn] assms by (auto simp: hashid_init_def)
  then show ?thesis using hashid_init_inv assms(1) by blast
qed

definition hashid_add :: "hashid \<Rightarrow> int \<Rightarrow> hashid res" where
  "hashid_add hi id' = bindR (hashid_insert hi id') (\<lambda>(_, hi'). Inr hi')"

definition hashid_chosen :: "hashid \<Rightarrow> int \<Rightarrow> nat" where
  "hashid_chosen hi id' = (case hashid_insert hi id' of Inr (i, _) \<Rightarrow> nat i | _ \<Rightarrow> 0)"

definition socket_id :: "int \<Rightarrow> bool" where
  "socket_id id' \<longleftrightarrow> 0 \<le> id' \<and> id' < 2 ^ 30"

definition conn_inv :: "hashid \<Rightarrow> bool" where
  "conn_inv hi \<longleftrightarrow> hashid_inv hi \<and> hi_cap hi \<le> 2 ^ 30"

definition conn_room :: "hashid \<Rightarrow> nat" where
  "conn_room hi = nat (hi_cap hi - hi_count hi)"

interpretation connections: dict slot_of hashid_add "\<lambda>id'. id'" hashid_chosen conn_inv conn_room socket_id
proof
  fix hi id'
  assume a: "conn_inv hi" "socket_id id'" "slot_of hi id' = None" "0 < conn_room hi"
  then obtain c hi' where "hashid_insert hi id' = Inr (int c, hi')" "hashid_inv hi'" "hi_cap hi' = hi_cap hi"
      "hi_count hi' = hi_count hi + 1" "slot_of hi' = (slot_of hi)(id' \<mapsto> c)"
    using hashid_insert_ok [of hi id'] by (auto simp: conn_inv_def socket_id_def conn_room_def)
  then show "\<exists>hi'. hashid_add hi id' = Inr hi' \<and> conn_inv hi' \<and> slot_of hi' = (slot_of hi)(id' \<mapsto> hashid_chosen hi id') \<and>
      conn_room hi' = conn_room hi - 1"
    using a by (auto simp: hashid_add_def hashid_chosen_def conn_inv_def conn_room_def)
qed

text \<open>The gate can enter as many different sockets into a new connection table as it was made for, and finds each of
  them; a lookup of any other socket gives -1.\<close>

theorem connections_all_found:
  assumes "0 < maxn" and "maxn \<le> 2 ^ 30" and "distinct ids" and "\<forall>id' \<in> set ids. socket_id id'" and "int (length ids) \<le> maxn"
  shows "\<exists>hi0 hi. hashid_init maxn = Inr hi0 \<and> connections.adds hi0 ids = Inr hi \<and>
    (\<forall>id'. \<exists>i. hashid_lookup hi id' = Inr i \<and> (0 \<le> i \<longleftrightarrow> id' \<in> set ids))"
proof -
  obtain hi0 where hi0: "hashid_init maxn = Inr hi0" "hashid_inv hi0" "hi_cap hi0 = maxn" "hi_count hi0 = 0" "slot_of hi0 = (\<lambda>_. None)"
    using hashid_init_ok [OF assms(1,2)] by blast
  then have room: "conn_inv hi0" "length ids \<le> conn_room hi0" using assms(2,5) by (simp_all add: conn_inv_def conn_room_def)
  have "\<exists>hi. connections.adds hi0 ids = Inr hi \<and> conn_inv hi \<and> dom (slot_of hi) = set ids"
    using connections.adds_ok [of hi0 ids] room assms(3,4) hi0(5) by auto
  then obtain hi where hi: "connections.adds hi0 ids = Inr hi" "conn_inv hi" "dom (slot_of hi) = set ids" by blast
  have "\<exists>i. hashid_lookup hi id' = Inr i \<and> (0 \<le> i \<longleftrightarrow> id' \<in> set ids)" for id'
    using hashid_lookup_ok [of hi id'] hi(2) unfolding hi(3) [symmetric]
    by (cases "slot_of hi id'") (auto simp: conn_inv_def)
  with hi0(1) hi(1) show ?thesis by blast
qed

theorem connections_all_found_witness:
  "\<exists>hi0 hi. hashid_init 4 = Inr hi0 \<and> connections.adds hi0 [7, 23, 8] = Inr hi \<and>
    (\<forall>id'. \<exists>i. hashid_lookup hi id' = Inr i \<and> (0 \<le> i \<longleftrightarrow> id' \<in> set [7, 23, 8]))"
  by (rule connections_all_found) (simp_all add: socket_id_def)

text \<open>A socket that is entered is found at its position until it is removed; entering and removing it does not disturb
  any other socket, and after the removal the table answers as before.\<close>

theorem connection_until_removed:
  assumes "hashid_inv hi" and "0 \<le> id'" and "id' + hi_cap hi < 2 ^ 31" and "\<not> hashid_full hi" and "hashid_lookup hi id' = Inr (-1)"
  shows "\<exists>c hi1 hi2. hashid_insert hi id' = Inr (c, hi1) \<and> hashid_inv hi1 \<and> 0 \<le> c \<and> c < hi_cap hi \<and>
     (\<forall>k. hashid_lookup hi k \<noteq> Inr c) \<and> (\<forall>k. hashid_lookup hi1 k = (if k = id' then Inr c else hashid_lookup hi k)) \<and>
     hashid_remove hi1 id' = Inr (c, hi2) \<and> hashid_inv hi2 \<and> (\<forall>k. hashid_lookup hi2 k = hashid_lookup hi k)"
proof -
  have none: "slot_of hi id' = None" using assms(5) hashid_lookup_ok [OF assms(1), of id'] by (simp split: option.splits)
  have "card (used hi) \<le> length (hi_id hi)" using card_mono [of "{..<length (hi_id hi)}" "used hi"] by (auto simp: used_def)
  then have room: "hi_count hi < hi_cap hi" using assms(1,4) by (simp add: hashid_full_def hashid_inv_def)
  obtain c hi1 where c: "hashid_insert hi id' = Inr (int c, hi1)" "hashid_inv hi1" "c < length (hi_id hi)" "c \<notin> used hi"
      "slot_of hi1 = (slot_of hi)(id' \<mapsto> c)"
    using hashid_insert_ok [OF assms(1-3) room none] by blast
  obtain hi2 where hi2: "hashid_remove hi1 id' = Inr (int c, hi2)" "hashid_inv hi2" "slot_of hi2 = (slot_of hi1)(id' := None)"
    using hashid_remove_ok [OF c(2), of id'] c(5) by auto
  have "slot_of hi k \<noteq> Some c" for k using slot_of_Some [OF assms(1), of k c] c(4) by (auto simp: used_def)
  then have free: "hashid_lookup hi k \<noteq> Inr (int c)" for k
    using hashid_lookup_ok [OF assms(1), of k] by (auto split: option.splits)
  have look1: "hashid_lookup hi1 k = (if k = id' then Inr (int c) else hashid_lookup hi k)" for k
    using hashid_lookup_ok [OF assms(1), of k] hashid_lookup_ok [OF c(2), of k] c(5) by simp
  have "slot_of hi2 = slot_of hi" using hi2(3) c(5) none by auto
  then have look2: "hashid_lookup hi2 k = hashid_lookup hi k" for k
    using hashid_lookup_ok [OF assms(1), of k] hashid_lookup_ok [OF hi2(2), of k] by simp
  have "int c < hi_cap hi" using c(3) assms(1) by (simp add: hashid_inv_def)
  with c(1,2) hi2(1,2) free look1 look2 show ?thesis by (intro exI [of _ "int c"] exI [of _ hi1] exI [of _ hi2]) simp
qed

definition ex_connections :: hashid where
  "ex_connections = \<lparr>hi_hashmod = 15, hi_cap = 2, hi_count = 1, hi_id = [free_node, \<lparr>hn_id = 7, hn_next = None\<rparr>],
     hi_hash = (replicate 16 None)[7 := Some 1]\<rparr>"

lemma ex_connections_inv: "hashid_inv ex_connections"
proof -
  have used: "used ex_connections = {1}"
    by (auto simp: used_def ex_connections_def free_node_def less_Suc_eq)
  have "\<exists>xs. chain (hi_id ex_connections) (hi_hash ex_connections ! h) xs \<and> distinct xs \<and>
      set xs = {i \<in> {1}. bucket ex_connections (hn_id (hi_id ex_connections ! i)) = h}" if "h < 16" for h
    using that by (intro exI [of _ "if h = 7 then [1] else []"])
      (auto simp: ex_connections_def bucket_def nth_list_update)
  then show ?thesis unfolding hashid_inv_def used
    by (auto simp: ex_connections_def free_node_def nth_Cons split: nat.splits)
qed

theorem connection_until_removed_witness:
  "\<exists>c hi1 hi2. hashid_insert ex_connections 23 = Inr (c, hi1) \<and> hashid_inv hi1 \<and> 0 \<le> c \<and> c < hi_cap ex_connections \<and>
     (\<forall>k. hashid_lookup ex_connections k \<noteq> Inr c) \<and>
     (\<forall>k. hashid_lookup hi1 k = (if k = 23 then Inr c else hashid_lookup ex_connections k)) \<and>
     hashid_remove hi1 23 = Inr (c, hi2) \<and> hashid_inv hi2 \<and> (\<forall>k. hashid_lookup hi2 k = hashid_lookup ex_connections k)"
  by (rule connection_until_removed [OF ex_connections_inv])
    (simp_all add: hashid_full_def ex_connections_def hashid_lookup_def bucket_def eval_nat_numeral)

end
