(* ===== verification/Databuffer.thy ===== *)
theory Databuffer
  imports Prelude
begin

text \<open>
  The receive buffers of the gate service, \<^verbatim>\<open>service-src/databuffer.h\<close>: a buffer is a linked list of the messages that the
  socket thread has delivered; the nodes of all buffers of a gate come from one pool with a free list. A pointer to a node
  is its number, \<^verbatim>\<open>mp_msgs\<close> is the memory of all nodes, \<^verbatim>\<open>mp_top\<close> the number of nodes that have been allocated. The
  loops have one round of fuel per node: each of them gives one back.
\<close>

section \<open>Definitions\<close>

definition MESSAGEPOOL :: nat where "MESSAGEPOOL = 1023"

record message =
  m_buffer :: "byte list option"
  m_size :: int
  m_next :: "nat option"

record databuffer =
  db_header :: int
  db_offset :: int
  db_size :: int
  db_head :: "nat option"
  db_tail :: "nat option"

record messagepool =
  mp_pool :: "nat list"
  mp_freelist :: "nat option"
  mp_msgs :: "nat \<rightharpoonup> message"
  mp_top :: nat

definition db_empty :: databuffer where
  "db_empty = \<lparr>db_header = 0, db_offset = 0, db_size = 0, db_head = None, db_tail = None\<rparr>"

definition mp_empty :: messagepool where
  "mp_empty = \<lparr>mp_pool = [], mp_freelist = None, mp_msgs = Map.empty, mp_top = 0\<rparr>"

definition messagepool_free :: "messagepool \<Rightarrow> messagepool" where
  "messagepool_free pool =
     pool\<lparr>mp_msgs := fold (\<lambda>p ms a. if p \<le> a \<and> a < p + MESSAGEPOOL then None else ms a) (mp_pool pool) (mp_msgs pool),
          mp_pool := [], mp_freelist := None\<rparr>"

definition return_message :: "databuffer \<Rightarrow> messagepool \<Rightarrow> (databuffer \<times> messagepool) res" where
  "return_message db mp =
     bindR (nonnull (db_head db)) (\<lambda>a.
     bindR (deref (mp_msgs mp) a) (\<lambda>m.
     bindR (if m_next m = None
            then bindR (assertR (db_tail db = Some a)) (\<lambda>_. Inr (db\<lparr>db_head := None, db_tail := None\<rparr>))
            else Inr (db\<lparr>db_head := m_next m\<rparr>)) (\<lambda>db.
     Inr (db, mp\<lparr>mp_msgs := (mp_msgs mp)(a \<mapsto> \<lparr>m_buffer = None, m_size = 0, m_next = mp_freelist mp\<rparr>),
                 mp_freelist := Some a\<rparr>))))"

text \<open>\<^verbatim>\<open>memcpy(buffer, current->buffer + offset, n)\<close>\<close>

definition copy_from :: "message \<Rightarrow> int \<Rightarrow> int \<Rightarrow> byte list res" where
  "copy_from m off n =
     (case m_buffer m of
        None \<Rightarrow> Inl Null_deref
      | Some b \<Rightarrow>
          if off < 0 \<or> n < 0 \<or> off + n > int (length b) then Inl Out_of_bounds
          else Inr (take (nat n) (drop (nat off) b)))"

fun read_loop :: "nat \<Rightarrow> databuffer \<Rightarrow> messagepool \<Rightarrow> int \<Rightarrow> (byte list \<times> databuffer \<times> messagepool) res" where
  "read_loop fuel db mp sz =
     bindR (nonnull (db_head db)) (\<lambda>a.
     bindR (deref (mp_msgs mp) a) (\<lambda>current.
     let bsz = m_size current - db_offset db in
     if bsz > sz then
       bindR (copy_from current (db_offset db) sz) (\<lambda>bs. Inr (bs, db\<lparr>db_offset := db_offset db + sz\<rparr>, mp))
     else if bsz = sz then
       bindR (copy_from current (db_offset db) sz) (\<lambda>bs.
       bindR (return_message (db\<lparr>db_offset := 0\<rparr>) mp) (\<lambda>(db, mp). Inr (bs, db, mp)))
     else
       bindR (copy_from current (db_offset db) bsz) (\<lambda>bs.
       bindR (return_message db mp) (\<lambda>(db, mp).
       case fuel of
         0 \<Rightarrow> Inl Endless_loop
       | Suc fuel' \<Rightarrow>
           bindR (read_loop fuel' (db\<lparr>db_offset := 0\<rparr>) mp (sz - bsz)) (\<lambda>(bs', db, mp). Inr (bs @ bs', db, mp))))))"

declare read_loop.simps [simp del]

definition databuffer_read :: "databuffer \<Rightarrow> messagepool \<Rightarrow> int \<Rightarrow> (byte list \<times> databuffer \<times> messagepool) res" where
  "databuffer_read db mp sz =
     bindR (assertR (db_size db \<ge> sz)) (\<lambda>_.
     read_loop (mp_top mp) (db\<lparr>db_size := db_size db - sz\<rparr>) mp sz)"

text \<open>A node from the free list, or a new pool: its first node is used and the others are the free list.\<close>

definition new_message :: "messagepool \<Rightarrow> (nat \<times> messagepool) res" where
  "new_message mp =
     (case mp_freelist mp of
        Some a \<Rightarrow> bindR (deref (mp_msgs mp) a) (\<lambda>m. Inr (a, mp\<lparr>mp_freelist := m_next m\<rparr>))
      | None \<Rightarrow>
          let t = mp_top mp in
          Inr (t, mp\<lparr>mp_msgs := (\<lambda>a. if t < a \<and> a < t + MESSAGEPOOL
                          then Some \<lparr>m_buffer = None, m_size = 0,
                                     m_next = (if a = t + MESSAGEPOOL - 1 then None else Some (a + 1))\<rparr>
                          else mp_msgs mp a),
                     mp_pool := t # mp_pool mp, mp_freelist := Some (t + 1), mp_top := t + MESSAGEPOOL\<rparr>))"

definition databuffer_push :: "databuffer \<Rightarrow> messagepool \<Rightarrow> byte list \<Rightarrow> int \<Rightarrow> (databuffer \<times> messagepool) res" where
  "databuffer_push db mp data sz =
     bindR (new_message mp) (\<lambda>(a, mp).
     let ms = (mp_msgs mp)(a \<mapsto> \<lparr>m_buffer = Some data, m_size = sz, m_next = None\<rparr>) in
     if db_size db + sz \<ge> 2 ^ 31 then Inl Int_overflow
     else
       let db = db\<lparr>db_size := db_size db + sz\<rparr> in
       case db_head db of
         None \<Rightarrow>
           bindR (assertR (db_tail db = None)) (\<lambda>_.
           Inr (db\<lparr>db_head := Some a, db_tail := Some a\<rparr>, mp\<lparr>mp_msgs := ms\<rparr>))
       | Some _ \<Rightarrow>
           bindR (nonnull (db_tail db)) (\<lambda>t.
           bindR (deref ms t) (\<lambda>m.
           Inr (db\<lparr>db_tail := Some a\<rparr>, mp\<lparr>mp_msgs := ms(t \<mapsto> m\<lparr>m_next := Some a\<rparr>)\<rparr>))))"

text \<open>The header is big-endian; four bytes are combined in an \<^verbatim>\<open>int\<close>.\<close>

definition header_value :: "byte list \<Rightarrow> int" where
  "header_value plen =
     (if length plen = 2 then int (unat (plen ! 0)) * 2 ^ 8 + int (unat (plen ! 1))
      else sint (push_bit 24 (ucast (plen ! 0)) OR push_bit 16 (ucast (plen ! 1)) OR push_bit 8 (ucast (plen ! 2)) OR ucast (plen ! 3) :: u32))"

definition databuffer_readheader :: "databuffer \<Rightarrow> messagepool \<Rightarrow> int \<Rightarrow> (int \<times> databuffer \<times> messagepool) res" where
  "databuffer_readheader db mp header_size =
     (if db_header db = 0 \<and> db_size db < header_size then Inr (-1, db, mp)
      else
        bindR (if db_header db = 0 then
                 bindR (databuffer_read db mp header_size) (\<lambda>(plen, db, mp). Inr (db\<lparr>db_header := header_value plen\<rparr>, mp))
               else Inr (db, mp)) (\<lambda>(db, mp).
        Inr (if db_size db < db_header db then -1 else db_header db, db, mp)))"

definition databuffer_reset :: "databuffer \<Rightarrow> databuffer" where
  "databuffer_reset db = db\<lparr>db_header := 0\<rparr>"

fun clear_loop :: "nat \<Rightarrow> databuffer \<Rightarrow> messagepool \<Rightarrow> (databuffer \<times> messagepool) res" where
  "clear_loop fuel db mp =
     (if db_head db = None then Inr (db, mp)
      else case fuel of
        0 \<Rightarrow> Inl Endless_loop
      | Suc fuel' \<Rightarrow> bindR (return_message db mp) (\<lambda>(db, mp). clear_loop fuel' db mp))"

declare clear_loop.simps [simp del]

definition databuffer_clear :: "databuffer \<Rightarrow> messagepool \<Rightarrow> (databuffer \<times> messagepool) res" where
  "databuffer_clear db mp = bindR (clear_loop (mp_top mp) db mp) (\<lambda>(_, mp). Inr (db_empty, mp))"

section \<open>Lists of nodes\<close>

fun path :: "(nat \<rightharpoonup> message) \<Rightarrow> nat option \<Rightarrow> nat list \<Rightarrow> bool" where
  "path ms p [] = (p = None)"
| "path ms p (x # xs) = (p = Some x \<and> (\<exists>m. ms x = Some m \<and> path ms (m_next m) xs))"

lemma path_cong: "(\<And>x. x \<in> set xs \<Longrightarrow> ms' x = ms x) \<Longrightarrow> path ms' p xs = path ms p xs"
  by (induction xs arbitrary: p) auto

lemma path_upd [simp]: "a \<notin> set xs \<Longrightarrow> path (ms(a := v)) p xs = path ms p xs"
  by (rule path_cong) auto

lemma path_snoc:
  "path ms p (xs @ [t]) \<Longrightarrow> distinct (xs @ [t]) \<Longrightarrow> ms t = Some m \<Longrightarrow> ms a = Some n \<Longrightarrow> m_next n = None \<Longrightarrow> a \<notin> set (xs @ [t]) \<Longrightarrow>
   path (ms(t \<mapsto> m\<lparr>m_next := Some a\<rparr>)) p (xs @ [t, a])"
  by (induction xs arbitrary: p) auto

definition node_bytes :: "messagepool \<Rightarrow> nat \<Rightarrow> byte list" where
  "node_bytes mp x = (case mp_msgs mp x of Some m \<Rightarrow> (case m_buffer m of Some b \<Rightarrow> b | None \<Rightarrow> []) | None \<Rightarrow> [])"

definition node_ok :: "messagepool \<Rightarrow> nat \<Rightarrow> bool" where
  "node_ok mp x \<longleftrightarrow> (\<exists>m b. mp_msgs mp x = Some m \<and> m_buffer m = Some b \<and> b \<noteq> [] \<and> m_size m = int (length b))"

text \<open>The buffer \<open>db\<close> consists of the nodes \<open>xs\<close>, the free list of \<open>fl\<close>.\<close>

definition links :: "messagepool \<Rightarrow> databuffer \<Rightarrow> nat list \<Rightarrow> nat list \<Rightarrow> bool" where
  "links mp db xs fl \<longleftrightarrow>
     path (mp_msgs mp) (db_head db) xs \<and> db_tail db = (if xs = [] then None else Some (last xs)) \<and>
     path (mp_msgs mp) (mp_freelist mp) fl \<and> distinct (xs @ fl) \<and> set (xs @ fl) \<subseteq> {..<mp_top mp} \<and>
     (\<forall>x \<in> set xs. node_ok mp x) \<and> (\<forall>a \<ge> mp_top mp. mp_msgs mp a = None)"

definition content :: "messagepool \<Rightarrow> nat list \<Rightarrow> byte list" where
  "content mp xs = concat (map (node_bytes mp) xs)"

text \<open>What an operation on one buffer leaves alone: all nodes that are neither in it nor free.\<close>

definition frame :: "messagepool \<Rightarrow> nat set \<Rightarrow> messagepool \<Rightarrow> nat set \<Rightarrow> bool" where
  "frame mp s mp' s' \<longleftrightarrow>
     (\<forall>a. a \<notin> s \<longrightarrow> a < mp_top mp \<longrightarrow> mp_msgs mp' a = mp_msgs mp a) \<and> mp_top mp \<le> mp_top mp' \<and>
     s' \<subseteq> s \<union> {mp_top mp..}"

lemma exI4: "P a b c d \<Longrightarrow> \<exists>a b c d. P a b c d"
  by blast

lemma content_simps [simp]: "content mp [] = []" "content mp (x # xs) = node_bytes mp x @ content mp xs"
  by (simp_all add: content_def)

lemma content_cong: "(\<And>x. x \<in> set xs \<Longrightarrow> node_bytes mp' x = node_bytes mp x) \<Longrightarrow> content mp' xs = content mp xs"
  by (induction xs) auto

lemma content_append: "content mp (xs @ ys) = content mp xs @ content mp ys"
  by (simp add: content_def)

lemma frame_refl [simp]: "frame mp s mp s"
  by (auto simp: frame_def)

lemma frame_trans: "frame mp s mp' s' \<Longrightarrow> frame mp' s' mp'' s'' \<Longrightarrow> frame mp s mp'' s''"
  unfolding frame_def by fastforce

lemma node_ok_bytes: "node_ok mp x \<Longrightarrow> \<exists>m. mp_msgs mp x = Some m \<and> m_buffer m = Some (node_bytes mp x) \<and> node_bytes mp x \<noteq> [] \<and>
    m_size m = int (length (node_bytes mp x))"
  by (auto simp: node_ok_def node_bytes_def)

lemma return_ok:
  assumes l: "links mp db (x # xs) fl"
  shows "\<exists>db' mp'. return_message db mp = Inr (db', mp') \<and> links mp' db' xs (x # fl) \<and> content mp' xs = content mp xs \<and>
    db_header db' = db_header db \<and> db_offset db' = db_offset db \<and> db_size db' = db_size db \<and> mp_top mp' = mp_top mp \<and>
    frame mp (set ((x # xs) @ fl)) mp' (set (xs @ x # fl))"
proof -
  obtain m where m: "mp_msgs mp x = Some m" "path (mp_msgs mp) (m_next m) xs" "db_head db = Some x"
    using l by (auto simp: links_def)
  let ?mp = "mp\<lparr>mp_msgs := (mp_msgs mp)(x \<mapsto> \<lparr>m_buffer = None, m_size = 0, m_next = mp_freelist mp\<rparr>), mp_freelist := Some x\<rparr>"
  let ?db = "if xs = [] then db\<lparr>db_head := None, db_tail := None\<rparr> else db\<lparr>db_head := m_next m\<rparr>"
  have nonext: "m_next m = None \<longleftrightarrow> xs = []" using m(2) by (cases xs) auto
  have "return_message db mp = Inr (?db, ?mp)"
    using l m nonext by (auto simp: return_message_def links_def)
  moreover have x: "x \<notin> set xs" "x \<notin> set fl" using l by (auto simp: links_def)
  have keep: "node_bytes ?mp y = node_bytes mp y" "node_ok ?mp y = node_ok mp y" if "y \<in> set xs" for y
    using that x by (auto simp: node_bytes_def node_ok_def)
  have "links ?mp ?db xs (x # fl)"
    using l m x keep nonext by (auto simp: links_def)
  moreover have "content ?mp xs = content mp xs" using keep by (intro content_cong) auto
  moreover have "frame mp (set ((x # xs) @ fl)) ?mp (set (xs @ x # fl))" by (auto simp: frame_def)
  ultimately show ?thesis by auto
qed

text \<open>The bytes that a buffer still has, and its invariant.\<close>

definition offset_ok :: "messagepool \<Rightarrow> databuffer \<Rightarrow> nat list \<Rightarrow> bool" where
  "offset_ok mp db xs \<longleftrightarrow>
     (case xs of [] \<Rightarrow> db_offset db = 0 | x # _ \<Rightarrow> 0 \<le> db_offset db \<and> db_offset db < int (length (node_bytes mp x)))"

definition left :: "messagepool \<Rightarrow> databuffer \<Rightarrow> nat list \<Rightarrow> byte list" where
  "left mp db xs = drop (nat (db_offset db)) (content mp xs)"

lemma db_fields [simp]:
  "links mp (db\<lparr>db_size := n\<rparr>) = links mp db" "links mp (db\<lparr>db_header := n\<rparr>) = links mp db"
  "links mp (db\<lparr>db_offset := n\<rparr>) = links mp db"
  "offset_ok mp (db\<lparr>db_size := n\<rparr>) = offset_ok mp db" "offset_ok mp (db\<lparr>db_header := n\<rparr>) = offset_ok mp db"
  "left mp (db\<lparr>db_size := n\<rparr>) = left mp db" "left mp (db\<lparr>db_header := n\<rparr>) = left mp db"
  by (simp_all add: fun_eq_iff links_def offset_ok_def left_def split: list.splits)

lemma copy_from_ok:
  "node_ok mp x \<Longrightarrow> mp_msgs mp x = Some m \<Longrightarrow> 0 \<le> off \<Longrightarrow> 0 \<le> n \<Longrightarrow> off + n \<le> int (length (node_bytes mp x)) \<Longrightarrow>
   copy_from m off n = Inr (take (nat n) (drop (nat off) (node_bytes mp x)))"
  using node_ok_bytes [of mp x] by (auto simp: copy_from_def)

lemma read_loop_ok:
  "links mp db xs fl \<Longrightarrow> offset_ok mp db xs \<Longrightarrow> 0 < n \<Longrightarrow> n \<le> length (left mp db xs) \<Longrightarrow> length xs \<le> Suc fuel \<Longrightarrow>
   \<exists>db' mp' xs' fl'. read_loop fuel db mp (int n) = Inr (take n (left mp db xs), db', mp') \<and>
     links mp' db' xs' fl' \<and> offset_ok mp' db' xs' \<and> left mp' db' xs' = drop n (left mp db xs) \<and>
     db_header db' = db_header db \<and> db_size db' = db_size db \<and> frame mp (set (xs @ fl)) mp' (set (xs' @ fl'))"
proof (induction xs arbitrary: db mp fl n fuel)
  case Nil
  then show ?case by (simp add: left_def)
next
  case (Cons x xs)
  have x: "node_ok mp x" using Cons.prems(1) by (auto simp: links_def)
  let ?b = "node_bytes mp x" and ?off = "db_offset db"
  obtain m where m: "mp_msgs mp x = Some m" "m_size m = int (length ?b)" "db_head db = Some x"
    using node_ok_bytes [OF x] Cons.prems(1) by (auto simp: links_def)
  have off: "0 \<le> ?off" "?off < int (length ?b)" using Cons.prems(2) by (auto simp: offset_ok_def)
  define k where "k = length ?b - nat ?off"
  have bsz: "m_size m - ?off = int k" "0 < k" "?off + int k = int (length ?b)" using m(2) off by (auto simp: k_def)
  have left: "left mp db (x # xs) = drop (nat ?off) ?b @ content mp xs" and len: "length (drop (nat ?off) ?b) = k"
    using off by (simp_all add: left_def k_def)
  have copy: "copy_from m ?off (int j) = Inr (take j (drop (nat ?off) ?b))" if "j \<le> k" for j
    using copy_from_ok [OF x m(1) off(1), of "int j"] bsz(3) that by simp
  note loop = read_loop.simps [of _ db mp] m(1,3) bsz(1) Let_def
  consider "n < k" | "n = k" | "k < n" by linarith
  then show ?case
  proof cases
    case 1
    let ?db = "db\<lparr>db_offset := ?off + int n\<rparr>"
    have "read_loop fuel db mp (int n) = Inr (take n (drop (nat ?off) ?b), ?db, mp)"
      using 1 copy [of n] by (simp add: loop)
    moreover have "links mp ?db (x # xs) fl" using Cons.prems(1) by (simp add: links_def)
    moreover have "offset_ok mp ?db (x # xs)" using 1 off bsz(3) by (simp add: offset_ok_def)
    moreover have "left mp ?db (x # xs) = drop n (left mp db (x # xs))"
      using off by (simp add: left_def nat_add_distrib add.commute)
    ultimately show ?thesis using 1 left len
      by (intro exI4 [of _ ?db mp "x # xs" fl]) simp
  next
    case 2
    have "links mp (db\<lparr>db_offset := 0\<rparr>) (x # xs) fl" using Cons.prems(1) by (simp add: links_def)
    from return_ok [OF this] obtain db' mp' where r: "return_message (db\<lparr>db_offset := 0\<rparr>) mp = Inr (db', mp')"
        "links mp' db' xs (x # fl)" "content mp' xs = content mp xs" "db_header db' = db_header db" "db_offset db' = 0"
        "db_size db' = db_size db" "frame mp (set ((x # xs) @ fl)) mp' (set (xs @ x # fl))"
      by auto
    have "read_loop fuel db mp (int n) = Inr (drop (nat ?off) ?b, db', mp')"
      using 2 copy [of n] r(1) len by (simp add: loop)
    moreover have "offset_ok mp' db' xs"
      using r(2,5) node_ok_bytes [of mp'] by (cases xs) (fastforce simp: offset_ok_def links_def)+
    moreover have "left mp' db' xs = drop n (left mp db (x # xs))"
      unfolding left using len r(3,5) 2 by (simp add: left_def)
    ultimately show ?thesis using r 2 left len
      by (intro exI4 [of _ db' mp' xs "x # fl"]) simp
  next
    case 3
    from return_ok [OF Cons.prems(1)] obtain db1 mp1 where r: "return_message db mp = Inr (db1, mp1)"
        "links mp1 db1 xs (x # fl)" "content mp1 xs = content mp xs" "db_header db1 = db_header db"
        "db_size db1 = db_size db" "frame mp (set ((x # xs) @ fl)) mp1 (set (xs @ x # fl))"
      by auto
    let ?db1 = "db1\<lparr>db_offset := 0\<rparr>"
    have l1: "links mp1 ?db1 xs (x # fl)" using r(2) by (simp add: links_def)
    have o1: "offset_ok mp1 ?db1 xs"
      using r(2) node_ok_bytes [of mp1] by (cases xs) (fastforce simp: offset_ok_def links_def)+
    have left1: "left mp1 ?db1 xs = content mp xs" using r(3) by (simp add: left_def)
    have n1: "0 < n - k" "n - k \<le> length (left mp1 ?db1 xs)" using 3 Cons.prems(4) left left1 len by auto
    then obtain f where f: "fuel = Suc f" "length xs \<le> Suc f" using Cons.prems(5) left1 by (cases fuel; cases xs) auto
    obtain db' mp' xs' fl' where ih: "read_loop f ?db1 mp1 (int (n - k)) = Inr (take (n - k) (content mp xs), db', mp')"
        "links mp' db' xs' fl'" "offset_ok mp' db' xs'" "left mp' db' xs' = drop (n - k) (content mp xs)"
        "db_header db' = db_header db1" "db_size db' = db_size db1" "frame mp1 (set (xs @ x # fl)) mp' (set (xs' @ fl'))"
      using Cons.IH [OF l1 o1 n1 f(2)] left1 by auto
    have "int n - int k = int (n - k)" using 3 by (simp add: of_nat_diff)
    then have "read_loop fuel db mp (int n) = Inr (drop (nat ?off) ?b @ take (n - k) (content mp xs), db', mp')"
      using 3 copy [of k] r(1) ih(1) f(1) len by (simp add: loop)
    moreover have "frame mp (set ((x # xs) @ fl)) mp' (set (xs' @ fl'))" using frame_trans [OF r(6) ih(7)] .
    ultimately show ?thesis using ih r left len 3
      by (intro exI4 [of _ db' mp' xs' fl']) simp
  qed
qed

section \<open>The operations on a buffer\<close>

definition db_inv :: "messagepool \<Rightarrow> databuffer \<Rightarrow> nat list \<Rightarrow> nat list \<Rightarrow> bool" where
  "db_inv mp db xs fl \<longleftrightarrow>
     links mp db xs fl \<and> offset_ok mp db xs \<and> db_size db = int (length (left mp db xs)) \<and> db_size db < 2 ^ 31"

lemma links_length: "links mp db xs fl \<Longrightarrow> length xs \<le> mp_top mp"
  using card_mono [of "{..<mp_top mp}" "set xs"] by (auto simp: links_def distinct_card)

lemma databuffer_read_ok:
  assumes inv: "db_inv mp db xs fl" and n: "0 < n" "n \<le> length (left mp db xs)"
  shows "\<exists>db' mp' xs' fl'. databuffer_read db mp (int n) = Inr (take n (left mp db xs), db', mp') \<and>
     db_inv mp' db' xs' fl' \<and> left mp' db' xs' = drop n (left mp db xs) \<and> db_header db' = db_header db \<and>
     frame mp (set (xs @ fl)) mp' (set (xs' @ fl'))"
proof -
  let ?db = "db\<lparr>db_size := db_size db - int n\<rparr>"
  have l: "links mp ?db xs fl" "offset_ok mp ?db xs" "left mp ?db xs = left mp db xs" "length xs \<le> Suc (mp_top mp)"
    using inv links_length [of mp db xs fl] by (auto simp: db_inv_def)
  obtain db' mp' xs' fl' where "read_loop (mp_top mp) ?db mp (int n) = Inr (take n (left mp db xs), db', mp')"
     "links mp' db' xs' fl'" "offset_ok mp' db' xs'" "left mp' db' xs' = drop n (left mp db xs)"
     "db_header db' = db_header db" "db_size db' = db_size db - int n" "frame mp (set (xs @ fl)) mp' (set (xs' @ fl'))"
    using read_loop_ok [OF l(1,2) n(1) _ l(4)] l(3) n(2) by auto
  then show ?thesis using inv n(2) by (intro exI4 [of _ db' mp' xs' fl']) (auto simp: databuffer_read_def db_inv_def of_nat_diff)
qed

lemma path_upt:
  "(\<And>b. a \<le> b \<Longrightarrow> b < e \<Longrightarrow> \<exists>m. ms b = Some m \<and> m_next m = (if b + 1 < e then Some (b + 1) else None)) \<Longrightarrow>
   path ms (if a < e then Some a else None) [a..<e]"
proof (induction "e - a" arbitrary: a)
  case (Suc n)
  then have "[a..<e] = a # [Suc a..<e]" by (simp add: upt_conv_Cons)
  moreover have "path ms (if Suc a < e then Some (Suc a) else None) [Suc a..<e]" using Suc by auto
  ultimately show ?case using Suc.prems [of a] Suc.hyps(2) by auto
qed simp

text \<open>The node that \<^verbatim>\<open>databuffer_push\<close> takes: neither in the buffer nor in the free list that remains.\<close>

lemma new_message_ok:
  assumes l: "links mp db xs fl"
  shows "\<exists>a mp' fl'. new_message mp = Inr (a, mp') \<and> path (mp_msgs mp') (mp_freelist mp') fl' \<and> distinct (a # xs @ fl') \<and>
     a < mp_top mp' \<and> set fl' \<subseteq> {..<mp_top mp'} \<and> (\<forall>b. b < mp_top mp \<longrightarrow> mp_msgs mp' b = mp_msgs mp b) \<and>
     (\<forall>b \<ge> mp_top mp'. mp_msgs mp' b = None) \<and> mp_top mp \<le> mp_top mp' \<and> insert a (set fl') \<subseteq> set fl \<union> {mp_top mp..}"
proof (cases fl)
  case (Cons a fl')
  then obtain m where m: "mp_freelist mp = Some a" "mp_msgs mp a = Some m" "path (mp_msgs mp) (m_next m) fl'"
    using l by (auto simp: links_def)
  then have "new_message mp = Inr (a, mp\<lparr>mp_freelist := m_next m\<rparr>)" by (simp add: new_message_def)
  then show ?thesis using l Cons m by (intro exI [of _ a] exI [of _ "mp\<lparr>mp_freelist := m_next m\<rparr>"] exI [of _ fl']) (auto simp: links_def)
next
  case Nil
  let ?t = "mp_top mp"
  define ms where "ms = (\<lambda>a. if ?t < a \<and> a < ?t + MESSAGEPOOL
      then Some \<lparr>m_buffer = None, m_size = 0, m_next = (if a = ?t + MESSAGEPOOL - 1 then None else Some (a + 1))\<rparr> else mp_msgs mp a)"
  let ?mp = "mp\<lparr>mp_msgs := ms, mp_pool := ?t # mp_pool mp, mp_freelist := Some (?t + 1), mp_top := ?t + MESSAGEPOOL\<rparr>"
  have "new_message mp = Inr (?t, ?mp)" using l Nil by (simp add: new_message_def links_def ms_def Let_def)
  moreover have "path ms (if ?t + 1 < ?t + MESSAGEPOOL then Some (?t + 1) else None) [?t + 1..<?t + MESSAGEPOOL]"
    by (rule path_upt) (auto simp: ms_def)
  then have "path (mp_msgs ?mp) (mp_freelist ?mp) [?t + 1..<?t + MESSAGEPOOL]" by (simp add: MESSAGEPOOL_def)
  moreover have "distinct (?t # xs @ [?t + 1..<?t + MESSAGEPOOL])" using l by (auto simp: links_def)
  ultimately show ?thesis using l
    by (intro exI [of _ ?t] exI [of _ ?mp] exI [of _ "[?t + 1..<?t + MESSAGEPOOL]"])
      (auto simp: links_def ms_def MESSAGEPOOL_def)
qed

lemma databuffer_push_ok:
  assumes inv: "db_inv mp db xs fl" and data: "data \<noteq> []" and small: "db_size db + int (length data) < 2 ^ 31"
  shows "\<exists>db' mp' xs' fl'. databuffer_push db mp data (int (length data)) = Inr (db', mp') \<and>
     db_inv mp' db' xs' fl' \<and> left mp' db' xs' = left mp db xs @ data \<and> db_header db' = db_header db \<and>
     frame mp (set (xs @ fl)) mp' (set (xs' @ fl'))"
proof -
  have l: "links mp db xs fl" "offset_ok mp db xs" using inv by (simp_all add: db_inv_def)
  obtain a mp1 fl' where new: "new_message mp = Inr (a, mp1)" "path (mp_msgs mp1) (mp_freelist mp1) fl'" "distinct (a # xs @ fl')"
      "a < mp_top mp1" "set fl' \<subseteq> {..<mp_top mp1}" "\<forall>b. b < mp_top mp \<longrightarrow> mp_msgs mp1 b = mp_msgs mp b"
      "\<forall>b \<ge> mp_top mp1. mp_msgs mp1 b = None" "mp_top mp \<le> mp_top mp1" "insert a (set fl') \<subseteq> set fl \<union> {mp_top mp..}"
    using new_message_ok [OF l(1)] by (elim exE conjE) (rule that)
  let ?n = "\<lparr>m_buffer = Some data, m_size = int (length data), m_next = None\<rparr>"
  let ?ms = "(mp_msgs mp1)(a \<mapsto> ?n)"
  have old: "x < mp_top mp" "mp_msgs mp1 x = mp_msgs mp x" "x \<noteq> a" if "x \<in> set xs" for x
    using that l(1) new(3,6) by (auto simp: links_def)
  define ms where "ms = (if xs = [] then ?ms else ?ms(last xs \<mapsto> (the (mp_msgs mp (last xs)))\<lparr>m_next := Some a\<rparr>))"
  let ?mp = "mp1\<lparr>mp_msgs := ms\<rparr>"
  let ?db = "db\<lparr>db_size := db_size db + int (length data), db_head := (if xs = [] then Some a else db_head db), db_tail := Some a\<rparr>"
  have last: "\<exists>m. mp_msgs mp (last xs) = Some m" "last xs \<in> set xs" if "xs \<noteq> []"
    using that l(1) last_in_set [OF that] by (auto simp: links_def node_ok_def)
  have run: "databuffer_push db mp data (int (length data)) = Inr (?db, ?mp)"
  proof (cases xs)
    case Nil
    then show ?thesis using l(1) new(1) small by (simp add: databuffer_push_def links_def ms_def)
  next
    case (Cons y ys)
    then have "db_head db = Some y" "db_tail db = Some (last xs)" "deref ?ms (last xs) = Inr (the (mp_msgs mp (last xs)))"
      using l(1) last old [of "last xs"] by (auto simp: links_def)
    then show ?thesis using new(1) small Cons by (cases db) (simp add: databuffer_push_def ms_def)
  qed
  have keep: "ms x = (if x = last xs then Some ((the (mp_msgs mp x))\<lparr>m_next := Some a\<rparr>) else mp_msgs mp x)" if "x \<in> set xs" for x
    using that old [OF that] by (auto simp: ms_def)
  have bytes: "node_bytes ?mp x = node_bytes mp x" "node_ok ?mp x" if "x \<in> set xs" for x
  proof -
    obtain m b where "mp_msgs mp x = Some m" "m_buffer m = Some b" "b \<noteq> []" "m_size m = int (length b)"
      using l(1) \<open>x \<in> set xs\<close> by (auto simp: links_def node_ok_def)
    then show "node_bytes ?mp x = node_bytes mp x" "node_ok ?mp x" using keep [OF that] by (auto simp: node_bytes_def node_ok_def)
  qed
  have "xs \<noteq> [] \<Longrightarrow> last xs \<noteq> a" using old(3) [OF last(2)] .
  then have msa: "ms a = Some ?n" by (auto simp: ms_def)
  then have a: "node_bytes ?mp a = data" "node_ok ?mp a" using data by (simp_all add: node_bytes_def node_ok_def)
  have path: "path ms (db_head ?db) (xs @ [a])"
  proof (cases xs rule: rev_cases)
    case Nil
    then show ?thesis using msa by simp
  next
    case (snoc ys t)
    have "path ?ms (db_head db) (ys @ [t])"
      using l(1) old snoc path_cong [of xs ?ms "mp_msgs mp"] by (auto simp: links_def)
    moreover obtain m where "?ms t = Some m" "the (mp_msgs mp t) = m" using last old [of t] snoc by auto
    ultimately have "path (?ms(t \<mapsto> m\<lparr>m_next := Some a\<rparr>)) (db_head db) (ys @ [t, a])"
      using new(3) snoc by (intro path_snoc [where n = ?n]) auto
    then show ?thesis using snoc \<open>the (mp_msgs mp t) = m\<close> by (simp add: ms_def)
  qed
  have others: "ms b = mp_msgs mp1 b" if "b \<noteq> a" "b \<notin> set xs" for b using that last(2) by (auto simp: ms_def)
  have "links ?mp ?db (xs @ [a]) fl'"
  proof -
    have "ms b = mp_msgs mp1 b" if "b \<in> set fl'" for b using new(3) others [of b] that by auto
    then have "path ms (mp_freelist mp1) fl'" using new(2) path_cong [of fl' ms "mp_msgs mp1"] by blast
    moreover have "ms b = None" if "mp_top mp1 \<le> b" for b
    proof -
      have "b \<noteq> a" "b \<notin> set xs" using that new(4,8) old(1) [of b] by auto
      then show ?thesis using others that new(7) by simp
    qed
    ultimately show ?thesis using path new(3-5,8) old(1) bytes(2) a(2) by (fastforce simp: links_def)
  qed
  moreover have "content ?mp (xs @ [a]) = content mp xs @ data"
    using a(1) bytes(1) by (simp add: content_append content_cong [of xs ?mp mp])
  moreover have "offset_ok ?mp ?db (xs @ [a])"
    using l(2) bytes(1) a(1) data by (cases xs) (auto simp: offset_ok_def)
  moreover have "frame mp (set (xs @ fl)) ?mp (set ((xs @ [a]) @ fl'))"
  proof -
    have "ms b = mp_msgs mp b" if "b \<notin> set (xs @ fl)" "b < mp_top mp" for b
      using that new(6,9) others [of b] by fastforce
    then show ?thesis using new(8,9) by (auto simp: frame_def)
  qed
  moreover have "nat (db_offset db) \<le> length (content mp xs)" using l(2) by (cases xs) (auto simp: offset_ok_def)
  ultimately show ?thesis using run inv small by (intro exI4 [of _ ?db ?mp "xs @ [a]" fl']) (auto simp: db_inv_def left_def)
qed

lemma clear_loop_ok:
  "links mp db xs fl \<Longrightarrow> length xs \<le> fuel \<Longrightarrow>
   \<exists>db' mp' fl'. clear_loop fuel db mp = Inr (db', mp') \<and> links mp' db' [] fl' \<and> frame mp (set (xs @ fl)) mp' (set fl')"
proof (induction xs arbitrary: db mp fl fuel)
  case Nil
  then have "clear_loop fuel db mp = Inr (db, mp)" by (simp add: clear_loop.simps links_def)
  then show ?case using Nil by auto
next
  case (Cons x xs)
  obtain f where f: "fuel = Suc f" "length xs \<le> f" using Cons.prems(2) by (cases fuel) auto
  obtain db1 mp1 where r: "return_message db mp = Inr (db1, mp1)" "links mp1 db1 xs (x # fl)"
      "frame mp (set ((x # xs) @ fl)) mp1 (set (xs @ x # fl))"
    using return_ok [OF Cons.prems(1)] by blast
  have "db_head db \<noteq> None" using Cons.prems(1) by (auto simp: links_def)
  then have "clear_loop fuel db mp = clear_loop f db1 mp1" using r(1) f(1) by (auto simp: clear_loop.simps [of "Suc f"])
  then show ?case using Cons.IH [OF r(2) f(2)] frame_trans [OF r(3)] by fastforce
qed

lemma databuffer_clear_ok:
  assumes "db_inv mp db xs fl"
  shows "\<exists>mp' fl'. databuffer_clear db mp = Inr (db_empty, mp') \<and> db_inv mp' db_empty [] fl' \<and> frame mp (set (xs @ fl)) mp' (set fl')"
proof -
  have l: "links mp db xs fl" using assms by (simp add: db_inv_def)
  obtain db' mp' fl' where "clear_loop (mp_top mp) db mp = Inr (db', mp')" "links mp' db' [] fl'" "frame mp (set (xs @ fl)) mp' (set fl')"
    using clear_loop_ok [OF l links_length [OF l]] by blast
  then show ?thesis
    by (auto simp: databuffer_clear_def db_inv_def links_def db_empty_def offset_ok_def left_def)
qed

text \<open>Another buffer of the same gate, whose nodes are neither in this one nor free, is not disturbed.\<close>

lemma other_buffer:
  assumes f: "frame mp (set (xs @ fl)) mp' (set (xs' @ fl'))" and inv: "db_inv mp' db' xs' fl'"
    and other: "db_inv mp o' ys fl" and disj: "set ys \<inter> set xs = {}"
  shows "db_inv mp' o' ys fl'" and "left mp' o' ys = left mp o' ys" and "set ys \<inter> set xs' = {}"
proof -
  have y: "y < mp_top mp" "y \<notin> set (xs @ fl)" if "y \<in> set ys" for y
    using other disj that by (auto simp: db_inv_def links_def)
  then have keep: "mp_msgs mp' y = mp_msgs mp y" if "y \<in> set ys" for y using f that by (auto simp: frame_def)
  have bytes: "node_bytes mp' y = node_bytes mp y" "node_ok mp' y = node_ok mp y" if "y \<in> set ys" for y
    using keep [OF that] by (simp_all add: node_bytes_def node_ok_def)
  have sub: "set ys \<inter> set (xs' @ fl') = {}" using y f by (fastforce simp: frame_def)
  show "left mp' o' ys = left mp o' ys" using bytes(1) by (simp add: left_def content_cong [of ys mp' mp])
  moreover have "offset_ok mp' o' ys" using other bytes(1) by (cases ys) (auto simp: db_inv_def offset_ok_def)
  moreover have "links mp' o' ys fl'"
  proof -
    have "path (mp_msgs mp') (db_head o') ys"
      using other keep path_cong [of ys "mp_msgs mp'" "mp_msgs mp"] by (simp add: db_inv_def links_def)
    moreover have "set ys \<subseteq> {..<mp_top mp'}" using y(1) f by (fastforce simp: frame_def)
    ultimately show ?thesis using other inv sub bytes(2) by (auto simp: db_inv_def links_def)
  qed
  ultimately show "db_inv mp' o' ys fl'" using other by (simp add: db_inv_def)
  show "set ys \<inter> set xs' = {}" using sub by auto
qed

end
