(* ===== verification/Gate.thy ===== *)
theory Gate
  imports Service Netpack Hashid Databuffer
begin

text \<open>
  The gate service, \<^verbatim>\<open>service-src/service_gate.c\<close>: it accepts connections, cuts what they send into packages and
  forwards the packages to a broker, to the agent of the connection or to the watchdog.

  A function of the gate returns the new state of the gate and, in order, the calls it makes of the framework
  (\<open>action\<close>): \<^verbatim>\<open>skynet_send\<close> with source, destination, type and data (the session is always 0), the calls that close, start
  and write sockets, and \<^verbatim>\<open>skynet_error\<close>. The results of \<^verbatim>\<open>skynet_queryname\<close> and \<^verbatim>\<open>skynet_socket_listen\<close> are parameters.
\<close>

section \<open>State\<close>

definition BACKLOG :: int where "BACKLOG = 32"

record connection =
  conn_id :: int
  conn_agent :: u32
  conn_client :: u32
  conn_remote_name :: string
  conn_buffer :: databuffer

record gate =
  g_listen_id :: int
  g_watchdog :: u32
  g_broker :: u32
  g_client_tag :: int
  g_header_size :: int
  g_max_connection :: int
  g_hash :: hashid
  g_conn :: "connection list"
  g_mp :: messagepool

datatype action =
    Send u32 u32 u32 "byte list"
  | Socket_close int
  | Socket_start int
  | Socket_send int "byte list"
  | Error string

type_synonym outcome = "(gate \<times> action list) res"

definition gate_create :: gate where
  "gate_create = \<lparr>g_listen_id = -1, g_watchdog = 0, g_broker = 0, g_client_tag = 0, g_header_size = 0, g_max_connection = 0,
     g_hash = \<lparr>hi_hashmod = 0, hi_cap = 0, hi_count = 0, hi_id = [], hi_hash = []\<rparr>, g_conn = [], g_mp = mp_empty\<rparr>"

definition gate_release :: "gate \<Rightarrow> action list" where
  "gate_release g =
     map (\<lambda>c. Socket_close (conn_id c)) (filter (\<lambda>c. conn_id c \<ge> 0) (take (nat (g_max_connection g)) (g_conn g))) @
     (if g_listen_id g \<ge> 0 then [Socket_close (g_listen_id g)] else [])"

section \<open>Control commands\<close>

text \<open>\<open>tmp\<close> is the array of \<open>sz + 1\<close> characters with the command; \<^verbatim>\<open>_parm\<close> moves its parameter to the front, behind which
  the old text stays.\<close>

definition parm :: "char list \<Rightarrow> nat \<Rightarrow> nat \<Rightarrow> char list" where
  "parm msg sz command_sz =
     (let skip = command_sz + length (takeWhile (\<lambda>c. c = CHR '' '') (drop command_sz (take sz msg)));
          text' = drop skip (take sz msg) in
      text' @ [NUL] @ drop (length text' + 1) msg)"

text \<open>\<^verbatim>\<open>strsep(&p, " ")\<close> on an array: the delimiter is overwritten and the position behind it returned.\<close>

definition strsep_at :: "char list \<Rightarrow> nat \<Rightarrow> char list \<times> nat option" where
  "strsep_at tmp p =
     (let q = p + length (takeWhile (\<lambda>c. c \<noteq> CHR '' '' \<and> c \<noteq> NUL) (drop p tmp)) in
      if q < length tmp \<and> tmp ! q = CHR '' '' then (tmp[q := NUL], Some (q + 1)) else (tmp, None))"

definition str_at :: "char list \<Rightarrow> nat \<Rightarrow> string res" where
  "str_at tmp p = cstring (drop p tmp)"

text \<open>\<^verbatim>\<open>memcmp(command, lit, i) == 0\<close>; the literal ends with a NUL.\<close>

definition memcmp_eq :: "char list \<Rightarrow> string \<Rightarrow> nat \<Rightarrow> bool res" where
  "memcmp_eq command lit i =
     (let l = lit @ [NUL] in
      if i \<le> length l then Inr (take i command = take i l)
      else if take (length l) command = l then Inl Out_of_bounds else Inr False)"

definition forward_agent :: "gate \<Rightarrow> int \<Rightarrow> u32 \<Rightarrow> u32 \<Rightarrow> gate res" where
  "forward_agent g fd agentaddr clientaddr =
     bindR (hashid_lookup (g_hash g) fd) (\<lambda>i.
     if i \<ge> 0 then
       bindR (rd (g_conn g) (nat i)) (\<lambda>c.
       bindR (wr (g_conn g) (nat i) (c\<lparr>conn_agent := agentaddr, conn_client := clientaddr\<rparr>)) (\<lambda>cs.
       Inr (g\<lparr>g_conn := cs\<rparr>)))
     else Inr g)"

definition ctrl_socket :: "gate \<Rightarrow> char list \<Rightarrow> (int \<Rightarrow> action) \<Rightarrow> outcome" where
  "ctrl_socket g tmp act =
     bindR (str_at tmp 0) (\<lambda>command.
     let uid = int_of_long (fst (strtol 10 command)) in
     bindR (hashid_lookup (g_hash g) uid) (\<lambda>i. Inr (g, if i \<ge> 0 then [act uid] else [])))"

definition ctrl_forward :: "gate \<Rightarrow> char list \<Rightarrow> outcome" where
  "ctrl_forward g tmp =
     (case strsep_at tmp 0 of
        (_, None) \<Rightarrow> Inr (g, [])
      | (tmp, Some agent) \<Rightarrow>
          bindR (str_at tmp 0) (\<lambda>idstr.
          case strsep_at tmp agent of
            (_, None) \<Rightarrow> Inr (g, [])
          | (tmp, Some client) \<Rightarrow>
              bindR (str_at tmp (agent + 1)) (\<lambda>a.
              bindR (str_at tmp (client + 1)) (\<lambda>c.
              bindR (forward_agent g (int_of_long (fst (strtol 10 idstr))) (ucast (strtoul 16 a)) (ucast (strtoul 16 c))) (\<lambda>g.
              Inr (g, []))))))"

definition ctrl :: "(string \<Rightarrow> u32) \<Rightarrow> gate \<Rightarrow> char list \<Rightarrow> outcome" where
  "ctrl query g msg =
     (let sz = length msg; tmp = msg @ [NUL]; i = length (takeWhile (\<lambda>c. c \<noteq> CHR '' '') msg) in
      if sz = 0 then Inr (g, [])
      else
        bindR (memcmp_eq tmp ''kick'' i) (\<lambda>kick.
        if kick then ctrl_socket g (parm tmp sz i) Socket_close
        else bindR (memcmp_eq tmp ''forward'' i) (\<lambda>forward.
        if forward then ctrl_forward g (parm tmp sz i)
        else bindR (memcmp_eq tmp ''broker'' i) (\<lambda>broker.
        if broker then bindR (str_at (parm tmp sz i) 0) (\<lambda>command. Inr (g\<lparr>g_broker := query command\<rparr>, []))
        else bindR (memcmp_eq tmp ''start'' i) (\<lambda>start.
        if start then ctrl_socket g (parm tmp sz i) Socket_start
        else bindR (memcmp_eq tmp ''close'' i) (\<lambda>close.
        if close then
          if g_listen_id g \<ge> 0 then Inr (g\<lparr>g_listen_id := -1\<rparr>, [Socket_close (g_listen_id g)]) else Inr (g, [])
        else bindR (str_at tmp 0) (\<lambda>command. Inr (g, [Error (''[gate] Unkown command : '' @ command)]))))))))"

section \<open>Packages\<close>

definition report :: "gate \<Rightarrow> string \<Rightarrow> action list" where
  "report g s = (if g_watchdog g = 0 then [] else [Send 0 (g_watchdog g) (ucast PTYPE_TEXT) (bytes_of s)])"

definition put_conn :: "gate \<Rightarrow> nat \<Rightarrow> databuffer \<Rightarrow> messagepool \<Rightarrow> gate res" where
  "put_conn g i db mp =
     bindR (rd (g_conn g) i) (\<lambda>c.
     bindR (wr (g_conn g) i (c\<lparr>conn_buffer := db\<rparr>)) (\<lambda>cs. Inr (g\<lparr>g_conn := cs, g_mp := mp\<rparr>)))"

definition client_type :: "gate \<Rightarrow> u32" where
  "client_type g = word_of_int (g_client_tag g) OR PTYPE_TAG_DONTCOPY"

text \<open>\<^verbatim>\<open>_forward\<close>: the package goes to the broker, to the agent or to the watchdog. If there is none of them, nothing is
  read from the buffer.\<close>

definition forward :: "gate \<Rightarrow> nat \<Rightarrow> int \<Rightarrow> outcome" where
  "forward g i size' =
     bindR (rd (g_conn g) i) (\<lambda>c.
     if g_broker g \<noteq> 0 then
       bindR (databuffer_read (conn_buffer c) (g_mp g) size') (\<lambda>(temp, db, mp).
       bindR (put_conn g i db mp) (\<lambda>g. Inr (g, [Send 0 (g_broker g) (client_type g) temp])))
     else if conn_agent c \<noteq> 0 then
       bindR (databuffer_read (conn_buffer c) (g_mp g) size') (\<lambda>(temp, db, mp).
       bindR (put_conn g i db mp) (\<lambda>g. Inr (g, [Send (conn_client c) (conn_agent c) (client_type g) temp])))
     else if g_watchdog g \<noteq> 0 then
       bindR (databuffer_read (conn_buffer c) (g_mp g) size') (\<lambda>(temp, db, mp).
       bindR (put_conn g i db mp) (\<lambda>g.
       Inr (g, [Send 0 (g_watchdog g) (ucast PTYPE_TEXT OR PTYPE_TAG_DONTCOPY) (bytes_of (print_int (conn_id c) @ '' data '') @ temp)])))
     else Inr (g, []))"

fun gate_loop :: "nat \<Rightarrow> gate \<Rightarrow> nat \<Rightarrow> int \<Rightarrow> outcome" where
  "gate_loop fuel g i id' =
     bindR (rd (g_conn g) i) (\<lambda>c.
     bindR (databuffer_readheader (conn_buffer c) (g_mp g) (g_header_size g)) (\<lambda>(size', db, mp).
     bindR (put_conn g i db mp) (\<lambda>g.
     if size' < 0 then Inr (g, [])
     else if size' \<ge> 0x1000000 then
       bindR (databuffer_clear db mp) (\<lambda>(db, mp).
       bindR (put_conn g i db mp) (\<lambda>g. Inr (g, [Socket_close id', Error ''Recv socket message > 16M''])))
     else case fuel of
       0 \<Rightarrow> Inl Endless_loop
     | Suc fuel' \<Rightarrow>
         if size' > 0 then
           bindR (forward g i size') (\<lambda>(g, out).
           bindR (rd (g_conn g) i) (\<lambda>c.
           bindR (put_conn g i (databuffer_reset (conn_buffer c)) (g_mp g)) (\<lambda>g.
           bindR (gate_loop fuel' g i id') (\<lambda>(g, out'). Inr (g, out @ out')))))
         else gate_loop fuel' g i id')))"

declare gate_loop.simps [simp del]

definition gate_dispatch_message :: "gate \<Rightarrow> nat \<Rightarrow> int \<Rightarrow> byte list \<Rightarrow> int \<Rightarrow> outcome" where
  "gate_dispatch_message g i id' data sz =
     bindR (rd (g_conn g) i) (\<lambda>c.
     bindR (databuffer_push (conn_buffer c) (g_mp g) data sz) (\<lambda>(db, mp).
     bindR (put_conn g i db mp) (\<lambda>g.
     gate_loop (Suc (nat (db_size db))) g i id')))"

section \<open>Socket events\<close>

definition on_data :: "gate \<Rightarrow> socket_event \<Rightarrow> outcome" where
  "on_data g message =
     bindR (hashid_lookup (g_hash g) (ev_id message)) (\<lambda>i.
     if i \<ge> 0 then gate_dispatch_message g (nat i) (ev_id message) (ev_buffer message) (ev_ud message)
     else Inr (g, [Error (''Drop unknown connection '' @ print_int (ev_id message) @ '' message''), Socket_close (ev_id message)]))"

definition on_connect :: "gate \<Rightarrow> socket_event \<Rightarrow> outcome" where
  "on_connect g message =
     (if ev_id message = g_listen_id g then Inr (g, [])
      else
        bindR (hashid_lookup (g_hash g) (ev_id message)) (\<lambda>i.
        Inr (g, if i < 0 then [Error (''Close unknown connection '' @ print_int (ev_id message)), Socket_close (ev_id message)] else [])))"

definition no_connection :: connection where
  "no_connection = \<lparr>conn_id = -1, conn_agent = 0, conn_client = 0, conn_remote_name = [], conn_buffer = db_empty\<rparr>"

definition on_close :: "gate \<Rightarrow> socket_event \<Rightarrow> outcome" where
  "on_close g message =
     bindR (hashid_remove (g_hash g) (ev_id message)) (\<lambda>(i, hash).
     let g = g\<lparr>g_hash := hash\<rparr> in
     if i \<ge> 0 then
       bindR (rd (g_conn g) (nat i)) (\<lambda>c.
       bindR (databuffer_clear (conn_buffer c) (g_mp g)) (\<lambda>(_, mp).
       bindR (wr (g_conn g) (nat i) no_connection) (\<lambda>cs.
       let g = g\<lparr>g_conn := cs, g_mp := mp\<rparr> in
       Inr (g, report g (print_int (ev_id message) @ '' close'')))))
     else Inr (g, []))"

definition on_accept :: "gate \<Rightarrow> socket_event \<Rightarrow> outcome" where
  "on_accept g message =
     bindR (assertR (g_listen_id g = ev_id message)) (\<lambda>_.
     if hashid_full (g_hash g) then Inr (g, [Socket_close (ev_ud message)])
     else
       bindR (hashid_insert (g_hash g) (ev_ud message)) (\<lambda>(i, hash).
       bindR (rd (g_conn g) (nat i)) (\<lambda>c.
       let name = takeWhile (\<lambda>ch. ch \<noteq> NUL) (take 31 (ev_text message));
           fd = ev_ud message in
       bindR (wr (g_conn g) (nat i) (c\<lparr>conn_id := fd, conn_remote_name := name\<rparr>)) (\<lambda>cs.
       let g = g\<lparr>g_hash := hash, g_conn := cs\<rparr> in
       Inr (g, report g (print_int fd @ '' open '' @ print_int fd @ '' '' @ name @ '':0'') @
               [Error (''socket open: '' @ print_hex (word_of_int fd))])))))"

definition dispatch_socket_message :: "gate \<Rightarrow> socket_event \<Rightarrow> outcome" where
  "dispatch_socket_message g message =
     (if ev_type message = SKYNET_SOCKET_TYPE_DATA then on_data g message
      else if ev_type message = SKYNET_SOCKET_TYPE_CONNECT then on_connect g message
      else if ev_type message = SKYNET_SOCKET_TYPE_CLOSE \<or> ev_type message = SKYNET_SOCKET_TYPE_ERROR then on_close g message
      else if ev_type message = SKYNET_SOCKET_TYPE_ACCEPT then on_accept g message
      else if ev_type message = SKYNET_SOCKET_TYPE_WARNING then
        Inr (g, [Error (''fd ('' @ print_int (ev_id message) @ '') send buffer ('' @ print_int (ev_ud message) @ '')K'')])
      else Inr (g, []))"

text \<open>A message to the service: the text of a command, data for a client or an event of a socket.\<close>

datatype gate_msg =
    Text "char list"
  | Client u32 "byte list"
  | Socket socket_event
  | Other_type

definition client_message :: "gate \<Rightarrow> u32 \<Rightarrow> byte list \<Rightarrow> (gate \<times> action list \<times> int) res" where
  "client_message g source msg =
     (let sz = length msg in
      if sz \<le> 4 then Inr (g, [Error (''Invalid client message from '' @ print_hex source)], 0)
      else
        let idbuf = drop (sz - 4) msg;
            uid = (ucast (idbuf ! 0) OR push_bit 8 (ucast (idbuf ! 1)) OR push_bit 16 (ucast (idbuf ! 2)) OR push_bit 24 (ucast (idbuf ! 3)) :: u32) in
        bindR (hashid_lookup (g_hash g) (sint uid)) (\<lambda>i.
        if i \<ge> 0 then Inr (g, [Socket_send (sint uid) (take (sz - 4) msg)], 1)
        else Inr (g, [Error (''Invalid client id '' @ print_int (sint uid) @ '' from '' @ print_hex source)], 0)))"

definition gate_cb :: "(string \<Rightarrow> u32) \<Rightarrow> gate \<Rightarrow> gate_msg \<Rightarrow> (gate \<times> action list \<times> int) res" where
  "gate_cb query g msg =
     (case msg of
        Text t \<Rightarrow> bindR (ctrl query g t) (\<lambda>(g, out). Inr (g, out, 0))
      | Client source m \<Rightarrow> client_message g source m
      | Socket e \<Rightarrow> bindR (dispatch_socket_message g e) (\<lambda>(g, out). Inr (g, out, 0))
      | Other_type \<Rightarrow> Inr (g, [], 0))"

section \<open>Start\<close>

text \<open>\<^verbatim>\<open>listen\<close> is the result of \<^verbatim>\<open>skynet_socket_listen(ctx, host, port, BACKLOG)\<close>.\<close>

definition start_listen :: "(string \<Rightarrow> int \<Rightarrow> int \<Rightarrow> int) \<Rightarrow> gate \<Rightarrow> string \<Rightarrow> int \<times> gate \<times> action list" where
  "start_listen listen g listen_addr =
     (let host = takeWhile (\<lambda>c. c \<noteq> CHR '':'') listen_addr;
          colon = length host < length listen_addr;
          port = int_of_long (fst (strtol 10 (if colon then drop (length host + 1) listen_addr else listen_addr))) in
      if port \<le> 0 then (1, g, [Error (''Invalid gate address '' @ listen_addr)])
      else
        let l = listen (if colon then host else []) port BACKLOG; g = g\<lparr>g_listen_id := l\<rparr> in
        if l < 0 then (1, g, []) else (0, g, [Socket_start l]))"

text \<open>\<^verbatim>\<open>sscanf(parm, "%c %s %s %d %d", ...)\<close>: the number of items that were read, and the items; \<^verbatim>\<open>client_tag\<close> and \<^verbatim>\<open>max\<close> are
  0 if they are not read.\<close>

definition gate_scan :: "string \<Rightarrow> nat \<times> char \<times> string \<times> string \<times> int \<times> int" where
  "gate_scan p =
     (case p of
        [] \<Rightarrow> (0, NUL, [], [], 0, 0)
      | header # p1 \<Rightarrow>
          let (watchdog, p2) = next_word p1; (binding, p3) = next_word p2 in
          if watchdog = [] then (1, header, [], [], 0, 0)
          else if binding = [] then (2, header, watchdog, [], 0, 0)
          else case scan_int p3 of
            None \<Rightarrow> (3, header, watchdog, binding, 0, 0)
          | Some (client_tag, p4) \<Rightarrow>
              (case scan_int p4 of
                 None \<Rightarrow> (4, header, watchdog, binding, client_tag, 0)
               | Some (maxn, _) \<Rightarrow> (5, header, watchdog, binding, client_tag, maxn)))"

definition gate_init :: "(string \<Rightarrow> u32) \<Rightarrow> (string \<Rightarrow> int \<Rightarrow> int \<Rightarrow> int) \<Rightarrow> gate \<Rightarrow> string option \<Rightarrow> (int \<times> gate \<times> action list) res" where
  "gate_init query listen g param =
     (case param of
        None \<Rightarrow> Inr (1, g, [])
      | Some p \<Rightarrow>
          let (n, header, watchdog, binding, client_tag, maxn) = gate_scan p in
          if n < 4 then Inr (1, g, [Error (''Invalid gate parm '' @ p)])
          else if maxn \<le> 0 then Inr (1, g, [Error ''Need max connection''])
          else if header \<noteq> CHR ''S'' \<and> header \<noteq> CHR ''L'' then Inr (1, g, [Error ''Invalid data header style''])
          else
            let client_tag = (if client_tag = 0 then uint PTYPE_CLIENT else client_tag);
                w = (if hd watchdog = CHR ''!'' then 0 else query watchdog);
                g = g\<lparr>g_watchdog := w\<rparr> in
            if hd watchdog \<noteq> CHR ''!'' \<and> w = 0 then Inr (1, g, [Error (''Invalid watchdog '' @ watchdog)])
            else
              bindR (hashid_init maxn) (\<lambda>hash.
              Inr (start_listen listen
                (g\<lparr>g_hash := hash, g_conn := replicate (nat maxn) no_connection, g_max_connection := maxn,
                   g_client_tag := client_tag, g_header_size := (if header = CHR ''S'' then 2 else 4)\<rparr>) binding)))"

end
