(* ===== verification/Gate_Laws.thy ===== *)
theory Gate_Laws
  imports Gate
begin

text \<open>
  How the gate service cuts what it receives into packages: \<open>gate_view\<close> reads the bytes of every connection off the shared
  pool of nodes, \<open>frames_of\<close> is the reference for cutting a stream, and the loop of \<^verbatim>\<open>dispatch_message\<close> is shown to follow it.
\<close>

section \<open>What the connections have received\<close>

text \<open>\<open>gate_view g st\<close>: the buffer of connection \<open>i\<close> waits for the package whose size is \<open>fst (st ! i)\<close> (0 if it has not seen the
  size) and holds the bytes \<open>snd (st ! i)\<close>; no two buffers share a node.\<close>

type_synonym view = "(int \<times> byte list) list"

definition bufs :: "gate \<Rightarrow> nat list list \<Rightarrow> nat list \<Rightarrow> bool" where
  "bufs g xss fl \<longleftrightarrow>
     length xss = length (g_conn g) \<and>
     (\<forall>i < length (g_conn g). db_inv (g_mp g) (conn_buffer (g_conn g ! i)) (xss ! i) fl) \<and>
     (\<forall>i < length (g_conn g). \<forall>j < length (g_conn g). i \<noteq> j \<longrightarrow> set (xss ! i) \<inter> set (xss ! j) = {})"

definition gate_view :: "gate \<Rightarrow> view \<Rightarrow> bool" where
  "gate_view g st \<longleftrightarrow> length st = length (g_conn g) \<and>
     (\<exists>xss fl. bufs g xss fl \<and>
       (\<forall>i < length st. st ! i = (db_header (conn_buffer (g_conn g ! i)), left (g_mp g) (conn_buffer (g_conn g ! i)) (xss ! i))))"

text \<open>Only buffers differ.\<close>

definition same_gate :: "gate \<Rightarrow> gate \<Rightarrow> bool" where
  "same_gate g g' \<longleftrightarrow> g' = g\<lparr>g_conn := g_conn g', g_mp := g_mp g'\<rparr> \<and>
     map (conn_buffer_update (\<lambda>_. db_empty)) (g_conn g') = map (conn_buffer_update (\<lambda>_. db_empty)) (g_conn g)"

lemma same_gate_refl [simp]: "same_gate g g"
  by (simp add: same_gate_def)

lemma same_gate_trans:
  assumes "same_gate g g'" and "same_gate g' g''"
  shows "same_gate g g''"
proof -
  have "g'' = (g\<lparr>g_conn := g_conn g', g_mp := g_mp g'\<rparr>)\<lparr>g_conn := g_conn g'', g_mp := g_mp g''\<rparr>"
    using assms by (metis same_gate_def)
  then show ?thesis using assms by (simp add: same_gate_def)
qed

lemma same_gate_conn:
  assumes "same_gate g g'" and "i < length (g_conn g)"
  shows "i < length (g_conn g')" and "conn_id (g_conn g' ! i) = conn_id (g_conn g ! i)"
    and "conn_agent (g_conn g' ! i) = conn_agent (g_conn g ! i)" and "conn_client (g_conn g' ! i) = conn_client (g_conn g ! i)"
proof -
  have m: "map (conn_buffer_update (\<lambda>_. db_empty)) (g_conn g') = map (conn_buffer_update (\<lambda>_. db_empty)) (g_conn g)"
    using assms(1) by (simp add: same_gate_def)
  then have "length (g_conn g') = length (g_conn g)" by (metis length_map)
  then show "i < length (g_conn g')" using assms(2) by simp
  then have "conn_buffer_update (\<lambda>_. db_empty) (g_conn g' ! i) = conn_buffer_update (\<lambda>_. db_empty) (g_conn g ! i)"
    using arg_cong [OF m, of "\<lambda>xs. xs ! i"] assms(2) by simp
  then show "conn_id (g_conn g' ! i) = conn_id (g_conn g ! i)"
    and "conn_agent (g_conn g' ! i) = conn_agent (g_conn g ! i)" and "conn_client (g_conn g' ! i) = conn_client (g_conn g ! i)"
    by (metis (no_types, lifting) connection.select_convs connection.surjective connection.update_convs(5))+
qed

lemma same_gate_fields:
  assumes "same_gate g g'"
  shows "g_broker g' = g_broker g" "g_watchdog g' = g_watchdog g" "g_client_tag g' = g_client_tag g"
    "g_header_size g' = g_header_size g" "g_hash g' = g_hash g" "g_listen_id g' = g_listen_id g" "g_max_connection g' = g_max_connection g"
  using assms unfolding same_gate_def by (metis gate.select_convs gate.surjective gate.update_convs)+

text \<open>An operation on one buffer changes the view at its place only.\<close>

lemma view_update:
  assumes view: "gate_view g st" and i: "i < length st"
    and op: "\<And>xs fl. db_inv (g_mp g) (conn_buffer (g_conn g ! i)) xs fl \<Longrightarrow>
        left (g_mp g) (conn_buffer (g_conn g ! i)) xs = snd (st ! i) \<Longrightarrow>
        \<exists>xs' fl'. db_inv mp' db' xs' fl' \<and> left mp' db' xs' = bs' \<and> frame (g_mp g) (set (xs @ fl)) mp' (set (xs' @ fl'))"
  shows "\<exists>g'. put_conn g i db' mp' = Inr g' \<and> gate_view g' (st[i := (db_header db', bs')]) \<and> same_gate g g' \<and>
    conn_buffer (g_conn g' ! i) = db' \<and> g_mp g' = mp' \<and> length (g_conn g') = length (g_conn g)"
proof -
  let ?c = "g_conn g ! i"
  let ?g = "g\<lparr>g_conn := (g_conn g)[i := ?c\<lparr>conn_buffer := db'\<rparr>], g_mp := mp'\<rparr>"
  obtain xss fl where len: "length st = length (g_conn g)" and b: "bufs g xss fl"
    and st: "\<forall>i < length st. st ! i = (db_header (conn_buffer (g_conn g ! i)), left (g_mp g) (conn_buffer (g_conn g ! i)) (xss ! i))"
    using view by (auto simp: gate_view_def)
  obtain xs' fl' where new: "db_inv mp' db' xs' fl'" "left mp' db' xs' = bs'" "frame (g_mp g) (set (xss ! i @ fl)) mp' (set (xs' @ fl'))"
    using op [of "xss ! i" fl] b st i len by (auto simp: bufs_def)
  have other: "db_inv mp' (conn_buffer (g_conn g ! j)) (xss ! j) fl'"
      "left mp' (conn_buffer (g_conn g ! j)) (xss ! j) = left (g_mp g) (conn_buffer (g_conn g ! j)) (xss ! j)"
      "set (xss ! j) \<inter> set xs' = {}" if "j < length (g_conn g)" "j \<noteq> i" for j
    using other_buffer [OF new(3,1), of "conn_buffer (g_conn g ! j)" "xss ! j"] b that i len by (auto simp: bufs_def)
  have "bufs ?g (xss[i := xs']) fl'"
    using b new(1) other i len by (auto simp: bufs_def nth_list_update)
  moreover have "(st[i := (db_header db', bs')]) ! j = (db_header (conn_buffer (g_conn ?g ! j)), left mp' (conn_buffer (g_conn ?g ! j)) (xss[i := xs'] ! j))"
    if "j < length st" for j
    using that st other(2) new(2) len i b by (cases "j = i") (auto simp: bufs_def)
  ultimately have "gate_view ?g (st[i := (db_header db', bs')])"
    using len unfolding gate_view_def by (intro conjI exI [of _ "xss[i := xs']"] exI [of _ fl']) auto
  moreover have "put_conn g i db' mp' = Inr ?g" using i len by (simp add: put_conn_def)
  moreover have "same_gate g ?g"
    using i len by (simp add: same_gate_def map_update) (metis list_update_id nth_map)
  ultimately show ?thesis using i len by auto
qed

lemma db_inv_header [simp]: "db_inv mp (db\<lparr>db_header := h\<rparr>) = db_inv mp db"
  by (simp add: fun_eq_iff db_inv_def)

lemma viewD:
  assumes "gate_view g st" and "i < length st" and "st ! i = (h, bs)"
  obtains xs fl where "db_inv (g_mp g) (conn_buffer (g_conn g ! i)) xs fl" and "left (g_mp g) (conn_buffer (g_conn g ! i)) xs = bs"
    and "db_header (conn_buffer (g_conn g ! i)) = h" and "db_size (conn_buffer (g_conn g ! i)) = int (length bs)" and "i < length (g_conn g)"
  using assms unfolding gate_view_def bufs_def by (metis db_inv_def prod.inject)

text \<open>A determined result of a buffer operation, as the premise of \<open>view_update\<close>.\<close>

lemma view_push:
  assumes view: "gate_view g st" and i: "i < length st" and st: "st ! i = (h, bs)"
    and data: "data \<noteq> []" "length bs + length data < 2 ^ 31"
  shows "\<exists>db mp g'. databuffer_push (conn_buffer (g_conn g ! i)) (g_mp g) data (int (length data)) = Inr (db, mp) \<and>
     put_conn g i db mp = Inr g' \<and> gate_view g' (st[i := (h, bs @ data)]) \<and> same_gate g g' \<and> db_size db = int (length bs + length data)"
proof -
  let ?db = "conn_buffer (g_conn g ! i)"
  obtain xs fl where b: "db_inv (g_mp g) ?db xs fl" "left (g_mp g) ?db xs = bs" "db_header ?db = h" "db_size ?db = int (length bs)"
    using viewD [OF view i st] .
  have push: "\<exists>db' mp' xs' fl'. databuffer_push ?db (g_mp g) data (int (length data)) = Inr (db', mp') \<and>
     db_inv mp' db' xs' fl' \<and> left mp' db' xs' = bs @ data \<and> db_header db' = h \<and> frame (g_mp g) (set (ys @ zs)) mp' (set (xs' @ fl'))"
    if "db_inv (g_mp g) ?db ys zs" "left (g_mp g) ?db ys = bs" for ys zs
    using databuffer_push_ok [OF that(1) data(1)] that(2) b(3,4) data(2) by simp
  obtain db' mp' xs' fl' where new: "databuffer_push ?db (g_mp g) data (int (length data)) = Inr (db', mp')"
      "db_inv mp' db' xs' fl'" "left mp' db' xs' = bs @ data" "db_header db' = h"
    using push [OF b(1,2)] by blast
  have "\<exists>g'. put_conn g i db' mp' = Inr g' \<and> gate_view g' (st[i := (db_header db', bs @ data)]) \<and> same_gate g g' \<and>
    conn_buffer (g_conn g' ! i) = db' \<and> g_mp g' = mp' \<and> length (g_conn g') = length (g_conn g)"
    using push new(1) st by (intro view_update [OF view i]) fastforce
  then show ?thesis using new by (auto simp: db_inv_def)
qed

lemma view_read:
  assumes view: "gate_view g st" and i: "i < length st" and st: "st ! i = (h, bs)" and n: "0 < n" "n \<le> length bs"
  shows "\<exists>db mp. databuffer_read (conn_buffer (g_conn g ! i)) (g_mp g) (int n) = Inr (take n bs, db, mp) \<and>
     db_header db = h \<and> db_size db = int (length bs - n) \<and>
     (\<forall>k. \<exists>g'. put_conn g i (db\<lparr>db_header := k\<rparr>) mp = Inr g' \<and> gate_view g' (st[i := (k, drop n bs)]) \<and> same_gate g g' \<and>
        conn_buffer (g_conn g' ! i) = db\<lparr>db_header := k\<rparr> \<and> g_mp g' = mp)"
proof -
  let ?db = "conn_buffer (g_conn g ! i)"
  obtain xs fl where b: "db_inv (g_mp g) ?db xs fl" "left (g_mp g) ?db xs = bs" "db_header ?db = h" "db_size ?db = int (length bs)"
    using viewD [OF view i st] .
  have read: "\<exists>db' mp' xs' fl'. databuffer_read ?db (g_mp g) (int n) = Inr (take n bs, db', mp') \<and>
     db_inv mp' db' xs' fl' \<and> left mp' db' xs' = drop n bs \<and> db_header db' = h \<and> frame (g_mp g) (set (ys @ zs)) mp' (set (xs' @ fl'))"
    if "db_inv (g_mp g) ?db ys zs" "left (g_mp g) ?db ys = bs" for ys zs
    using databuffer_read_ok [OF that(1) n(1)] that(2) b(3) n(2) by simp
  obtain db' mp' xs' fl' where new: "databuffer_read ?db (g_mp g) (int n) = Inr (take n bs, db', mp')"
      "db_inv mp' db' xs' fl'" "left mp' db' xs' = drop n bs" "db_header db' = h"
    using read [OF b(1,2)] by blast
  have "\<exists>g'. put_conn g i (db'\<lparr>db_header := k\<rparr>) mp' = Inr g' \<and> gate_view g' (st[i := (db_header (db'\<lparr>db_header := k\<rparr>), drop n bs)]) \<and>
    same_gate g g' \<and> conn_buffer (g_conn g' ! i) = db'\<lparr>db_header := k\<rparr> \<and> g_mp g' = mp' \<and> length (g_conn g') = length (g_conn g)" for k
    using read new(1) st by (intro view_update [OF view i]) fastforce
  then show ?thesis using new n(2) by (intro exI [of _ db'] exI [of _ mp']) (auto simp: db_inv_def)
qed

lemma view_same:
  assumes view: "gate_view g st" and i: "i < length st" and st: "st ! i = (h, bs)"
  shows "\<exists>g'. put_conn g i ((conn_buffer (g_conn g ! i))\<lparr>db_header := k\<rparr>) (g_mp g) = Inr g' \<and> gate_view g' (st[i := (k, bs)]) \<and> same_gate g g' \<and>
    conn_buffer (g_conn g' ! i) = (conn_buffer (g_conn g ! i))\<lparr>db_header := k\<rparr> \<and> g_mp g' = g_mp g"
proof -
  let ?db = "(conn_buffer (g_conn g ! i))\<lparr>db_header := k\<rparr>"
  have "\<exists>g'. put_conn g i ?db (g_mp g) = Inr g' \<and> gate_view g' (st[i := (db_header ?db, bs)]) \<and> same_gate g g' \<and>
    conn_buffer (g_conn g' ! i) = ?db \<and> g_mp g' = g_mp g \<and> length (g_conn g') = length (g_conn g)"
  proof (rule view_update [OF view i])
    fix xs fl assume "db_inv (g_mp g) (conn_buffer (g_conn g ! i)) xs fl" "left (g_mp g) (conn_buffer (g_conn g ! i)) xs = snd (st ! i)"
    then have "db_inv (g_mp g) ?db xs fl \<and> left (g_mp g) ?db xs = bs \<and> frame (g_mp g) (set (xs @ fl)) (g_mp g) (set (xs @ fl))"
      using st by simp
    then show "\<exists>xs' fl'. db_inv (g_mp g) ?db xs' fl' \<and> left (g_mp g) ?db xs' = bs \<and> frame (g_mp g) (set (xs @ fl)) (g_mp g) (set (xs' @ fl'))"
      by blast
  qed
  then show ?thesis by auto
qed

lemma view_clear:
  assumes view: "gate_view g st" and i: "i < length st" and st: "st ! i = (h, bs)"
  shows "\<exists>mp g'. databuffer_clear (conn_buffer (g_conn g ! i)) (g_mp g) = Inr (db_empty, mp) \<and> put_conn g i db_empty mp = Inr g' \<and>
    gate_view g' (st[i := (0, [])]) \<and> same_gate g g'"
proof -
  let ?db = "conn_buffer (g_conn g ! i)"
  obtain xs fl where b: "db_inv (g_mp g) ?db xs fl" using viewD [OF view i st] .
  obtain mp where mp: "databuffer_clear ?db (g_mp g) = Inr (db_empty, mp)" using databuffer_clear_ok [OF b] by blast
  have "\<exists>g'. put_conn g i db_empty mp = Inr g' \<and> gate_view g' (st[i := (db_header db_empty, [])]) \<and> same_gate g g' \<and>
    conn_buffer (g_conn g' ! i) = db_empty \<and> g_mp g' = mp \<and> length (g_conn g') = length (g_conn g)"
  proof (rule view_update [OF view i])
    fix xs fl assume "db_inv (g_mp g) ?db xs fl"
    then obtain fl' where "db_inv mp db_empty [] fl'" "frame (g_mp g) (set (xs @ fl)) mp (set fl')"
      using databuffer_clear_ok [of "g_mp g" ?db xs fl] mp by auto
    then show "\<exists>xs' fl'. db_inv mp db_empty xs' fl' \<and> left mp db_empty xs' = [] \<and> frame (g_mp g) (set (xs @ fl)) mp (set (xs' @ fl'))"
      by (intro exI [of _ "[]"] exI [of _ fl']) (simp add: left_def)
  qed
  then show ?thesis using mp by (auto simp: db_empty_def)
qed

lemma gate_view_cong:
  assumes "map conn_buffer (g_conn g') = map conn_buffer (g_conn g)" and "g_mp g' = g_mp g"
  shows "gate_view g' st = gate_view g st"
proof -
  have "length (g_conn g') = length (g_conn g)" using assms(1) by (metis length_map)
  moreover have "conn_buffer (g_conn g' ! i) = conn_buffer (g_conn g ! i)" if "i < length (g_conn g)" for i
    using assms(1) that calculation by (metis nth_map)
  ultimately show ?thesis using assms(2) by (simp add: gate_view_def bufs_def cong: conj_cong)
qed

section \<open>Cutting the stream into packages\<close>

text \<open>The packages in \<open>bs\<close> when \<open>h\<close> is the size that has been read already, or 0; what remains is the size and the bytes of
  the last, incomplete package. A size above \<open>2 ^ 31\<close>, which is a negative \<^verbatim>\<open>int\<close>, ends it.\<close>

function frames_of :: "nat \<Rightarrow> int \<Rightarrow> byte list \<Rightarrow> byte list list \<times> int \<times> byte list" where
  "frames_of hsz h bs =
     (if h = 0 then
        if length bs < hsz \<or> hsz = 0 then ([], 0, bs)
        else frames_of hsz (header_value (take hsz bs)) (drop hsz bs)
      else if h < 0 \<or> int (length bs) < h then ([], h, bs)
      else let (ps, r) = frames_of hsz 0 (drop (nat h) bs) in (take (nat h) bs # ps, r))"
  by pat_completeness auto
termination
  by (relation "measure (\<lambda>(hsz, h, bs). length bs)") auto

declare frames_of.simps [simp del]

lemma frames_of_cases:
  shows frames_of_short: "length bs < hsz \<Longrightarrow> frames_of hsz 0 bs = ([], 0, bs)"
    and frames_of_header: "0 < hsz \<Longrightarrow> hsz \<le> length bs \<Longrightarrow> frames_of hsz 0 bs = frames_of hsz (header_value (take hsz bs)) (drop hsz bs)"
    and frames_of_part: "h < 0 \<or> int (length bs) < h \<Longrightarrow> frames_of hsz h bs = ([], h, bs)"
    and frames_of_package: "0 < n \<Longrightarrow> n \<le> length bs \<Longrightarrow>
          frames_of hsz (int n) bs = (take n bs # fst (frames_of hsz 0 (drop n bs)), snd (frames_of hsz 0 (drop n bs)))"
  by (subst frames_of.simps, auto split: prod.splits)+

definition forwarded :: "gate \<Rightarrow> connection \<Rightarrow> byte list \<Rightarrow> action" where
  "forwarded g c p =
     (if g_broker g \<noteq> 0 then Send 0 (g_broker g) (client_type g) p
      else if conn_agent c \<noteq> 0 then Send (conn_client c) (conn_agent c) (client_type g) p
      else Send 0 (g_watchdog g) (ucast PTYPE_TEXT OR PTYPE_TAG_DONTCOPY) (bytes_of (print_int (conn_id c) @ '' data '') @ p))"

definition has_receiver :: "gate \<Rightarrow> connection \<Rightarrow> bool" where
  "has_receiver g c \<longleftrightarrow> g_broker g \<noteq> 0 \<or> conn_agent c \<noteq> 0 \<or> g_watchdog g \<noteq> 0"

lemma forwarded_same:
  assumes "same_gate g g'" and "i < length (g_conn g)"
  shows "forwarded g' (g_conn g' ! i) = forwarded g (g_conn g ! i)" and "has_receiver g' (g_conn g' ! i) = has_receiver g (g_conn g ! i)"
  using same_gate_fields [OF assms(1)] same_gate_conn [OF assms]
  by (simp_all add: fun_eq_iff forwarded_def has_receiver_def client_type_def)

lemma view_forward:
  assumes view: "gate_view g st" and i: "i < length st" and st: "st ! i = (h, bs)" and n: "0 < n" "n \<le> length bs"
    and rec: "has_receiver g (g_conn g ! i)"
  shows "\<exists>g'. forward g i (int n) = Inr (g', [forwarded g (g_conn g ! i) (take n bs)]) \<and> gate_view g' (st[i := (h, drop n bs)]) \<and> same_gate g g'"
proof -
  obtain db mp where read: "databuffer_read (conn_buffer (g_conn g ! i)) (g_mp g) (int n) = Inr (take n bs, db, mp)" "db_header db = h"
    and put: "\<And>k. \<exists>g'. put_conn g i (db\<lparr>db_header := k\<rparr>) mp = Inr g' \<and> gate_view g' (st[i := (k, drop n bs)]) \<and> same_gate g g'"
    using view_read [OF view i st n] by blast
  have "db\<lparr>db_header := h\<rparr> = db" using read(2) by simp
  then obtain g' where g': "put_conn g i db mp = Inr g'" "gate_view g' (st[i := (h, drop n bs)])" "same_gate g g'"
    using put [of h] by auto
  have "i < length (g_conn g)" using view i by (simp add: gate_view_def)
  then have "forward g i (int n) = Inr (g', [forwarded g (g_conn g ! i) (take n bs)])"
    using read(1) g'(1) rec same_gate_fields [OF g'(3)] by (auto simp: forward_def forwarded_def has_receiver_def client_type_def)
  then show ?thesis using g' by blast
qed

lemma view_readheader:
  assumes view: "gate_view g st" and i: "i < length st" and st: "st ! i = (h, bs)" and hsz: "0 < hsz"
  shows "\<exists>size' db mp g'. databuffer_readheader (conn_buffer (g_conn g ! i)) (g_mp g) (int hsz) = Inr (size', db, mp) \<and>
     put_conn g i db mp = Inr g' \<and> same_gate g g' \<and> conn_buffer (g_conn g' ! i) = db \<and> g_mp g' = mp \<and>
     (if h = 0 \<and> length bs < hsz then size' = -1 \<and> gate_view g' st
      else
        let h' = (if h = 0 then header_value (take hsz bs) else h); bs' = (if h = 0 then drop hsz bs else bs) in
        size' = (if int (length bs') < h' then -1 else h') \<and> gate_view g' (st[i := (h', bs')]))"
proof -
  let ?db = "conn_buffer (g_conn g ! i)"
  obtain xs fl where b: "db_header ?db = h" "db_size ?db = int (length bs)" "i < length (g_conn g)"
    using viewD [OF view i st] .
  have "?db\<lparr>db_header := h\<rparr> = ?db" "st[i := (h, bs)] = st" using b(1) st i by (simp_all add: list_update_same_conv)
  then have same: "\<exists>g'. put_conn g i ?db (g_mp g) = Inr g' \<and> gate_view g' st \<and> same_gate g g' \<and> conn_buffer (g_conn g' ! i) = ?db \<and> g_mp g' = g_mp g"
    using view_same [OF view i st, of h] by simp
  show ?thesis
  proof (cases "h = 0 \<and> hsz \<le> length bs")
    case True
    obtain db mp where read: "databuffer_read ?db (g_mp g) (int hsz) = Inr (take hsz bs, db, mp)" "db_size db = int (length bs - hsz)"
      and put: "\<And>k. \<exists>g'. put_conn g i (db\<lparr>db_header := k\<rparr>) mp = Inr g' \<and> gate_view g' (st[i := (k, drop hsz bs)]) \<and> same_gate g g' \<and>
          conn_buffer (g_conn g' ! i) = db\<lparr>db_header := k\<rparr> \<and> g_mp g' = mp"
      using view_read [OF view i st hsz] True by blast
    then show ?thesis using True b put [of "header_value (take hsz bs)"] by (auto simp: databuffer_readheader_def Let_def)
  next
    case False
    then show ?thesis using b same \<open>st[i := (h, bs)] = st\<close> by (auto simp: databuffer_readheader_def Let_def)
  qed
qed

lemma gate_loop_ok:
  "gate_view g st \<Longrightarrow> i < length st \<Longrightarrow> st ! i = (h, bs) \<Longrightarrow> has_receiver g (g_conn g ! i) \<Longrightarrow> g_header_size g = int hsz \<Longrightarrow> 0 < hsz \<Longrightarrow>
   frames_of hsz h bs = (ps, h', bs') \<Longrightarrow> \<forall>p \<in> set ps. length p < 2 ^ 24 \<Longrightarrow> length bs < fuel \<Longrightarrow>
   \<exists>g'. gate_loop fuel g i id' = Inr (g', map (forwarded g (g_conn g ! i)) ps) \<and> gate_view g' (st[i := (h', bs')]) \<and> same_gate g g'"
proof (induction fuel arbitrary: g st h bs ps)
  case (Suc fuel)
  have il: "i < length (g_conn g)" using Suc.prems(1,2) by (simp add: gate_view_def)
  obtain size' db mp g1 where rh: "databuffer_readheader (conn_buffer (g_conn g ! i)) (g_mp g) (int hsz) = Inr (size', db, mp)"
     "put_conn g i db mp = Inr g1" "same_gate g g1" "conn_buffer (g_conn g1 ! i) = db" "g_mp g1 = mp"
     and view1: "if h = 0 \<and> length bs < hsz then size' = -1 \<and> gate_view g1 st
      else
        let h' = (if h = 0 then header_value (take hsz bs) else h); bs' = (if h = 0 then drop hsz bs else bs) in
        size' = (if int (length bs') < h' then -1 else h') \<and> gate_view g1 (st[i := (h', bs')])"
    using view_readheader [OF Suc.prems(1-3,6)] by blast
  note step = gate_loop.simps [of "Suc fuel" g i id'] rh(1,2) il Suc.prems(5)
  define h1 where "h1 = (if h = 0 then header_value (take hsz bs) else h)"
  define b1 where "b1 = (if h = 0 then drop hsz bs else bs)"
  have recv: "has_receiver g1 (g_conn g1 ! i)" "forwarded g1 (g_conn g1 ! i) = forwarded g (g_conn g ! i)"
    using forwarded_same [OF rh(3) il] Suc.prems(4) by simp_all
  show ?case
  proof (cases "h = 0 \<and> length bs < hsz")
    case True
    then have "ps = []" "h' = h" "bs' = bs" using Suc.prems(7) by (auto simp: frames_of_short)
    moreover have "st[i := (h, bs)] = st" using Suc.prems(2,3) by (simp add: list_update_same_conv)
    ultimately show ?thesis using view1 True rh(3) step(1-4) Suc.prems(5) by auto
  next
    case more: False
    have size': "size' = (if int (length b1) < h1 then -1 else h1)" and view: "gate_view g1 (st[i := (h1, b1)])"
      using view1 more by (simp_all add: Let_def h1_def b1_def split: if_splits)
    have at: "st[i := (h1, b1)] ! i = (h1, b1)" "i < length (st[i := (h1, b1)])" using Suc.prems(2) by simp_all
    have frames: "frames_of hsz h1 b1 = (ps, h', bs')"
      using Suc.prems(6,7) more by (auto simp: frames_of_header h1_def b1_def)
    have hz: "g_header_size g1 = int hsz" using same_gate_fields [OF rh(3)] Suc.prems(5) by simp
    show ?thesis
    proof (cases "h1 < 0 \<or> int (length b1) < h1")
      case True
      then have "ps = []" "h' = h1" "bs' = b1" "size' < 0" using frames size' by (auto simp: frames_of_part)
      then show ?thesis using step view rh(3) by simp
    next
      case complete: False
      show ?thesis
      proof (cases "h1 = 0")
        case True
        have "length b1 < fuel" using Suc.prems(3,6,9) True more by (auto simp: h1_def b1_def split: if_splits)
        then obtain g2 where "gate_loop fuel g1 i id' = Inr (g2, map (forwarded g1 (g_conn g1 ! i)) ps)"
            "gate_view g2 (st[i := (h1, b1), i := (h', bs')])" "same_gate g1 g2"
          using Suc.IH [OF view at(2,1) recv(1) hz Suc.prems(6) frames Suc.prems(8)] by blast
        then show ?thesis using step size' True recv(2) same_gate_trans [OF rh(3)] by simp
      next
        case False
        define n where "n = nat h1"
        have n: "h1 = int n" "0 < n" "n \<le> length b1" using False complete unfolding n_def by linarith+
        obtain qs where qs: "frames_of hsz 0 (drop n b1) = (qs, h', bs')" "ps = take n b1 # qs"
          using frames n frames_of_package [of n b1 hsz] by (cases "frames_of hsz 0 (drop n b1)") auto
        have "n < 2 ^ 24" using qs(2) n Suc.prems(8) by simp
        obtain g2 where fw: "forward g1 i (int n) = Inr (g2, [forwarded g1 (g_conn g1 ! i) (take n b1)])"
            "gate_view g2 (st[i := (h1, drop n b1)])" "same_gate g1 g2"
          using view_forward [OF view at(2,1) n(2,3) recv(1)] by auto
        have at2: "i < length (st[i := (h1, drop n b1)])" "st[i := (h1, drop n b1)] ! i = (h1, drop n b1)" using at by simp_all
        obtain g3 where rs: "put_conn g2 i (databuffer_reset (conn_buffer (g_conn g2 ! i))) (g_mp g2) = Inr g3"
            "gate_view g3 (st[i := (0, drop n b1)])" "same_gate g2 g3"
          using view_same [OF fw(2) at2, of 0] by (auto simp: databuffer_reset_def)
        have g3: "same_gate g g3" using rh(3) fw(3) rs(3) same_gate_trans by blast
        have r3: "has_receiver g3 (g_conn g3 ! i)" "forwarded g3 (g_conn g3 ! i) = forwarded g (g_conn g ! i)" "g_header_size g3 = int hsz"
          using forwarded_same [OF g3 il] Suc.prems(4,5) same_gate_fields [OF g3] by simp_all
        have "length (drop n b1) < fuel" "\<forall>p \<in> set qs. length p < 2 ^ 24"
          using Suc.prems(8,9) n qs(2) by (auto simp: b1_def split: if_splits)
        then obtain g4 where "gate_loop fuel g3 i id' = Inr (g4, map (forwarded g3 (g_conn g3 ! i)) qs)"
            "gate_view g4 (st[i := (0, drop n b1), i := (h', bs')])" "same_gate g3 g4"
          using Suc.IH [OF rs(2) _ _ r3(1,3) Suc.prems(6) qs(1)] at(2) by (auto simp del: list_update_overwrite)
        moreover have "i < length (g_conn g2)" using fw(2) at(2) by (simp add: gate_view_def)
        ultimately show ?thesis
          using step size' n \<open>n < 2 ^ 24\<close> fw(1) rs(1) qs(2) r3(2) recv(2) same_gate_trans [OF g3] by simp
      qed
    qed
  qed
qed simp

text \<open>Whatever has been received, the loop ends: a pass consumes a header unless the header was read by an earlier call.\<close>

lemma view_forward_any:
  assumes view: "gate_view g st" and i: "i < length st" and st: "st ! i = (h, bs)" and n: "0 < n" "n \<le> length bs"
  shows "\<exists>g' out k. forward g i (int n) = Inr (g', out) \<and> gate_view g' (st[i := (h, drop k bs)]) \<and> same_gate g g'"
proof (cases "has_receiver g (g_conn g ! i)")
  case True
  then show ?thesis using view_forward [OF view i st n] by blast
next
  case False
  have "i < length (g_conn g)" using view i by (simp add: gate_view_def)
  then have "forward g i (int n) = Inr (g, [])" using False by (simp add: forward_def has_receiver_def)
  moreover have "st[i := (h, drop 0 bs)] = st" using i st by (simp add: list_update_same_conv)
  ultimately show ?thesis using view by (intro exI [of _ g] exI [of _ "[]"] exI [of _ 0]) auto
qed

lemma gate_loop_ends:
  "gate_view g st \<Longrightarrow> i < length st \<Longrightarrow> st ! i = (h, bs) \<Longrightarrow> g_header_size g = int hsz \<Longrightarrow> 2 \<le> hsz \<Longrightarrow>
   length bs div 2 + (if h = 0 then 0 else 1) < fuel \<or> int (length bs) < h \<Longrightarrow>
   \<exists>g' out x. gate_loop fuel g i id' = Inr (g', out) \<and> gate_view g' (st[i := x]) \<and> same_gate g g'"
proof (induction fuel arbitrary: g st h bs rule: less_induct)
  case (less fuel)
  have hsz: "0 < hsz" using less.prems(5) by simp
  have il: "i < length (g_conn g)" using less.prems(1,2) by (simp add: gate_view_def)
  define h1 where "h1 = (if h = 0 \<and> hsz \<le> length bs then header_value (take hsz bs) else h)"
  define b1 where "b1 = (if h = 0 \<and> hsz \<le> length bs then drop hsz bs else bs)"
  have stay: "st[i := (h, bs)] = st" using less.prems(2,3) by (simp add: list_update_same_conv)
  obtain size' db mp g1 where rh: "databuffer_readheader (conn_buffer (g_conn g ! i)) (g_mp g) (int hsz) = Inr (size', db, mp)"
     "put_conn g i db mp = Inr g1" "same_gate g g1" "conn_buffer (g_conn g1 ! i) = db" "g_mp g1 = mp"
     and view: "gate_view g1 (st[i := (h1, b1)])"
     and size': "size' = (if h = 0 \<and> length bs < hsz \<or> int (length b1) < h1 then -1 else h1)"
    using view_readheader [OF less.prems(1-3) hsz] stay by (fastforce simp: h1_def b1_def Let_def split: if_splits)
  have at: "i < length (st[i := (h1, b1)])" "st[i := (h1, b1)] ! i = (h1, b1)" using less.prems(2) by simp_all
  note pass = gate_loop.simps [of fuel g i id'] rh(1,2) il less.prems(4)
  consider (stop) "size' < 0" | (big) "size' \<ge> 0x1000000" | (go) "0 \<le> size'" "size' < 0x1000000" by linarith
  then show ?case
  proof cases
    case stop
    then show ?thesis using pass view rh(3) by auto
  next
    case big
    obtain mp' g2 where "databuffer_clear db mp = Inr (db_empty, mp')" "put_conn g1 i db_empty mp' = Inr g2"
        "gate_view g2 (st[i := (h1, b1), i := (0, [])])" "same_gate g1 g2"
      using view_clear [OF view at] rh(4,5) by blast
    then show ?thesis using pass big same_gate_trans [OF rh(3)] by auto
  next
    case go
    then have h1: "size' = h1" "\<not> (h = 0 \<and> length bs < hsz)" "h1 \<le> int (length b1)" using size' by (auto split: if_splits)
    obtain f where f: "fuel = Suc f" using less.prems(6) h1 by (cases fuel) (auto simp: h1_def b1_def)
    have short: "length b1 div 2 < f" using less.prems(5,6) h1(2,3) f by (auto simp: h1_def b1_def split: if_splits)
    have hz: "g_header_size g1 = int hsz" using same_gate_fields [OF rh(3)] less.prems(4) by simp
    show ?thesis
    proof (cases "h1 = 0")
      case True
      then have "\<exists>g' out x. gate_loop f g1 i id' = Inr (g', out) \<and> gate_view g' (st[i := (h1, b1), i := x]) \<and> same_gate g1 g'"
        using less.IH [OF _ view at hz less.prems(5)] short f by simp
      then show ?thesis using pass h1(1) True f same_gate_trans [OF rh(3)] by auto
    next
      case False
      then obtain n where n: "h1 = int n" "0 < n" "n \<le> length b1" using go h1(1,3) by (metis gr0I nat_int nonneg_int_cases of_nat_le_iff semiring_1_class.of_nat_0)
      obtain g2 out k where fw: "forward g1 i (int n) = Inr (g2, out)" "gate_view g2 (st[i := (h1, drop k b1)])" "same_gate g1 g2"
        using view_forward_any [OF view at n(2,3)] by auto
      have at2: "i < length (st[i := (h1, drop k b1)])" "st[i := (h1, drop k b1)] ! i = (h1, drop k b1)" using at by simp_all
      obtain g3 where rs: "put_conn g2 i (databuffer_reset (conn_buffer (g_conn g2 ! i))) (g_mp g2) = Inr g3"
          "gate_view g3 (st[i := (0, drop k b1)])" "same_gate g2 g3"
        using view_same [OF fw(2) at2, of 0] by (auto simp: databuffer_reset_def)
      have same: "same_gate g g3" using rh(3) fw(3) rs(3) same_gate_trans by blast
      have "length (drop k b1) div 2 \<le> length b1 div 2" by (simp add: div_le_mono)
      then have "\<exists>g' out x. gate_loop f g3 i id' = Inr (g', out) \<and> gate_view g' (st[i := (0, drop k b1), i := x]) \<and> same_gate g3 g'"
        using less.IH [OF _ rs(2) _ _ _ less.prems(5), of f 0 "drop k b1"] same_gate_fields [OF same] less.prems(4) short f at(1) by simp
      then obtain g' out' x where g': "gate_loop f g3 i id' = Inr (g', out')" "gate_view g' (st[i := x])" "same_gate g3 g'" by auto
      have "i < length (g_conn g2)" using fw(2) at(1) by (simp add: gate_view_def)
      then have "gate_loop fuel g i id' = Inr (g', out @ out')" using pass f h1(1) n go fw(1) rs(1) g'(1) by simp
      then show ?thesis using g'(2,3) same_gate_trans [OF same] by blast
    qed
  qed
qed

text \<open>The packages do not depend on how the stream was cut into pieces.\<close>

lemma frames_of_append:
  "0 < hsz \<Longrightarrow> frames_of hsz h bs = (ps, h', bs') \<Longrightarrow>
   frames_of hsz h (bs @ extra) = (ps @ fst (frames_of hsz h' (bs' @ extra)), snd (frames_of hsz h' (bs' @ extra)))"
proof (induction hsz h bs arbitrary: ps rule: frames_of.induct)
  case (1 hsz h bs)
  consider (short) "h = 0" "length bs < hsz" | (hdr) "h = 0" "hsz \<le> length bs" | (part) "h < 0 \<or> int (length bs) < h"
    | (package) n where "h = int n" "0 < n" "n \<le> length bs"
    by (metis linorder_neqE_linordered_idom not_less of_nat_0_less_iff of_nat_le_iff zero_less_imp_eq_int)
  then show ?case
  proof cases
    case short
    then have "ps = []" "h' = h" "bs' = bs" using "1.prems"(2) by (auto simp: frames_of_short)
    then show ?thesis by simp
  next
    case hdr
    have "frames_of hsz (header_value (take hsz bs)) (drop hsz bs) = (ps, h', bs')"
      using "1.prems"(2) hdr "1.prems"(1) by (simp add: frames_of_header)
    then have "frames_of hsz (header_value (take hsz bs)) (drop hsz bs @ extra) =
        (ps @ fst (frames_of hsz h' (bs' @ extra)), snd (frames_of hsz h' (bs' @ extra)))"
      using 1(1) hdr "1.prems"(1) by auto
    then show ?thesis using hdr "1.prems"(1) by (simp add: frames_of_header)
  next
    case part
    then have "ps = []" "h' = h" "bs' = bs" using "1.prems"(2) by (auto simp: frames_of_part)
    then show ?thesis by simp
  next
    case package
    obtain qs where qs: "frames_of hsz 0 (drop n bs) = (qs, h', bs')" "ps = take n bs # qs"
      using "1.prems"(2) package by (cases "frames_of hsz 0 (drop n bs)") (simp add: frames_of_package)
    then have "frames_of hsz 0 (drop n bs @ extra) = (qs @ fst (frames_of hsz h' (bs' @ extra)), snd (frames_of hsz h' (bs' @ extra)))"
      using 1(2) [of qs] package "1.prems"(1) by auto
    then show ?thesis using package qs(2) by (simp add: frames_of_package)
  qed
qed

lemma frames_of_rest:
  "0 < hsz \<Longrightarrow> frames_of hsz h bs = (ps, h', bs') \<Longrightarrow> frames_of hsz h' bs' = ([], h', bs') \<and> length bs' \<le> length bs"
proof (induction hsz h bs arbitrary: ps rule: frames_of.induct)
  case (1 hsz h bs)
  show ?case
  proof (cases "h = 0 \<and> hsz \<le> length bs")
    case True
    then show ?thesis using 1(1) [of ps] "1.prems" by (auto simp: frames_of_header)
  next
    case False
    show ?thesis
    proof (cases "0 < h \<and> h \<le> int (length bs)")
      case True
      then obtain n where n: "h = int n" "0 < n" "n \<le> length bs" by (metis of_nat_0_less_iff of_nat_le_iff zero_less_imp_eq_int)
      then show ?thesis using 1(2) "1.prems" by (cases "frames_of hsz 0 (drop n bs)") (auto simp: frames_of_package)
    next
      case no: False
      then have "frames_of hsz h bs = ([], h, bs)" using False by (cases "h = 0") (auto simp: frames_of_short frames_of_part)
      then show ?thesis using "1.prems"(2) by auto
    qed
  qed
qed

text \<open>A package on the wire.\<close>

definition header_of :: "nat \<Rightarrow> nat \<Rightarrow> byte list" where
  "header_of hsz n = map (\<lambda>k. of_nat (drop_bit (8 * k) n)) (rev [0..<hsz])"

definition framed :: "nat \<Rightarrow> byte list \<Rightarrow> byte list" where
  "framed hsz p = header_of hsz (length p) @ p"

lemma header_of_length [simp]: "length (header_of hsz n) = hsz"
  by (simp add: header_of_def)

lemma header_value_of:
  assumes "hsz = 2 \<and> n < 2 ^ 16 \<or> hsz = 4 \<and> n < 2 ^ 31"
  shows "header_value (header_of hsz n) = int n"
proof (cases "hsz = 2")
  case True
  then have "n div 256 < 256" using assms by auto
  moreover have "int (n div 256) * 256 + int (n mod 256) = int n" by (metis div_mult_mod_eq of_nat_add of_nat_mult of_nat_numeral)
  ultimately show ?thesis using True by (simp add: header_value_def header_of_def upt_rec unsigned_of_nat take_bit_eq_mod drop_bit_eq_div)
next
  case False
  let ?w = "of_nat n :: u32"
  have "(push_bit 24 (ucast (of_nat (drop_bit 24 n) :: byte)) OR push_bit 16 (ucast (of_nat (drop_bit 16 n) :: byte)) OR
      push_bit 8 (ucast (of_nat (drop_bit 8 n) :: byte)) OR ucast (of_nat n :: byte)) = ?w"
    by (rule bit_word_eqI) (auto simp: bit_simps less_diff_conv2, (metis le_add_diff_inverse not_le)+)
  moreover have "sint ?w = int n" using assms False by (simp add: signed_of_nat signed_take_bit_int_eq_self)
  ultimately show ?thesis using False assms by (simp add: header_value_def header_of_def upt_rec)
qed

lemma frames_of_framed:
  assumes "hsz = 2 \<and> length p < 2 ^ 16 \<or> hsz = 4 \<and> length p < 2 ^ 31"
  shows "frames_of hsz 0 (framed hsz p @ bs) =
    ((if p = [] then [] else [p]) @ fst (frames_of hsz 0 bs), snd (frames_of hsz 0 bs))"
proof -
  have "frames_of hsz 0 (framed hsz p @ bs) = frames_of hsz (int (length p)) (p @ bs)"
    using assms header_value_of [OF assms] by (subst frames_of_header) (auto simp: framed_def)
  then show ?thesis using frames_of_package [of "length p" "p @ bs" hsz] by (cases "p = []") simp_all
qed

definition package_ok :: "nat \<Rightarrow> byte list \<Rightarrow> bool" where
  "package_ok hsz p \<longleftrightarrow> hsz = 2 \<and> length p < 2 ^ 16 \<or> hsz = 4 \<and> length p < 2 ^ 24"

lemma frames_of_stream:
  "0 < hsz \<Longrightarrow> \<forall>p \<in> set ps. package_ok hsz p \<Longrightarrow> frames_of hsz 0 (concat (map (framed hsz) ps)) = (filter (\<lambda>p. p \<noteq> []) ps, 0, [])"
proof (induction ps)
  case (Cons p ps)
  then have "hsz = 2 \<and> length p < 2 ^ 16 \<or> hsz = 4 \<and> length p < 2 ^ 31" by (auto simp: package_ok_def)
  from frames_of_framed [OF this, of "concat (map (framed hsz) ps)"] show ?case using Cons by simp
qed (simp add: frames_of_short)

section \<open>Runs of the service\<close>

fun gate_run :: "(string \<Rightarrow> u32) \<Rightarrow> gate \<Rightarrow> gate_msg list \<Rightarrow> outcome" where
  "gate_run query g [] = Inr (g, [])"
| "gate_run query g (m # ms) =
     bindR (gate_cb query g m) (\<lambda>(g, out, _). bindR (gate_run query g ms) (\<lambda>(g, out'). Inr (g, out @ out')))"

definition data_event :: "int \<Rightarrow> byte list \<Rightarrow> gate_msg" where
  "data_event fd d = Socket \<lparr>ev_type = SKYNET_SOCKET_TYPE_DATA, ev_id = fd, ev_ud = int (length d), ev_buffer = d, ev_text = []\<rparr>"

lemma data_event_ok:
  assumes "gate_view g st" and "i < length st" and "st ! i = (h, bs)" and "has_receiver g (g_conn g ! i)"
    and "g_header_size g = int hsz" and "0 < hsz" and "hashid_lookup (g_hash g) fd = Inr (int i)"
    and "d \<noteq> []" and "length bs + length d < 2 ^ 31" and "frames_of hsz h (bs @ d) = (ps, h', bs')" and "\<forall>p \<in> set ps. length p < 2 ^ 24"
  shows "\<exists>g'. gate_cb query g (data_event fd d) = Inr (g', map (forwarded g (g_conn g ! i)) ps, 0) \<and>
    gate_view g' (st[i := (h', bs')]) \<and> same_gate g g'"
proof -
  have il: "i < length (g_conn g)" using assms(1,2) by (simp add: gate_view_def)
  obtain db mp g1 where push: "databuffer_push (conn_buffer (g_conn g ! i)) (g_mp g) d (int (length d)) = Inr (db, mp)"
      "put_conn g i db mp = Inr g1" "gate_view g1 (st[i := (h, bs @ d)])" "same_gate g g1" "db_size db = int (length bs + length d)"
    using view_push [OF assms(1-3,8,9)] by blast
  have same: "has_receiver g1 (g_conn g1 ! i)" "forwarded g1 (g_conn g1 ! i) = forwarded g (g_conn g ! i)" "g_header_size g1 = int hsz"
    using forwarded_same [OF push(4) il] same_gate_fields [OF push(4)] assms(4,5) by simp_all
  have "\<exists>g'. gate_loop (Suc (nat (db_size db))) g1 i fd = Inr (g', map (forwarded g1 (g_conn g1 ! i)) ps) \<and>
      gate_view g' (st[i := (h, bs @ d), i := (h', bs')]) \<and> same_gate g1 g'"
    using gate_loop_ok [OF push(3) _ _ same(1,3) assms(6,10,11)] assms(2) push(5) by (simp del: list_update_overwrite)
  then show ?thesis
    using il push same(2) same_gate_trans [OF push(4)] assms(7)
    by (auto simp: gate_cb_def data_event_def dispatch_socket_message_def on_data_def gate_dispatch_message_def)
qed

lemma data_events_ok:
  assumes "0 < hsz"
  shows "gate_view g st \<Longrightarrow> i < length st \<Longrightarrow> st ! i = (h, bs) \<Longrightarrow> has_receiver g (g_conn g ! i) \<Longrightarrow> g_header_size g = int hsz \<Longrightarrow>
   hashid_lookup (g_hash g) fd = Inr (int i) \<Longrightarrow> \<forall>d \<in> set ds. d \<noteq> [] \<Longrightarrow> length bs + length (concat ds) < 2 ^ 31 \<Longrightarrow>
   frames_of hsz h (bs @ concat ds) = (ps, h', bs') \<Longrightarrow> \<forall>p \<in> set ps. length p < 2 ^ 24 \<Longrightarrow>
   frames_of hsz h bs = ([], h, bs) \<Longrightarrow>
   \<exists>g'. gate_run query g (map (data_event fd) ds) = Inr (g', map (forwarded g (g_conn g ! i)) ps) \<and>
     gate_view g' (st[i := (h', bs')]) \<and> same_gate g g'"
proof (induction ds arbitrary: g st h bs ps)
  case Nil
  then have "st[i := (h', bs')] = st" "ps = []" by (auto simp: list_update_same_conv)
  then show ?case using Nil by auto
next
  case (Cons d ds)
  have il: "i < length (g_conn g)" using Cons.prems(1,2) by (simp add: gate_view_def)
  obtain qs h1 b1 where fr: "frames_of hsz h (bs @ d) = (qs, h1, b1)" by (metis prod.exhaust)
  obtain rs where rs: "frames_of hsz h1 (b1 @ concat ds) = (rs, h', bs')" "ps = qs @ rs"
    using frames_of_append [OF assms fr, of "concat ds"] Cons.prems(9) by (cases "frames_of hsz h1 (b1 @ concat ds)") auto
  have rest: "frames_of hsz h1 b1 = ([], h1, b1)" "length b1 \<le> length bs + length d" using frames_of_rest [OF assms fr] by simp_all
  have "d \<noteq> []" "length bs + length d < 2 ^ 31" "\<forall>p \<in> set qs. length p < 2 ^ 24" using Cons.prems(7,8,10) rs(2) by auto
  then obtain g1 where g1: "gate_cb query g (data_event fd d) = Inr (g1, map (forwarded g (g_conn g ! i)) qs, 0)"
      "gate_view g1 (st[i := (h1, b1)])" "same_gate g g1"
    using data_event_ok [OF Cons.prems(1-5) assms Cons.prems(6) _ _ fr] by blast
  note same = forwarded_same [OF g1(3) il] same_gate_fields [OF g1(3)]
  have "\<exists>g2. gate_run query g1 (map (data_event fd) ds) = Inr (g2, map (forwarded g1 (g_conn g1 ! i)) rs) \<and>
      gate_view g2 (st[i := (h1, b1), i := (h', bs')]) \<and> same_gate g1 g2"
    using Cons.prems(2,4-8,10) rs rest same by (intro Cons.IH [OF g1(2)]) auto
  then show ?case using g1 rs(2) same same_gate_trans [OF g1(3)] by auto
qed

end
