(* ===== verification/Gate_Table.thy ===== *)
theory Gate_Table
  imports Gate_Laws
begin

text \<open>
  The gate service as a table of open connections: \<open>gate_abs g A\<close> relates the state of the service, with its hash table, its
  array of connections and its pool of nodes, to a map from sockets to what is known of each of them. The events of sockets
  are shown to work on this map.
\<close>

section \<open>The table\<close>

record link =
  lk_agent :: u32
  lk_client :: u32
  lk_header :: int
  lk_bytes :: "byte list"

definition link_of :: "connection \<Rightarrow> int \<times> byte list \<Rightarrow> link" where
  "link_of c x = \<lparr>lk_agent = conn_agent c, lk_client = conn_client c, lk_header = fst x, lk_bytes = snd x\<rparr>"

definition links_of :: "gate \<Rightarrow> view \<Rightarrow> int \<Rightarrow> link option" where
  "links_of g st fd = map_option (\<lambda>i. link_of (g_conn g ! i) (st ! i)) (slot_of (g_hash g) fd)"

definition table_ok :: "gate \<Rightarrow> bool" where
  "table_ok g \<longleftrightarrow>
     hashid_inv (g_hash g) \<and> hi_cap (g_hash g) = int (length (g_conn g)) \<and> (g_header_size g = 2 \<or> g_header_size g = 4) \<and>
     (\<forall>i < length (g_conn g). i \<notin> used (g_hash g) \<longrightarrow> g_conn g ! i = no_connection) \<and>
     (\<forall>fd i. slot_of (g_hash g) fd = Some i \<longrightarrow> conn_id (g_conn g ! i) = fd)"

definition gate_abs :: "gate \<Rightarrow> (int \<rightharpoonup> link) \<Rightarrow> bool" where
  "gate_abs g A \<longleftrightarrow> table_ok g \<and> (\<exists>st. gate_view g st \<and> A = links_of g st)"

lemma gate_abs_cong:
  assumes "g_hash g' = g_hash g" and "g_conn g' = g_conn g" and "g_mp g' = g_mp g" and "g_header_size g' = g_header_size g"
  shows "gate_abs g' A = gate_abs g A"
proof -
  have "gate_view g' = gate_view g" using gate_view_cong [of g' g] assms by (simp add: fun_eq_iff)
  moreover have "links_of g' = links_of g" using assms by (simp add: fun_eq_iff links_of_def)
  ultimately show ?thesis using assms by (simp add: gate_abs_def table_ok_def)
qed

lemma slotD:
  assumes "table_ok g" and "slot_of (g_hash g) fd = Some i"
  shows "i < length (g_conn g)" and "conn_id (g_conn g ! i) = fd" and "hashid_lookup (g_hash g) fd = Inr (int i)"
    and "slot_of (g_hash g) fd' = Some i \<longleftrightarrow> fd' = fd" and "i \<in> used (g_hash g)"
  using assms slot_of_Some [of "g_hash g" fd i] slot_of_Some [of "g_hash g" fd' i] hashid_lookup_ok [of "g_hash g" fd]
  by (auto simp: table_ok_def used_def hashid_inv_def)

lemma links_of_upd:
  assumes "\<And>k. k \<noteq> fd \<Longrightarrow> slot_of (g_hash g') k = slot_of (g_hash g) k"
    and "\<And>k i. k \<noteq> fd \<Longrightarrow> slot_of (g_hash g) k = Some i \<Longrightarrow> link_of (g_conn g' ! i) (st' ! i) = link_of (g_conn g ! i) (st ! i)"
  shows "links_of g' st' = (links_of g st)(fd := links_of g' st' fd)"
proof
  fix k
  show "links_of g' st' k = ((links_of g st)(fd := links_of g' st' fd)) k"
    using assms by (cases "slot_of (g_hash g) k") (auto simp: links_of_def)
qed

lemma used_slot: "hashid_inv hi \<Longrightarrow> i \<in> used hi \<longleftrightarrow> (\<exists>fd. slot_of hi fd = Some i)"
  by (auto simp: slot_of_Some used_def)

text \<open>A place without a connection holds no bytes.\<close>

lemma view_unused:
  assumes "gate_view g st" and "i < length st" and "g_conn g ! i = no_connection"
  shows "st ! i = (0, [])"
proof -
  obtain xs fl where b: "db_inv (g_mp g) (conn_buffer (g_conn g ! i)) xs fl" "left (g_mp g) (conn_buffer (g_conn g ! i)) xs = snd (st ! i)"
      "db_header (conn_buffer (g_conn g ! i)) = fst (st ! i)" "db_size (conn_buffer (g_conn g ! i)) = int (length (snd (st ! i)))"
    using viewD [OF assms(1,2), of "fst (st ! i)" "snd (st ! i)"] by (metis prod.collapse)
  then show ?thesis using assms(3) by (simp add: no_connection_def db_empty_def prod_eq_iff)
qed

lemma view_empty:
  assumes "gate_view g st" and "i < length st" and "st ! i = (0, [])"
  shows "conn_buffer (g_conn g ! i) = db_empty"
proof -
  let ?db = "conn_buffer (g_conn g ! i)"
  obtain xs fl where b: "db_inv (g_mp g) ?db xs fl" "left (g_mp g) ?db xs = []" "db_header ?db = 0" "db_size ?db = int (length ([] :: byte list))"
    using viewD [OF assms] .
  have "xs = []"
    using b(1,2) by (cases xs) (auto simp: db_inv_def offset_ok_def left_def)
  then have "db_offset ?db = 0" "db_head ?db = None" "db_tail ?db = None" using b(1) by (simp_all add: db_inv_def offset_ok_def links_def)
  then show ?thesis using b(3,4) by (simp add: db_empty_def)
qed

text \<open>Only buffers have changed, and only the one of socket \<open>fd\<close> is seen to differ.\<close>

lemma same_gate_length: "same_gate g g' \<Longrightarrow> length (g_conn g') = length (g_conn g)"
  unfolding same_gate_def by (metis length_map)

lemma same_gate_nth:
  assumes "same_gate g g'" and "i < length (g_conn g)"
  shows "(g_conn g' ! i)\<lparr>conn_buffer := db_empty\<rparr> = (g_conn g ! i)\<lparr>conn_buffer := db_empty\<rparr>"
proof -
  have "map (conn_buffer_update (\<lambda>_. db_empty)) (g_conn g') ! i = map (conn_buffer_update (\<lambda>_. db_empty)) (g_conn g) ! i"
    using assms(1) by (simp add: same_gate_def)
  then show ?thesis using assms same_gate_length [OF assms(1)] by simp
qed

lemma same_gate_table:
  assumes same: "same_gate g g'" and ok: "table_ok g" and slot: "slot_of (g_hash g) fd = Some i"
    and view: "gate_view g st" "gate_view g' (st[i := x])"
  shows "table_ok g'" and "links_of g' (st[i := x]) = (links_of g st)(fd \<mapsto> link_of (g_conn g ! i) x)"
proof -
  note fields = same_gate_fields [OF same] same_gate_length [OF same]
  have len: "length st = length (g_conn g)" using view(1) by (simp add: gate_view_def)
  have unused: "g_conn g' ! j = no_connection" if j: "j < length (g_conn g)" "j \<notin> used (g_hash g)" for j
  proof -
    have "g_conn g ! j = no_connection" using ok j by (simp add: table_ok_def)
    moreover have "st ! j = (0, [])" using view_unused [OF view(1)] j len calculation by simp
    moreover have "j \<noteq> i" using slotD(5) [OF ok slot] j by blast
    ultimately have "conn_buffer (g_conn g' ! j) = db_empty" "conn_buffer (g_conn g ! j) = db_empty"
      using view_empty [OF view(2), of j] j len by (simp_all add: no_connection_def)
    then have "g_conn g' ! j = g_conn g ! j" using same_gate_nth [OF same j(1)] by (cases "g_conn g' ! j", cases "g_conn g ! j") simp
    then show ?thesis using \<open>g_conn g ! j = no_connection\<close> by simp
  qed
  then show "table_ok g'"
    using ok fields slotD(1,2) [OF ok] same_gate_conn(2) [OF same] by (auto simp: table_ok_def)
  show "links_of g' (st[i := x]) = (links_of g st)(fd \<mapsto> link_of (g_conn g ! i) x)"
  proof -
    have "link_of (g_conn g' ! j) (st[i := x] ! j) = link_of (g_conn g ! j) (st ! j)" if "k \<noteq> fd" "slot_of (g_hash g) k = Some j" for k j
      using that slotD(4) [OF ok slot, of k] slotD(1) [OF ok that(2)] same_gate_conn [OF same, of j] by (cases "j = i") (auto simp: link_of_def)
    then have "links_of g' (st[i := x]) = (links_of g st)(fd := links_of g' (st[i := x]) fd)" using fields by (intro links_of_upd) simp_all
    moreover have "links_of g' (st[i := x]) fd = Some (link_of (g_conn g ! i) x)"
      using slot fields len slotD(1) [OF ok slot] same_gate_conn [OF same, of i] by (simp add: links_of_def link_of_def)
    ultimately show ?thesis by simp
  qed
qed

section \<open>Events\<close>

definition accept_event :: "gate \<Rightarrow> int \<Rightarrow> string \<Rightarrow> socket_event" where
  "accept_event g fd name = \<lparr>ev_type = SKYNET_SOCKET_TYPE_ACCEPT, ev_id = g_listen_id g, ev_ud = fd, ev_buffer = [], ev_text = name\<rparr>"

definition close_event :: "int \<Rightarrow> socket_event" where
  "close_event fd = \<lparr>ev_type = SKYNET_SOCKET_TYPE_CLOSE, ev_id = fd, ev_ud = 0, ev_buffer = [], ev_text = []\<rparr>"

definition fresh_link :: link where
  "fresh_link = \<lparr>lk_agent = 0, lk_client = 0, lk_header = 0, lk_bytes = []\<rparr>"

lemma hashid_used_cap:
  assumes "table_ok g"
  shows "used (g_hash g) \<subseteq> {..<length (g_conn g)}" and "\<not> hashid_full (g_hash g) \<Longrightarrow> hi_count (g_hash g) < hi_cap (g_hash g)"
proof -
  show s: "used (g_hash g) \<subseteq> {..<length (g_conn g)}" using assms by (auto simp: table_ok_def used_def hashid_inv_def)
  have "card (used (g_hash g)) \<le> length (g_conn g)" using card_mono [OF _ s] by simp
  then show "\<not> hashid_full (g_hash g) \<Longrightarrow> hi_count (g_hash g) < hi_cap (g_hash g)"
    using assms by (simp add: hashid_full_def table_ok_def hashid_inv_def)
qed

lemma on_accept_ok:
  assumes abs: "gate_abs g A" and fd: "A fd = None" "0 \<le> fd" "fd + hi_cap (g_hash g) < 2 ^ 31"
    and e: "ev_id e = g_listen_id g" "ev_ud e = fd" and room: "\<not> hashid_full (g_hash g)"
  shows "\<exists>g' name. on_accept g e = Inr (g', report g (print_int fd @ '' open '' @ print_int fd @ '' '' @ name @ '':0'') @
       [Error (''socket open: '' @ print_hex (word_of_int fd))]) \<and>
     name = takeWhile (\<lambda>ch. ch \<noteq> NUL) (take 31 (ev_text e)) \<and> gate_abs g' (A(fd \<mapsto> fresh_link)) \<and>
     g' = g\<lparr>g_hash := g_hash g', g_conn := g_conn g'\<rparr>"
proof -
  obtain st where ok: "table_ok g" and view: "gate_view g st" and A: "A = links_of g st" using abs by (auto simp: gate_abs_def)
  have none: "slot_of (g_hash g) fd = None" using fd(1) A by (simp add: links_of_def)
  obtain c hash where ins: "hashid_insert (g_hash g) fd = Inr (int c, hash)" "hashid_inv hash" "c < length (hi_id (g_hash g))"
      "c \<notin> used (g_hash g)" "hi_cap hash = hi_cap (g_hash g)" "slot_of hash = (slot_of (g_hash g))(fd \<mapsto> c)"
    using hashid_insert_ok [OF _ fd(2,3) hashid_used_cap(2) [OF ok room] none] ok by (auto simp: table_ok_def)
  have c: "c < length (g_conn g)" "g_conn g ! c = no_connection" using ok ins(3,4) by (auto simp: table_ok_def hashid_inv_def)
  define name where "name = takeWhile (\<lambda>ch. ch \<noteq> NUL) (take 31 (ev_text e))"
  define cs where "cs = (g_conn g)[c := no_connection\<lparr>conn_id := fd, conn_remote_name := name\<rparr>]"
  define g' where "g' = g\<lparr>g_hash := hash, g_conn := cs\<rparr>"
  have run: "on_accept g e = Inr (g', report g (print_int fd @ '' open '' @ print_int fd @ '' '' @ name @ '':0'') @
       [Error (''socket open: '' @ print_hex (word_of_int fd))])"
    using e room ins(1) c by (simp add: on_accept_def name_def cs_def g'_def report_def Let_def)
  have inv: "hashid_inv (g_hash g)" using ok by (simp add: table_ok_def)
  have nc: "slot_of (g_hash g) k \<noteq> Some c" for k using ins(4) used_slot [OF inv] by blast
  have used: "i \<in> used hash \<longleftrightarrow> i = c \<or> i \<in> used (g_hash g)" for i
    using none unfolding used_slot [OF ins(2)] used_slot [OF inv] ins(6) by (metis fun_upd_apply option.distinct(1) option.inject)
  have "table_ok g'"
    using ok ins(2,5,6) used c nc unfolding table_ok_def g'_def cs_def by (auto simp: nth_list_update split: if_splits)
  moreover have "map conn_buffer (g_conn g') = map conn_buffer (g_conn g)"
    using c by (simp add: g'_def cs_def map_update no_connection_def) (metis connection.select_convs(5) list_update_id nth_map)
  then have "gate_view g' st" using view gate_view_cong [of g' g st] by (simp add: g'_def)
  moreover have "st ! c = (0, [])" using view_unused [OF view] c view by (simp add: gate_view_def)
  then have "links_of g' st fd = Some fresh_link"
    using c ins(6) by (simp add: links_of_def g'_def cs_def link_of_def fresh_link_def no_connection_def)
  moreover have "links_of g' st = (links_of g st)(fd := links_of g' st fd)"
    using nc ins(6) by (intro links_of_upd) (auto simp: g'_def cs_def, metis nth_list_update_neq)
  ultimately have "gate_abs g' (A(fd \<mapsto> fresh_link))" using A unfolding gate_abs_def by metis
  moreover have "g' = g\<lparr>g_hash := g_hash g', g_conn := g_conn g'\<rparr>" by (simp add: g'_def)
  ultimately show ?thesis using run name_def by blast
qed

lemma on_close_ok:
  assumes abs: "gate_abs g A" and e: "ev_id e = fd"
  shows "\<exists>g'. on_close g e = Inr (g', if A fd = None then [] else report g (print_int fd @ '' close'')) \<and> gate_abs g' (A(fd := None)) \<and>
     g' = g\<lparr>g_hash := g_hash g', g_conn := g_conn g', g_mp := g_mp g'\<rparr>"
proof -
  obtain st where ok: "table_ok g" and view: "gate_view g st" and A: "A = links_of g st" using abs by (auto simp: gate_abs_def)
  have inv: "hashid_inv (g_hash g)" using ok by (simp add: table_ok_def)
  show ?thesis
  proof (cases "slot_of (g_hash g) fd")
    case None
    then have "hashid_remove (g_hash g) fd = Inr (-1, g_hash g)" using hashid_remove_ok [OF inv, of fd] by simp
    moreover have "A fd = None" using None A by (simp add: links_of_def)
    moreover have "A(fd := None) = A" using calculation by auto
    ultimately show ?thesis using abs e by (intro exI [of _ g]) (simp add: on_close_def)
  next
    case (Some t)
    then obtain hash where rem: "hashid_remove (g_hash g) fd = Inr (int t, hash)" "hashid_inv hash" "hi_cap hash = hi_cap (g_hash g)"
        "slot_of hash = (slot_of (g_hash g))(fd := None)"
      using hashid_remove_ok [OF inv, of fd] by auto
    have t: "t < length (g_conn g)" "t < length st" using slotD(1) [OF ok Some] view by (simp_all add: gate_view_def)
    obtain mp g1 where cl: "databuffer_clear (conn_buffer (g_conn g ! t)) (g_mp g) = Inr (db_empty, mp)" "put_conn g t db_empty mp = Inr g1"
        "gate_view g1 (st[t := (0, [])])"
      using view_clear [OF view t(2)] by (metis prod.collapse)
    define g' where "g' = g\<lparr>g_hash := hash, g_conn := (g_conn g)[t := no_connection], g_mp := mp\<rparr>"
    have run: "on_close g e = Inr (g', report g (print_int fd @ '' close''))"
      using e rem(1) cl(1) t(1) by (simp add: on_close_def g'_def report_def)
    have "gate_view g' (st[t := (0, [])])"
      using cl(2,3) t(1) gate_view_cong [of g' g1] by (auto simp: put_conn_def g'_def map_update no_connection_def)
    moreover have "i \<in> used hash \<longleftrightarrow> i \<noteq> t \<and> i \<in> used (g_hash g)" for i
      using Some slotD(4) [OF ok Some] unfolding used_slot [OF rem(2)] used_slot [OF inv] rem(4) by (metis fun_upd_apply option.distinct(1) option.inject)
    then have "table_ok g'"
      using ok rem(2-4) t(1) slotD(4) [OF ok Some] unfolding table_ok_def g'_def by (auto simp: nth_list_update split: if_splits)
    moreover have "i \<noteq> t" if "k \<noteq> fd" "slot_of (g_hash g) k = Some i" for k i using slotD(4) [OF ok Some] that by blast
    then have "links_of g' (st[t := (0, [])]) = (links_of g st)(fd := links_of g' (st[t := (0, [])]) fd)"
      using rem(4) by (intro links_of_upd) (auto simp: g'_def, metis nth_list_update_neq)
    moreover have "links_of g' (st[t := (0, [])]) fd = None" using rem(4) by (simp add: links_of_def g'_def)
    moreover have "A fd \<noteq> None" using A Some by (simp add: links_of_def)
    ultimately have "gate_abs g' (A(fd := None))" "A fd \<noteq> None" using A unfolding gate_abs_def by metis+
    then show ?thesis using run by (intro exI [of _ g']) (auto simp: g'_def)
  qed
qed

definition link_forwarded :: "gate \<Rightarrow> int \<Rightarrow> link \<Rightarrow> byte list \<Rightarrow> action" where
  "link_forwarded g fd l p =
     (if g_broker g \<noteq> 0 then Send 0 (g_broker g) (client_type g) p
      else if lk_agent l \<noteq> 0 then Send (lk_client l) (lk_agent l) (client_type g) p
      else Send 0 (g_watchdog g) (ucast PTYPE_TEXT OR PTYPE_TAG_DONTCOPY) (bytes_of (print_int fd @ '' data '') @ p))"

definition link_receiver :: "gate \<Rightarrow> link \<Rightarrow> bool" where
  "link_receiver g l \<longleftrightarrow> g_broker g \<noteq> 0 \<or> lk_agent l \<noteq> 0 \<or> g_watchdog g \<noteq> 0"

lemma absD:
  assumes "gate_abs g A" and "A fd = Some l"
  obtains st i where "table_ok g" and "gate_view g st" and "A = links_of g st" and "slot_of (g_hash g) fd = Some i" and "i < length st"
    and "l = link_of (g_conn g ! i) (st ! i)" and "st ! i = (lk_header l, lk_bytes l)" and "hashid_lookup (g_hash g) fd = Inr (int i)"
proof -
  obtain st where st: "table_ok g" "gate_view g st" "A = links_of g st" using assms(1) by (auto simp: gate_abs_def)
  then obtain i where i: "slot_of (g_hash g) fd = Some i" "l = link_of (g_conn g ! i) (st ! i)" using assms(2) by (auto simp: links_of_def)
  have "i < length st" "st ! i = (lk_header l, lk_bytes l)" "hashid_lookup (g_hash g) fd = Inr (int i)"
    using slotD(1,3) [OF st(1) i(1)] st(2) i(2) by (simp_all add: gate_view_def link_of_def)
  then show thesis using that st i by blast
qed

lemma link_of_receiver:
  assumes "table_ok g" and "slot_of (g_hash g) fd = Some i" and "l = link_of (g_conn g ! i) x"
  shows "has_receiver g (g_conn g ! i) = link_receiver g l" and "forwarded g (g_conn g ! i) = link_forwarded g fd l"
  using slotD(2) [OF assms(1,2)] assms(3)
  by (simp_all add: has_receiver_def link_receiver_def fun_eq_iff forwarded_def link_forwarded_def link_of_def)

text \<open>The pieces of a stream arrive at an open connection.\<close>

lemma data_abs:
  assumes abs: "gate_abs g A" and l: "A fd = Some l" "link_receiver g l" and hsz: "g_header_size g = int hsz" "0 < hsz"
    and ds: "\<forall>d \<in> set ds. d \<noteq> []" "length (lk_bytes l) + length (concat ds) < 2 ^ 31"
    and ps: "frames_of hsz (lk_header l) (lk_bytes l @ concat ds) = (ps, h', bs')" "\<forall>p \<in> set ps. length p < 2 ^ 24"
    and rest: "frames_of hsz (lk_header l) (lk_bytes l) = ([], lk_header l, lk_bytes l)"
  shows "\<exists>g'. gate_run query g (map (data_event fd) ds) = Inr (g', map (link_forwarded g fd l) ps) \<and>
    gate_abs g' (A(fd \<mapsto> l\<lparr>lk_header := h', lk_bytes := bs'\<rparr>)) \<and> same_gate g g'"
proof -
  obtain st i where st: "table_ok g" "gate_view g st" "A = links_of g st" "slot_of (g_hash g) fd = Some i" "i < length st"
    "l = link_of (g_conn g ! i) (st ! i)" "st ! i = (lk_header l, lk_bytes l)" "hashid_lookup (g_hash g) fd = Inr (int i)"
    using absD [OF abs l(1)] .
  note recv = link_of_receiver [OF st(1,4,6)]
  have "has_receiver g (g_conn g ! i)" using l(2) recv by simp
  then obtain g' where g': "gate_run query g (map (data_event fd) ds) = Inr (g', map (forwarded g (g_conn g ! i)) ps)"
     "gate_view g' (st[i := (h', bs')])" "same_gate g g'"
    using data_events_ok [OF hsz(2) st(2,5,7) _ hsz(1) st(8) ds ps rest] by blast
  have "link_of (g_conn g ! i) (h', bs') = l\<lparr>lk_header := h', lk_bytes := bs'\<rparr>" using st(6) by (simp add: link_of_def)
  then have "gate_abs g' (A(fd \<mapsto> l\<lparr>lk_header := h', lk_bytes := bs'\<rparr>))"
    using same_gate_table [OF g'(3) st(1,4,2) g'(2)] st(3) g'(2) unfolding gate_abs_def by metis
  then show ?thesis using g'(1,3) recv(2) by auto
qed

text \<open>A piece of data that is not a problem for the buffer is taken whatever it holds.\<close>

lemma on_data_any:
  assumes abs: "gate_abs g A" and d: "ev_buffer e \<noteq> []" "ev_ud e = int (length (ev_buffer e))"
    and small: "\<forall>l. A (ev_id e) = Some l \<longrightarrow> length (lk_bytes l) + length (ev_buffer e) < 2 ^ 31"
  shows "\<exists>g' out A'. on_data g e = Inr (g', out) \<and> gate_abs g' A' \<and> dom A' = dom A \<and> (\<forall>k. k \<noteq> ev_id e \<longrightarrow> A' k = A k) \<and> g_listen_id g' = g_listen_id g"
proof (cases "A (ev_id e)")
  case None
  then have "slot_of (g_hash g) (ev_id e) = None" "hashid_inv (g_hash g)" using abs by (auto simp: gate_abs_def links_of_def table_ok_def)
  then have "hashid_lookup (g_hash g) (ev_id e) = Inr (-1)" using hashid_lookup_ok by fastforce
  then show ?thesis using abs by (auto simp: on_data_def)
next
  case (Some l)
  obtain st i where st: "table_ok g" "gate_view g st" "A = links_of g st" "slot_of (g_hash g) (ev_id e) = Some i" "i < length st"
    "l = link_of (g_conn g ! i) (st ! i)" "st ! i = (lk_header l, lk_bytes l)" "hashid_lookup (g_hash g) (ev_id e) = Inr (int i)"
    using absD [OF abs Some] .
  have il: "i < length (g_conn g)" using st(2,5) by (simp add: gate_view_def)
  have len: "length (lk_bytes l) + length (ev_buffer e) < 2 ^ 31" using small Some by simp
  obtain db mp g1 where push: "databuffer_push (conn_buffer (g_conn g ! i)) (g_mp g) (ev_buffer e) (int (length (ev_buffer e))) = Inr (db, mp)"
      "put_conn g i db mp = Inr g1" "gate_view g1 (st[i := (lk_header l, lk_bytes l @ ev_buffer e)])" "same_gate g g1"
      "db_size db = int (length (lk_bytes l) + length (ev_buffer e))"
    using view_push [OF st(2,5,7) d(1) len] by blast
  define hsz where "hsz = nat (g_header_size g)"
  have hsz: "g_header_size g1 = int hsz" "2 \<le> hsz" using st(1) same_gate_fields [OF push(4)] by (auto simp: table_ok_def hsz_def)
  have "0 < length (lk_bytes l @ ev_buffer e)" using d(1) by simp
  then have "length (lk_bytes l @ ev_buffer e) div 2 + (if lk_header l = 0 then 0 else 1) < Suc (nat (db_size db))"
    using push(5) by (simp add: nat_add_distrib) linarith
  then have "\<exists>g' out x. gate_loop (Suc (nat (db_size db))) g1 i (ev_id e) = Inr (g', out) \<and>
      gate_view g' (st[i := (lk_header l, lk_bytes l @ ev_buffer e), i := x]) \<and> same_gate g1 g'"
    using st(5) by (intro gate_loop_ends [OF push(3) _ _ hsz, where h = "lk_header l" and bs = "lk_bytes l @ ev_buffer e"]) simp_all
  then obtain g' out x where g': "gate_loop (Suc (nat (db_size db))) g1 i (ev_id e) = Inr (g', out)" "gate_view g' (st[i := x])" "same_gate g1 g'"
    by auto
  have same: "same_gate g g'" using same_gate_trans [OF push(4) g'(3)] .
  have "on_data g e = Inr (g', out)"
    using st(8) il d(2) push(1,2) g'(1) by (simp add: on_data_def gate_dispatch_message_def)
  moreover have "gate_abs g' (A(ev_id e \<mapsto> link_of (g_conn g ! i) x))"
    using same_gate_table [OF same st(1,4,2) g'(2)] st(3) g'(2) unfolding gate_abs_def by metis
  ultimately show ?thesis using Some same_gate_fields [OF same]
    by (intro exI [of _ g'] exI [of _ out] exI [of _ "A(ev_id e \<mapsto> link_of (g_conn g ! i) x)"]) auto
qed

section \<open>Commands\<close>

lemma str_at_ok:
  assumes "last tmp = NUL" and "p < length tmp"
  shows "\<exists>s. str_at tmp p = Inr s"
proof -
  have "last (drop p tmp) = NUL" "drop p tmp \<noteq> []" using assms by simp_all
  then have "NUL \<in> set (drop p tmp)" by (metis last_in_set)
  then show ?thesis by (simp add: str_at_def cstring_def)
qed

text \<open>The parameter of a command ends with a NUL, and so does the array: its length does not change.\<close>

lemma parm_array:
  assumes "i \<le> length msg" and "parm (msg @ [NUL]) (length msg) i = tmp"
  shows "length tmp = length msg + 1" and "last tmp = NUL" and "\<exists>n. n + i \<le> length msg \<and> tmp ! n = NUL"
proof -
  define k where "k = i + length (takeWhile (\<lambda>c. c = CHR '' '') (drop i msg))"
  define t where "t = drop k msg"
  have k: "i \<le> k" "k \<le> length msg" using assms(1) length_takeWhile_le [of "\<lambda>c. c = CHR '' ''" "drop i msg"] by (auto simp: k_def)
  have tmp: "tmp = t @ [NUL] @ drop (length t + 1) (msg @ [NUL])" using assms(2) by (simp add: parm_def Let_def t_def k_def)
  have lt: "length t = length msg - k" by (simp add: t_def)
  then show "length tmp = length msg + 1" using k tmp by simp
  show "last tmp = NUL" using k tmp lt by (cases "length t + 1 \<le> length msg") auto
  show "\<exists>n. n + i \<le> length msg \<and> tmp ! n = NUL" using k tmp lt by (intro exI [of _ "length t"]) (simp add: nth_append)
qed

lemma strsep_at_ok:
  assumes "strsep_at tmp p = (tmp', Some q)" and "tmp \<noteq> []" and "last tmp = NUL" and "p \<le> n" and "n < length tmp" and "tmp ! n = NUL"
  shows "q \<le> n" and "length tmp' = length tmp" and "last tmp' = NUL" and "tmp' ! n = NUL"
proof -
  define k where "k = p + length (takeWhile (\<lambda>c. c \<noteq> CHR '' '' \<and> c \<noteq> NUL) (drop p tmp))"
  have q: "k < length tmp" "tmp ! k = CHR '' ''" "tmp' = tmp[k := NUL]" "q = k + 1"
    using assms(1) by (simp_all add: strsep_at_def Let_def k_def split: if_splits)
  have "\<not> n < k"
  proof
    assume "n < k"
    then have "tmp ! n \<in> set (takeWhile (\<lambda>c. c \<noteq> CHR '' '' \<and> c \<noteq> NUL) (drop p tmp))"
      using assms(4,5) by (auto simp: in_set_conv_nth k_def takeWhile_nth intro!: exI [of _ "n - p"])
    then show False using assms(6) set_takeWhileD by fastforce
  qed
  moreover have "k \<noteq> n" using q(2) assms(6) by auto
  ultimately show "q \<le> n" "tmp' ! n = NUL" using q assms(6) by (simp_all add: nth_list_update)
  show "length tmp' = length tmp" using q(3) by simp
  show "last tmp' = NUL" using q(3) assms(2,3) by (simp add: last_list_update)
qed

lemma forward_agent_ok:
  assumes abs: "gate_abs g A"
  shows "\<exists>g'. forward_agent g fd a c = Inr g' \<and> gate_abs g' (A(fd := map_option (\<lambda>l. l\<lparr>lk_agent := a, lk_client := c\<rparr>) (A fd))) \<and>
    g' = g\<lparr>g_conn := g_conn g'\<rparr>"
proof (cases "A fd")
  case None
  then have "slot_of (g_hash g) fd = None" "hashid_inv (g_hash g)" using abs by (auto simp: gate_abs_def links_of_def table_ok_def)
  then have "forward_agent g fd a c = Inr g" using hashid_lookup_ok [of "g_hash g" fd] by (simp add: forward_agent_def)
  then show ?thesis using abs None by (simp add: fun_upd_idem)
next
  case (Some l)
  obtain st i where st: "table_ok g" "gate_view g st" "A = links_of g st" "slot_of (g_hash g) fd = Some i" "i < length st"
    "l = link_of (g_conn g ! i) (st ! i)" "hashid_lookup (g_hash g) fd = Inr (int i)"
    using absD [OF abs Some] .
  have il: "i < length (g_conn g)" using st(2,5) by (simp add: gate_view_def)
  define g' where "g' = g\<lparr>g_conn := (g_conn g)[i := (g_conn g ! i)\<lparr>conn_agent := a, conn_client := c\<rparr>]\<rparr>"
  have run: "forward_agent g fd a c = Inr g'" using st(7) il by (simp add: forward_agent_def g'_def)
  have "map conn_buffer (g_conn g') = map conn_buffer (g_conn g)"
    using il by (simp add: g'_def map_update) (metis list_update_id nth_map)
  then have view: "gate_view g' st" using st(2) gate_view_cong [of g' g st] by (simp add: g'_def)
  have ok: "table_ok g'"
    using st(1) slotD(5) [OF st(1,4)] il unfolding table_ok_def g'_def by (auto simp: nth_list_update)
  have "k \<noteq> fd \<Longrightarrow> slot_of (g_hash g) k = Some j \<Longrightarrow> j \<noteq> i" for k j using slotD(4) [OF st(1,4)] by blast
  then have "links_of g' st = (links_of g st)(fd := links_of g' st fd)" by (intro links_of_upd) (auto simp: g'_def, metis nth_list_update_neq)
  moreover have "links_of g' st fd = Some (l\<lparr>lk_agent := a, lk_client := c\<rparr>)" using st(4,6) il by (simp add: links_of_def g'_def link_of_def)
  ultimately have "gate_abs g' (A(fd \<mapsto> l\<lparr>lk_agent := a, lk_client := c\<rparr>))" using ok view st(3) unfolding gate_abs_def by metis
  then show ?thesis using run Some by (simp add: g'_def)
qed

lemma forward_agent_dom:
  assumes "gate_abs g A"
  shows "\<exists>g' A'. forward_agent g fd a c = Inr g' \<and> gate_abs g' A' \<and> dom A' = dom A"
proof -
  have "dom (A(fd := map_option (\<lambda>l. l\<lparr>lk_agent := a, lk_client := c\<rparr>) (A fd))) = dom A" by (auto split: if_splits)
  then show ?thesis using forward_agent_ok [OF assms, of fd a c] by blast
qed

lemma ctrl_forward_ok:
  assumes abs: "gate_abs g A" and i: "0 < i" "i \<le> length msg"
  shows "\<exists>g' A'. ctrl_forward g (parm (msg @ [NUL]) (length msg) i) = Inr (g', []) \<and> gate_abs g' A' \<and> dom A' = dom A"
proof -
  define tmp where "tmp = parm (msg @ [NUL]) (length msg) i"
  note arr = parm_array [OF i(2) tmp_def [symmetric]]
  obtain n where n: "n + i \<le> length msg" "tmp ! n = NUL" using arr(3) by blast
  have ne: "tmp \<noteq> []" using arr(1) by auto
  show ?thesis
  proof (cases "\<exists>t1 p t2 q. strsep_at tmp 0 = (t1, Some p) \<and> strsep_at t1 p = (t2, Some q)")
    case False
    then show ?thesis
    proof (cases "strsep_at tmp 0")
      case (Pair t1 r)
      show ?thesis
      proof (cases r)
        case None
        then show ?thesis using Pair abs by (auto simp: ctrl_forward_def tmp_def [symmetric])
      next
        case (Some p)
        have t1: "length t1 = length tmp" "last t1 = NUL" using strsep_at_ok [of tmp 0 t1 p n] Pair Some ne arr(1,2) n i(1) by simp_all
        then obtain s where "str_at t1 0 = Inr s" using str_at_ok [of t1 0] arr(1) by auto
        then show ?thesis using Pair Some False abs
          by (cases "strsep_at t1 p") (auto simp: ctrl_forward_def tmp_def [symmetric] split: option.splits)
      qed
    qed
  next
    case True
    then obtain t1 p t2 q where s: "strsep_at tmp 0 = (t1, Some p)" "strsep_at t1 p = (t2, Some q)" by blast
    have t1: "p \<le> n" "length t1 = length tmp" "last t1 = NUL" "t1 ! n = NUL" "t1 \<noteq> []"
      using strsep_at_ok [OF s(1) ne arr(2), of n] n arr(1) ne i(1) by auto
    have t2: "q \<le> n" "length t2 = length tmp" "last t2 = NUL" "t2 \<noteq> []"
      using strsep_at_ok [OF s(2) t1(5,3,1)] t1 n arr(1) i(1) ne by auto
    obtain idstr a c where "str_at t1 0 = Inr idstr" "str_at t2 (p + 1) = Inr a" "str_at t2 (q + 1) = Inr c"
      using str_at_ok [OF t1(3), of 0] str_at_ok [OF t2(3), of "p + 1"] str_at_ok [OF t2(3), of "q + 1"] t1(1,2) t2(1,2) n arr(1) i(1) by auto
    moreover obtain g' A' where g': "forward_agent g (int_of_long (fst (strtol 10 idstr))) (ucast (strtoul 16 a)) (ucast (strtoul 16 c)) = Inr g'"
        "gate_abs g' A'" "dom A' = dom A"
      using forward_agent_dom [OF abs] by blast
    ultimately show ?thesis using s by (auto simp: ctrl_forward_def tmp_def [symmetric])
  qed
qed

lemma memcmp_eq_ok:
  assumes "nul_free msg" and "i \<le> length msg"
  shows "\<exists>b. memcmp_eq (msg @ [NUL]) lit i = Inr b"
proof (cases "i \<le> length lit + 1")
  case False
  have len: "length lit < length msg" using False assms(2) by simp
  then have "msg ! length lit \<noteq> NUL" using assms(1) unfolding nul_free_def by (metis nth_mem)
  then have "(take (length lit + 1) (msg @ [NUL])) ! length lit \<noteq> NUL" using len by (simp add: nth_append)
  then have "take (length lit + 1) (msg @ [NUL]) \<noteq> lit @ [NUL]" by (metis nth_append_length)
  then show ?thesis using False by (auto simp: memcmp_eq_def Let_def)
qed (auto simp: memcmp_eq_def Let_def)

lemma ctrl_socket_ok:
  assumes "table_ok g" and "i \<le> length msg"
  shows "\<exists>out. ctrl_socket g (parm (msg @ [NUL]) (length msg) i) act = Inr (g, out)"
proof -
  obtain s where "str_at (parm (msg @ [NUL]) (length msg) i) 0 = Inr s"
    using str_at_ok [of _ 0] parm_array(1,2) [OF assms(2) refl] by (metis add_gr_0 zero_less_one)
  moreover have "hashid_inv (g_hash g)" using assms(1) by (simp add: table_ok_def)
  ultimately show ?thesis by (simp add: ctrl_socket_def hashid_lookup_ok Let_def)
qed

lemma ctrl_ok:
  assumes abs: "gate_abs g A" and nf: "nul_free msg"
  shows "\<exists>g' out A'. ctrl query g msg = Inr (g', out) \<and> gate_abs g' A' \<and> dom A' = dom A"
proof (cases "msg = []")
  case True
  then show ?thesis using abs by (auto simp: ctrl_def)
next
  case False
  define i where "i = length (takeWhile (\<lambda>c. c \<noteq> CHR '' '') msg)"
  have i: "i \<le> length msg" by (simp add: i_def length_takeWhile_le)
  note cmp = memcmp_eq_ok [OF nf i]
  obtain k f b s c where m: "memcmp_eq (msg @ [NUL]) ''kick'' i = Inr k" "memcmp_eq (msg @ [NUL]) ''forward'' i = Inr f"
    "memcmp_eq (msg @ [NUL]) ''broker'' i = Inr b" "memcmp_eq (msg @ [NUL]) ''start'' i = Inr s" "memcmp_eq (msg @ [NUL]) ''close'' i = Inr c"
    using cmp by metis
  have ok: "table_ok g" using abs by (simp add: gate_abs_def)
  obtain out1 out2 where sock: "ctrl_socket g (parm (msg @ [NUL]) (length msg) i) Socket_close = Inr (g, out1)"
      "ctrl_socket g (parm (msg @ [NUL]) (length msg) i) Socket_start = Inr (g, out2)"
    using ctrl_socket_ok [OF ok i] by blast
  have "k" if "i = 0" using m(1) that by (simp add: memcmp_eq_def Let_def)
  then obtain g1 A1 where fw: "\<not> k \<Longrightarrow> ctrl_forward g (parm (msg @ [NUL]) (length msg) i) = Inr (g1, []) \<and> gate_abs g1 A1 \<and> dom A1 = dom A"
    using ctrl_forward_ok [OF abs _ i] by (metis gr0I)
  obtain t where t: "str_at (parm (msg @ [NUL]) (length msg) i) 0 = Inr t"
    using str_at_ok [of _ 0] parm_array(1,2) [OF i refl] by (metis add_gr_0 zero_less_one)
  obtain u where u: "str_at (msg @ [NUL]) 0 = Inr u" using str_at_ok [of "msg @ [NUL]" 0] by auto
  have keep: "gate_abs (g\<lparr>g_broker := x\<rparr>) A" "gate_abs (g\<lparr>g_listen_id := y\<rparr>) A" for x y
    using abs gate_abs_cong [of "g\<lparr>g_broker := x\<rparr>" g] gate_abs_cong [of "g\<lparr>g_listen_id := y\<rparr>" g] by simp_all
  have "ctrl query g msg =
     (if k then Inr (g, out1) else if f then ctrl_forward g (parm (msg @ [NUL]) (length msg) i)
      else if b then Inr (g\<lparr>g_broker := query t\<rparr>, []) else if s then Inr (g, out2)
      else if c then (if g_listen_id g \<ge> 0 then Inr (g\<lparr>g_listen_id := -1\<rparr>, [Socket_close (g_listen_id g)]) else Inr (g, []))
      else Inr (g, [Error (''[gate] Unkown command : '' @ u)]))"
    using False by (simp add: ctrl_def Let_def i_def [symmetric] m sock t u)
  then consider "k" "ctrl query g msg = Inr (g, out1)" | "\<not> k" "ctrl query g msg = ctrl_forward g (parm (msg @ [NUL]) (length msg) i)"
    | g' out where "ctrl query g msg = Inr (g', out)" "gate_abs g' A"
    using keep abs by metis
  then show ?thesis using fw abs by cases auto
qed

section \<open>Every message\<close>

text \<open>What the framework and the socket thread promise: a text has no NUL, a piece of data is not empty, its size is given and
  the buffer of the connection stays below \<open>2 ^ 31\<close> bytes, a connection is accepted for the socket that listens, and its
  number is new and leaves room for the sums of \<^verbatim>\<open>hashid_insert\<close>.\<close>

definition event_ok :: "gate \<Rightarrow> socket_event \<Rightarrow> bool" where
  "event_ok g e \<longleftrightarrow>
     (ev_type e = SKYNET_SOCKET_TYPE_DATA \<longrightarrow> ev_buffer e \<noteq> [] \<and> ev_ud e = int (length (ev_buffer e)) \<and>
        (\<forall>c \<in> set (g_conn g). conn_id c = ev_id e \<longrightarrow> db_size (conn_buffer c) + ev_ud e < 2 ^ 31)) \<and>
     (ev_type e = SKYNET_SOCKET_TYPE_ACCEPT \<longrightarrow> ev_id e = g_listen_id g \<and> 0 \<le> ev_ud e \<and> ev_ud e + hi_cap (g_hash g) < 2 ^ 31 \<and>
        hashid_lookup (g_hash g) (ev_ud e) = Inr (-1))"

definition msg_ok :: "gate \<Rightarrow> gate_msg \<Rightarrow> bool" where
  "msg_ok g m = (case m of Text t \<Rightarrow> nul_free t | Socket e \<Rightarrow> event_ok g e | _ \<Rightarrow> True)"

lemma lookup_absent:
  assumes "gate_abs g A"
  shows "hashid_lookup (g_hash g) fd = Inr (-1) \<longleftrightarrow> A fd = None"
  using assms hashid_lookup_ok [of "g_hash g" fd] by (auto simp: gate_abs_def table_ok_def links_of_def split: option.splits)

lemma dispatch_ok:
  assumes abs: "gate_abs g A" and ok: "event_ok g e"
  shows "\<exists>g' out A'. dispatch_socket_message g e = Inr (g', out) \<and> gate_abs g' A'"
proof -
  note types = dispatch_socket_message_def socket_types
  consider (data) "ev_type e = 1" | (connect) "ev_type e = 2" | (close) "ev_type e = 3 \<or> ev_type e = 5" | (accept) "ev_type e = 4"
    | (other) "ev_type e \<notin> {1, 2, 3, 4, 5}" by auto
  then show ?thesis
  proof cases
    case data
    then have e: "ev_buffer e \<noteq> []" "ev_ud e = int (length (ev_buffer e))"
        "\<forall>c \<in> set (g_conn g). conn_id c = ev_id e \<longrightarrow> db_size (conn_buffer c) + ev_ud e < 2 ^ 31"
      using ok unfolding event_ok_def SKYNET_SOCKET_TYPE_DATA_def by blast+
    have "length (lk_bytes l) + length (ev_buffer e) < 2 ^ 31" if l: "A (ev_id e) = Some l" for l
    proof -
      obtain st i where st: "table_ok g" "gate_view g st" "slot_of (g_hash g) (ev_id e) = Some i" "i < length st" "st ! i = (lk_header l, lk_bytes l)"
        using absD [OF abs l] .
      obtain xs fl where "db_size (conn_buffer (g_conn g ! i)) = int (length (lk_bytes l))" "i < length (g_conn g)" using viewD [OF st(2,4,5)] .
      then show ?thesis using e(2,3) slotD(2) [OF st(1,3)] by (metis nth_mem of_nat_add of_nat_less_numeral_power_cancel_iff)
    qed
    then show ?thesis using on_data_any [OF abs e(1,2)] data by (auto simp: types)
  next
    case connect
    have "hashid_inv (g_hash g)" using abs by (simp add: gate_abs_def table_ok_def)
    then show ?thesis using connect abs by (auto simp: types on_connect_def hashid_lookup_ok)
  next
    case close
    then show ?thesis using on_close_ok [OF abs refl, of e] by (auto simp: types)
  next
    case accept
    then have e: "ev_id e = g_listen_id g" "0 \<le> ev_ud e" "ev_ud e + hi_cap (g_hash g) < 2 ^ 31" "A (ev_ud e) = None"
      using ok lookup_absent [OF abs] by (simp_all add: event_ok_def socket_types)
    show ?thesis
    proof (cases "hashid_full (g_hash g)")
      case True
      then show ?thesis using accept abs e(1) by (auto simp: types on_accept_def)
    next
      case False
      then show ?thesis using on_accept_ok [OF abs e(4,2,3,1) refl] accept by (auto simp: types)
    qed
  next
    case other
    then show ?thesis using abs by (auto simp: types)
  qed
qed

lemma gate_cb_ok:
  assumes abs: "gate_abs g A" and ok: "msg_ok g m"
  shows "\<exists>g' out r A'. gate_cb query g m = Inr (g', out, r) \<and> gate_abs g' A'"
proof (cases m)
  case (Text t)
  then show ?thesis using ctrl_ok [OF abs, of t query] ok by (auto simp: gate_cb_def msg_ok_def)
next
  case (Client source t)
  have "hashid_inv (g_hash g)" using abs by (simp add: gate_abs_def table_ok_def)
  then have "\<exists>out r. client_message g source t = Inr (g, out, r)" by (simp add: client_message_def Let_def hashid_lookup_ok)
  then show ?thesis using Client abs by (auto simp: gate_cb_def)
next
  case (Socket e)
  then show ?thesis using dispatch_ok [OF abs, of e] ok by (auto simp: gate_cb_def msg_ok_def)
qed (use abs in \<open>auto simp: gate_cb_def\<close>)

section \<open>Start\<close>

lemma fresh_view:
  assumes "\<forall>i < length (g_conn g). g_conn g ! i = no_connection" and "g_mp g = mp_empty"
  shows "gate_view g (replicate (length (g_conn g)) (0, []))"
proof -
  have "bufs g (replicate (length (g_conn g)) []) []"
    using assms by (auto simp: bufs_def db_inv_def links_def offset_ok_def left_def no_connection_def db_empty_def mp_empty_def)
  then show ?thesis using assms unfolding gate_view_def
    by (intro conjI exI [of _ "replicate (length (g_conn g)) []"] exI [of _ "[]"]) (auto simp: left_def no_connection_def db_empty_def)
qed

lemma gate_init_ok:
  assumes "gate_init query listen gate_create (Some p) = Inr (0, g, out)"
  shows "gate_abs g Map.empty"
proof -
  obtain n header watchdog binding client_tag maxn where scan: "gate_scan p = (n, header, watchdog, binding, client_tag, maxn)"
    by (metis prod_cases6)
  have pos: "0 < maxn" "header = CHR ''S'' \<or> header = CHR ''L''" using assms scan by (auto simp: gate_init_def Let_def split: if_splits)
  obtain hash g0 where hash: "hashid_init maxn = Inr hash" and listen: "start_listen listen g0 binding = (0, g, out)"
    and g0: "g_hash g0 = hash" "g_conn g0 = replicate (nat maxn) no_connection" "g_mp g0 = mp_empty" "g_header_size g0 = (if header = CHR ''S'' then 2 else 4)"
    using assms scan pos by (fastforce simp: gate_init_def Let_def gate_create_def res_simps split: if_splits)
  have g: "g_hash g = hash" "g_conn g = replicate (nat maxn) no_connection" "g_mp g = mp_empty" "g_header_size g = 2 \<or> g_header_size g = 4"
    using listen g0 by (auto simp: start_listen_def Let_def split: if_splits)
  note inv = hashid_init_inv [OF hash pos(1)]
  have "table_ok g" using inv g pos(1) by (auto simp: table_ok_def)
  moreover have "gate_view g (replicate (nat maxn) (0, []))" using fresh_view [of g] g by simp
  moreover have "links_of g st = Map.empty" for st using g inv by (auto simp: links_of_def)
  ultimately show ?thesis unfolding gate_abs_def by metis
qed

section \<open>Properties\<close>

text \<open>The states that the service can be in after a successful start.\<close>

inductive gate_reach :: "(string \<Rightarrow> u32) \<Rightarrow> (string \<Rightarrow> int \<Rightarrow> int \<Rightarrow> int) \<Rightarrow> gate \<Rightarrow> bool" for query listen where
  start: "gate_init query listen gate_create (Some p) = Inr (0, g, out) \<Longrightarrow> gate_reach query listen g"
| step: "gate_reach query listen g \<Longrightarrow> msg_ok g m \<Longrightarrow> gate_cb query g m = Inr (g', out, r) \<Longrightarrow> gate_reach query listen g'"

lemma gate_reach_abs: "gate_reach query listen g \<Longrightarrow> \<exists>A. gate_abs g A"
proof (induction rule: gate_reach.induct)
  case (start p g out)
  then show ?case using gate_init_ok by blast
next
  case (step g m g' out r)
  then show ?case using gate_cb_ok [of g _ m query] by fastforce
qed


definition ex_query :: "string \<Rightarrow> u32" where
  "ex_query s = (if s = ''wd'' then 5 else 0)"

definition ex_gate :: gate where
  "ex_gate = \<lparr>g_listen_id = 3, g_watchdog = 5, g_broker = 0, g_client_tag = 3, g_header_size = 2, g_max_connection = 2,
     g_hash = \<lparr>hi_hashmod = 15, hi_cap = 2, hi_count = 0, hi_id = replicate 2 free_node, hi_hash = replicate 16 None\<rparr>,
     g_conn = replicate 2 no_connection, g_mp = mp_empty\<rparr>"

lemma ex_gate_init: "gate_init ex_query (\<lambda>_ _ _. 3) gate_create (Some ''S wd 0.0.0.0:8888 0 2'') = Inr (0, ex_gate, [Socket_start 3])"
proof -
  have scan: "gate_scan ''S wd 0.0.0.0:8888 0 2'' = (5, CHR ''S'', ''wd'', ''0.0.0.0:8888'', 0, 2)" by code_simp
  have hash: "hashid_init 2 = Inr \<lparr>hi_hashmod = 15, hi_cap = 2, hi_count = 0, hi_id = replicate 2 free_node, hi_hash = replicate 16 None\<rparr>"
    by (simp add: hashid_init_def hashcap_loop.simps)
  have port: "int_of_long (fst (strtol 10 ''8888'')) = 8888" by code_simp
  have tag: "uint PTYPE_CLIENT = 3" by code_simp
  show ?thesis
    using scan hash port tag by (simp add: gate_init_def ex_query_def start_listen_def Let_def ex_gate_def gate_create_def)
qed


lemma gate_run_append:
  "gate_run query g ms = Inr (g1, out) \<Longrightarrow> gate_run query g1 ns = Inr (g2, out') \<Longrightarrow> gate_run query g (ms @ ns) = Inr (g2, out @ out')"
proof (induction ms arbitrary: g out)
  case (Cons m ms)
  then show ?case by (auto simp: res_simps split: prod.splits)
qed simp

text \<open>C30. A session: a connection is accepted when there is room, packages arrive on it in any pieces, and it is closed. The
  watchdog is told of the opening and of the closing; in between every package that is not empty goes to the broker or, with
  the number of the socket in front, to the watchdog. Afterwards the table of open connections, with what each of the others
  has received, is as it was before.\<close>

theorem gate_session:
  assumes abs: "gate_abs g A" and fd: "A fd = None" "0 \<le> fd" "fd + hi_cap (g_hash g) < 2 ^ 31" and room: "\<not> hashid_full (g_hash g)"
    and recv: "g_broker g \<noteq> 0 \<or> g_watchdog g \<noteq> 0" and hsz: "g_header_size g = int hsz"
    and ps: "\<forall>p \<in> set ps. package_ok hsz p" and ds: "concat ds = concat (map (framed hsz) ps)" "\<forall>d \<in> set ds. d \<noteq> []" "length (concat ds) < 2 ^ 31"
    and name: "length name \<le> 31" "NUL \<notin> set name"
  shows "\<exists>g'. gate_run query g ([Socket (accept_event g fd name)] @ map (data_event fd) ds @ [Socket (close_event fd)]) =
      Inr (g', report g (print_int fd @ '' open '' @ print_int fd @ '' '' @ name @ '':0'') @
               [Error (''socket open: '' @ print_hex (word_of_int fd))] @
               map (link_forwarded g fd fresh_link) (filter (\<lambda>p. p \<noteq> []) ps) @
               report g (print_int fd @ '' close'')) \<and> gate_abs g' A"
proof -
  have h0: "0 < hsz" using abs hsz by (auto simp: gate_abs_def table_ok_def)
  let ?opened = "report g (print_int fd @ '' open '' @ print_int fd @ '' '' @ name @ '':0'') @ [Error (''socket open: '' @ print_hex (word_of_int fd))]"
  have "takeWhile (\<lambda>ch. ch \<noteq> NUL) (take 31 name) = name" using name by (simp add: takeWhile_eq_all_conv) metis
  then obtain g1 where g1: "on_accept g (accept_event g fd name) = Inr (g1, ?opened)" "gate_abs g1 (A(fd \<mapsto> fresh_link))"
     "g1 = g\<lparr>g_hash := g_hash g1, g_conn := g_conn g1\<rparr>"
    using on_accept_ok [OF abs fd, of "accept_event g fd name"] room by (auto simp: accept_event_def)
  have f1: "g_broker g1 = g_broker g" "g_watchdog g1 = g_watchdog g" "g_client_tag g1 = g_client_tag g" "g_header_size g1 = g_header_size g"
    by (subst g1(3), simp)+
  have run1: "gate_run query g [Socket (accept_event g fd name)] = Inr (g1, ?opened)"
    using g1(1) by (simp add: gate_cb_def dispatch_socket_message_def accept_event_def socket_types)
  have "\<forall>p \<in> set (filter (\<lambda>p. p \<noteq> []) ps). length p < 2 ^ 24" using ps by (auto simp: package_ok_def)
  then obtain g2 where g2: "gate_run query g1 (map (data_event fd) ds) = Inr (g2, map (link_forwarded g1 fd fresh_link) (filter (\<lambda>p. p \<noteq> []) ps))"
      "gate_abs g2 (A(fd \<mapsto> fresh_link))" "same_gate g1 g2"
    using data_abs [OF g1(2), of fd fresh_link hsz ds "filter (\<lambda>p. p \<noteq> []) ps" 0 "[]" query] f1 recv hsz h0 ds frames_of_stream [OF h0 ps]
    by (auto simp: fresh_link_def link_receiver_def frames_of_short)
  have fwd: "link_forwarded g1 fd fresh_link = link_forwarded g fd fresh_link"
    using f1 by (simp add: fun_eq_iff link_forwarded_def client_type_def)
  obtain g3 where g3: "on_close g2 (close_event fd) = Inr (g3, report g2 (print_int fd @ '' close''))" "gate_abs g3 A"
    using on_close_ok [OF g2(2), of "close_event fd" fd] fd(1) by (auto simp: close_event_def fun_upd_idem)
  have "report g2 = report g" using same_gate_fields [OF g2(3)] f1 by (simp add: fun_eq_iff report_def)
  then have run3: "gate_run query g2 [Socket (close_event fd)] = Inr (g3, report g (print_int fd @ '' close''))"
    using g3(1) by (simp add: gate_cb_def dispatch_socket_message_def close_event_def socket_types)
  show ?thesis using gate_run_append [OF run1 gate_run_append [OF g2(1) run3]] g3(2) fwd by auto
qed

text \<open>Two packages, the second of them empty, and a third, cut in the middle of the first and of the header of the last.\<close>

theorem gate_session_witness:
  "\<exists>g'. gate_run ex_query ex_gate ([Socket (accept_event ex_gate 7 ''peer'')] @ map (data_event 7) [[0, 3, 65], [66, 67, 0, 0, 0], [1, 68]] @ [Socket (close_event 7)]) =
      Inr (g', report ex_gate (print_int 7 @ '' open '' @ print_int 7 @ '' '' @ ''peer'' @ '':0'') @
               [Error (''socket open: '' @ print_hex (word_of_int 7))] @
               map (link_forwarded ex_gate 7 fresh_link) (filter (\<lambda>p. p \<noteq> []) [[65, 66, 67], [], [68]]) @
               report ex_gate (print_int 7 @ '' close'')) \<and> gate_abs g' Map.empty"
  by (rule gate_session [OF gate_init_ok [OF ex_gate_init], where hsz = 2])
    (simp_all add: ex_gate_def hashid_full_def package_ok_def framed_def header_of_def upt_rec drop_bit_eq_div)


definition ex_open :: gate where
  "ex_open = ex_gate\<lparr>g_hash := \<lparr>hi_hashmod = 15, hi_cap = 2, hi_count = 1, hi_id = [free_node, \<lparr>hn_id = 7, hn_next = None\<rparr>],
      hi_hash = (replicate 16 None)[7 := Some 1]\<rparr>,
     g_conn := [no_connection, no_connection\<lparr>conn_id := 7, conn_remote_name := ''peer''\<rparr>]\<rparr>"

lemma ex_open_abs: "gate_abs ex_open [7 \<mapsto> fresh_link]"
proof -
  have "insert_scan (g_hash ex_gate) 7 0 = Inr (Some 1)" by code_simp
  then have "on_accept ex_gate (accept_event ex_gate 7 ''peer'') = Inr (ex_open, report ex_gate (print_int 7 @ '' open '' @ print_int 7 @ '' '' @ ''peer'' @ '':0'') @
     [Error (''socket open: '' @ print_hex (word_of_int 7))])"
    by (simp add: on_accept_def accept_event_def hashid_full_def hashid_insert_def ex_gate_def ex_open_def Let_def bucket_def
      free_node_def no_connection_def report_def eval_nat_numeral)
  then show ?thesis
    using on_accept_ok [OF gate_init_ok [OF ex_gate_init], of 7 "accept_event ex_gate 7 ''peer''"]
    by (auto simp: accept_event_def ex_gate_def hashid_full_def)
qed


section \<open>Where the code falls short\<close>

text \<open>Without a broker, an agent and a watchdog a package is not read from the buffer; the loop resets the header, and the bytes
  of the package are taken for the next header.\<close>

theorem forward_keeps_package:
  assumes "i < length (g_conn g)" and "\<not> has_receiver g (g_conn g ! i)"
  shows "forward g i n = Inr (g, [])"
  using assms by (simp add: forward_def has_receiver_def)

text \<open>A header of four bytes with the highest bit set is a negative size: the connection is neither closed nor are packages
  taken from it any more, and all that arrives is kept.\<close>

theorem negative_size_blocks:
  assumes "gate_view g st" and "hashid_lookup (g_hash g) fd = Inr (int i)" and "i < length st" and "st ! i = (h, bs)" and "h < 0"
    and "has_receiver g (g_conn g ! i)" and "g_header_size g = 4" and "\<forall>d \<in> set ds. d \<noteq> []" and "length bs + length (concat ds) < 2 ^ 31"
  shows "header_value [0x80, 0, 0, 0] < 0"
    and "\<exists>g'. gate_run query g (map (data_event fd) ds) = Inr (g', []) \<and> gate_view g' (st[i := (h, bs @ concat ds)])"
proof -
  show "header_value [0x80, 0, 0, 0] < 0" by code_simp
  have "g_header_size g = int 4" using assms(7) by simp
  then show "\<exists>g'. gate_run query g (map (data_event fd) ds) = Inr (g', []) \<and> gate_view g' (st[i := (h, bs @ concat ds)])"
    using data_events_ok [of 4 g st i h bs fd ds "[]" h "bs @ concat ds" query] assms frames_of_part [of h _ 4] by auto
qed

text \<open>A connection that the listening socket has accepted before it is closed by the command \<^verbatim>\<open>close\<close>, but whose event comes after
  the command, makes the assertion of the event fail.\<close>

theorem accept_after_close_fails:
  assumes "0 \<le> g_listen_id g" and "ev_id e = g_listen_id g"
  shows "\<exists>g'. ctrl query g ''close'' = Inr (g', [Socket_close (g_listen_id g)]) \<and> on_accept g' e = Inl Assert_failed"
  using assms by (simp add: ctrl_def memcmp_eq_def on_accept_def Let_def assertR_def)

end
