(* ===== verification/Cluster.thy ===== *)
theory Cluster
  imports Netpack Chunk Bytes
begin

text \<open>
  The packages that the nodes of a cluster exchange, \<^verbatim>\<open>lualib-src/lua-cluster.c\<close>. The argument of a request is a message with
  its size, as \<^verbatim>\<open>skynet.pack\<close> returns it; \<open>None\<close> is the \<^verbatim>\<open>NULL\<close> pointer. The values that a function pushes on the Lua stack are the
  list that the model returns. A large message is cut_parts into parts.
\<close>

section \<open>Definitions\<close>

definition TEMP_LENGTH :: nat where "TEMP_LENGTH = 0x8200"
definition MULTI_PART :: nat where "MULTI_PART = 0x8000"

type_synonym temp = "byte option list"

definition temp_buf :: temp where
  "temp_buf = replicate TEMP_LENGTH None"

datatype lua_arg =
    Arg_int int
  | Arg_string "byte list"
  | Arg_bool bool

definition fill_uint32 :: "temp \<Rightarrow> nat \<Rightarrow> u32 \<Rightarrow> temp res" where
  "fill_uint32 buf i n =
     memcpyR buf i [Some (ucast (n AND 0xff)), Some (ucast (drop_bit 8 n AND 0xff)),
       Some (ucast (drop_bit 16 n AND 0xff)), Some (ucast (drop_bit 24 n AND 0xff))]"

definition fill_header :: "temp \<Rightarrow> nat \<Rightarrow> temp res" where
  "fill_header buf sz =
     bindR (assertR (sz < 0x10000)) (\<lambda>_.
     memcpyR buf 0 [Some (of_nat (sz div 256 mod 256)), Some (of_nat (sz mod 256))])"

text \<open>\<^verbatim>\<open>memcpy(..., msg, n)\<close> reads \<open>n\<close> bytes of the message.\<close>

definition msg_bytes :: "byte list \<Rightarrow> nat \<Rightarrow> byte list res" where
  "msg_bytes msg n = (if n \<le> length msg then Inr (take n msg) else Inl Out_of_bounds)"

definition parts_of :: "nat \<Rightarrow> nat" where
  "parts_of sz = (sz - 1) div MULTI_PART + 1"

definition packreq_number :: "u32 \<Rightarrow> u32 \<Rightarrow> byte list \<Rightarrow> nat \<Rightarrow> (byte list \<times> nat) res" where
  "packreq_number addr session msg sz =
     (if sz < MULTI_PART then
        bindR (fill_header temp_buf (sz + 9)) (\<lambda>buf.
        bindR (wr buf 2 (Some 0)) (\<lambda>buf.
        bindR (fill_uint32 buf 3 addr) (\<lambda>buf.
        bindR (fill_uint32 buf 7 session) (\<lambda>buf.
        bindR (msg_bytes msg sz) (\<lambda>m.
        bindR (memcpyR buf 11 (map Some m)) (\<lambda>buf.
        bindR (lua_pushlstring buf (sz + 11)) (\<lambda>s. Inr (s, 0))))))))
      else
        bindR (fill_header temp_buf 13) (\<lambda>buf.
        bindR (wr buf 2 (Some 1)) (\<lambda>buf.
        bindR (fill_uint32 buf 3 addr) (\<lambda>buf.
        bindR (fill_uint32 buf 7 session) (\<lambda>buf.
        bindR (fill_uint32 buf 11 (of_nat sz)) (\<lambda>buf.
        bindR (lua_pushlstring buf 15) (\<lambda>s. Inr (s, parts_of sz))))))))"

definition packreq_string :: "byte list option \<Rightarrow> u32 \<Rightarrow> byte list \<Rightarrow> nat \<Rightarrow> (byte list \<times> nat) res" where
  "packreq_string name session msg sz =
     (case name of
        None \<Rightarrow> Inl (Lua_error ''name is too long %s'')
      | Some name \<Rightarrow>
          let namelen = length name in
          if namelen < 1 \<or> namelen > 255 then Inl (Lua_error ''name is too long %s'')
          else if sz < MULTI_PART then
            bindR (fill_header temp_buf (sz + 6 + namelen)) (\<lambda>buf.
            bindR (wr buf 2 (Some 0x80)) (\<lambda>buf.
            bindR (wr buf 3 (Some (of_nat namelen))) (\<lambda>buf.
            bindR (memcpyR buf 4 (map Some name)) (\<lambda>buf.
            bindR (fill_uint32 buf (4 + namelen) session) (\<lambda>buf.
            bindR (msg_bytes msg sz) (\<lambda>m.
            bindR (memcpyR buf (8 + namelen) (map Some m)) (\<lambda>buf.
            bindR (lua_pushlstring buf (sz + 8 + namelen)) (\<lambda>s. Inr (s, 0)))))))))
          else
            bindR (fill_header temp_buf (10 + namelen)) (\<lambda>buf.
            bindR (wr buf 2 (Some 0x81)) (\<lambda>buf.
            bindR (wr buf 3 (Some (of_nat namelen))) (\<lambda>buf.
            bindR (memcpyR buf 4 (map Some name)) (\<lambda>buf.
            bindR (fill_uint32 buf (4 + namelen) session) (\<lambda>buf.
            bindR (fill_uint32 buf (8 + namelen) (of_nat sz)) (\<lambda>buf.
            bindR (lua_pushlstring buf (12 + namelen)) (\<lambda>s. Inr (s, parts_of sz)))))))))"

text \<open>The buffer of \<^verbatim>\<open>packreq_multi\<close> is used for all the parts; \<open>msg\<close> is what \<^verbatim>\<open>ptr\<close> points to.\<close>

fun packreq_multi :: "nat \<Rightarrow> temp \<Rightarrow> u32 \<Rightarrow> byte list \<Rightarrow> nat \<Rightarrow> byte list list res" where
  "packreq_multi 0 buf session msg sz = Inr []"
| "packreq_multi (Suc part) buf session msg sz =
     (let s = (if sz > MULTI_PART then MULTI_PART else sz) in
      bindR (wr buf 2 (Some (if sz > MULTI_PART then 2 else 3))) (\<lambda>buf.
      bindR (fill_header buf (s + 5)) (\<lambda>buf.
      bindR (fill_uint32 buf 3 session) (\<lambda>buf.
      bindR (msg_bytes msg s) (\<lambda>m.
      bindR (memcpyR buf 7 (map Some m)) (\<lambda>buf.
      bindR (lua_pushlstring buf (s + 7)) (\<lambda>str.
      bindR (packreq_multi part buf session (drop s msg) (sz - s)) (\<lambda>rest. Inr (str # rest)))))))))"

datatype cluster_addr =
    Addr_number int
  | Addr_string "byte list"
  | Addr_other

definition pack_first :: "cluster_addr \<Rightarrow> u32 \<Rightarrow> byte list \<Rightarrow> nat \<Rightarrow> (byte list \<times> nat) res" where
  "pack_first addr session msg sz =
     (case addr of
        Addr_number n \<Rightarrow> packreq_number (word_of_int n) session msg sz
      | Addr_string name \<Rightarrow> packreq_string (Some name) session msg sz
      | Addr_other \<Rightarrow> packreq_string None session msg sz)"

text \<open>The result is the request, the next session and the parts. \<^verbatim>\<open>++session\<close> is an addition of \<^verbatim>\<open>int\<close>s.\<close>

definition lpackrequest :: "cluster_addr \<Rightarrow> int \<Rightarrow> byte list option \<Rightarrow> int \<Rightarrow> (byte list \<times> int \<times> byte list list option) res" where
  "lpackrequest addr session msg sz =
     (case msg of
        None \<Rightarrow> Inl (Lua_error ''Invalid request message'')
      | Some m \<Rightarrow>
          let sz = unat (word_of_int sz :: u32); session = sint (word_of_int session :: u32) in
          if session \<le> 0 then Inl (Lua_error ''Invalid request session %d'')
          else
            bindR (pack_first addr (word_of_int session) m sz) (\<lambda>(req, multipak).
            if session + 1 \<ge> 2 ^ 31 then Inl Int_overflow
            else if multipak \<noteq> 0 then
              bindR (packreq_multi (parts_of sz) temp_buf (word_of_int session) m sz) (\<lambda>ps. Inr (req, session + 1, Some ps))
            else Inr (req, session + 1, None)))"

text \<open>A Lua string ends with a NUL, which may be read.\<close>

definition str_byte :: "byte list \<Rightarrow> nat \<Rightarrow> byte res" where
  "str_byte s i = rd (s @ [0]) i"

definition str_range :: "byte list \<Rightarrow> nat \<Rightarrow> nat \<Rightarrow> byte list res" where
  "str_range s i n = (if i + n \<le> length s + 1 then Inr (take n (drop i (s @ [0]))) else Inl Out_of_bounds)"

definition unpack_uint32 :: "byte list \<Rightarrow> nat \<Rightarrow> u32 res" where
  "unpack_uint32 buf i =
     bindR (str_range buf i 4) (\<lambda>b.
     Inr (ucast (b ! 0) OR push_bit 8 (ucast (b ! 1)) OR push_bit 16 (ucast (b ! 2)) OR push_bit 24 (ucast (b ! 3))))"

definition push_uint32 :: "u32 \<Rightarrow> lua_arg" where
  "push_uint32 n = Arg_int (uint n)"

definition bad_size :: "'a res" where
  "bad_size = Inl (Lua_error ''Invalid cluster message (size=%d)'')"

definition unpackreq_number :: "byte list \<Rightarrow> int \<Rightarrow> lua_arg list res" where
  "unpackreq_number buf sz =
     (if sz < 9 then bad_size
      else
        bindR (unpack_uint32 buf 1) (\<lambda>address.
        bindR (unpack_uint32 buf 5) (\<lambda>session.
        bindR (str_range buf 9 (nat (sz - 9))) (\<lambda>m.
        Inr [push_uint32 address, push_uint32 session, Arg_string m]))))"

definition unpackmreq_number :: "byte list \<Rightarrow> int \<Rightarrow> lua_arg list res" where
  "unpackmreq_number buf sz =
     (if sz \<noteq> 13 then Inl (Lua_error ''Invalid cluster message size %d (multi req must be 13)'')
      else
        bindR (unpack_uint32 buf 1) (\<lambda>address.
        bindR (unpack_uint32 buf 5) (\<lambda>session.
        bindR (unpack_uint32 buf 9) (\<lambda>size'.
        Inr [push_uint32 address, push_uint32 session, push_uint32 size', Arg_bool True]))))"

definition unpackmreq_part :: "byte list \<Rightarrow> int \<Rightarrow> lua_arg list res" where
  "unpackmreq_part buf sz =
     (if sz < 5 then Inl (Lua_error ''Invalid cluster multi part message'')
      else
        bindR (str_byte buf 0) (\<lambda>b0.
        bindR (unpack_uint32 buf 1) (\<lambda>session.
        bindR (str_range buf 5 (nat (sz - 5))) (\<lambda>m.
        Inr [Arg_bool False, push_uint32 session, Arg_string m, Arg_bool (b0 = 2)]))))"

text \<open>\<^verbatim>\<open>sz < namesz + 6\<close> compares an \<^verbatim>\<open>int\<close> with a \<^verbatim>\<open>size_t\<close>; \<open>sz\<close> is not negative there.\<close>

definition unpackreq_string :: "byte list \<Rightarrow> int \<Rightarrow> lua_arg list res" where
  "unpackreq_string buf sz =
     (if sz < 2 then bad_size
      else
        bindR (str_byte buf 1) (\<lambda>b.
        let namesz = unat b in
        if nat sz < namesz + 6 then bad_size
        else
          bindR (str_range buf 2 namesz) (\<lambda>name.
          bindR (unpack_uint32 buf (namesz + 2)) (\<lambda>session.
          bindR (str_range buf (2 + namesz + 4) (nat sz - namesz - 6)) (\<lambda>m.
          Inr [Arg_string name, push_uint32 session, Arg_string m])))))"

definition unpackmreq_string :: "byte list \<Rightarrow> int \<Rightarrow> lua_arg list res" where
  "unpackmreq_string buf sz =
     (if sz < 2 then bad_size
      else
        bindR (str_byte buf 1) (\<lambda>b.
        let namesz = unat b in
        if nat sz < namesz + 10 then bad_size
        else
          bindR (str_range buf 2 namesz) (\<lambda>name.
          bindR (unpack_uint32 buf (namesz + 2)) (\<lambda>session.
          bindR (unpack_uint32 buf (namesz + 6)) (\<lambda>size'.
          Inr [Arg_string name, push_uint32 session, push_uint32 size', Arg_bool True])))))"

definition lunpackrequest :: "byte list \<Rightarrow> lua_arg list res" where
  "lunpackrequest msg =
     (let sz = sint (of_nat (length msg) :: u32) in
      bindR (str_byte msg 0) (\<lambda>b.
      if b = 0 then unpackreq_number msg sz
      else if b = 1 then unpackmreq_number msg sz
      else if b = 2 \<or> b = 3 then unpackmreq_part msg sz
      else if b = 0x80 then unpackreq_string msg sz
      else if b = 0x81 then unpackmreq_string msg sz
      else Inl (Lua_error ''Invalid req package type %d'')))"

text \<open>The message of a response is a Lua string or a pointer with a size.\<close>

datatype response =
    Resp_string "byte list"
  | Resp_pointer "byte list" int

datatype packed =
    One "byte list"
  | Many "byte list list"

fun packresp_multi :: "nat \<Rightarrow> temp \<Rightarrow> u32 \<Rightarrow> byte list \<Rightarrow> nat \<Rightarrow> byte list list res" where
  "packresp_multi 0 buf session msg sz = Inr []"
| "packresp_multi (Suc part) buf session msg sz =
     (let s = (if sz > MULTI_PART then MULTI_PART else sz) in
      bindR (wr buf 6 (Some (if sz > MULTI_PART then 3 else 4))) (\<lambda>buf.
      bindR (fill_header buf (s + 5)) (\<lambda>buf.
      bindR (fill_uint32 buf 2 session) (\<lambda>buf.
      bindR (msg_bytes msg s) (\<lambda>m.
      bindR (memcpyR buf 7 (map Some m)) (\<lambda>buf.
      bindR (lua_pushlstring buf (s + 7)) (\<lambda>str.
      bindR (packresp_multi part buf session (drop s msg) (sz - s)) (\<lambda>rest. Inr (str # rest)))))))))"

definition packresp_begin :: "u32 \<Rightarrow> nat \<Rightarrow> (temp \<times> byte list) res" where
  "packresp_begin session sz =
     bindR (fill_header temp_buf 9) (\<lambda>buf.
     bindR (fill_uint32 buf 2 session) (\<lambda>buf.
     bindR (wr buf 6 (Some 2)) (\<lambda>buf.
     bindR (fill_uint32 buf 7 (of_nat sz)) (\<lambda>buf.
     bindR (lua_pushlstring buf 11) (\<lambda>str. Inr (buf, str))))))"

definition packresp_one :: "u32 \<Rightarrow> bool \<Rightarrow> byte list \<Rightarrow> nat \<Rightarrow> packed res" where
  "packresp_one session ok msg sz =
     bindR (fill_header temp_buf (sz + 5)) (\<lambda>buf.
     bindR (fill_uint32 buf 2 session) (\<lambda>buf.
     bindR (wr buf 6 (Some (if ok then 1 else 0))) (\<lambda>buf.
     bindR (msg_bytes msg sz) (\<lambda>m.
     bindR (memcpyR buf 7 (map Some m)) (\<lambda>buf.
     bindR (lua_pushlstring buf (sz + 7)) (\<lambda>s. Inr (One s)))))))"

definition lpackresponse :: "int \<Rightarrow> bool \<Rightarrow> response \<Rightarrow> packed res" where
  "lpackresponse session ok r =
     (let session = word_of_int session;
          (msg, sz) = (case r of Resp_string s \<Rightarrow> (s, length s) | Resp_pointer p n \<Rightarrow> (p, unat (word_of_int n :: u64))) in
      if \<not> ok then packresp_one session ok msg (if sz > MULTI_PART then MULTI_PART else sz)
      else if sz > MULTI_PART then
        bindR (packresp_begin session sz) (\<lambda>(buf, first).
        bindR (packresp_multi (parts_of sz) buf session msg sz) (\<lambda>rest. Inr (Many (first # rest))))
      else packresp_one session ok msg sz)"

definition lunpackresponse :: "byte list \<Rightarrow> lua_arg list res" where
  "lunpackresponse buf =
     (let sz = length buf in
      if sz < 5 then Inr []
      else
        bindR (unpack_uint32 buf 0) (\<lambda>session.
        bindR (str_byte buf 4) (\<lambda>t.
        if t = 0 then bindR (str_range buf 5 (sz - 5)) (\<lambda>m. Inr [push_uint32 session, Arg_bool False, Arg_string m])
        else if t = 1 \<or> t = 4 then bindR (str_range buf 5 (sz - 5)) (\<lambda>m. Inr [push_uint32 session, Arg_bool True, Arg_string m])
        else if t = 2 then
          if sz \<noteq> 9 then Inr []
          else bindR (unpack_uint32 buf 5) (\<lambda>n. Inr [push_uint32 session, Arg_bool True, push_uint32 n, Arg_bool True])
        else if t = 3 then bindR (str_range buf 5 (sz - 5)) (\<lambda>m. Inr [push_uint32 session, Arg_bool True, Arg_string m, Arg_bool True])
        else Inr [])))"

text \<open>The loop of \<^verbatim>\<open>lconcat\<close> over the strings of the table, with the buffer. A buffer of a negative size cannot be allocated,
  and \<^verbatim>\<open>skynet_malloc\<close> aborts the process.\<close>

fun concat_loop :: "lua_arg list \<Rightarrow> nat \<Rightarrow> temp \<Rightarrow> nat \<Rightarrow> (temp \<times> nat) option res" where
  "concat_loop (Arg_string str # rest) sz buff offset =
     (if length str + offset > sz then Inr None
      else bindR (memcpyR buff offset (map Some str)) (\<lambda>buff. concat_loop rest sz buff (offset + length str)))"
| "concat_loop _ sz buff offset = Inr (Some (buff, offset))"

definition lconcat :: "lua_arg list \<Rightarrow> byte list option res" where
  "lconcat t =
     (case t of
        Arg_int n # rest \<Rightarrow>
          let sz = sint (word_of_int n :: u32) in
          if sz < 0 then Inl Process_exit
          else
            bindR (concat_loop rest (nat sz) (replicate (nat sz) None) 0) (\<lambda>r.
            case r of
              None \<Rightarrow> Inr None
            | Some (buff, offset) \<Rightarrow>
                if offset \<noteq> nat sz then Inr None
                else bindR (read_bytes buff (nat sz)) (\<lambda>m. Inr (Some m)))
      | _ \<Rightarrow> Inr None)"

section \<open>Filling the buffer\<close>

lemma temp_length [simp]: "length temp_buf = TEMP_LENGTH"
  by (simp add: temp_buf_def)

lemma uint32_cells:
  "[Some (ucast (n AND 0xff)), Some (ucast (drop_bit 8 n AND 0xff)), Some (ucast (drop_bit 16 n AND 0xff)), Some (ucast (drop_bit 24 n AND 0xff))] =
   map Some (host_bytes 4 (n :: u32))"
proof -
  have ff: "(0xff :: u32) = mask 8" by (simp add: mask_eq_exp_minus_1)
  have "(ucast (m AND 0xff) :: byte) = ucast m" for m :: u32
    unfolding ff by (rule bit_word_eqI) (simp add: bit_simps)
  then show ?thesis by (simp add: host_bytes_def upt_rec)
qed

lemma write_size_length [simp]: "length (write_size n) = 2"
  by (simp add: write_size_def)

text \<open>\<open>filled buf xs\<close>: the buffer begins with \<open>xs\<close>. Each step of a package writes behind what is there.\<close>

definition filled :: "temp \<Rightarrow> byte list \<Rightarrow> bool" where
  "filled buf xs \<longleftrightarrow> length buf = TEMP_LENGTH \<and> take (length xs) buf = map Some xs"

lemma filled_start: "length buf = TEMP_LENGTH \<Longrightarrow> filled buf []"
  by (simp add: filled_def)

lemma filled_length: "filled buf xs \<Longrightarrow> length xs \<le> TEMP_LENGTH"
  unfolding filled_def by (metis length_map length_take min.cobounded1)

lemma filled_size: "filled buf xs \<Longrightarrow> length buf = TEMP_LENGTH"
  by (simp add: filled_def)

lemma fill_memcpy:
  assumes "filled buf xs" and "i = length xs" and "length xs + length ys \<le> TEMP_LENGTH" and "\<And>buf'. filled buf' (xs @ ys) \<Longrightarrow> k buf' = r"
  shows "bindR (memcpyR buf i (map Some ys)) k = r"
  using assms by (simp add: memcpyR_def filled_def)

lemma fill_wr:
  assumes "filled buf xs" and "i = length xs" and "length xs < TEMP_LENGTH" and "\<And>buf'. filled buf' (xs @ [y]) \<Longrightarrow> k buf' = r"
  shows "bindR (wr buf i (Some y)) k = r"
proof -
  have "take (Suc i) (buf[i := Some y]) = map Some xs @ [Some y]"
    using assms(1-3) by (simp add: filled_def take_Suc_conv_app_nth)
  then have "filled (buf[i := Some y]) (xs @ [y])" using assms(1,2) by (simp add: filled_def)
  then show ?thesis using assms by (simp add: filled_def)
qed

lemma fill_u32:
  assumes "filled buf xs" and "i = length xs" and "length xs + 4 \<le> TEMP_LENGTH" and "\<And>buf'. filled buf' (xs @ host_bytes 4 n) \<Longrightarrow> k buf' = r"
  shows "bindR (fill_uint32 buf i n) k = r"
  unfolding fill_uint32_def uint32_cells using assms by (intro fill_memcpy) simp_all

lemma fill_head:
  assumes "length buf = TEMP_LENGTH" and "sz < 0x10000" and "\<And>buf'. filled buf' (write_size sz) \<Longrightarrow> (\<forall>i \<ge> 2. buf' ! i = buf ! i) \<Longrightarrow> k buf' = r"
  shows "bindR (fill_header buf sz) k = r"
proof -
  let ?b = "map Some (write_size sz) @ drop 2 buf"
  have "2 \<le> length buf" using assms(1) by (simp add: TEMP_LENGTH_def)
  then have "filled ?b (write_size sz)" "\<forall>i \<ge> 2. ?b ! i = buf ! i"
    using assms(1) by (auto simp: filled_def nth_append) (metis add_2_eq_Suc le_add_diff_inverse)
  moreover have "fill_header buf sz = Inr ?b"
    using assms(2) \<open>2 \<le> length buf\<close> by (simp add: fill_header_def memcpyR_def write_size_def numeral_2_eq_2)
  ultimately show ?thesis using assms(3) by simp
qed

lemma fill_msg:
  assumes "n \<le> length msg" and "k (take n msg) = r"
  shows "bindR (msg_bytes msg n) k = r"
  using assms by (simp add: msg_bytes_def)

lemma fill_push:
  assumes "filled buf xs" and "n = length xs" and "k xs = r"
  shows "bindR (lua_pushlstring buf n) k = r"
proof -
  have "n \<le> length buf" "take n buf = map Some xs" using assms filled_length by (auto simp: filled_def)
  then show ?thesis using assms(3) by (auto simp: read_bytes_def o_def)
qed

lemmas fills = fill_wr fill_u32 fill_memcpy fill_msg fill_push

lemma packreq_number_ok:
  assumes "sz = length msg"
  shows "packreq_number addr session msg sz = Inr
    (if sz < MULTI_PART then (write_size (sz + 9) @ [0] @ host_bytes 4 addr @ host_bytes 4 session @ msg, 0)
     else (write_size 13 @ [1] @ host_bytes 4 addr @ host_bytes 4 session @ host_bytes 4 (of_nat sz :: u32), parts_of sz))"
  using assms unfolding packreq_number_def
  by (auto intro!: fill_head fills simp: MULTI_PART_def TEMP_LENGTH_def)

lemma packreq_string_ok:
  assumes "sz = length msg" and "0 < length name" and "length name \<le> 255"
  shows "packreq_string (Some name) session msg sz = Inr
    (if sz < MULTI_PART then (write_size (sz + 6 + length name) @ [0x80, of_nat (length name)] @ name @ host_bytes 4 session @ msg, 0)
     else (write_size (10 + length name) @ [0x81, of_nat (length name)] @ name @ host_bytes 4 session @ host_bytes 4 (of_nat sz :: u32), parts_of sz))"
  using assms unfolding packreq_string_def
  by (auto intro!: fill_head fills simp: MULTI_PART_def TEMP_LENGTH_def Let_def)

section \<open>Parts\<close>

text \<open>The pieces of a message; only the last of them is marked as last.\<close>

function cut_parts :: "byte list \<Rightarrow> (bool \<times> byte list) list" where
  "cut_parts msg = (if length msg > MULTI_PART then (True, take MULTI_PART msg) # cut_parts (drop MULTI_PART msg) else [(False, msg)])"
  by pat_completeness auto
termination
  by (relation "measure length") (auto simp: MULTI_PART_def)

declare cut_parts.simps [simp del]

lemma parts_of_simps:
  "MULTI_PART < sz \<Longrightarrow> parts_of sz = Suc (parts_of (sz - MULTI_PART))" "sz \<le> MULTI_PART \<Longrightarrow> parts_of sz = Suc 0"
proof -
  assume "MULTI_PART < sz"
  then have eq: "sz - 1 = (sz - MULTI_PART - 1) + MULTI_PART" by simp
  have "0 < MULTI_PART" by (simp add: MULTI_PART_def)
  then have "(sz - 1) div MULTI_PART = (sz - MULTI_PART - 1) div MULTI_PART + 1" unfolding eq by (metis div_add_self2 less_not_refl)
  then show "parts_of sz = Suc (parts_of (sz - MULTI_PART))" by (simp add: parts_of_def)
qed (simp add: parts_of_def MULTI_PART_def)

lemma cut_concat: "concat (map snd (cut_parts msg)) = msg"
proof (induction msg rule: cut_parts.induct)
  case (1 msg)
  then show ?case by (cases "length msg > MULTI_PART") (simp_all add: cut_parts.simps [of msg])
qed

lemma cut_small: "p \<in> set (cut_parts msg) \<Longrightarrow> length (snd p) \<le> MULTI_PART"
proof (induction msg rule: cut_parts.induct)
  case (1 msg)
  then show ?case by (cases "length msg > MULTI_PART") (auto simp: cut_parts.simps [of msg])
qed

lemma cut_last: "map fst (cut_parts msg) = replicate (length (cut_parts msg) - 1) True @ [False]"
proof (induction msg rule: cut_parts.induct)
  case (1 msg)
  show ?case
  proof (cases "length msg > MULTI_PART")
    case True
    have "cut_parts (drop MULTI_PART msg) \<noteq> []" by (subst cut_parts.simps) simp
    then show ?thesis using 1 True by (cases "length (cut_parts (drop MULTI_PART msg))") (simp_all add: cut_parts.simps [of msg])
  qed (simp add: cut_parts.simps [of msg])
qed

text \<open>Both kinds of packages begin with the header; the type stands before or behind the session, and has been written before
  the header.\<close>

lemma fill_part:
  assumes "length buf = TEMP_LENGTH" and "s \<le> MULTI_PART" and "s \<le> length msg"
    and "\<And>buf'. length buf' = TEMP_LENGTH \<Longrightarrow> k (write_size (s + 5) @ [t] @ host_bytes 4 session @ take s msg) buf' = r"
  shows "bindR (wr buf 2 (Some t)) (\<lambda>buf.
      bindR (fill_header buf (s + 5)) (\<lambda>buf.
      bindR (fill_uint32 buf 3 session) (\<lambda>buf.
      bindR (msg_bytes msg s) (\<lambda>m.
      bindR (memcpyR buf 7 (map Some m)) (\<lambda>buf.
      bindR (lua_pushlstring buf (s + 7)) (\<lambda>str. k str buf)))))) = r"
proof -
  have sizes: "s + 7 \<le> TEMP_LENGTH" "s + 5 < 0x10000" "2 < TEMP_LENGTH" using assms(2) by (simp_all add: MULTI_PART_def TEMP_LENGTH_def)
  have two: "filled b (write_size (s + 5) @ [t])"
    if "filled b (write_size (s + 5))" "\<forall>i \<ge> 2. b ! i = buf[2 := Some t] ! i" for b
  proof -
    have "length b = TEMP_LENGTH" "take 2 b = map Some (write_size (s + 5))" "b ! 2 = Some t"
      using that sizes(3) assms(1) by (auto simp: filled_def)
    then show ?thesis using sizes(3) by (simp add: filled_def take_Suc_conv_app_nth numeral_3_eq_3 numeral_2_eq_2)
  qed
  have "bindR (fill_header (buf[2 := Some t]) (s + 5)) (\<lambda>buf.
      bindR (fill_uint32 buf 3 session) (\<lambda>buf.
      bindR (msg_bytes msg s) (\<lambda>m.
      bindR (memcpyR buf 7 (map Some m)) (\<lambda>buf.
      bindR (lua_pushlstring buf (s + 7)) (\<lambda>str. k str buf))))) = r"
  proof (rule fill_head)
    fix b assume "filled b (write_size (s + 5))" "\<forall>i \<ge> 2. b ! i = buf[2 := Some t] ! i"
    then have b: "filled b (write_size (s + 5) @ [t])" using two by blast
    show "bindR (fill_uint32 b 3 session) (\<lambda>buf.
      bindR (msg_bytes msg s) (\<lambda>m.
      bindR (memcpyR buf 7 (map Some m)) (\<lambda>buf.
      bindR (lua_pushlstring buf (s + 7)) (\<lambda>str. k str buf)))) = r"
      using sizes assms(3,4) by (auto intro!: fill_u32 [OF b] fills dest: filled_size)
  qed (use assms(1) sizes in simp_all)
  then show ?thesis using assms(1) sizes(3) by simp
qed

lemma fill_resp_part:
  assumes "length buf = TEMP_LENGTH" and "s \<le> MULTI_PART" and "s \<le> length msg"
    and "\<And>buf'. length buf' = TEMP_LENGTH \<Longrightarrow> k (write_size (s + 5) @ host_bytes 4 session @ [t] @ take s msg) buf' = r"
  shows "bindR (wr buf 6 (Some t)) (\<lambda>buf.
      bindR (fill_header buf (s + 5)) (\<lambda>buf.
      bindR (fill_uint32 buf 2 session) (\<lambda>buf.
      bindR (msg_bytes msg s) (\<lambda>m.
      bindR (memcpyR buf 7 (map Some m)) (\<lambda>buf.
      bindR (lua_pushlstring buf (s + 7)) (\<lambda>str. k str buf)))))) = r"
proof -
  have sizes: "s + 7 \<le> TEMP_LENGTH" "s + 5 < 0x10000" "6 < TEMP_LENGTH" using assms(2) by (simp_all add: MULTI_PART_def TEMP_LENGTH_def)
  have "bindR (fill_header (buf[6 := Some t]) (s + 5)) (\<lambda>buf.
      bindR (fill_uint32 buf 2 session) (\<lambda>buf.
      bindR (msg_bytes msg s) (\<lambda>m.
      bindR (memcpyR buf 7 (map Some m)) (\<lambda>buf.
      bindR (lua_pushlstring buf (s + 7)) (\<lambda>str. k str buf))))) = r"
  proof (rule fill_head)
    fix b assume b: "filled b (write_size (s + 5))" "\<forall>i \<ge> 2. b ! i = buf[6 := Some t] ! i"
    let ?b = "take 2 b @ map Some (host_bytes 4 session) @ drop 6 b"
    have len: "length b = TEMP_LENGTH" using b(1) by (rule filled_size)
    have run: "fill_uint32 b 2 session = Inr ?b" unfolding fill_uint32_def uint32_cells using len sizes(3) by (simp add: memcpyR_def)
    have "drop 6 b = Some t # drop 7 b" using b(2) len sizes(3) assms(1) Cons_nth_drop_Suc [of 6 b] by simp
    then have "filled ?b (write_size (s + 5) @ host_bytes 4 session @ [t])" using b(1) len sizes(3) by (simp add: filled_def)
    note b' = this
    show "bindR (fill_uint32 b 2 session) (\<lambda>buf.
      bindR (msg_bytes msg s) (\<lambda>m.
      bindR (memcpyR buf 7 (map Some m)) (\<lambda>buf.
      bindR (lua_pushlstring buf (s + 7)) (\<lambda>str. k str buf)))) = r"
      unfolding run bindR_Inr using sizes assms(3,4) by (auto intro!: fill_msg fill_memcpy [OF b'] fill_push dest: filled_size)
  qed (use assms(1) sizes in simp_all)
  then show ?thesis using assms(1) sizes(3) by simp
qed

definition req_part :: "u32 \<Rightarrow> bool \<times> byte list \<Rightarrow> byte list" where
  "req_part session p = [if fst p then 2 else 3] @ host_bytes 4 session @ snd p"

definition resp_part :: "u32 \<Rightarrow> bool \<times> byte list \<Rightarrow> byte list" where
  "resp_part session p = host_bytes 4 session @ [if fst p then 3 else 4] @ snd p"

definition framed_package :: "byte list \<Rightarrow> byte list" where
  "framed_package body = write_size (length body) @ body"

lemma packreq_multi_ok:
  "length buf = TEMP_LENGTH \<Longrightarrow> packreq_multi (parts_of (length msg)) buf session msg (length msg) =
    Inr (map (\<lambda>p. framed_package (req_part session p)) (cut_parts msg))"
proof (induction msg arbitrary: buf rule: cut_parts.induct)
  case (1 msg)
  show ?case
  proof (cases "length msg > MULTI_PART")
    case True
    note IH = "1.IH" [OF True]
    show ?thesis unfolding parts_of_simps(1) [OF True] packreq_multi.simps Let_def
      by (rule fill_part [OF "1.prems"]) (use True IH in \<open>simp_all add: cut_parts.simps [of msg] framed_package_def req_part_def add.commute\<close>)
  next
    case False
    show ?thesis unfolding parts_of_simps(2) [OF leI [OF False]] packreq_multi.simps Let_def
      by (rule fill_part [OF "1.prems"]) (use False in \<open>simp_all add: cut_parts.simps [of msg] framed_package_def req_part_def add.commute\<close>)
  qed
qed

lemma packresp_multi_ok:
  "length buf = TEMP_LENGTH \<Longrightarrow> packresp_multi (parts_of (length msg)) buf session msg (length msg) =
    Inr (map (\<lambda>p. framed_package (resp_part session p)) (cut_parts msg))"
proof (induction msg arbitrary: buf rule: cut_parts.induct)
  case (1 msg)
  show ?case
  proof (cases "length msg > MULTI_PART")
    case True
    note IH = "1.IH" [OF True]
    show ?thesis unfolding parts_of_simps(1) [OF True] packresp_multi.simps Let_def
      by (rule fill_resp_part [OF "1.prems"]) (use True IH in \<open>simp_all add: cut_parts.simps [of msg] framed_package_def resp_part_def add.commute\<close>)
  next
    case False
    show ?thesis unfolding parts_of_simps(2) [OF leI [OF False]] packresp_multi.simps Let_def
      by (rule fill_resp_part [OF "1.prems"]) (use False in \<open>simp_all add: cut_parts.simps [of msg] framed_package_def resp_part_def add.commute\<close>)
  qed
qed

section \<open>Reading the packages\<close>

lemma str_byte_simp [simp]: "i < length s \<Longrightarrow> str_byte s i = Inr (s ! i)"
  by (simp add: str_byte_def nth_append)

lemma str_range_simp [simp]: "i + n \<le> length s \<Longrightarrow> str_range s i n = Inr (take n (drop i s))"
  by (simp add: str_range_def)

lemma unpack_uint32_at:
  assumes "i = length xs"
  shows "unpack_uint32 (xs @ host_bytes 4 (n :: u32) @ ys) i = Inr n"
proof -
  have "host_word (host_bytes 4 n) = n" by simp
  then have "(ucast (ucast n :: byte) OR push_bit 8 (ucast (ucast (drop_bit 8 n) :: byte)) OR push_bit 16 (ucast (ucast (drop_bit 16 n) :: byte)) OR
     push_bit 24 (ucast (ucast (drop_bit 24 n) :: byte))) = n"
    by (simp add: host_bytes_def upt_rec push_bit_or or.assoc)
  then show ?thesis using assms by (simp add: unpack_uint32_def) (simp add: host_bytes_def upt_rec)
qed

lemma sint_length: "length s < 2 ^ 31 \<Longrightarrow> sint (of_nat (length s) :: u32) = int (length s)"
  by (simp add: signed_of_nat signed_take_bit_int_eq_self)

lemma unpack_uint32_1 [simp]: "unpack_uint32 (b # host_bytes 4 (n :: u32) @ ys) (Suc 0) = Inr n"
  using unpack_uint32_at [of 1 "[b]" n ys] by simp

lemma unpack_uint32_5 [simp]: "unpack_uint32 (b # host_bytes 4 (m :: u32) @ host_bytes 4 (n :: u32) @ ys) 5 = Inr n"
  using unpack_uint32_at [of 5 "b # host_bytes 4 m" n ys] by simp

lemma unpack_uint32_9 [simp]: "unpack_uint32 (b # host_bytes 4 (m :: u32) @ host_bytes 4 (n :: u32) @ host_bytes 4 (k :: u32)) 9 = Inr k"
  using unpack_uint32_at [of 9 "b # host_bytes 4 m @ host_bytes 4 n" k "[]"] by simp

lemma unpack_part: "unpackmreq_part (b # host_bytes 4 session @ m) (int (length m) + 5) = Inr [Arg_bool False, push_uint32 session, Arg_string m, Arg_bool (b = 2)]"
  by (simp add: unpackmreq_part_def)

lemma unpack_number:
  "unpackreq_number (0 # host_bytes 4 addr @ host_bytes 4 session @ m) (int (length m) + 9) = Inr [push_uint32 addr, push_uint32 session, Arg_string m]"
  by (simp add: unpackreq_number_def)

lemma unpack_mnumber:
  "unpackmreq_number (1 # host_bytes 4 addr @ host_bytes 4 session @ host_bytes 4 n) 13 =
    Inr [push_uint32 addr, push_uint32 session, push_uint32 n, Arg_bool True]"
  by (simp add: unpackmreq_number_def)

lemma unpack_string:
  assumes "length name \<le> 255"
  shows "unpackreq_string (b # of_nat (length name) # name @ host_bytes 4 session @ m) (int (length m) + int (length name) + 6) =
    Inr [Arg_string name, push_uint32 session, Arg_string m]"
proof -
  have "unat (of_nat (length name) :: byte) = length name" using assms by (simp add: unsigned_of_nat take_bit_nat_eq_self)
  moreover have "unpack_uint32 (b # of_nat (length name) # name @ host_bytes 4 session @ m) (length name + 2) = Inr session"
    using unpack_uint32_at [of "length name + 2" "b # of_nat (length name) # name" session m] by simp
  moreover have "drop (6 + length name) ((b # of_nat (length name) # name @ host_bytes 4 session) @ m) = m"
    by (subst drop_append) simp
  ultimately show ?thesis by (simp add: unpackreq_string_def Let_def nat_add_distrib)
qed

lemma unpack_mstring:
  assumes "length name \<le> 255"
  shows "unpackmreq_string (b # of_nat (length name) # name @ host_bytes 4 session @ host_bytes 4 n) (int (length name) + 10) =
    Inr [Arg_string name, push_uint32 session, push_uint32 n, Arg_bool True]"
proof -
  let ?s = "b # of_nat (length name) # name @ host_bytes 4 session @ host_bytes 4 n"
  have "unat (of_nat (length name) :: byte) = length name" using assms by (simp add: unsigned_of_nat take_bit_nat_eq_self)
  moreover have "unpack_uint32 ?s (length name + 2) = Inr session" "unpack_uint32 ?s (length name + 6) = Inr n"
    using unpack_uint32_at [of "length name + 2" "b # of_nat (length name) # name" session "host_bytes 4 n"]
      unpack_uint32_at [of "length name + 6" "b # of_nat (length name) # name @ host_bytes 4 session" n "[]"] by simp_all
  ultimately show ?thesis by (simp add: unpackmreq_string_def Let_def nat_add_distrib)
qed

text \<open>Dispatch on the first byte of a package that is not too long.\<close>

lemma unpackrequest_cases:
  assumes "Suc (length m) < 2 ^ 31"
  shows "lunpackrequest (b # m) =
     (let sz = int (length m) + 1 in
      if b = 0 then unpackreq_number (b # m) sz
      else if b = 1 then unpackmreq_number (b # m) sz
      else if b = 2 \<or> b = 3 then unpackmreq_part (b # m) sz
      else if b = 0x80 then unpackreq_string (b # m) sz
      else if b = 0x81 then unpackmreq_string (b # m) sz
      else Inl (Lua_error ''Invalid req package type %d''))"
  using sint_length [of "b # m"] assms by (simp add: lunpackrequest_def Let_def add.commute)

lemma part_types:
  "((1 :: byte) = 0) = False" "((2 :: byte) = 0) = False" "((2 :: byte) = 1) = False" "((3 :: byte) = 0) = False" "((3 :: byte) = 1) = False" "((3 :: byte) = 2) = False"
  "((4 :: byte) = 0) = False" "((4 :: byte) = 1) = False" "((4 :: byte) = 2) = False"
  "((0x80 :: byte) = 0) = False" "((0x80 :: byte) = 1) = False" "((0x80 :: byte) = 2) = False" "((0x80 :: byte) = 3) = False"
  "((0x81 :: byte) = 0) = False" "((0x81 :: byte) = 1) = False" "((0x81 :: byte) = 2) = False" "((0x81 :: byte) = 3) = False" "((0x81 :: byte) = 0x80) = False"
  by code_simp+

lemma unpack_dispatch:
  assumes "Suc (length m) < 2 ^ 31"
  shows "lunpackrequest (0 # m) = unpackreq_number (0 # m) (int (length m) + 1)"
    and "lunpackrequest (1 # m) = unpackmreq_number (1 # m) (int (length m) + 1)"
    and "lunpackrequest (2 # m) = unpackmreq_part (2 # m) (int (length m) + 1)"
    and "lunpackrequest (3 # m) = unpackmreq_part (3 # m) (int (length m) + 1)"
    and "lunpackrequest (0x80 # m) = unpackreq_string (0x80 # m) (int (length m) + 1)"
    and "lunpackrequest (0x81 # m) = unpackmreq_string (0x81 # m) (int (length m) + 1)"
  by (simp_all only: unpackrequest_cases [OF assms] Let_def part_types if_False if_True simp_thms)

lemma unpack_req_part:
  assumes "length (snd p) \<le> MULTI_PART"
  shows "lunpackrequest (req_part session p) = Inr [Arg_bool False, push_uint32 session, Arg_string (snd p), Arg_bool (fst p)]"
proof -
  have "Suc (length (host_bytes 4 session @ snd p)) < 2 ^ 31" using assms by (simp add: MULTI_PART_def)
  note d = unpack_dispatch(3,4) [OF this]
  show ?thesis using d unpack_part [of 2 session "snd p"] unpack_part [of 3 session "snd p"] part_types
    by (cases "fst p") (simp_all add: req_part_def add.commute)
qed

text \<open>What the receiver gets for an address.\<close>

fun addr_ok :: "cluster_addr \<Rightarrow> bool" where
  "addr_ok (Addr_number n) = (0 \<le> n \<and> n < 2 ^ 32)"
| "addr_ok (Addr_string name) = (0 < length name \<and> length name \<le> 255)"
| "addr_ok Addr_other = False"

fun addr_arg :: "cluster_addr \<Rightarrow> lua_arg" where
  "addr_arg (Addr_number n) = Arg_int n"
| "addr_arg (Addr_string name) = Arg_string name"
| "addr_arg Addr_other = Arg_bool False"

lemma pack_first_ok:
  assumes "addr_ok addr" and "length msg < 2 ^ 32"
  shows "\<exists>body. length body < 0x10000 \<and> pack_first addr session msg (length msg) =
       Inr (framed_package body, if length msg < MULTI_PART then 0 else parts_of (length msg)) \<and>
     lunpackrequest body = Inr ([addr_arg addr, push_uint32 session] @
       (if length msg < MULTI_PART then [Arg_string msg] else [Arg_int (int (length msg)), Arg_bool True]))"
proof -
  have size': "push_uint32 (of_nat (length msg)) = Arg_int (int (length msg))"
    using assms(2) by (simp add: push_uint32_def unsigned_of_nat take_bit_nat_eq_self)
  let ?s = "host_bytes 4 session" and ?n = "host_bytes 4 (of_nat (length msg) :: u32)"
  show ?thesis
  proof (cases addr)
    case (Addr_number n)
    let ?a = "host_bytes 4 (word_of_int n :: u32)"
    have n: "push_uint32 (word_of_int n) = Arg_int n" using assms(1) Addr_number
      by (simp add: push_uint32_def unsigned_of_int take_bit_int_eq_self)
    show ?thesis
    proof (cases "length msg < MULTI_PART")
      case True
      then show ?thesis using Addr_number n packreq_number_ok [of "length msg" msg "word_of_int n" session]
          unpack_dispatch(1) [of "?a @ ?s @ msg"] unpack_number [of "word_of_int n" session msg]
        by (intro exI [of _ "0 # ?a @ ?s @ msg"]) (simp add: pack_first_def framed_package_def MULTI_PART_def add.commute)
    next
      case False
      then show ?thesis using Addr_number n size' packreq_number_ok [of "length msg" msg "word_of_int n" session]
          unpack_dispatch(2) [of "?a @ ?s @ ?n"] unpack_mnumber [of "word_of_int n" session "of_nat (length msg)"]
        by (intro exI [of _ "1 # ?a @ ?s @ ?n"]) (simp add: pack_first_def framed_package_def)
    qed
  next
    case (Addr_string name)
    then have name: "0 < length name" "length name \<le> 255" using assms(1) by simp_all
    let ?b = "of_nat (length name) # name"
    show ?thesis
    proof (cases "length msg < MULTI_PART")
      case True
      then show ?thesis using Addr_string name packreq_string_ok [OF refl name, where msg = msg and session = session]
          unpack_dispatch(5) [of "?b @ ?s @ msg"] unpack_string [OF name(2), of "0x80" session msg]
        by (intro exI [of _ "0x80 # ?b @ ?s @ msg"]) (simp add: pack_first_def framed_package_def MULTI_PART_def add.commute add.left_commute)
    next
      case False
      then show ?thesis using Addr_string name size' packreq_string_ok [OF refl name, where msg = msg and session = session]
          unpack_dispatch(6) [of "?b @ ?s @ ?n"] unpack_mstring [OF name(2), of "0x81" session "of_nat (length msg)"]
        by (intro exI [of _ "0x81 # ?b @ ?s @ ?n"]) (simp add: pack_first_def framed_package_def add.commute)
    qed
  qed (use assms in simp)
qed

lemma concat_loop_ok:
  "length buff = sz \<Longrightarrow> length done' + length (concat cs) \<le> sz \<Longrightarrow> take (length done') buff = map Some done' \<Longrightarrow>
   \<exists>buff'. concat_loop (map Arg_string cs) sz buff (length done') = Inr (Some (buff', length done' + length (concat cs))) \<and>
     length buff' = sz \<and> take (length done' + length (concat cs)) buff' = map Some (done' @ concat cs)"
proof (induction cs arbitrary: buff done')
  case (Cons c cs)
  let ?buff = "take (length done') buff @ map Some c @ drop (length done' + length c) buff"
  have copy: "memcpyR buff (length done') (map Some c) = Inr ?buff" using Cons.prems by (simp add: memcpyR_def)
  have len: "length ?buff = sz" using Cons.prems by simp
  have "take (length (done' @ c)) ?buff = map Some (done' @ c)" using Cons.prems by simp
  then show ?case using Cons.IH [of ?buff "done' @ c"] Cons.prems copy len by (simp add: add.assoc add.commute add.left_commute)
qed simp

lemma lconcat_ok:
  assumes "length (concat cs) < 2 ^ 31"
  shows "lconcat (Arg_int (int (length (concat cs))) # map Arg_string cs) = Inr (Some (concat cs))"
proof -
  let ?n = "length (concat cs)"
  have sz: "sint (word_of_int (int ?n) :: u32) = int ?n" using sint_length [of "concat cs"] assms by simp
  obtain buff where "concat_loop (map Arg_string cs) ?n (replicate ?n None) 0 = Inr (Some (buff, ?n))" "length buff = ?n" "take ?n buff = map Some (concat cs)"
    using concat_loop_ok [of "replicate ?n None" ?n "[]" cs] by auto
  then show ?thesis using sz by (simp add: lconcat_def read_bytes_def o_def)
qed

lemma lpack_framed: "length body < 0x10000 \<Longrightarrow> lpack body = Inr (framed_package body)"
  by (simp add: lpack_def framed_package_def)

section \<open>Responses\<close>

lemma unpack_uint32_0 [simp]: "unpack_uint32 (host_bytes 4 (n :: u32) @ ys) 0 = Inr n"
  using unpack_uint32_at [of 0 "[]" n ys] by simp

text \<open>Dispatch on the type, the byte behind the session.\<close>

lemma unpackresponse_cases:
  "lunpackresponse (host_bytes 4 session @ t # m) =
     (if t = 0 then Inr [push_uint32 session, Arg_bool False, Arg_string m]
      else if t = 1 \<or> t = 4 then Inr [push_uint32 session, Arg_bool True, Arg_string m]
      else if t = 2 then
        if length m \<noteq> 4 then Inr []
        else bindR (unpack_uint32 (host_bytes 4 session @ t # m) 5) (\<lambda>n. Inr [push_uint32 session, Arg_bool True, push_uint32 n, Arg_bool True])
      else if t = 3 then Inr [push_uint32 session, Arg_bool True, Arg_string m, Arg_bool True]
      else Inr [])"
  by (simp add: lunpackresponse_def Let_def nth_append)

lemma unpack_responses:
  "lunpackresponse (host_bytes 4 session @ 0 # m) = Inr [push_uint32 session, Arg_bool False, Arg_string m]"
  "lunpackresponse (host_bytes 4 session @ 1 # m) = Inr [push_uint32 session, Arg_bool True, Arg_string m]"
  "lunpackresponse (host_bytes 4 session @ 2 # host_bytes 4 n) = Inr [push_uint32 session, Arg_bool True, push_uint32 n, Arg_bool True]"
  "lunpackresponse (host_bytes 4 session @ 3 # m) = Inr [push_uint32 session, Arg_bool True, Arg_string m, Arg_bool True]"
  "lunpackresponse (host_bytes 4 session @ 4 # m) = Inr [push_uint32 session, Arg_bool True, Arg_string m]"
proof -
  have "((3 :: byte) = 4) = False" by code_simp
  note ne = part_types this
  have u: "unpack_uint32 (host_bytes 4 session @ 2 # host_bytes 4 n) 5 = Inr n"
    using unpack_uint32_at [of 5 "host_bytes 4 session @ [2]" n "[]"] by simp
  have two: "((2 :: byte) = 4) = False" by code_simp
  show "lunpackresponse (host_bytes 4 session @ 0 # m) = Inr [push_uint32 session, Arg_bool False, Arg_string m]"
    "lunpackresponse (host_bytes 4 session @ 1 # m) = Inr [push_uint32 session, Arg_bool True, Arg_string m]"
    "lunpackresponse (host_bytes 4 session @ 3 # m) = Inr [push_uint32 session, Arg_bool True, Arg_string m, Arg_bool True]"
    "lunpackresponse (host_bytes 4 session @ 4 # m) = Inr [push_uint32 session, Arg_bool True, Arg_string m]"
    by (simp_all only: unpackresponse_cases ne if_False if_True simp_thms)
  show "lunpackresponse (host_bytes 4 session @ 2 # host_bytes 4 n) = Inr [push_uint32 session, Arg_bool True, push_uint32 n, Arg_bool True]"
    by (simp only: unpackresponse_cases ne two u length_host_bytes bindR_Inr if_False if_True simp_thms)
qed

definition resp_body :: "u32 \<Rightarrow> byte \<Rightarrow> byte list \<Rightarrow> byte list" where
  "resp_body session t m = host_bytes 4 session @ [t] @ m"

lemma packresp_one_ok:
  assumes "n \<le> length msg" and "n \<le> MULTI_PART"
  shows "packresp_one session ok msg n = Inr (One (framed_package (resp_body session (if ok then 1 else 0) (take n msg))))"
  using assms unfolding packresp_one_def
  by (auto intro!: fill_head fills simp: MULTI_PART_def TEMP_LENGTH_def framed_package_def resp_body_def add.commute)

lemma packresp_begin_ok:
  assumes "\<And>buf. length buf = TEMP_LENGTH \<Longrightarrow> k (buf, framed_package (resp_body session 2 (host_bytes 4 (of_nat sz :: u32)))) = r"
  shows "bindR (packresp_begin session sz) k = r"
  unfolding packresp_begin_def bindR_assoc
  using assms by (auto intro!: fill_head fills dest: filled_size simp: TEMP_LENGTH_def framed_package_def resp_body_def)

text \<open>What the receiver sees of a response.\<close>

definition resp_seen :: "int \<Rightarrow> bool \<times> byte list \<Rightarrow> lua_arg list res" where
  "resp_seen session p = Inr ([Arg_int session, Arg_bool True, Arg_string (snd p)] @ (if fst p then [Arg_bool True] else []))"

lemma unpack_resp_part: "push_uint32 s = Arg_int session \<Longrightarrow> lunpackresponse (resp_part s p) = resp_seen session p"
  using unpack_responses(4,5) [of s "snd p"] by (cases "fst p") (simp_all add: resp_part_def resp_seen_def)

lemma lpackresponse_large:
  assumes "MULTI_PART < length msg"
  shows "lpackresponse session True (Resp_string msg) =
    Inr (Many (map framed_package (resp_body (word_of_int session) 2 (host_bytes 4 (of_nat (length msg) :: u32)) # map (resp_part (word_of_int session)) (cut_parts msg))))"
proof -
  have "bindR (packresp_begin (word_of_int session) (length msg)) (\<lambda>(buf, first).
      bindR (packresp_multi (parts_of (length msg)) buf (word_of_int session) msg (length msg)) (\<lambda>rest. Inr (Many (first # rest)))) =
    Inr (Many (map framed_package (resp_body (word_of_int session) 2 (host_bytes 4 (of_nat (length msg) :: u32)) # map (resp_part (word_of_int session)) (cut_parts msg))))"
    by (rule packresp_begin_ok) (simp add: packresp_multi_ok o_def)
  then show ?thesis using assms by (simp add: lpackresponse_def Let_def)
qed

lemma lpackresponse_small:
  assumes "length msg \<le> MULTI_PART \<or> \<not> ok"
  shows "lpackresponse session ok (Resp_string msg) =
    Inr (One (framed_package (resp_body (word_of_int session) (if ok then 1 else 0) (take MULTI_PART msg))))"
  using assms packresp_one_ok [of "length msg" msg] packresp_one_ok [of MULTI_PART msg] by (auto simp: lpackresponse_def Let_def)

section \<open>Any string\<close>

definition values_or_error :: "'a res \<Rightarrow> bool" where
  "values_or_error r \<longleftrightarrow> (\<exists>v. r = Inr v) \<or> (\<exists>e. r = Inl (Lua_error e))"

lemma values_or_error_simps [simp]: "values_or_error (Inr v)" "values_or_error (Inl (Lua_error e))" "values_or_error bad_size"
  by (simp_all add: values_or_error_def bad_size_def)

lemma unpack_uint32_total: "i + 4 \<le> length s \<Longrightarrow> \<exists>n. unpack_uint32 s i = Inr n"
  by (simp add: unpack_uint32_def)

lemma str_byte_0: "str_byte s 0 = Inr (case s of [] \<Rightarrow> 0 | b # _ \<Rightarrow> b)"
  by (simp add: str_byte_def split: list.split)

lemma unpackreq_safe:
  shows "values_or_error (unpackreq_number s (int (length s)))" and "values_or_error (unpackmreq_number s (int (length s)))"
    and "values_or_error (unpackmreq_part s (int (length s)))" and "values_or_error (unpackreq_string s (int (length s)))"
    and "values_or_error (unpackmreq_string s (int (length s)))"
  by (auto simp: unpackreq_number_def unpackmreq_number_def unpackmreq_part_def unpackreq_string_def unpackmreq_string_def unpack_uint32_def
      Let_def nat_diff_distrib not_less str_byte_0)

lemma unpackrequest_safe:
  assumes "length s < 2 ^ 31"
  shows "values_or_error (lunpackrequest s)"
proof -
  obtain b where "str_byte s 0 = Inr b" by (simp add: str_byte_def)
  then show ?thesis using unpackreq_safe [of s] sint_length [OF assms] by (simp add: lunpackrequest_def Let_def)
qed

lemma unpackresponse_safe: "\<exists>vs. lunpackresponse s = Inr vs"
  by (simp add: lunpackresponse_def Let_def unpack_uint32_def)

section \<open>Properties\<close>





text \<open>C34. Reading a package never leaves the string: every string that arrives gives values or, if it is no request, a Lua
  error.\<close>

theorem cluster_unpack_safe:
  assumes "length s < 2 ^ 31"
  shows "values_or_error (lunpackrequest s) \<and> (\<exists>vs. lunpackresponse s = Inr vs)"
  using unpackrequest_safe [OF assms] unpackresponse_safe by blast

theorem cluster_unpack_safe_witness:
  "values_or_error (lunpackrequest [0x80, 200, 65]) \<and> (\<exists>vs. lunpackresponse [0x80, 200, 65] = Inr vs)"
  by (rule cluster_unpack_safe) simp

section \<open>Where the code falls short\<close>

text \<open>The test \<^verbatim>\<open>++session < 0\<close> comes too late: the addition overflows.\<close>

theorem request_session_overflow:
  assumes "addr_ok addr" and "length msg < 2 ^ 31"
  shows "lpackrequest addr (2 ^ 31 - 1) (Some msg) (int (length msg)) = Inl Int_overflow"
proof -
  have "sint (word_of_int (2 ^ 31 - 1) :: u32) = 2 ^ 31 - 1" by (simp add: signed_of_int signed_take_bit_int_eq_self)
  moreover have "unat (word_of_int (int (length msg)) :: u32) = length msg" using assms(2) by (simp add: unsigned_of_nat take_bit_nat_eq_self)
  ultimately show ?thesis
    using pack_first_ok [OF assms(1), of msg "word_of_int (2 ^ 31 - 1)"] assms(2) by (auto simp: lpackrequest_def Let_def)
qed

text \<open>A size of \<open>2 ^ 31\<close> or more, which the first package of a large request may announce, is negative as an \<^verbatim>\<open>int\<close>.\<close>

theorem announced_size_aborts:
  assumes "2 ^ 31 \<le> n" and "n < 2 ^ 32"
  shows "lunpackrequest (1 # host_bytes 4 addr @ host_bytes 4 session @ host_bytes 4 (word_of_int n :: u32)) =
      Inr [push_uint32 addr, push_uint32 session, Arg_int n, Arg_bool True] \<and> lconcat (Arg_int n # parts) = Inl Process_exit"
proof -
  have "push_uint32 (word_of_int n) = Arg_int n" using assms by (simp add: push_uint32_def unsigned_of_int take_bit_int_eq_self)
  moreover have "(word_of_int n :: u32) = word_of_int (n - 2 ^ 32)" by (simp add: word_of_int_eq_iff take_bit_eq_mod)
  then have "sint (word_of_int n :: u32) = n - 2 ^ 32" using assms by (simp only: signed_of_int) (simp add: signed_take_bit_int_eq_self)
  then have "sint (word_of_int n :: u32) < 0" using assms by simp
  ultimately show ?thesis
    using unpack_dispatch(2) [of "host_bytes 4 addr @ host_bytes 4 session @ host_bytes 4 (word_of_int n :: u32)"]
      unpack_mnumber [of addr session "word_of_int n"] by (simp add: lconcat_def)
qed

end
