(* ===== verification/Harbor_Queue.thy ===== *)
theory Harbor_Queue
  imports Prelude
begin

text \<open>
  The queues of the harbor service, \<^verbatim>\<open>service-src/service_harbor.c\<close>: rings in which one cell stays free, so that a full ring can
  be told from an empty one. A ring without a second free cell is doubled before the next message is stored.
\<close>

section \<open>Definitions\<close>

definition HARBOR_QUEUE_SIZE :: nat where "HARBOR_QUEUE_SIZE = 1024"

record remote_message_header =
  rh_source :: u32
  rh_destination :: u32
  rh_session :: u32

record harbor_msg =
  hm_header :: remote_message_header
  hm_buffer :: "byte list"

record harbor_msg_queue =
  hq_size :: nat
  hq_head :: nat
  hq_tail :: nat
  hq_data :: "harbor_msg option list"

definition expand_harbor_queue :: "harbor_msg_queue \<Rightarrow> harbor_msg_queue res" where
  "expand_harbor_queue queue =
     bindR (forR (hq_size queue - 1) (\<lambda>i new_buffer.
              bindR (rd (hq_data queue) ((i + hq_head queue) mod hq_size queue)) (\<lambda>m. wr new_buffer i m))
            (replicate (hq_size queue * 2) None)) (\<lambda>new_buffer.
     Inr \<lparr>hq_size = hq_size queue * 2, hq_head = 0, hq_tail = hq_size queue - 1, hq_data = new_buffer\<rparr>)"

definition push_queue_msg :: "harbor_msg_queue \<Rightarrow> harbor_msg \<Rightarrow> harbor_msg_queue res" where
  "push_queue_msg queue m =
     bindR (if (hq_tail queue + 1) mod hq_size queue = hq_head queue then expand_harbor_queue queue else Inr queue) (\<lambda>queue.
     bindR (wr (hq_data queue) (hq_tail queue) (Some m)) (\<lambda>data.
     Inr (queue\<lparr>hq_data := data, hq_tail := (hq_tail queue + 1) mod hq_size queue\<rparr>)))"

definition push_queue :: "harbor_msg_queue \<Rightarrow> byte list \<Rightarrow> remote_message_header \<Rightarrow> harbor_msg_queue res" where
  "push_queue queue buffer header = push_queue_msg queue \<lparr>hm_header = header, hm_buffer = buffer\<rparr>"

definition pop_queue :: "harbor_msg_queue \<Rightarrow> (harbor_msg option \<times> harbor_msg_queue) res" where
  "pop_queue queue =
     (if hq_head queue = hq_tail queue then Inr (None, queue)
      else
        bindR (rd (hq_data queue) (hq_head queue)) (\<lambda>cell.
        bindR (initialised cell) (\<lambda>m.
        Inr (Some m, queue\<lparr>hq_head := (hq_head queue + 1) mod hq_size queue\<rparr>))))"

definition new_queue :: harbor_msg_queue where
  "new_queue = \<lparr>hq_size = HARBOR_QUEUE_SIZE, hq_head = 0, hq_tail = 0, hq_data = replicate HARBOR_QUEUE_SIZE None\<rparr>"

text \<open>The loops \<^verbatim>\<open>while ((m = pop_queue(queue)) != NULL)\<close>: they take all that is in the queue. As many passes as there are cells
  are enough.\<close>

fun pop_all :: "nat \<Rightarrow> harbor_msg_queue \<Rightarrow> (harbor_msg list \<times> harbor_msg_queue) res" where
  "pop_all fuel queue =
     bindR (pop_queue queue) (\<lambda>(r, queue).
     case r of
       None \<Rightarrow> Inr ([], queue)
     | Some m \<Rightarrow>
         (case fuel of
            0 \<Rightarrow> Inl Endless_loop
          | Suc fuel' \<Rightarrow> bindR (pop_all fuel' queue) (\<lambda>(ms, queue). Inr (m # ms, queue))))"

declare pop_all.simps [simp del]

definition drain_queue :: "harbor_msg_queue \<Rightarrow> (harbor_msg list \<times> harbor_msg_queue) res" where
  "drain_queue queue = pop_all (hq_size queue) queue"

text \<open>\<^verbatim>\<open>release_queue\<close> frees the buffers of the messages that are left; the model returns them.\<close>

definition release_queue :: "harbor_msg_queue option \<Rightarrow> harbor_msg list res" where
  "release_queue queue = (case queue of None \<Rightarrow> Inr [] | Some q \<Rightarrow> bindR (drain_queue q) (\<lambda>(ms, _). Inr ms))"

section \<open>The ring as a list\<close>

definition hq_len :: "harbor_msg_queue \<Rightarrow> nat" where
  "hq_len q = (if hq_head q \<le> hq_tail q then hq_tail q - hq_head q else hq_tail q + hq_size q - hq_head q)"

definition hq_ring :: "harbor_msg_queue \<Rightarrow> nat \<Rightarrow> harbor_msg option list" where
  "hq_ring q n = map (\<lambda>i. hq_data q ! ((i + hq_head q) mod hq_size q)) [0..<n]"

definition hq_items :: "harbor_msg_queue \<Rightarrow> harbor_msg list" where
  "hq_items q = map the (hq_ring q (hq_len q))"

definition hq_inv :: "harbor_msg_queue \<Rightarrow> bool" where
  "hq_inv q \<longleftrightarrow> 1 < hq_size q \<and> length (hq_data q) = hq_size q \<and> hq_head q < hq_size q \<and> hq_tail q < hq_size q \<and>
     None \<notin> set (hq_ring q (hq_len q))"

lemma length_hq_ring [simp]: "length (hq_ring q n) = n"
  by (simp add: hq_ring_def)

lemma hq_len_less: "hq_inv q \<Longrightarrow> hq_len q < hq_size q"
  by (auto simp: hq_inv_def hq_len_def)

lemma hq_items_length [simp]: "length (hq_items q) = hq_len q"
  by (simp add: hq_items_def)

lemma expand_harbor_queue_ok:
  assumes "1 < hq_size q" and "length (hq_data q) = hq_size q"
  shows "expand_harbor_queue q = Inr \<lparr>hq_size = hq_size q * 2, hq_head = 0, hq_tail = hq_size q - 1,
     hq_data = hq_ring q (hq_size q - 1) @ replicate (hq_size q + 1) None\<rparr>"
proof -
  let ?f = "\<lambda>i b. bindR (rd (hq_data q) ((i + hq_head q) mod hq_size q)) (\<lambda>m. wr b i m)"
  have "\<exists>t. forR (hq_size q - 1) ?f (replicate (hq_size q * 2) None) = Inr t \<and>
      t = hq_ring q (hq_size q - 1) @ replicate (hq_size q * 2 - (hq_size q - 1)) None"
  proof (rule forR_invariant [where P = "\<lambda>k t. t = hq_ring q k @ replicate (hq_size q * 2 - k) None"])
    fix k t assume k: "k < hq_size q - 1" and t: "t = hq_ring q k @ replicate (hq_size q * 2 - k) None"
    obtain m where m: "hq_size q * 2 - k = Suc m" using k by (cases "hq_size q * 2 - k") auto
    then have "t[k := x] = hq_ring q k @ x # replicate m None" for x by (simp add: t list_update_append)
    moreover have "hq_size q * 2 - Suc k = m" using m by simp
    ultimately show "\<exists>t'. ?f k t = Inr t' \<and> t' = hq_ring q (Suc k) @ replicate (hq_size q * 2 - Suc k) None"
      using k assms by (simp add: wr_def t) (simp add: hq_ring_def)
  qed (simp add: hq_ring_def)
  moreover have "hq_size q * 2 - (hq_size q - 1) = hq_size q + 1" using assms by simp
  ultimately show ?thesis by (simp add: expand_harbor_queue_def)
qed

text \<open>Storing behind the last message when a second cell is free.\<close>

lemma hq_store:
  fixes m :: harbor_msg
  assumes inv: "hq_inv q" and free: "(hq_tail q + 1) mod hq_size q \<noteq> hq_head q"
  defines "q' \<equiv> q\<lparr>hq_data := (hq_data q)[hq_tail q := Some m], hq_tail := (hq_tail q + 1) mod hq_size q\<rparr>"
  shows "hq_inv q'" and "hq_items q' = hq_items q @ [m]"
proof -
  have sz: "1 < hq_size q" "length (hq_data q) = hq_size q" "hq_head q < hq_size q" "hq_tail q < hq_size q" using inv by (simp_all add: hq_inv_def)
  have t: "(hq_tail q + 1) mod hq_size q = (if hq_tail q + 1 = hq_size q then 0 else hq_tail q + 1)" using sz by (simp add: mod_Suc)
  have len: "hq_len q' = Suc (hq_len q)" using sz free t by (auto simp: q'_def hq_len_def mod_Suc split: if_splits)
  have pos: "(i + hq_head q) mod hq_size q = (if i + hq_head q < hq_size q then i + hq_head q else i + hq_head q - hq_size q)" if "i < hq_size q" for i
    using mod_add_wrap [OF that sz(3)] by simp
  have tail: "(hq_len q + hq_head q) mod hq_size q = hq_tail q"
    using pos [OF hq_len_less [OF inv]] sz by (auto simp: hq_len_def split: if_splits)
  have "(i + hq_head q) mod hq_size q \<noteq> hq_tail q" if "i < hq_len q" for i
    using that sz pos [of i] hq_len_less [OF inv] by (auto simp: hq_len_def split: if_splits)
  then have "hq_ring q' (hq_len q) = hq_ring q (hq_len q)" by (auto simp: hq_ring_def q'_def) (metis nth_list_update_neq)
  moreover have "hq_data q' ! ((hq_len q + hq_head q') mod hq_size q') = Some m" using tail sz by (simp add: q'_def)
  ultimately have "hq_ring q' (hq_len q') = hq_ring q (hq_len q) @ [Some m]" unfolding len by (simp add: hq_ring_def)
  then show "hq_inv q'" "hq_items q' = hq_items q @ [m]"
    using inv sz t by (auto simp: hq_inv_def hq_items_def q'_def)
qed

lemma push_queue_msg_ok:
  assumes inv: "hq_inv q"
  shows "\<exists>q'. push_queue_msg q m = Inr q' \<and> hq_inv q' \<and> hq_items q' = hq_items q @ [m]"
proof (cases "(hq_tail q + 1) mod hq_size q = hq_head q")
  case False
  then show ?thesis using hq_store [OF inv False, of m] inv by (simp add: push_queue_msg_def hq_inv_def)
next
  case True
  have sz: "1 < hq_size q" "length (hq_data q) = hq_size q" "hq_head q < hq_size q" "hq_tail q < hq_size q" using inv by (simp_all add: hq_inv_def)
  define q1 where "q1 = \<lparr>hq_size = hq_size q * 2, hq_head = 0, hq_tail = hq_size q - 1,
     hq_data = hq_ring q (hq_size q - 1) @ replicate (hq_size q + 1) None\<rparr>"
  have full: "hq_len q = hq_size q - 1" using True sz by (auto simp: hq_len_def mod_Suc split: if_splits)
  have len: "hq_len q1 = hq_size q - 1" by (simp add: hq_len_def q1_def)
  have ring: "hq_ring q1 (hq_len q1) = hq_ring q (hq_len q)"
    by (rule nth_equalityI) (simp_all add: len full, simp add: hq_ring_def q1_def nth_append)
  have "hq_inv q1" using sz inv ring by (simp add: hq_inv_def q1_def)
  moreover have "(hq_tail q1 + 1) mod hq_size q1 \<noteq> hq_head q1" using sz by (simp add: q1_def)
  ultimately have "\<exists>q'. bindR (wr (hq_data q1) (hq_tail q1) (Some m)) (\<lambda>data.
     Inr (q1\<lparr>hq_data := data, hq_tail := (hq_tail q1 + 1) mod hq_size q1\<rparr>)) = Inr q' \<and> hq_inv q' \<and> hq_items q' = hq_items q1 @ [m]"
    using hq_store [of q1 m] by (simp add: hq_inv_def)
  moreover have "hq_items q1 = hq_items q" using ring by (simp add: hq_items_def)
  ultimately show ?thesis using True expand_harbor_queue_ok [OF sz(1,2)] by (simp add: push_queue_msg_def q1_def)
qed

lemma pop_queue_ok:
  assumes inv: "hq_inv q"
  shows "case hq_items q of [] \<Rightarrow> pop_queue q = Inr (None, q)
    | m # ms \<Rightarrow> \<exists>q'. pop_queue q = Inr (Some m, q') \<and> hq_inv q' \<and> hq_items q' = ms \<and> hq_size q' = hq_size q"
proof (cases "hq_len q")
  case 0
  then have "hq_items q = []" by (simp add: hq_items_def hq_ring_def)
  moreover have "hq_head q = hq_tail q" using 0 inv by (auto simp: hq_len_def hq_inv_def split: if_splits)
  ultimately show ?thesis by (simp add: pop_queue_def)
next
  case (Suc n)
  have sz: "1 < hq_size q" "length (hq_data q) = hq_size q" "hq_head q < hq_size q" "hq_tail q < hq_size q" using inv by (simp_all add: hq_inv_def)
  let ?q = "q\<lparr>hq_head := (hq_head q + 1) mod hq_size q\<rparr>"
  have ne: "hq_head q \<noteq> hq_tail q" using Suc by (auto simp: hq_len_def)
  have n: "hq_len ?q = n" using Suc ne sz by (auto simp: hq_len_def mod_Suc split: if_splits)
  have "hq_ring q (Suc n) = hq_data q ! hq_head q # hq_ring ?q n"
    unfolding hq_ring_def upt_conv_Cons [OF zero_less_Suc] using sz
    by (simp add: map_Suc_upt [symmetric] mod_add_right_eq del: upt_Suc)
  then have r: "hq_ring q (hq_len q) = hq_data q ! hq_head q # hq_ring ?q (hq_len ?q)" using Suc n by simp
  then obtain m where m: "hq_data q ! hq_head q = Some m" using inv by (cases "hq_data q ! hq_head q") (auto simp: hq_inv_def)
  have "hq_inv ?q" using inv r sz by (simp add: hq_inv_def)
  moreover have "hq_items q = m # hq_items ?q" using r m by (simp add: hq_items_def)
  ultimately show ?thesis using m ne sz by (simp add: pop_queue_def)
qed

interpretation harbor_ring: fifo push_queue_msg pop_queue hq_items hq_inv
proof unfold_locales
  fix q x assume "hq_inv q"
  then show "\<exists>q'. push_queue_msg q x = Inr q' \<and> hq_inv q' \<and> hq_items q' = hq_items q @ [x]" by (rule push_queue_msg_ok)
next
  fix q assume "hq_inv q" "hq_items q = []"
  then show "\<exists>q'. pop_queue q = Inr (None, q') \<and> hq_inv q' \<and> hq_items q' = []" using pop_queue_ok [of q] by simp
next
  fix q x xs assume "hq_inv q" "hq_items q = x # xs"
  then show "\<exists>q'. pop_queue q = Inr (Some x, q') \<and> hq_inv q' \<and> hq_items q' = xs" using pop_queue_ok [of q] by auto
qed

lemma pop_all_ok: "hq_inv q \<Longrightarrow> hq_len q \<le> fuel \<Longrightarrow> \<exists>q'. pop_all fuel q = Inr (hq_items q, q') \<and> hq_inv q' \<and> hq_items q' = []"
proof (induction fuel arbitrary: q)
  case 0
  then have "hq_items q = []" by (simp flip: length_0_conv)
  then show ?case using pop_queue_ok [OF "0.prems"(1)] "0.prems"(1) by (simp add: pop_all.simps)
next
  case (Suc fuel)
  show ?case
  proof (cases "hq_items q")
    case Nil
    then show ?thesis using pop_queue_ok [OF Suc.prems(1)] Suc.prems(1) by (simp add: pop_all.simps)
  next
    case (Cons m ms)
    then obtain q1 where q1: "pop_queue q = Inr (Some m, q1)" "hq_inv q1" "hq_items q1 = ms" using pop_queue_ok [OF Suc.prems(1)] by auto
    moreover have "hq_len q1 \<le> fuel" using Suc.prems(2) Cons q1(3) by (metis Suc_le_mono hq_items_length length_Cons)
    ultimately show ?thesis using Suc.IH [OF q1(2)] Cons by (auto simp: pop_all.simps [of "Suc fuel"])
  qed
qed

lemma drain_queue_ok: "hq_inv q \<Longrightarrow> \<exists>q'. drain_queue q = Inr (hq_items q, q') \<and> hq_inv q' \<and> hq_items q' = []"
  unfolding drain_queue_def by (rule pop_all_ok) (simp_all add: less_imp_le hq_len_less)

lemma new_queue_ok [simp]: "hq_inv new_queue" "hq_items new_queue = []"
  by (simp_all add: hq_inv_def hq_items_def hq_ring_def hq_len_def new_queue_def HARBOR_QUEUE_SIZE_def)

lemma release_queue_ok: "(\<forall>q. qo = Some q \<longrightarrow> hq_inv q) \<Longrightarrow> \<exists>ms. release_queue qo = Inr ms"
  using drain_queue_ok by (cases qo) (fastforce simp: release_queue_def)+

end
