(* ===== verification/Harbor.thy ===== *)
theory Harbor
  imports Service Netpack Chunk Bytes Harbor_Queue
begin

text \<open>
  The harbor service, \<^verbatim>\<open>service-src/service_harbor.c\<close>: it carries the messages between the nodes of a skynet network. A message to a
  node that is not connected yet waits in the queue of the node, a message to a name that is not known yet in the queue of the name.

  As for the gate, a function returns the new state and the calls of the framework in order (\<open>haction\<close>). The result of \<^verbatim>\<open>skynet_send\<close> is
  the parameter \<open>sent\<close>, where the code looks at it. \<open>Free_data\<close> frees the data of a socket message. A name is an array of 16 characters; a bucket of the hash table is the
  list of its nodes, and a node is named by its key.
\<close>

section \<open>State\<close>

definition HASH_SIZE :: nat where "HASH_SIZE = 4096"
definition HEADER_COOKIE_LENGTH :: nat where "HEADER_COOKIE_LENGTH = 12"
definition REMOTE_MAX :: nat where "REMOTE_MAX = 256"

definition STATUS_WAIT :: nat where "STATUS_WAIT = 0"
definition STATUS_HANDSHAKE :: nat where "STATUS_HANDSHAKE = 1"
definition STATUS_HEADER :: nat where "STATUS_HEADER = 2"
definition STATUS_CONTENT :: nat where "STATUS_CONTENT = 3"
definition STATUS_DOWN :: nat where "STATUS_DOWN = 4"

lemmas statuses = STATUS_WAIT_def STATUS_HANDSHAKE_def STATUS_HEADER_def STATUS_CONTENT_def STATUS_DOWN_def

record keyvalue =
  kv_key :: "char list"
  kv_hash :: u32
  kv_value :: u32
  kv_queue :: "harbor_msg_queue option"

type_synonym hashmap = "keyvalue list list"

record slave =
  sl_fd :: int
  sl_queue :: "harbor_msg_queue option"
  sl_status :: nat
  sl_length :: nat
  sl_read :: nat
  sl_size :: "byte list"
  sl_recv_buffer :: "byte option list"

record harbor =
  hb_id :: int
  hb_slave :: u32
  hb_map :: hashmap
  hb_s :: "slave list"

datatype haction =
    Send_local u32 u32 u32 u32 "byte list"
  | Net_send int "byte list"
  | Net_close int
  | Net_start int
  | Log string
  | Free_data
  | Harbor_start

type_synonym houtcome = "(harbor \<times> haction list) res"

section \<open>Hash table\<close>

definition name_hash :: "char list \<Rightarrow> u32" where
  "name_hash name =
     (let b = bytes_of name in
      host_word (take 4 b) XOR host_word (take 4 (drop 4 b)) XOR host_word (take 4 (drop 8 b)) XOR host_word (take 4 (drop 12 b)))"

definition strn_eq :: "char list \<Rightarrow> char list \<Rightarrow> bool" where
  "strn_eq a b = (takeWhile (\<lambda>c. c \<noteq> NUL) (take GLOBALNAME_LENGTH a) = takeWhile (\<lambda>c. c \<noteq> NUL) (take GLOBALNAME_LENGTH b))"

definition kv_match :: "char list \<Rightarrow> keyvalue \<Rightarrow> bool" where
  "kv_match name nd \<longleftrightarrow> kv_hash nd = name_hash name \<and> strn_eq (kv_key nd) name"

definition name_bucket :: "char list \<Rightarrow> nat" where
  "name_bucket name = unat (name_hash name) mod HASH_SIZE"

definition hash_search :: "hashmap \<Rightarrow> char list \<Rightarrow> keyvalue option res" where
  "hash_search hash name = bindR (rd hash (name_bucket name)) (\<lambda>nodes. Inr (find (kv_match name) nodes))"

definition hash_insert :: "hashmap \<Rightarrow> char list \<Rightarrow> (keyvalue \<times> hashmap) res" where
  "hash_insert hash name =
     (let nd = \<lparr>kv_key = take GLOBALNAME_LENGTH name, kv_hash = name_hash name, kv_value = 0, kv_queue = None\<rparr> in
      bindR (rd hash (name_bucket name)) (\<lambda>nodes.
      bindR (wr hash (name_bucket name) (nd # nodes)) (\<lambda>hash. Inr (nd, hash))))"

definition hash_new :: hashmap where
  "hash_new = replicate HASH_SIZE []"

text \<open>Assignment to a node that \<^verbatim>\<open>hash_search\<close> has found.\<close>

fun set_node :: "char list \<Rightarrow> keyvalue \<Rightarrow> keyvalue list \<Rightarrow> keyvalue list" where
  "set_node name nd [] = []"
| "set_node name nd (n # ns) = (if kv_match name n then nd # ns else n # set_node name nd ns)"

definition hash_assign :: "hashmap \<Rightarrow> char list \<Rightarrow> keyvalue \<Rightarrow> hashmap res" where
  "hash_assign hash name nd =
     bindR (rd hash (name_bucket name)) (\<lambda>nodes. wr hash (name_bucket name) (set_node name nd nodes))"

definition hash_find :: "hashmap \<Rightarrow> char list \<Rightarrow> (keyvalue \<times> hashmap) res" where
  "hash_find hash name =
     bindR (hash_search hash name) (\<lambda>nd.
     case nd of None \<Rightarrow> hash_insert hash name | Some nd \<Rightarrow> Inr (nd, hash))"

text \<open>\<^verbatim>\<open>hash_delete\<close> frees the messages that wait for names; the model returns them.\<close>

fun release_nodes :: "keyvalue list \<Rightarrow> harbor_msg list res" where
  "release_nodes [] = Inr []"
| "release_nodes (n # ns) = bindR (release_queue (kv_queue n)) (\<lambda>ms. bindR (release_nodes ns) (\<lambda>ms'. Inr (ms @ ms')))"

definition hash_delete :: "hashmap \<Rightarrow> harbor_msg list res" where
  "hash_delete hash = release_nodes (concat hash)"

section \<open>Connections\<close>

definition put_slave :: "harbor \<Rightarrow> nat \<Rightarrow> slave \<Rightarrow> harbor res" where
  "put_slave h i s = bindR (wr (hb_s h) i s) (\<lambda>ss. Inr (h\<lparr>hb_s := ss\<rparr>))"

definition close_harbor :: "harbor \<Rightarrow> nat \<Rightarrow> houtcome" where
  "close_harbor h i =
     bindR (rd (hb_s h) i) (\<lambda>s.
     bindR (release_queue (sl_queue s)) (\<lambda>_.
     bindR (put_slave h i (s\<lparr>sl_status := STATUS_DOWN, sl_queue := None\<rparr>)) (\<lambda>h.
     Inr (h, if sl_fd s \<noteq> 0 then [Net_close (sl_fd s)] else []))))"

definition report_harbor_down :: "harbor \<Rightarrow> nat \<Rightarrow> haction" where
  "report_harbor_down h i = Send_local 0 (hb_slave h) (ucast PTYPE_TEXT) 0 (bytes_of (''D '' @ print_dec i))"

definition no_slave :: slave where
  "no_slave = \<lparr>sl_fd = 0, sl_queue = None, sl_status = STATUS_WAIT, sl_length = 0, sl_read = 0, sl_size = replicate 4 0, sl_recv_buffer = []\<rparr>"

definition harbor_create :: harbor where
  "harbor_create = \<lparr>hb_id = 0, hb_slave = 0, hb_map = hash_new, hb_s = replicate REMOTE_MAX no_slave\<rparr>"

fun release_slaves :: "harbor \<Rightarrow> nat list \<Rightarrow> houtcome" where
  "release_slaves h [] = Inr (h, [])"
| "release_slaves h (i # is) =
     bindR (rd (hb_s h) i) (\<lambda>s.
     bindR (if sl_fd s \<noteq> 0 \<and> sl_status s \<noteq> STATUS_DOWN then close_harbor h i else Inr (h, [])) (\<lambda>(h, out).
     bindR (release_slaves h is) (\<lambda>(h, out'). Inr (h, out @ out'))))"

definition harbor_release :: "harbor \<Rightarrow> haction list res" where
  "harbor_release h =
     bindR (release_slaves h [1..<REMOTE_MAX]) (\<lambda>(h, out).
     bindR (hash_delete (hb_map h)) (\<lambda>_. Inr out))"

section \<open>Headers\<close>

definition to_bigendian :: "u32 \<Rightarrow> byte list" where
  "to_bigendian n = [ucast (drop_bit 24 n AND 0xff), ucast (drop_bit 16 n AND 0xff), ucast (drop_bit 8 n AND 0xff), ucast (n AND 0xff)]"

definition header_to_message :: "remote_message_header \<Rightarrow> byte list" where
  "header_to_message header = to_bigendian (rh_source header) @ to_bigendian (rh_destination header) @ to_bigendian (rh_session header)"

definition from_bigendian :: "byte list \<Rightarrow> u32" where
  "from_bigendian b = push_bit 24 (ucast (b ! 0)) OR push_bit 16 (ucast (b ! 1)) OR push_bit 8 (ucast (b ! 2)) OR ucast (b ! 3)"

definition message_to_header :: "byte list \<Rightarrow> remote_message_header" where
  "message_to_header message =
     \<lparr>rh_source = from_bigendian (take 4 message), rh_destination = from_bigendian (take 4 (drop 4 message)),
      rh_session = from_bigendian (take 4 (drop 8 message))\<rparr>"

section \<open>Messages\<close>

type_synonym sent = "u32 \<Rightarrow> u32 \<Rightarrow> u32 \<Rightarrow> u32 \<Rightarrow> byte list \<Rightarrow> int"

text \<open>The cookie are the last 12 bytes; in front of a shorter message lies other memory.\<close>

definition forward_local_messsage :: "sent \<Rightarrow> harbor \<Rightarrow> byte list \<Rightarrow> nat \<Rightarrow> haction list res" where
  "forward_local_messsage sent h msg sz =
     (if sz < HEADER_COOKIE_LENGTH then Inl Out_of_bounds
      else
        let header = message_to_header (drop (sz - HEADER_COOKIE_LENGTH) msg);
            type' = drop_bit HANDLE_REMOTE_SHIFT (rh_destination header);
            destination = (rh_destination header AND HANDLE_MASK) OR push_bit HANDLE_REMOTE_SHIFT (word_of_int (hb_id h));
            data = take (sz - HEADER_COOKIE_LENGTH) msg in
        Inr (Send_local (rh_source header) destination (type' OR PTYPE_TAG_DONTCOPY) (rh_session header) data #
          (if sent (rh_source header) destination (type' OR PTYPE_TAG_DONTCOPY) (rh_session header) data < 0 then
             (if type' \<noteq> PTYPE_ERROR then [Send_local destination (rh_source header) PTYPE_ERROR (rh_session header) []] else []) @
             [Log (''Unknown destination :'' @ print_hex destination @ '' from :'' @ print_hex (rh_source header) @ '' type('' @ print_dec (unat type') @ '')'')]
           else [])))"

definition send_remote :: "int \<Rightarrow> byte list \<Rightarrow> remote_message_header \<Rightarrow> haction" where
  "send_remote fd buffer cookie =
     (let sz_header = length buffer + HEADER_COOKIE_LENGTH in
      if sz_header > 2 ^ 32 - 1 then
        Log (''remote message from :'' @ print_hex8 (rh_source cookie) @ '' to :'' @ print_hex8 (rh_destination cookie) @ '' is too large.'')
      else Net_send fd (to_bigendian (of_nat sz_header) @ buffer @ header_to_message cookie))"

fun push_all :: "harbor_msg_queue \<Rightarrow> harbor_msg list \<Rightarrow> harbor_msg_queue res" where
  "push_all queue [] = Inr queue"
| "push_all queue (m # ms) = bindR (push_queue_msg queue m) (\<lambda>queue. push_all queue ms)"

definition local_message :: "u32 \<Rightarrow> harbor_msg \<Rightarrow> haction" where
  "local_message handle m =
     Send_local (rh_source (hm_header m)) handle (drop_bit HANDLE_REMOTE_SHIFT (rh_destination (hm_header m)) OR PTYPE_TAG_DONTCOPY)
       (rh_session (hm_header m)) (hm_buffer m)"

definition named_message :: "int \<Rightarrow> u32 \<Rightarrow> harbor_msg \<Rightarrow> haction" where
  "named_message fd handle m =
     send_remote fd (hm_buffer m) ((hm_header m)\<lparr>rh_destination := rh_destination (hm_header m) OR (handle AND HANDLE_MASK)\<rparr>)"

text \<open>The messages wait in \<open>queue\<close>, the queue of the node of a name with the value \<open>handle\<close>. The result is the state of the
  harbor, what is left of the queue of the node, and the calls.\<close>

definition dispatch_name_queue :: "harbor \<Rightarrow> char list \<Rightarrow> u32 \<Rightarrow> harbor_msg_queue \<Rightarrow> (harbor \<times> harbor_msg_queue option \<times> haction list) res" where
  "dispatch_name_queue h key handle queue =
     (let i = unat (drop_bit HANDLE_REMOTE_SHIFT handle) in
      bindR (rd (hb_s h) i) (\<lambda>s.
      if sl_fd s = 0 then
        if sl_status s = STATUS_DOWN then
          Inr (h, Some queue, [Log (''Drop message to '' @ takeWhile (\<lambda>c. c \<noteq> NUL) (take GLOBALNAME_LENGTH key) @ '' (in harbor '' @ print_dec i @ '')'')])
        else
          bindR (case sl_queue s of
                   None \<Rightarrow> Inr (queue, None)
                 | Some sq \<Rightarrow> bindR (drain_queue queue) (\<lambda>(ms, queue). bindR (push_all sq ms) (\<lambda>sq. Inr (sq, Some queue)))) (\<lambda>(sq, left_over).
          if i = unat (drop_bit HANDLE_REMOTE_SHIFT (hb_slave h)) then
            bindR (drain_queue sq) (\<lambda>(ms, _).
            bindR (put_slave h i (s\<lparr>sl_queue := None\<rparr>)) (\<lambda>h. Inr (h, left_over, map (local_message handle) ms)))
          else bindR (put_slave h i (s\<lparr>sl_queue := Some sq\<rparr>)) (\<lambda>h. Inr (h, left_over, [])))
      else
        bindR (drain_queue queue) (\<lambda>(ms, queue). Inr (h, Some queue, map (named_message (sl_fd s) handle) ms))))"

definition queued_message :: "int \<Rightarrow> harbor_msg \<Rightarrow> haction" where
  "queued_message fd m = send_remote fd (hm_buffer m) (hm_header m)"

definition dispatch_queue :: "harbor \<Rightarrow> nat \<Rightarrow> houtcome" where
  "dispatch_queue h i =
     bindR (rd (hb_s h) i) (\<lambda>s.
     bindR (assertR (sl_fd s \<noteq> 0)) (\<lambda>_.
     case sl_queue s of
       None \<Rightarrow> Inr (h, [])
     | Some queue \<Rightarrow>
         bindR (drain_queue queue) (\<lambda>(ms, queue).
         bindR (release_queue (Some queue)) (\<lambda>_.
         bindR (put_slave h i (s\<lparr>sl_queue := None\<rparr>)) (\<lambda>h. Inr (h, map (queued_message (sl_fd s)) ms))))))"

section \<open>Data from a connection\<close>

definition find_slave :: "harbor \<Rightarrow> int \<Rightarrow> nat option" where
  "find_slave h fd = find (\<lambda>i. sl_fd (hb_s h ! i) = fd) [1..<REMOTE_MAX]"

text \<open>\<^verbatim>\<open>STATUS_HEADER\<close>: the result says whether the content follows.\<close>

definition header_step :: "harbor \<Rightarrow> nat \<Rightarrow> byte list \<Rightarrow> (harbor \<times> haction list \<times> byte list option) res" where
  "header_step h i buffer =
     bindR (rd (hb_s h) i) (\<lambda>s.
     let need = 4 - sl_read s in
     if length buffer < need then
       bindR (memcpyR (sl_size s) (sl_read s) buffer) (\<lambda>sz.
       bindR (put_slave h i (s\<lparr>sl_size := sz, sl_read := sl_read s + length buffer\<rparr>)) (\<lambda>h. Inr (h, [], None)))
     else
       bindR (memcpyR (sl_size s) (sl_read s) (take need buffer)) (\<lambda>sz.
       bindR (rd sz 0) (\<lambda>b0. bindR (rd sz 1) (\<lambda>b1. bindR (rd sz 2) (\<lambda>b2. bindR (rd sz 3) (\<lambda>b3.
       if b0 \<noteq> 0 then
         bindR (put_slave h i (s\<lparr>sl_size := sz\<rparr>)) (\<lambda>h.
         bindR (close_harbor h i) (\<lambda>(h, out). Inr (h, Log (''Message is too long from harbor '' @ print_dec i) # out, None)))
       else
         let len = unat b1 * 2 ^ 16 + unat b2 * 2 ^ 8 + unat b3;
             buffer = drop need buffer in
         bindR (put_slave h i (s\<lparr>sl_size := sz, sl_length := len, sl_read := 0, sl_recv_buffer := replicate len None, sl_status := STATUS_CONTENT\<rparr>)) (\<lambda>h.
         Inr (h, [], if buffer = [] then None else Some buffer))))))))"

definition content_step :: "sent \<Rightarrow> harbor \<Rightarrow> nat \<Rightarrow> byte list \<Rightarrow> (harbor \<times> haction list \<times> byte list option) res" where
  "content_step sent h i buffer =
     bindR (rd (hb_s h) i) (\<lambda>s.
     let need = sl_length s - sl_read s in
     if length buffer < need then
       bindR (memcpyR (sl_recv_buffer s) (sl_read s) (map Some buffer)) (\<lambda>recv.
       bindR (put_slave h i (s\<lparr>sl_recv_buffer := recv, sl_read := sl_read s + length buffer\<rparr>)) (\<lambda>h. Inr (h, [], None)))
     else
       bindR (memcpyR (sl_recv_buffer s) (sl_read s) (map Some (take need buffer))) (\<lambda>recv.
       bindR (read_bytes recv (sl_length s)) (\<lambda>msg.
       bindR (forward_local_messsage sent h msg (sl_length s)) (\<lambda>out.
       bindR (put_slave h i (s\<lparr>sl_length := 0, sl_read := 0, sl_recv_buffer := [], sl_status := STATUS_HEADER\<rparr>)) (\<lambda>h.
       let buffer = drop need buffer in
       Inr (h, out, if buffer = [] then None else Some buffer))))))"

definition handshake_step :: "harbor \<Rightarrow> nat \<Rightarrow> int \<Rightarrow> byte list \<Rightarrow> (harbor \<times> haction list \<times> byte list option) res" where
  "handshake_step h i fd buffer =
     bindR (rd buffer 0) (\<lambda>remote_id.
     if unat remote_id \<noteq> i then
       bindR (close_harbor h i) (\<lambda>(h, out).
       Inr (h, Log (''Invalid shakehand id ('' @ print_dec i @ '') from fd = '' @ print_int fd @ '' , harbor = '' @ print_dec (unat remote_id)) # out, None))
     else
       bindR (rd (hb_s h) i) (\<lambda>s.
       bindR (put_slave h i (s\<lparr>sl_status := STATUS_HEADER\<rparr>)) (\<lambda>h.
       bindR (dispatch_queue h i) (\<lambda>(h, out). Inr (h, out, Some (drop 1 buffer))))))"

text \<open>One pass through the cases that fall through, from the one of the status on; the rest of the data if the loop goes on.\<close>

definition socket_pass :: "sent \<Rightarrow> harbor \<Rightarrow> nat \<Rightarrow> int \<Rightarrow> byte list \<Rightarrow> (harbor \<times> haction list \<times> byte list option) res" where
  "socket_pass sent h i fd buffer =
     bindR (rd (hb_s h) i) (\<lambda>s.
     let header_case = (\<lambda>h buffer.
           bindR (header_step h i buffer) (\<lambda>(h, out, more).
           case more of
             None \<Rightarrow> Inr (h, out, None)
           | Some buffer \<Rightarrow> bindR (content_step sent h i buffer) (\<lambda>(h, out', more). Inr (h, out @ out', more)))) in
     if sl_status s = STATUS_HANDSHAKE then
       bindR (handshake_step h i fd buffer) (\<lambda>(h, out, more).
       case more of
         None \<Rightarrow> Inr (h, out, None)
       | Some buffer \<Rightarrow>
           if buffer = [] then Inr (h, out, Some [])
           else bindR (header_case h buffer) (\<lambda>(h, out', more). Inr (h, out @ out', more)))
     else if sl_status s = STATUS_HEADER then header_case h buffer
     else if sl_status s = STATUS_CONTENT then content_step sent h i buffer
     else Inr (h, [], None))"

fun socket_loop :: "nat \<Rightarrow> sent \<Rightarrow> harbor \<Rightarrow> nat \<Rightarrow> int \<Rightarrow> byte list \<Rightarrow> houtcome" where
  "socket_loop fuel sent h i fd buffer =
     bindR (socket_pass sent h i fd buffer) (\<lambda>(h, out, more).
     case more of
       None \<Rightarrow> Inr (h, out)
     | Some buffer \<Rightarrow>
         (case fuel of
            0 \<Rightarrow> Inl Endless_loop
          | Suc fuel' \<Rightarrow> bindR (socket_loop fuel' sent h i fd buffer) (\<lambda>(h, out'). Inr (h, out @ out'))))"

declare socket_loop.simps [simp del]

definition push_socket_data :: "sent \<Rightarrow> harbor \<Rightarrow> socket_event \<Rightarrow> houtcome" where
  "push_socket_data sent h message =
     bindR (assertR (ev_type message = SKYNET_SOCKET_TYPE_DATA)) (\<lambda>_.
     case find_slave h (ev_id message) of
       None \<Rightarrow> Inr (h, [Free_data, Log (''Invalid socket fd ('' @ print_int (ev_id message) @ '') data'')])
     | Some i \<Rightarrow> socket_loop (length (ev_buffer message) + 1) sent h i (ev_id message) (ev_buffer message))"

section \<open>Names and messages to other nodes\<close>

definition update_name :: "harbor \<Rightarrow> char list \<Rightarrow> u32 \<Rightarrow> houtcome" where
  "update_name h name handle =
     bindR (hash_find (hb_map h) name) (\<lambda>(nd, hash).
     let h = h\<lparr>hb_map := hash\<rparr> in
     bindR (case kv_queue nd of
              None \<Rightarrow> Inr (h, [])
            | Some queue \<Rightarrow>
                bindR (dispatch_name_queue h (kv_key nd) handle queue) (\<lambda>(h, left_over, out).
                bindR (release_queue left_over) (\<lambda>_. Inr (h, out)))) (\<lambda>(h, out).
     bindR (hash_assign (hb_map h) name (nd\<lparr>kv_value := handle, kv_queue := None\<rparr>)) (\<lambda>hash.
     Inr (h\<lparr>hb_map := hash\<rparr>, out))))"

text \<open>The result also says whether the message was kept, so that the caller does not free it.\<close>

definition remote_send_handle :: "harbor \<Rightarrow> u32 \<Rightarrow> u32 \<Rightarrow> u32 \<Rightarrow> u32 \<Rightarrow> byte list \<Rightarrow> (harbor \<times> haction list \<times> bool) res" where
  "remote_send_handle h source destination type' session msg =
     (let i = unat (drop_bit HANDLE_REMOTE_SHIFT destination) in
      if int i = hb_id h then Inr (h, [Send_local source destination (type' OR PTYPE_TAG_DONTCOPY) session msg], True)
      else
        bindR (rd (hb_s h) i) (\<lambda>s.
        let header = \<lparr>rh_source = source, rh_destination = push_bit HANDLE_REMOTE_SHIFT type' OR (destination AND HANDLE_MASK), rh_session = session\<rparr> in
        if sl_fd s = 0 \<or> sl_status s = STATUS_HANDSHAKE then
          if sl_status s = STATUS_DOWN then
            Inr (h, [Send_local destination source PTYPE_ERROR 0 [],
              Log (''Drop message to harbor '' @ print_dec i @ '' from '' @ print_hex source @ '' to '' @ print_hex destination @
                '' (session = '' @ print_int (sint session) @ '', msgsz = '' @ print_dec (length msg) @ '')'')], False)
          else
            bindR (push_queue (case sl_queue s of None \<Rightarrow> new_queue | Some q \<Rightarrow> q) msg header) (\<lambda>q.
            bindR (put_slave h i (s\<lparr>sl_queue := Some q\<rparr>)) (\<lambda>h. Inr (h, [], True)))
        else Inr (h, [send_remote (sl_fd s) msg header], False)))"

definition remote_send_name :: "harbor \<Rightarrow> u32 \<Rightarrow> char list \<Rightarrow> u32 \<Rightarrow> u32 \<Rightarrow> byte list \<Rightarrow> (harbor \<times> haction list \<times> bool) res" where
  "remote_send_name h source name type' session msg =
     bindR (hash_find (hb_map h) name) (\<lambda>(nd, hash).
     let h = h\<lparr>hb_map := hash\<rparr> in
     if kv_value nd = 0 then
       let header = \<lparr>rh_source = source, rh_destination = push_bit HANDLE_REMOTE_SHIFT type', rh_session = session\<rparr> in
       bindR (push_queue (case kv_queue nd of None \<Rightarrow> new_queue | Some q \<Rightarrow> q) msg header) (\<lambda>q.
       bindR (hash_assign hash name (nd\<lparr>kv_queue := Some q\<rparr>)) (\<lambda>hash.
       Inr (h\<lparr>hb_map := hash\<rparr>,
         [Send_local 0 (hb_slave h) (ucast PTYPE_TEXT) 0 (bytes_of (''Q '' @ takeWhile (\<lambda>c. c \<noteq> NUL) (take GLOBALNAME_LENGTH name)))], True)))
     else remote_send_handle h source (kv_value nd) type' session msg)"

section \<open>Commands\<close>

definition handshake :: "harbor \<Rightarrow> nat \<Rightarrow> haction list res" where
  "handshake h i = bindR (rd (hb_s h) i) (\<lambda>s. Inr [Net_send (sl_fd s) [word_of_int (hb_id h)]])"

text \<open>\<^verbatim>\<open>sscanf(buffer, "%d %d", &fd, &id)\<close>; what is not read stays 0.\<close>

definition scan_connect :: "string \<Rightarrow> int \<times> int" where
  "scan_connect buffer =
     (case scan_int buffer of
        None \<Rightarrow> (0, 0)
      | Some (fd, rest) \<Rightarrow> (fd, case scan_int rest of None \<Rightarrow> 0 | Some (i, _) \<Rightarrow> i))"

definition harbor_connect :: "harbor \<Rightarrow> char \<Rightarrow> string \<Rightarrow> houtcome" where
  "harbor_connect h cmd buffer =
     (let (fd, i) = scan_connect buffer in
      if fd = 0 \<or> i \<le> 0 \<or> i \<ge> int REMOTE_MAX then Inr (h, [Log (''Invalid command '' @ [cmd] @ '' '' @ buffer)])
      else
        bindR (rd (hb_s h) (nat i)) (\<lambda>s.
        if sl_fd s \<noteq> 0 then Inr (h, [Log (''Harbor '' @ print_int i @ '' alreay exist'')])
        else
          bindR (put_slave h (nat i) (s\<lparr>sl_fd := fd, sl_status := (if cmd = CHR ''S'' then STATUS_HANDSHAKE else STATUS_HEADER)\<rparr>)) (\<lambda>h.
          bindR (handshake h (nat i)) (\<lambda>out.
          bindR (if cmd = CHR ''S'' then Inr (h, []) else dispatch_queue h (nat i)) (\<lambda>(h, out').
          Inr (h, Net_start fd # out @ out'))))))"

text \<open>The texts of the errors are taken from the message up to a NUL, which a message need not have.\<close>

definition harbor_command :: "harbor \<Rightarrow> char list \<Rightarrow> u32 \<Rightarrow> houtcome" where
  "harbor_command h msg source =
     bindR (rd msg 0) (\<lambda>cmd.
     let name = drop 2 msg; s = int (length msg) - 2 in
     if cmd = CHR ''N'' then
       if s \<le> 0 \<or> s \<ge> int GLOBALNAME_LENGTH then bindR (cstring name) (\<lambda>t. Inr (h, [Log (''Invalid global name '' @ t)]))
       else update_name h (name @ replicate (GLOBALNAME_LENGTH - length name) NUL) source
     else if cmd = CHR ''S'' \<or> cmd = CHR ''A'' then
       if s < 0 then Inl Out_of_bounds
       else bindR (cstring (name @ [NUL])) (\<lambda>buffer. harbor_connect h cmd buffer)
     else bindR (cstring msg) (\<lambda>t. Inr (h, [Log (''Unknown command '' @ t)])))"

definition harbor_id :: "harbor \<Rightarrow> int \<Rightarrow> nat" where
  "harbor_id h fd = (case find_slave h fd of None \<Rightarrow> 0 | Some i \<Rightarrow> i)"

datatype harbor_message =
    Hm_socket socket_event
  | Hm_command u32 "char list"
  | Hm_remote u32 u32 u32 "char list" u32 "byte list"

definition harbor_socket :: "sent \<Rightarrow> harbor \<Rightarrow> socket_event \<Rightarrow> houtcome" where
  "harbor_socket sent h e =
     (if ev_type e = SKYNET_SOCKET_TYPE_DATA then bindR (push_socket_data sent h e) (\<lambda>(h, out). Inr (h, out @ [Free_data]))
      else if ev_type e = SKYNET_SOCKET_TYPE_ERROR \<or> ev_type e = SKYNET_SOCKET_TYPE_CLOSE then
        let i = harbor_id h (ev_id e) in
        Inr (h, if i \<noteq> 0 then [report_harbor_down h i] else [Log (''Unkown fd ('' @ print_int (ev_id e) @ '') closed'')])
      else if ev_type e = SKYNET_SOCKET_TYPE_CONNECT then Inr (h, [])
      else if ev_type e = SKYNET_SOCKET_TYPE_WARNING then
        let i = harbor_id h (ev_id e) in
        Inr (h, if i \<noteq> 0 then [Log (''message havn't send to Harbor ('' @ print_dec i @ '') reach '' @ print_int (ev_ud e) @ '' K'')] else [])
      else Inr (h, [Log (''recv invalid socket message type '' @ print_dec PTYPE_SOCKET)]))"

definition mainloop :: "sent \<Rightarrow> harbor \<Rightarrow> harbor_message \<Rightarrow> houtcome" where
  "mainloop sent h m =
     (case m of
        Hm_socket e \<Rightarrow> harbor_socket sent h e
      | Hm_command source msg \<Rightarrow> harbor_command h msg source
      | Hm_remote source type' session name handle msg \<Rightarrow>
          bindR (if handle = 0 then remote_send_name h source name type' session msg
                 else remote_send_handle h source handle type' session msg) (\<lambda>(h, out, _). Inr (h, out)))"

definition harbor_init :: "harbor \<Rightarrow> string \<Rightarrow> int \<times> harbor \<times> haction list" where
  "harbor_init h args =
     (let (i, slave) = (case scan_int args of None \<Rightarrow> (0, 0) | Some (i, rest) \<Rightarrow> (i, ucast (strtoul 10 rest) :: u32)) in
      if slave = 0 then (1, h, []) else (0, h\<lparr>hb_id := i, hb_slave := slave\<rparr>, [Harbor_start]))"

end
