(* ===== verification/Harbor_Laws.thy ===== *)
theory Harbor_Laws
  imports Harbor
begin

text \<open>
  What arrives over a connection between two harbors: \<open>link_state\<close> reads the bytes of the last, incomplete message off the state
  of a connection, \<open>hframes\<close> is the reference for cutting the stream into messages.
\<close>

section \<open>Headers\<close>

lemma ucast_and_ff: "(ucast (m AND 0xff) :: byte) = ucast (m :: u32)"
proof -
  have ff: "(0xff :: u32) = mask 8" by (simp add: mask_eq_exp_minus_1)
  show ?thesis unfolding ff by (rule bit_word_eqI) (simp add: bit_simps)
qed

lemma to_bigendian_length [simp]: "length (to_bigendian n) = 4"
  by (simp add: to_bigendian_def)

lemma from_to_bigendian [simp]: "from_bigendian (to_bigendian n) = n"
proof -
  have "push_bit 24 (ucast (ucast (drop_bit 24 n) :: byte)) OR push_bit 16 (ucast (ucast (drop_bit 16 n) :: byte)) OR
      push_bit 8 (ucast (ucast (drop_bit 8 n) :: byte)) OR ucast (ucast n :: byte) = n"
    by (rule bit_word_eqI) (auto simp: bit_simps less_diff_conv2, (metis le_add_diff_inverse not_le)+)
  then show ?thesis by (simp add: from_bigendian_def to_bigendian_def ucast_and_ff)
qed

lemma header_length [simp]: "length (header_to_message h) = 12"
  by (simp add: header_to_message_def)

lemma message_header_inverse [simp]: "message_to_header (header_to_message h) = h"
  by (simp add: message_to_header_def header_to_message_def)

definition size24 :: "byte list \<Rightarrow> nat" where
  "size24 bs = unat (bs ! 1) * 2 ^ 16 + unat (bs ! 2) * 2 ^ 8 + unat (bs ! 3)"

text \<open>The size of a message that is not too long, as it stands in front of it.\<close>

lemma size24_bigendian:
  assumes "n < 2 ^ 24"
  shows "to_bigendian (of_nat n) ! 0 = 0" and "size24 (to_bigendian (of_nat n) @ bs) = n"
proof -
  have byte: "unat (ucast (drop_bit k (of_nat n :: u32)) :: byte) = n div 2 ^ k mod 256" for k
    using assms by (simp add: unsigned_ucast_eq unsigned_drop_bit_eq unsigned_of_nat take_bit_eq_mod) (simp add: drop_bit_eq_div)
  have "n div 2 ^ 24 = 0" using assms by simp
  then have "unat (ucast (drop_bit 24 (of_nat n :: u32)) :: byte) = 0" using byte [of 24] by simp
  then show "to_bigendian (of_nat n) ! 0 = 0" by (simp add: to_bigendian_def ucast_and_ff unsigned_eq_0_iff)
  have b0: "unat (ucast (of_nat n :: u32) :: byte) = n mod 256" using byte [of 0] by simp
  have d: "n div 65536 = n div 256 div 256" by (simp add: div_mult2_eq [symmetric])
  have m: "n div 65536 mod 256 = n div 65536" using assms by (simp add: less_mult_imp_div_less)
  have sum: "a * 65536 + b * 256 + c = k" if "a * 256 + b = e" "e * 256 + c = k" for a b c e k :: nat using that by simp
  have "n div 65536 * 65536 + n div 256 mod 256 * 256 + n mod 256 = n"
    unfolding d by (rule sum [OF div_mult_mod_eq div_mult_mod_eq])
  then show "size24 (to_bigendian (of_nat n) @ bs) = n"
    using byte [of 16] byte [of 8] b0 m by (simp add: size24_def to_bigendian_def ucast_and_ff)
qed

section \<open>Cutting the stream\<close>

function hframes :: "byte list \<Rightarrow> byte list list \<times> byte list" where
  "hframes bs =
     (if length bs < 4 then ([], bs)
      else if length bs < 4 + size24 bs then ([], bs)
      else let (fs, r) = hframes (drop (4 + size24 bs) bs) in (take (size24 bs) (drop 4 bs) # fs, r))"
  by pat_completeness auto
termination
  by (relation "measure length") auto

declare hframes.simps [simp del]

text \<open>Every message of the stream has a cookie and is not too long.\<close>

function stream_ok :: "byte list \<Rightarrow> bool" where
  "stream_ok bs =
     (if length bs < 4 then True
      else bs ! 0 = 0 \<and> 12 \<le> size24 bs \<and> (length bs < 4 + size24 bs \<or> stream_ok (drop (4 + size24 bs) bs)))"
  by pat_completeness auto
termination
  by (relation "measure length") auto

declare stream_ok.simps [simp del]

definition link_state :: "slave \<Rightarrow> byte list \<Rightarrow> bool" where
  "link_state s p \<longleftrightarrow> length (sl_size s) = 4 \<and>
     (if length p < 4 then sl_status s = STATUS_HEADER \<and> sl_read s = length p \<and> take (length p) (sl_size s) = p
      else sl_status s = STATUS_CONTENT \<and> sl_length s = size24 p \<and> sl_read s = length p - 4 \<and> length p < 4 + size24 p \<and>
        length (sl_recv_buffer s) = size24 p \<and> take (length p - 4) (sl_recv_buffer s) = map Some (drop 4 p))"

definition same_link :: "slave \<Rightarrow> slave \<Rightarrow> bool" where
  "same_link s s' \<longleftrightarrow> sl_fd s' = sl_fd s \<and> sl_queue s' = sl_queue s"

abbreviation set_slave :: "harbor \<Rightarrow> nat \<Rightarrow> slave \<Rightarrow> harbor" where
  "set_slave h i s \<equiv> h\<lparr>hb_s := (hb_s h)[i := s]\<rparr>"

definition deliver :: "sent \<Rightarrow> harbor \<Rightarrow> byte list \<Rightarrow> haction list" where
  "deliver sent h f = (case forward_local_messsage sent h f (length f) of Inl _ \<Rightarrow> [] | Inr out \<Rightarrow> out)"

lemma deliver_ok: "12 \<le> length f \<Longrightarrow> forward_local_messsage sent h f (length f) = Inr (deliver sent h f)"
  by (simp add: deliver_def forward_local_messsage_def HEADER_COOKIE_LENGTH_def Let_def)

lemma deliver_set [simp]: "deliver sent (set_slave h i s) = deliver sent h"
  by (simp add: fun_eq_iff deliver_def forward_local_messsage_def)

lemma put_slave_ok [simp]: "i < length (hb_s h) \<Longrightarrow> put_slave h i s = Inr (set_slave h i s)"
  by (simp add: put_slave_def)

lemma size24_append: "4 \<le> length p \<Longrightarrow> size24 (p @ d) = size24 p"
  by (simp add: size24_def nth_append)

lemma size24_take: "4 \<le> length bs \<Longrightarrow> size24 (take 4 bs) = size24 bs" "4 \<le> length bs \<Longrightarrow> take 4 bs ! 0 = bs ! 0"
  by (simp_all add: size24_def)

lemma header_step_ok:
  assumes i: "i < length (hb_s h)" and s: "hb_s h ! i = s" "link_state s p" "length p < 4" and ok: "stream_ok (p @ d)"
  shows "\<exists>s'. same_link s s' \<and>
    (if length (p @ d) < 4 then header_step h i d = Inr (set_slave h i s', [], None) \<and> link_state s' (p @ d)
     else header_step h i d = Inr (set_slave h i s', [], if drop 4 (p @ d) = [] then None else Some (drop 4 (p @ d))) \<and> link_state s' (take 4 (p @ d)))"
proof -
  have st: "length (sl_size s) = 4" "sl_status s = STATUS_HEADER" "sl_read s = length p" "take (length p) (sl_size s) = p"
    using s(2,3) by (simp_all add: link_state_def)
  show ?thesis
  proof (cases "length (p @ d) < 4")
    case True
    let ?s = "s\<lparr>sl_size := p @ d @ drop (length p + length d) (sl_size s), sl_read := length p + length d\<rparr>"
    have "length d < 4 - length p" using True by simp
    then have "header_step h i d = Inr (set_slave h i ?s, [], None)"
      using i s(1) st True by (simp add: header_step_def memcpyR_def Let_def)
    moreover have "link_state ?s (p @ d)" using True st by (simp add: link_state_def)
    ultimately show ?thesis using True by (intro exI [of _ ?s]) (simp add: same_link_def)
  next
    case False
    let ?sz = "take 4 (p @ d)"
    have len: "length ?sz = 4" using False by simp
    have sz: "?sz = p @ take (4 - length p) d" using s(3) by simp
    have zero: "?sz ! 0 = 0" "12 \<le> size24 ?sz"
      using ok False size24_take [of "p @ d"] by (simp_all add: stream_ok.simps [of "p @ d"] del: take_append)
    let ?s = "s\<lparr>sl_size := ?sz, sl_length := size24 ?sz, sl_read := 0, sl_recv_buffer := replicate (size24 ?sz) None, sl_status := STATUS_CONTENT\<rparr>"
    have copy: "memcpyR (sl_size s) (length p) (take (4 - length p) d) = Inr ?sz"
      using st False s(3) by (simp add: memcpyR_def)
    have "\<not> length d < 4 - length p" using False by simp
    then have "header_step h i d = Inr (set_slave h i ?s, [], if drop 4 (p @ d) = [] then None else Some (drop 4 (p @ d)))"
      using i s(1,3) st(3) False copy zero(1) len by (simp add: header_step_def Let_def size24_def)
    moreover have "link_state (s\<lparr>sl_size := q, sl_length := size24 q, sl_read := 0, sl_recv_buffer := replicate (size24 q) None, sl_status := STATUS_CONTENT\<rparr>) q"
      if "length q = 4" "12 \<le> size24 q" for q using that by (simp add: link_state_def)
    then have "link_state ?s ?sz" using len zero(2) by blast
    ultimately show ?thesis using False by (intro exI [of _ ?s]) (simp add: same_link_def)
  qed
qed

lemma content_step_ok:
  assumes i: "i < length (hb_s h)" and s: "hb_s h ! i = s" "link_state s p" "4 \<le> length p" and n: "12 \<le> size24 p"
  shows "\<exists>s'. same_link s s' \<and>
    (if length (p @ d) < 4 + size24 p then content_step sent h i d = Inr (set_slave h i s', [], None) \<and> link_state s' (p @ d)
     else
       let rest = drop (4 + size24 p) (p @ d) in
       content_step sent h i d = Inr (set_slave h i s', deliver sent h (take (size24 p) (drop 4 (p @ d))), if rest = [] then None else Some rest) \<and>
       link_state s' [])"
proof -
  have st: "length (sl_size s) = 4" "sl_length s = size24 p" "sl_read s = length p - 4" "length p < 4 + size24 p"
      "length (sl_recv_buffer s) = size24 p" "take (length p - 4) (sl_recv_buffer s) = map Some (drop 4 p)" "sl_status s = STATUS_CONTENT"
    using s(2,3) by (simp_all add: link_state_def)
  show ?thesis
  proof (cases "length (p @ d) < 4 + size24 p")
    case True
    let ?s = "s\<lparr>sl_recv_buffer := map Some (drop 4 p) @ map Some d @ drop (length p - 4 + length d) (sl_recv_buffer s), sl_read := length p - 4 + length d\<rparr>"
    have "length d < size24 p - (length p - 4)" using True s(3) by simp
    then have "content_step sent h i d = Inr (set_slave h i ?s, [], None)"
      using i s(1) st True by (simp add: content_step_def memcpyR_def Let_def)
    moreover have "link_state ?s (p @ d)" using True st s(3) by (simp add: link_state_def size24_append)
    ultimately show ?thesis using True by (intro exI [of _ ?s]) (simp add: same_link_def)
  next
    case False
    define need where "need = size24 p - (length p - 4)"
    have nd: "need \<le> length d" "length p - 4 + need = size24 p" using False st(4) s(3) by (auto simp: need_def)
    have body: "take (size24 p) (drop 4 (p @ d)) = drop 4 p @ take need d" using s(3) nd(2) by (simp add: need_def)
    have rest: "drop (4 + size24 p) (p @ d) = drop need d" using s(3) st(4) by (simp add: need_def add.commute)
    have copy: "memcpyR (sl_recv_buffer s) (length p - 4) (map Some (take need d)) = Inr (map Some (drop 4 p @ take need d))"
      using st nd by (simp add: memcpyR_def)
    have len: "length (drop 4 p @ take need d) = size24 p" using nd s(3) by simp
    have read: "read_bytes (map Some (drop 4 p @ take need d)) (size24 p) = Inr (drop 4 p @ take need d)"
      using pushlstring_prefix [of "size24 p" "drop 4 p @ take need d" "[]"] len by simp
    let ?s = "s\<lparr>sl_length := 0, sl_read := 0, sl_recv_buffer := [], sl_status := STATUS_HEADER\<rparr>"
    have "\<not> length d < need" using nd(1) by simp
    then have "content_step sent h i d = Inr (set_slave h i ?s, deliver sent h (drop 4 p @ take need d), if drop need d = [] then None else Some (drop need d))"
      using i s(1) st(2,3) copy read deliver_ok [of "drop 4 p @ take need d" sent h] len n
      by (simp add: content_step_def Let_def need_def [symmetric])
    moreover have "link_state ?s []" using st(1) by (simp add: link_state_def)
    ultimately show ?thesis using False body rest by (intro exI [of _ ?s]) (simp add: same_link_def Let_def)
  qed
qed

text \<open>One pass of the loop takes the message that is complete, if there is one.\<close>

lemma socket_pass_ok:
  assumes i: "i < length (hb_s h)" and s: "hb_s h ! i = s" "link_state s p" and ok: "stream_ok (p @ d)"
  shows "\<exists>s'. same_link s s' \<and>
    (if length (p @ d) < 4 \<or> length (p @ d) < 4 + size24 (p @ d)
     then socket_pass sent h i fd d = Inr (set_slave h i s', [], None) \<and> link_state s' (p @ d)
     else
       let rest = drop (4 + size24 (p @ d)) (p @ d) in
       socket_pass sent h i fd d = Inr (set_slave h i s', deliver sent h (take (size24 (p @ d)) (drop 4 (p @ d))), if rest = [] then None else Some rest) \<and>
       link_state s' [])"
proof (cases "length p < 4")
  case False
  then have st: "sl_status s = STATUS_CONTENT" using s(2) by (simp add: link_state_def)
  have "12 \<le> size24 p" using ok False size24_append [of p d] by (auto simp: stream_ok.simps [of "p @ d"])
  note content = content_step_ok [OF i s _ this, where sent = sent and d = d]
  have pass: "socket_pass sent h i fd d = content_step sent h i d" using st i s(1) by (simp add: socket_pass_def statuses)
  have size': "size24 (p @ d) = size24 p" "4 \<le> length p" using False size24_append [of p d] by simp_all
  show ?thesis using content size' unfolding pass size'(1) by (simp del: drop_append take_append)
next
  case True
  then have st: "sl_status s = STATUS_HEADER" using s(2) by (simp add: link_state_def)
  obtain s1 where s1: "same_link s s1"
    "if length (p @ d) < 4 then header_step h i d = Inr (set_slave h i s1, [], None) \<and> link_state s1 (p @ d)
     else header_step h i d = Inr (set_slave h i s1, [], if drop 4 (p @ d) = [] then None else Some (drop 4 (p @ d))) \<and> link_state s1 (take 4 (p @ d))"
    using header_step_ok [OF i s True ok] by blast
  show ?thesis
  proof (cases "length (p @ d) < 4 \<or> drop 4 (p @ d) = []")
    case short: True
    then have "length (p @ d) < 4 \<or> take 4 (p @ d) = p @ d \<and> length (p @ d) = 4" by auto
    moreover have "12 \<le> size24 (p @ d)" if "\<not> length (p @ d) < 4" using ok that by (simp add: stream_ok.simps [of "p @ d"])
    ultimately show ?thesis using short s1 st i s(1) by (intro exI [of _ s1]) (auto simp: socket_pass_def statuses Let_def simp del: take_append drop_append)
  next
    case False
    let ?q = "take 4 (p @ d)" and ?d = "drop 4 (p @ d)" and ?h = "set_slave h i s1"
    have len: "4 \<le> length (p @ d)" using False by simp
    have n: "12 \<le> size24 ?q" using ok False size24_take(1) [OF len] by (simp add: stream_ok.simps [of "p @ d"])
    have q: "4 \<le> length ?q" "link_state s1 ?q" "hb_s ?h ! i = s1" "i < length (hb_s ?h)"
      using len s1 False i by (simp_all del: take_append)
    have step: "header_step h i d = Inr (?h, [], Some ?d)" using s1(2) False by simp
    obtain s2 where "same_link s1 s2"
      "if length (?q @ ?d) < 4 + size24 ?q then content_step sent ?h i ?d = Inr (set_slave ?h i s2, [], None) \<and> link_state s2 (?q @ ?d)
       else
         let rest = drop (4 + size24 ?q) (?q @ ?d) in
         content_step sent ?h i ?d = Inr (set_slave ?h i s2, deliver sent ?h (take (size24 ?q) (drop 4 (?q @ ?d))), if rest = [] then None else Some rest) \<and>
         link_state s2 []"
      using content_step_ok [OF q(4,3,2,1) n, where sent = sent and d = ?d] by blast
    moreover have "socket_pass sent h i fd d = bindR (content_step sent ?h i ?d) (\<lambda>(h, out', more). Inr (h, [] @ out', more))"
      using st i s(1) step by (simp add: socket_pass_def statuses Let_def)
    ultimately show ?thesis using s1(1) False unfolding size24_take(1) [OF len] append_take_drop_id
      by (intro exI [of _ s2]) (auto simp: same_link_def Let_def simp del: drop_append take_append)
  qed
qed

lemma hframes_short: "length bs < 4 \<or> length bs < 4 + size24 bs \<Longrightarrow> hframes bs = ([], bs)"
  by (auto simp: hframes.simps [of bs])

lemma hframes_long:
  "4 + size24 bs \<le> length bs \<Longrightarrow> hframes bs = (take (size24 bs) (drop 4 bs) # fst (hframes (drop (4 + size24 bs) bs)), snd (hframes (drop (4 + size24 bs) bs)))"
  by (simp add: hframes.simps [of bs] case_prod_beta)

lemma link_state_incomplete: "link_state s p \<Longrightarrow> length p < 4 \<or> length p < 4 + size24 p"
  by (auto simp: link_state_def)

text \<open>The whole loop: every message that is complete, in order.\<close>

lemma socket_loop_ok:
  assumes "i < length (hb_s h)" and "hb_s h ! i = s" "link_state s p" and "stream_ok (p @ d)" and "length d < fuel"
  shows "\<exists>s'. socket_loop fuel sent h i fd d = Inr (set_slave h i s', concat (map (deliver sent h) (fst (hframes (p @ d))))) \<and>
    same_link s s' \<and> link_state s' (snd (hframes (p @ d)))"
  using assms
proof (induction fuel arbitrary: h s p d)
  case (Suc fuel)
  let ?n = "4 + size24 (p @ d)"
  obtain s1 where s1: "same_link s s1" and pass:
    "if length (p @ d) < 4 \<or> length (p @ d) < ?n then socket_pass sent h i fd d = Inr (set_slave h i s1, [], None) \<and> link_state s1 (p @ d)
     else
       let rest = drop ?n (p @ d) in
       socket_pass sent h i fd d = Inr (set_slave h i s1, deliver sent h (take (size24 (p @ d)) (drop 4 (p @ d))), if rest = [] then None else Some rest) \<and>
       link_state s1 []"
    using socket_pass_ok [OF Suc.prems(1-4), where sent = sent and fd = fd] by blast
  show ?case
  proof (cases "length (p @ d) < 4 \<or> length (p @ d) < ?n")
    case True
    then show ?thesis using s1 pass hframes_short [OF True] by (intro exI [of _ s1]) (simp add: socket_loop.simps)
  next
    case False
    let ?rest = "drop ?n (p @ d)" and ?h = "set_slave h i s1"
    have len: "?n \<le> length (p @ d)" using False by simp
    have done': "hframes [] = ([], [])" by (simp add: hframes.simps)
    have step: "socket_pass sent h i fd d = Inr (?h, deliver sent h (take (size24 (p @ d)) (drop 4 (p @ d))), if ?rest = [] then None else Some ?rest)"
      and l1: "link_state s1 []" using pass False by (simp_all add: Let_def del: take_append drop_append)
    show ?thesis
    proof (cases "?rest = []")
      case True
      then show ?thesis using step l1 s1 done' unfolding hframes_long [OF len] True by (intro exI [of _ s1]) (simp add: socket_loop.simps)
    next
      case more: False
      have "length p < ?n" using link_state_incomplete [OF Suc.prems(3)] size24_append [of p d] by (cases "length p < 4") auto
      then have "length ?rest < fuel" using Suc.prems(5) len by simp
      moreover have "stream_ok ([] @ ?rest)" using Suc.prems(4) False by (auto simp: stream_ok.simps [of "p @ d"] simp del: drop_append)
      ultimately obtain s2 where "socket_loop fuel sent ?h i fd ?rest = Inr (set_slave ?h i s2, concat (map (deliver sent ?h) (fst (hframes ([] @ ?rest)))))"
        "same_link s1 s2" "link_state s2 (snd (hframes ([] @ ?rest)))"
        using Suc.IH [of ?h s1 "[]" ?rest] Suc.prems(1) l1 by (auto simp del: drop_append)
      then show ?thesis using step more s1 unfolding hframes_long [OF len]
        by (intro exI [of _ s2]) (simp add: socket_loop.simps [of "Suc fuel"] same_link_def del: drop_append take_append)
    qed
  qed
qed simp

section \<open>Streams in pieces\<close>

lemma hframes_append:
  "hframes (a @ b) = (fst (hframes a) @ fst (hframes (snd (hframes a) @ b)), snd (hframes (snd (hframes a) @ b)))"
proof (induction a rule: hframes.induct)
  case (1 a)
  show ?case
  proof (cases "4 + size24 a \<le> length a")
    case False
    then show ?thesis using hframes_short [of a] by (simp add: not_le)
  next
    case True
    then have "size24 (a @ b) = size24 a" by (simp add: size24_append)
    then show ?thesis using True "1.IH" hframes_long [OF True] hframes_long [of "a @ b"] by simp
  qed
qed

lemma stream_ok_append:
  assumes "stream_ok (a @ b)"
  shows "stream_ok a" and "stream_ok (snd (hframes a) @ b)"
proof -
  have "stream_ok a \<and> stream_ok (snd (hframes a) @ b)" using assms
  proof (induction a rule: hframes.induct)
    case (1 a)
    show ?case
    proof (cases "4 + size24 a \<le> length a")
      case False
      then have "hframes a = ([], a)" using hframes_short [of a] by (simp add: not_le)
      moreover have "stream_ok a"
        using "1.prems" False size24_append [of a b] by (auto simp: stream_ok.simps [of a] stream_ok.simps [of "a @ b"] nth_append split: if_splits)
      ultimately show ?thesis using "1.prems" by simp
    next
      case True
      then have "size24 (a @ b) = size24 a" by (simp add: size24_append)
      moreover from this have "a ! 0 = 0" "12 \<le> size24 a" "stream_ok (drop (4 + size24 a) a @ b)"
        using "1.prems" True by (auto simp: stream_ok.simps [of "a @ b"] nth_append split: if_splits)
      ultimately show ?thesis using True "1.IH" hframes_long [OF True] by (simp add: stream_ok.simps [of a])
    qed
  qed
  then show "stream_ok a" "stream_ok (snd (hframes a) @ b)" by simp_all
qed

definition hframe :: "byte list \<Rightarrow> byte list" where
  "hframe b = to_bigendian (of_nat (length b)) @ b"

lemma hframes_frame:
  assumes "length b < 2 ^ 24"
  shows "hframes (hframe b @ r) = (b # fst (hframes r), snd (hframes r))"
  using hframes_long [of "hframe b @ r"] size24_bigendian(2) [OF assms, of "b @ r"] by (simp add: hframe_def)

lemma stream_ok_frame:
  assumes "length b < 2 ^ 24" and "12 \<le> length b" and "stream_ok r"
  shows "stream_ok (hframe b @ r)"
  using assms size24_bigendian(2) [OF assms(1), of "b @ r"] size24_bigendian(1) [OF assms(1)]
  by (simp add: hframe_def stream_ok.simps [of "_ @ _"] nth_append)

lemma frames_stream:
  assumes "\<forall>b\<in>set bs. length b < 2 ^ 24 \<and> 12 \<le> length b"
  shows "hframes (concat (map hframe bs)) = (bs, [])" and "stream_ok (concat (map hframe bs))"
proof -
  show "hframes (concat (map hframe bs)) = (bs, [])" using assms
    by (induction bs) (simp_all add: hframes_frame, simp add: hframes.simps)
  show "stream_ok (concat (map hframe bs))" using assms
    by (induction bs) (simp_all add: stream_ok_frame, simp add: stream_ok.simps)
qed

end
