(* ===== verification/Harbor_Net.thy ===== *)
theory Harbor_Net
  imports Harbor_Laws
begin

text \<open>
  The harbor service as it runs: a sequence of messages goes through \<^verbatim>\<open>mainloop\<close>. What one node sends, over a connection or
  into a queue, arrives at the other node.
\<close>

section \<open>Sequences of messages\<close>

fun harbor_run :: "sent \<Rightarrow> harbor \<Rightarrow> harbor_message list \<Rightarrow> houtcome" where
  "harbor_run sent h [] = Inr (h, [])"
| "harbor_run sent h (m # ms) =
     bindR (mainloop sent h m) (\<lambda>(h, out). bindR (harbor_run sent h ms) (\<lambda>(h, out'). Inr (h, out @ out')))"

lemma harbor_run_append:
  "harbor_run sent h (ms @ ms') = bindR (harbor_run sent h ms) (\<lambda>(h, out). bindR (harbor_run sent h ms') (\<lambda>(h, out'). Inr (h, out @ out')))"
proof (induction ms arbitrary: h)
  case (Cons m ms)
  then show ?case by (cases "mainloop sent h m") (auto simp: bindR_def split: sum.splits)
qed (simp add: bindR_def split: sum.splits)

definition data_message :: "int \<Rightarrow> byte list \<Rightarrow> harbor_message" where
  "data_message fd d = Hm_socket \<lparr>ev_type = SKYNET_SOCKET_TYPE_DATA, ev_id = fd, ev_ud = int (length d), ev_buffer = d, ev_text = []\<rparr>"

record remote =
  rm_source :: u32
  rm_destination :: u32
  rm_type :: u32
  rm_session :: u32
  rm_data :: "byte list"

definition remote_message :: "remote \<Rightarrow> harbor_message" where
  "remote_message r = Hm_remote (rm_source r) (rm_type r) (rm_session r) [] (rm_destination r) (rm_data r)"

definition calls :: "haction list \<Rightarrow> haction list" where
  "calls out = filter (\<lambda>a. a \<noteq> Free_data) out"

lemma calls_simps [simp]: "calls [] = []" "calls (a @ b) = calls a @ calls b" "calls (Free_data # a) = calls a"
  by (simp_all add: calls_def)

lemma calls_deliver [simp]: "calls (deliver sent h f) = deliver sent h f"
  by (auto simp: calls_def deliver_def forward_local_messsage_def Let_def)

lemma calls_delivers [simp]: "calls (concat (map (deliver sent h) fs)) = concat (map (deliver sent h) fs)"
  by (induction fs) simp_all

section \<open>Receiving\<close>

lemma find_slave_Some:
  assumes "find_slave h fd = Some i"
  shows "1 \<le> i" and "i < REMOTE_MAX" and "sl_fd (hb_s h ! i) = fd"
  using assms by (auto simp: find_slave_def find_Some_iff)

lemma find_slave_set:
  assumes "sl_fd s = sl_fd (hb_s h ! i)"
  shows "find_slave (set_slave h i s) fd = find_slave h fd"
proof -
  have "sl_fd ((hb_s h)[i := s] ! j) = sl_fd (hb_s h ! j)" for j
    using assms by (cases "i < length (hb_s h)") (auto simp: nth_list_update list_update_beyond)
  then show ?thesis by (simp add: find_slave_def)
qed

lemma data_message_ok:
  assumes find: "find_slave h fd = Some i" and len: "length (hb_s h) = REMOTE_MAX" and l: "link_state (hb_s h ! i) p" and ok: "stream_ok (p @ d)"
  shows "\<exists>s'. mainloop sent h (data_message fd d) = Inr (set_slave h i s', concat (map (deliver sent h) (fst (hframes (p @ d)))) @ [Free_data]) \<and>
    same_link (hb_s h ! i) s' \<and> link_state s' (snd (hframes (p @ d)))"
proof -
  have "i < length (hb_s h)" using find_slave_Some(2) [OF find] len by simp
  from socket_loop_ok [OF this refl l ok, where fuel = "length d + 1" and sent = sent and fd = fd] show ?thesis
    using find by (auto simp: mainloop_def data_message_def harbor_socket_def push_socket_data_def)
qed

lemma receive_ok:
  assumes "find_slave h fd = Some i" and "length (hb_s h) = REMOTE_MAX" and "link_state (hb_s h ! i) p" and "stream_ok (p @ concat ds)"
  shows "\<exists>s' out. harbor_run sent h (map (data_message fd) ds) = Inr (set_slave h i s', out) \<and>
    calls out = concat (map (deliver sent h) (fst (hframes (p @ concat ds)))) \<and>
    same_link (hb_s h ! i) s' \<and> link_state s' (snd (hframes (p @ concat ds)))"
  using assms
proof (induction ds arbitrary: h p)
  case Nil
  then show ?case using hframes_short [OF link_state_incomplete [OF Nil(3)]]
    by (intro exI [of _ "hb_s h ! i"]) (simp add: same_link_def)
next
  case (Cons d ds)
  have ok: "stream_ok ((p @ d) @ concat ds)" using Cons.prems(4) by simp
  obtain s1 where s1: "mainloop sent h (data_message fd d) = Inr (set_slave h i s1, concat (map (deliver sent h) (fst (hframes (p @ d)))) @ [Free_data])"
    "same_link (hb_s h ! i) s1" "link_state s1 (snd (hframes (p @ d)))"
    using data_message_ok [OF Cons.prems(1-3) stream_ok_append(1) [OF ok]] by blast
  let ?h = "set_slave h i s1"
  have i: "i < length (hb_s h)" using find_slave_Some(2) [OF Cons.prems(1)] Cons.prems(2) by simp
  have h: "find_slave ?h fd = Some i" "length (hb_s ?h) = REMOTE_MAX" "hb_s ?h ! i = s1"
    using Cons.prems(1,2) i s1(2) find_slave_set [of s1 h i] by (simp_all add: same_link_def)
  have "link_state (hb_s ?h ! i) (snd (hframes (p @ d)))" using s1(3) h(3) by simp
  from Cons.IH [OF h(1,2) this stream_ok_append(2) [OF ok]] obtain s2 out where
    "harbor_run sent ?h (map (data_message fd) ds) = Inr (set_slave ?h i s2, out)"
    "calls out = concat (map (deliver sent ?h) (fst (hframes (snd (hframes (p @ d)) @ concat ds))))"
    "same_link s1 s2" "link_state s2 (snd (hframes (snd (hframes (p @ d)) @ concat ds)))"
    unfolding h(3) by blast
  moreover have "hframes (p @ d @ concat ds) =
      (fst (hframes (p @ d)) @ fst (hframes (snd (hframes (p @ d)) @ concat ds)), snd (hframes (snd (hframes (p @ d)) @ concat ds)))"
    using hframes_append [of "p @ d" "concat ds"] by simp
  ultimately show ?case using s1(1,2) by (intro exI [of _ s2]) (auto simp: same_link_def)
qed

section \<open>Sending\<close>

definition remote_header :: "remote \<Rightarrow> remote_message_header" where
  "remote_header r =
     \<lparr>rh_source = rm_source r, rh_destination = push_bit HANDLE_REMOTE_SHIFT (rm_type r) OR (rm_destination r AND HANDLE_MASK), rh_session = rm_session r\<rparr>"

definition remote_bytes :: "remote \<Rightarrow> byte list" where
  "remote_bytes r = hframe (rm_data r @ header_to_message (remote_header r))"

lemma send_remote_ok:
  "length buffer + 12 < 2 ^ 32 \<Longrightarrow> send_remote fd buffer cookie = Net_send fd (hframe (buffer @ header_to_message cookie))"
  by (simp add: send_remote_def HEADER_COOKIE_LENGTH_def Let_def hframe_def)

definition to_node :: "nat \<Rightarrow> remote \<Rightarrow> bool" where
  "to_node i r \<longleftrightarrow> unat (drop_bit HANDLE_REMOTE_SHIFT (rm_destination r)) = i \<and> rm_destination r \<noteq> 0 \<and> rm_type r < 256 \<and> length (rm_data r) + 12 < 2 ^ 24"

definition connected :: "harbor \<Rightarrow> nat \<Rightarrow> int \<Rightarrow> bool" where
  "connected h i fd \<longleftrightarrow> i < length (hb_s h) \<and> hb_id h \<noteq> int i \<and> fd \<noteq> 0 \<and> sl_fd (hb_s h ! i) = fd \<and> sl_status (hb_s h ! i) \<noteq> STATUS_HANDSHAKE"

lemma remote_connected:
  assumes "connected h i fd" and "to_node i r"
  shows "mainloop sent h (remote_message r) = Inr (h, [Net_send fd (remote_bytes r)])"
  using assms send_remote_ok [of "rm_data r" fd]
  by (auto simp: connected_def to_node_def mainloop_def remote_message_def remote_send_handle_def remote_bytes_def remote_header_def Let_def)

lemma remotes_connected:
  assumes "connected h i fd" and "\<forall>r\<in>set rs. to_node i r"
  shows "harbor_run sent h (map remote_message rs) = Inr (h, map (\<lambda>r. Net_send fd (remote_bytes r)) rs)"
  using assms(2) by (induction rs) (simp_all add: remote_connected [OF assms(1)])

text \<open>What the service at the other end hands to the node.\<close>

definition delivery :: "sent \<Rightarrow> remote \<Rightarrow> haction list" where
  "delivery sent r =
     Send_local (rm_source r) (rm_destination r) (rm_type r OR PTYPE_TAG_DONTCOPY) (rm_session r) (rm_data r) #
     (if sent (rm_source r) (rm_destination r) (rm_type r OR PTYPE_TAG_DONTCOPY) (rm_session r) (rm_data r) < 0 then
        (if rm_type r \<noteq> PTYPE_ERROR then [Send_local (rm_destination r) (rm_source r) PTYPE_ERROR (rm_session r) []] else []) @
        [Log (''Unknown destination :'' @ print_hex (rm_destination r) @ '' from :'' @ print_hex (rm_source r) @ '' type('' @ print_dec (unat (rm_type r)) @ '')'')]
      else [])"

lemma header_destination:
  fixes d t :: u32
  assumes "t < 256"
  shows "(push_bit 24 t OR (d AND HANDLE_MASK)) AND HANDLE_MASK = d AND HANDLE_MASK"
    and "drop_bit 24 (push_bit 24 t OR (d AND HANDLE_MASK)) = t"
    and "(d AND HANDLE_MASK) OR push_bit 24 (drop_bit 24 d) = d"
proof -
  have t: "take_bit 8 t = t" using assms by (simp add: take_bit_eq_mod word_less_nat_alt word_arith_nat_mod unat_mod_distrib)
  have high: "n < 8" if "bit t n" for n using that t by (metis bit_take_bit_iff)
  show "(push_bit 24 t OR (d AND HANDLE_MASK)) AND HANDLE_MASK = d AND HANDLE_MASK"
    by (rule bit_word_eqI) (auto simp: bit_simps HANDLE_MASK_bit)
  show "drop_bit 24 (push_bit 24 t OR (d AND HANDLE_MASK)) = t"
    by (rule bit_word_eqI) (use high in \<open>auto simp: bit_simps HANDLE_MASK_bit\<close>)
  show "(d AND HANDLE_MASK) OR push_bit 24 (drop_bit 24 d) = d"
    by (rule bit_word_eqI) (auto simp: bit_simps HANDLE_MASK_bit, metis le_add_diff_inverse not_less)
qed

lemma deliver_remote:
  assumes "to_node i r" and "hb_id h = int i"
  shows "deliver sent h (rm_data r @ header_to_message (remote_header r)) = delivery sent r"
proof -
  have t: "rm_type r < 256" and d: "word_of_int (hb_id h) = drop_bit 24 (rm_destination r)"
    using assms by (auto simp: to_node_def HANDLE_REMOTE_SHIFT_def)
  show ?thesis using header_destination [OF t, of "rm_destination r"] d
    by (simp add: deliver_def forward_local_messsage_def HEADER_COOKIE_LENGTH_def Let_def delivery_def remote_header_def HANDLE_REMOTE_SHIFT_def)
qed

lemma remotes_arrive:
  assumes rs: "\<forall>r\<in>set rs. to_node i r" and id': "hb_id b = int i" and find: "find_slave b fd = Some j" and len: "length (hb_s b) = REMOTE_MAX"
    and l: "link_state (hb_s b ! j) []" and ds: "concat ds = concat (map remote_bytes rs)"
  shows "\<exists>b' out. harbor_run sent b (map (data_message fd) ds) = Inr (b', out) \<and> calls out = concat (map (delivery sent) rs) \<and> link_state (hb_s b' ! j) []"
proof -
  let ?body = "\<lambda>r. rm_data r @ header_to_message (remote_header r)"
  have small: "\<forall>b\<in>set (map ?body rs). length b < 2 ^ 24 \<and> 12 \<le> length b" using rs by (simp add: to_node_def)
  have bytes: "concat ds = concat (map hframe (map ?body rs))" using ds by (simp add: remote_bytes_def [abs_def] comp_def)
  have "stream_ok ([] @ concat ds)" using frames_stream(2) [OF small] unfolding bytes by simp
  from receive_ok [OF find len l this, of sent] obtain s' out where
    "harbor_run sent b (map (data_message fd) ds) = Inr (set_slave b j s', out)"
    "calls out = concat (map (deliver sent b) (fst (hframes ([] @ concat ds))))" "link_state s' (snd (hframes ([] @ concat ds)))"
    by blast
  moreover have "hframes ([] @ concat ds) = (map ?body rs, [])" using frames_stream(1) [OF small] unfolding bytes by simp
  moreover have del: "map (deliver sent b) (map ?body rs) = map (delivery sent) rs" using rs deliver_remote [OF _ id'] by simp
  moreover have "j < length (hb_s b)" using find_slave_Some(2) [OF find] len by simp
  ultimately show ?thesis unfolding del [symmetric] by simp
qed


text \<open>A node \<open>self\<close> that has the connection \<open>fd\<close> to the node \<open>i\<close>, and a message from node 1 to node 2.\<close>

definition ex_node :: "int \<Rightarrow> nat \<Rightarrow> int \<Rightarrow> nat \<Rightarrow> harbor" where
  "ex_node self i fd st = harbor_create\<lparr>hb_id := self, hb_slave := 0x01000001, hb_s := (replicate REMOTE_MAX no_slave)[i := no_slave\<lparr>sl_fd := fd, sl_status := st\<rparr>]\<rparr>"

definition ex_remote :: remote where
  "ex_remote = \<lparr>rm_source = 0x01000005, rm_destination = 0x02000003, rm_type = 0, rm_session = 1, rm_data = [1, 2]\<rparr>"

lemma ex_remote_to_node: "to_node 2 ex_remote" "rm_destination ex_remote = 0x02000003"
proof -
  have "unat (drop_bit 24 (0x02000003 :: u32)) = 2" by code_simp
  then show "to_node 2 ex_remote" by (simp add: to_node_def ex_remote_def HANDLE_REMOTE_SHIFT_def)
  show "rm_destination ex_remote = 0x02000003" by (simp add: ex_remote_def)
qed

lemma ex_node_slaves:
  "length (hb_s (ex_node self i fd st)) = REMOTE_MAX" "hb_id (ex_node self i fd st) = self" "hb_slave (ex_node self i fd st) = 0x01000001"
  "i < REMOTE_MAX \<Longrightarrow> hb_s (ex_node self i fd st) ! i = no_slave\<lparr>sl_fd := fd, sl_status := st\<rparr>"
  by (simp_all add: ex_node_def)

lemma ex_node_connected: "i < REMOTE_MAX \<Longrightarrow> self \<noteq> int i \<Longrightarrow> fd \<noteq> 0 \<Longrightarrow> connected (ex_node self i fd STATUS_HEADER) i fd"
  by (simp add: connected_def ex_node_slaves statuses)

lemma ex_node_find: "0 < i \<Longrightarrow> i < REMOTE_MAX \<Longrightarrow> fd \<noteq> 0 \<Longrightarrow> find_slave (ex_node self i fd st) fd = Some i"
  unfolding find_slave_def find_Some_iff
  by (intro exI [of _ "i - 1"]) (auto simp: ex_node_def nth_list_update no_slave_def)


section \<open>Waiting for a connection\<close>

definition waits :: "harbor_msg_queue option \<Rightarrow> harbor_msg list \<Rightarrow> bool" where
  "waits qo ms = (case qo of None \<Rightarrow> ms = [] | Some q \<Rightarrow> hq_inv q \<and> hq_items q = ms)"

definition remote_msg :: "remote \<Rightarrow> harbor_msg" where
  "remote_msg r = \<lparr>hm_header = remote_header r, hm_buffer = rm_data r\<rparr>"

text \<open>The node \<open>i\<close> is not connected, or the other end has not answered yet; \<open>ms\<close> waits for it.\<close>

definition waiting_node :: "harbor \<Rightarrow> nat \<Rightarrow> int \<Rightarrow> nat \<Rightarrow> harbor_msg list \<Rightarrow> bool" where
  "waiting_node h i fd st ms \<longleftrightarrow> i < length (hb_s h) \<and> hb_id h \<noteq> int i \<and> sl_fd (hb_s h ! i) = fd \<and> sl_status (hb_s h ! i) = st \<and>
     (fd = 0 \<and> st \<noteq> STATUS_DOWN \<or> st = STATUS_HANDSHAKE) \<and> waits (sl_queue (hb_s h ! i)) ms"

lemma push_queue_waits:
  assumes "waits qo ms"
  obtains q where "push_queue (case qo of None \<Rightarrow> new_queue | Some q \<Rightarrow> q) msg header = Inr q" "waits (Some q) (ms @ [\<lparr>hm_header = header, hm_buffer = msg\<rparr>])"
proof -
  let ?q = "case qo of None \<Rightarrow> new_queue | Some q \<Rightarrow> q"
  have "hq_inv ?q" "hq_items ?q = ms" using assms by (auto simp: waits_def split: option.splits)
  then show thesis using push_queue_msg_ok [of ?q "\<lparr>hm_header = header, hm_buffer = msg\<rparr>"] that by (auto simp: push_queue_def waits_def)
qed

lemma remote_waiting:
  assumes w: "waiting_node h i fd st ms" and r: "to_node i r"
  shows "\<exists>q. mainloop sent h (remote_message r) = Inr (set_slave h i ((hb_s h ! i)\<lparr>sl_queue := q\<rparr>), []) \<and>
    waiting_node (set_slave h i ((hb_s h ! i)\<lparr>sl_queue := q\<rparr>)) i fd st (ms @ [remote_msg r])"
proof -
  have "waits (sl_queue (hb_s h ! i)) ms" using w by (simp add: waiting_node_def)
  then obtain q where "push_queue (case sl_queue (hb_s h ! i) of None \<Rightarrow> new_queue | Some q \<Rightarrow> q) (rm_data r) (remote_header r) = Inr q"
    "waits (Some q) (ms @ [remote_msg r])" by (rule push_queue_waits) (simp add: remote_msg_def)
  then show ?thesis using w r
    by (intro exI [of _ "Some q"])
      (auto simp: waiting_node_def to_node_def mainloop_def remote_message_def remote_send_handle_def remote_header_def Let_def statuses)
qed

lemma remotes_waiting:
  assumes "waiting_node h i fd st ms" and "\<forall>r\<in>set rs. to_node i r"
  shows "\<exists>q. harbor_run sent h (map remote_message rs) = Inr (set_slave h i ((hb_s h ! i)\<lparr>sl_queue := q\<rparr>), []) \<and>
    waiting_node (set_slave h i ((hb_s h ! i)\<lparr>sl_queue := q\<rparr>)) i fd st (ms @ map remote_msg rs)"
  using assms
proof (induction rs arbitrary: h ms)
  case Nil
  then show ?case by (intro exI [of _ "sl_queue (hb_s h ! i)"]) simp
next
  case (Cons r rs)
  then have r: "to_node i r" and rs: "\<forall>r\<in>set rs. to_node i r" by simp_all
  obtain q where q: "mainloop sent h (remote_message r) = Inr (set_slave h i ((hb_s h ! i)\<lparr>sl_queue := q\<rparr>), [])"
    "waiting_node (set_slave h i ((hb_s h ! i)\<lparr>sl_queue := q\<rparr>)) i fd st (ms @ [remote_msg r])"
    using remote_waiting [OF Cons.prems(1) r] by blast
  have "i < length (hb_s h)" using Cons.prems(1) by (simp add: waiting_node_def)
  then show ?case using Cons.IH [OF q(2) rs] q(1) by auto
qed

text \<open>The messages that wait are sent when the connection is there.\<close>

lemma queued_remote: "to_node i r \<Longrightarrow> queued_message fd (remote_msg r) = Net_send fd (remote_bytes r)"
  by (simp add: queued_message_def remote_msg_def remote_bytes_def to_node_def send_remote_ok)

lemma dispatch_queue_ok:
  assumes "i < length (hb_s h)" and "sl_fd (hb_s h ! i) \<noteq> 0" and "waits (sl_queue (hb_s h ! i)) ms"
  shows "dispatch_queue h i = Inr (set_slave h i ((hb_s h ! i)\<lparr>sl_queue := None\<rparr>), map (queued_message (sl_fd (hb_s h ! i))) ms)"
proof (cases "sl_queue (hb_s h ! i)")
  case None
  then have eq: "(hb_s h ! i)\<lparr>sl_queue := None\<rparr> = hb_s h ! i" by simp
  show ?thesis unfolding eq using assms None by (simp add: dispatch_queue_def waits_def)
next
  case (Some q)
  then obtain q' where "drain_queue q = Inr (ms, q')" "hq_inv q'" using assms(3) drain_queue_ok [of q] by (auto simp: waits_def)
  moreover from this obtain ms' where "release_queue (Some q') = Inr ms'" using release_queue_ok [of "Some q'"] by auto
  ultimately show ?thesis using assms(1,2) Some by (simp add: dispatch_queue_def)
qed

text \<open>The commands \<open>A fd id\<close> and \<open>S fd id\<close>.\<close>

lemma connect_command:
  assumes cmd: "cmd = CHR ''S'' \<or> cmd = CHR ''A''" and args: "NUL \<notin> set args" "scan_connect args = (fd, int i)" "fd \<noteq> 0" "0 < i" "i < REMOTE_MAX"
    and w: "i < length (hb_s h)" "sl_fd (hb_s h ! i) = 0" "waits (sl_queue (hb_s h ! i)) ms"
  shows "mainloop sent h (Hm_command src (cmd # CHR '' '' # args)) =
    (if cmd = CHR ''S'' then Inr (set_slave h i ((hb_s h ! i)\<lparr>sl_fd := fd, sl_status := STATUS_HANDSHAKE\<rparr>), [Net_start fd, Net_send fd [word_of_int (hb_id h)]])
     else Inr (set_slave h i ((hb_s h ! i)\<lparr>sl_fd := fd, sl_status := STATUS_HEADER, sl_queue := None\<rparr>),
       Net_start fd # Net_send fd [word_of_int (hb_id h)] # map (queued_message fd) ms))"
proof -
  have "cstring (args @ [NUL]) = Inr args" using args(1) cstring_ok [of args "[]"] by (simp add: nul_free_def)
  moreover have "dispatch_queue (set_slave h i ((hb_s h ! i)\<lparr>sl_fd := fd, sl_status := STATUS_HEADER\<rparr>)) i =
      Inr (set_slave h i ((hb_s h ! i)\<lparr>sl_fd := fd, sl_status := STATUS_HEADER, sl_queue := None\<rparr>), map (queued_message fd) ms)"
    using dispatch_queue_ok [of i "set_slave h i ((hb_s h ! i)\<lparr>sl_fd := fd, sl_status := STATUS_HEADER\<rparr>)" ms] w args(3) by simp
  ultimately show ?thesis using cmd args w(1,2)
    by (auto simp: mainloop_def harbor_command_def harbor_connect_def handshake_def Let_def)
qed

text \<open>Messages to a node that is not connected yet are kept and not sent; when the connection of the node is accepted
  (the command \<open>A fd id\<close>), the harbor announces itself and then sends all of them, in order.\<close>

theorem waiting_messages_sent_on_accept:
  assumes "waiting_node h i 0 STATUS_WAIT []" and "\<forall>r\<in>set rs. to_node i r" and "i < REMOTE_MAX" and "0 < i"
    and "NUL \<notin> set args" and "scan_connect args = (fd, int i)" and "fd \<noteq> 0"
  shows "\<exists>h1 h2. harbor_run sent h (map remote_message rs) = Inr (h1, []) \<and>
    mainloop sent h1 (Hm_command src (CHR ''A'' # CHR '' '' # args)) =
      Inr (h2, Net_start fd # Net_send fd [word_of_int (hb_id h)] # map (\<lambda>r. Net_send fd (remote_bytes r)) rs) \<and>
    connected h2 i fd \<and> sl_queue (hb_s h2 ! i) = None"
proof -
  obtain q where run: "harbor_run sent h (map remote_message rs) = Inr (set_slave h i ((hb_s h ! i)\<lparr>sl_queue := q\<rparr>), [])"
    and w: "waiting_node (set_slave h i ((hb_s h ! i)\<lparr>sl_queue := q\<rparr>)) i 0 STATUS_WAIT (map remote_msg rs)"
    using remotes_waiting [OF assms(1,2), of sent] by auto
  let ?h = "set_slave h i ((hb_s h ! i)\<lparr>sl_queue := q\<rparr>)"
  have "map (queued_message fd) (map remote_msg rs) = map (\<lambda>r. Net_send fd (remote_bytes r)) rs" using assms(2) queued_remote [of i _ fd] by simp
  moreover have il: "i < length (hb_s h)" "hb_id h \<noteq> int i" "sl_fd (hb_s h ! i) = 0" using assms(1) by (simp_all add: waiting_node_def)
  moreover have "waits q (map remote_msg rs)" using w il by (simp add: waiting_node_def)
  ultimately show ?thesis using run connect_command [of "CHR ''A''" args fd i ?h "map remote_msg rs" sent src] assms(3-7)
    by (simp add: connected_def statuses)
qed

lemma ex_node_waiting: "i < REMOTE_MAX \<Longrightarrow> self \<noteq> int i \<Longrightarrow> waiting_node (ex_node self i 0 STATUS_WAIT) i 0 STATUS_WAIT []"
  by (simp add: waiting_node_def ex_node_slaves waits_def statuses no_slave_def)

lemma ex_scan: "scan_connect ''7 2'' = (7, int 2)" "NUL \<notin> set ''7 2''"
proof -
  have "scan_connect ''7 2'' = (7, 2)" by code_simp
  then show "scan_connect ''7 2'' = (7, int 2)" by simp
qed simp

theorem waiting_messages_sent_on_accept_witness:
  "\<exists>h1 h2. harbor_run (\<lambda>_ _ _ _ _. 0) (ex_node 1 2 0 STATUS_WAIT) [remote_message ex_remote, remote_message ex_remote] = Inr (h1, []) \<and>
    mainloop (\<lambda>_ _ _ _ _. 0) h1 (Hm_command 3 ''A 7 2'') = Inr (h2, [Net_start 7, Net_send 7 [1], Net_send 7 (remote_bytes ex_remote), Net_send 7 (remote_bytes ex_remote)])"
proof -
  have w: "waiting_node (ex_node 1 2 0 STATUS_WAIT) 2 0 STATUS_WAIT []" by (rule ex_node_waiting) (simp_all add: REMOTE_MAX_def)
  have r: "\<forall>r\<in>set [ex_remote, ex_remote]. to_node 2 r" "2 < REMOTE_MAX" using ex_remote_to_node(1) by (simp_all add: REMOTE_MAX_def)
  have pos: "0 < (2 :: nat)" "(7 :: int) \<noteq> 0" by simp_all
  show ?thesis using waiting_messages_sent_on_accept [OF w r pos(1) ex_scan(2,1) pos(2), where sent = "\<lambda>_ _ _ _ _. 0" and src = 3]
    by (simp add: ex_node_slaves del: harbor_run.simps) blast
qed

section \<open>Waiting for the answer of the other end\<close>

lemma handshake_answer:
  assumes find: "find_slave h fd = Some i" and len: "length (hb_s h) = REMOTE_MAX" and st: "sl_status (hb_s h ! i) = STATUS_HANDSHAKE" "fd \<noteq> 0"
    and w: "waits (sl_queue (hb_s h ! i)) ms" and sz: "length (sl_size (hb_s h ! i)) = 4" "sl_read (hb_s h ! i) = 0"
    and other: "hb_id h \<noteq> int i"
  shows "\<exists>h'. mainloop sent h (data_message fd [of_nat i]) = Inr (h', map (queued_message fd) ms @ [Free_data]) \<and>
    connected h' i fd \<and> link_state (hb_s h' ! i) [] \<and> sl_queue (hb_s h' ! i) = None"
proof -
  let ?s = "hb_s h ! i"
  let ?s1 = "?s\<lparr>sl_status := STATUS_HEADER\<rparr>"
  let ?s2 = "?s\<lparr>sl_status := STATUS_HEADER, sl_queue := None\<rparr>"
  have i: "i < length (hb_s h)" "i < 256" "sl_fd ?s = fd" using find_slave_Some [OF find] len by (simp_all add: REMOTE_MAX_def)
  have id': "unat (of_nat i :: byte) = i" using i(2) by (simp add: unsigned_of_nat take_bit_nat_eq_self)
  have "dispatch_queue (set_slave h i ?s1) i = Inr (set_slave h i ?s2, map (queued_message fd) ms)"
    using dispatch_queue_ok [of i "set_slave h i ?s1" ms] i st(2) w by simp
  then have p1: "socket_pass sent h i fd [of_nat i] = Inr (set_slave h i ?s2, map (queued_message fd) ms, Some [])"
    using st(1) i(1) id' by (simp add: socket_pass_def handshake_step_def Let_def statuses)
  have l: "link_state ?s2 []" using sz by (simp add: link_state_def)
  have "\<exists>s'. socket_loop 1 sent (set_slave h i ?s2) i fd [] = Inr (set_slave h i s', []) \<and> same_link ?s2 s' \<and> link_state s' []"
    using socket_loop_ok [of i "set_slave h i ?s2" ?s2 "[]" "[]" 1 sent fd] i(1) l hframes_short [of "[]"] by (auto simp: stream_ok.simps)
  then obtain s' where s': "socket_loop 1 sent (set_slave h i ?s2) i fd [] = Inr (set_slave h i s', [])" "same_link ?s2 s'" "link_state s' []" by blast
  have "socket_loop 2 sent h i fd [of_nat i] = Inr (set_slave h i s', map (queued_message fd) ms)"
    using p1 s'(1) by (simp add: socket_loop.simps [of "Suc (Suc 0)"] numeral_2_eq_2)
  then have "mainloop sent h (data_message fd [of_nat i]) = Inr (set_slave h i s', map (queued_message fd) ms @ [Free_data])"
    using find by (simp add: mainloop_def data_message_def harbor_socket_def push_socket_data_def numeral_2_eq_2)
  moreover have "sl_status s' = STATUS_HEADER" using s'(3) by (simp add: link_state_def)
  ultimately show ?thesis using s'(2,3) i st(2) other by (auto simp: connected_def same_link_def statuses)
qed

lemma find_slave_new:
  assumes "find_slave h fd = None" and "length (hb_s h) = REMOTE_MAX" and "1 \<le> i" "i < REMOTE_MAX" and "sl_fd s = fd"
  shows "find_slave (set_slave h i s) fd = Some i"
proof -
  have none: "sl_fd (hb_s h ! j) \<noteq> fd" if "1 \<le> j" "j < REMOTE_MAX" for j using assms(1) that by (auto simp: find_slave_def find_None_iff)
  show ?thesis unfolding find_slave_def find_Some_iff
    using assms(2-5) none by (intro exI [of _ "i - 1"]) (auto simp: nth_list_update)
qed

lemma handshake_refused:
  assumes find: "find_slave h fd = Some i" and len: "length (hb_s h) = REMOTE_MAX" and st: "sl_status (hb_s h ! i) = STATUS_HANDSHAKE" "fd \<noteq> 0"
    and w: "waits (sl_queue (hb_s h ! i)) ms" and k: "unat k \<noteq> i"
  shows "\<exists>h' text'. mainloop sent h (data_message fd (k # d)) = Inr (h', [Log text', Net_close fd, Free_data]) \<and>
    sl_status (hb_s h' ! i) = STATUS_DOWN \<and> sl_queue (hb_s h' ! i) = None"
proof -
  have i: "i < length (hb_s h)" "sl_fd (hb_s h ! i) = fd" using find_slave_Some [OF find] len by simp_all
  obtain ms' where "release_queue (sl_queue (hb_s h ! i)) = Inr ms'"
    using release_queue_ok [of "sl_queue (hb_s h ! i)"] w by (auto simp: waits_def split: option.splits)
  then show ?thesis using find i st k
    by (simp add: mainloop_def data_message_def harbor_socket_def push_socket_data_def socket_loop.simps socket_pass_def handshake_step_def close_harbor_def Let_def)
qed

text \<open>C37. A connection this node opens (the command \<open>S fd id\<close>): messages for the other node are kept, also those that
  come while the other end has not answered. When it answers with the right id, all of them are sent, in order, and the
  connection is open. When it answers with another id, the connection is closed and nothing is sent.\<close>

theorem waiting_messages_sent_on_handshake:
  assumes w: "waiting_node h i 0 STATUS_WAIT []" and rs: "\<forall>r\<in>set (rs @ rs'). to_node i r" and len: "length (hb_s h) = REMOTE_MAX" and i: "i < REMOTE_MAX" "0 < i"
    and args: "NUL \<notin> set args" "scan_connect args = (fd, int i)" "fd \<noteq> 0" "find_slave h fd = None"
    and sz: "length (sl_size (hb_s h ! i)) = 4" "sl_read (hb_s h ! i) = 0"
  shows "\<exists>h1. harbor_run sent h (map remote_message rs @ [Hm_command src (CHR ''S'' # CHR '' '' # args)] @ map remote_message rs') =
      Inr (h1, [Net_start fd, Net_send fd [word_of_int (hb_id h)]]) \<and>
    (\<exists>h2. mainloop sent h1 (data_message fd [of_nat i]) = Inr (h2, map (\<lambda>r. Net_send fd (remote_bytes r)) (rs @ rs') @ [Free_data]) \<and>
      connected h2 i fd \<and> link_state (hb_s h2 ! i) []) \<and>
    (\<forall>k. unat k \<noteq> i \<longrightarrow> (\<exists>h2 text'. mainloop sent h1 (data_message fd [k]) = Inr (h2, [Log text', Net_close fd, Free_data]) \<and>
      sl_status (hb_s h2 ! i) = STATUS_DOWN))"
proof -
  have rs1: "\<forall>r\<in>set rs. to_node i r" and rs2: "\<forall>r\<in>set rs'. to_node i r" using rs by auto
  obtain q where run: "harbor_run sent h (map remote_message rs) = Inr (set_slave h i ((hb_s h ! i)\<lparr>sl_queue := q\<rparr>), [])"
    and w1: "waiting_node (set_slave h i ((hb_s h ! i)\<lparr>sl_queue := q\<rparr>)) i 0 STATUS_WAIT (map remote_msg rs)"
    using remotes_waiting [OF w rs1, of sent] by auto
  have il: "i < length (hb_s h)" and wq: "waits q (map remote_msg rs)" and fd0: "sl_fd (hb_s h ! i) = 0" and other: "hb_id h \<noteq> int i"
    using w w1 by (auto simp: waiting_node_def)
  let ?s = "(hb_s h ! i)\<lparr>sl_queue := q, sl_fd := fd, sl_status := STATUS_HANDSHAKE\<rparr>"
  have cmd: "mainloop sent (set_slave h i ((hb_s h ! i)\<lparr>sl_queue := q\<rparr>)) (Hm_command src (CHR ''S'' # CHR '' '' # args)) =
      Inr (set_slave h i ?s, [Net_start fd, Net_send fd [word_of_int (hb_id h)]])"
    using connect_command [of "CHR ''S''" args fd i "set_slave h i ((hb_s h ! i)\<lparr>sl_queue := q\<rparr>)" "map remote_msg rs" sent src] args i il wq fd0 by simp
  have "waiting_node (set_slave h i ?s) i fd STATUS_HANDSHAKE (map remote_msg rs)" using il wq other by (simp add: waiting_node_def)
  from remotes_waiting [OF this rs2, of sent] obtain q2 where
    run2: "harbor_run sent (set_slave h i ?s) (map remote_message rs') = Inr (set_slave h i (?s\<lparr>sl_queue := q2\<rparr>), [])"
    and w2: "waiting_node (set_slave h i (?s\<lparr>sl_queue := q2\<rparr>)) i fd STATUS_HANDSHAKE (map remote_msg (rs @ rs'))"
    using il by auto
  let ?h1 = "set_slave h i (?s\<lparr>sl_queue := q2\<rparr>)"
  have find: "find_slave ?h1 fd = Some i" using args(4) len i by (intro find_slave_new) simp_all
  have st: "length (hb_s ?h1) = REMOTE_MAX" "sl_status (hb_s ?h1 ! i) = STATUS_HANDSHAKE" "waits (sl_queue (hb_s ?h1 ! i)) (map remote_msg (rs @ rs'))"
    "length (sl_size (hb_s ?h1 ! i)) = 4" "sl_read (hb_s ?h1 ! i) = 0" "hb_id ?h1 \<noteq> int i"
    using w2 len il sz other by (simp_all add: waiting_node_def)
  have "map (queued_message fd) (map remote_msg (rs @ rs')) = map (\<lambda>r. Net_send fd (remote_bytes r)) (rs @ rs')" using rs queued_remote [of i _ fd] by auto
  then have "\<exists>h2. mainloop sent ?h1 (data_message fd [of_nat i]) = Inr (h2, map (\<lambda>r. Net_send fd (remote_bytes r)) (rs @ rs') @ [Free_data]) \<and>
      connected h2 i fd \<and> link_state (hb_s h2 ! i) []"
    using handshake_answer [OF find st(1,2) args(3) st(3-6), of sent] by metis
  moreover have "harbor_run sent h (map remote_message rs @ [Hm_command src (CHR ''S'' # CHR '' '' # args)] @ map remote_message rs') =
      Inr (?h1, [Net_start fd, Net_send fd [word_of_int (hb_id h)]])"
    using run cmd run2 by (simp add: harbor_run_append)
  ultimately show ?thesis using handshake_refused [OF find st(1,2) args(3) st(3), of _ sent "[]"] by blast
qed

theorem waiting_messages_sent_on_handshake_witness:
  "\<exists>h1 h2 h3 text'. harbor_run (\<lambda>_ _ _ _ _. 0) (ex_node 1 2 0 STATUS_WAIT) [remote_message ex_remote, Hm_command 3 ''S 7 2'', remote_message ex_remote] =
      Inr (h1, [Net_start 7, Net_send 7 [1]]) \<and>
    mainloop (\<lambda>_ _ _ _ _. 0) h1 (data_message 7 [2]) = Inr (h2, [Net_send 7 (remote_bytes ex_remote), Net_send 7 (remote_bytes ex_remote), Free_data]) \<and>
    mainloop (\<lambda>_ _ _ _ _. 0) h1 (data_message 7 [3]) = Inr (h3, [Log text', Net_close 7, Free_data])"
proof -
  have none: "find_slave (ex_node 1 2 0 STATUS_WAIT) 7 = None"
  proof -
    have "sl_fd (hb_s (ex_node 1 2 0 STATUS_WAIT) ! j) = 0" if "j < 256" for j using that by (auto simp: ex_node_def nth_list_update no_slave_def REMOTE_MAX_def)
    then show ?thesis by (auto simp: find_slave_def find_None_iff REMOTE_MAX_def)
  qed
  have k: "unat (3 :: byte) \<noteq> 2" by simp
  have s: "length (sl_size (hb_s (ex_node 1 2 0 STATUS_WAIT) ! 2)) = 4" "sl_read (hb_s (ex_node 1 2 0 STATUS_WAIT) ! 2) = 0" "2 < REMOTE_MAX"
    by (simp_all add: ex_node_slaves REMOTE_MAX_def no_slave_def)
  have r: "\<forall>r\<in>set ([ex_remote] @ [ex_remote]). to_node 2 r" using ex_remote_to_node(1) by simp
  have w: "waiting_node (ex_node 1 2 0 STATUS_WAIT) 2 0 STATUS_WAIT []" by (rule ex_node_waiting) (simp_all add: s(3))
  have pos: "0 < (2 :: nat)" "(7 :: int) \<noteq> 0" by simp_all
  show ?thesis
    using waiting_messages_sent_on_handshake [OF w r ex_node_slaves(1) s(3) pos(1) ex_scan(2,1) pos(2) none s(1,2), where sent = "\<lambda>_ _ _ _ _. 0" and src = 3]
    by (simp add: ex_node_slaves del: harbor_run.simps) (use k in blast)
qed

end
