(* ===== verification/Harbor_Names.thy ===== *)
theory Harbor_Names
  imports Harbor_Net
begin

text \<open>
  Messages to names: they wait until the name is known and then go to the handle that has it.
\<close>

section \<open>The table of names\<close>

lemma name_bucket_less [simp]: "name_bucket name < HASH_SIZE"
  by (simp add: name_bucket_def HASH_SIZE_def)

lemma find_set_node: "find (kv_match name) ns = Some nd \<Longrightarrow> kv_match name nd' \<Longrightarrow> find (kv_match name) (set_node name nd' ns) = Some nd'"
  by (induction ns) (auto split: if_splits)

lemma hash_find_ok:
  assumes "length hash = HASH_SIZE"
  obtains nd hash' where "hash_find hash name = Inr (nd, hash')" "hash_search hash' name = Inr (Some nd)" "length hash' = HASH_SIZE" "kv_match name nd"
    "hash_search hash name = Inr (Some nd) \<and> hash' = hash \<or> hash_search hash name = Inr None \<and> kv_value nd = 0 \<and> kv_queue nd = None"
proof (cases "find (kv_match name) (hash ! name_bucket name)")
  case (Some nd)
  then have "kv_match name nd" by (auto simp: find_Some_iff)
  then show thesis using Some assms that [of nd hash] by (simp add: hash_find_def hash_search_def)
next
  case None
  let ?nd = "\<lparr>kv_key = take GLOBALNAME_LENGTH name, kv_hash = name_hash name, kv_value = 0, kv_queue = None\<rparr>"
  let ?hash = "hash[name_bucket name := ?nd # hash ! name_bucket name]"
  have "kv_match name ?nd" by (simp add: kv_match_def strn_eq_def)
  then show thesis using None assms that [of ?nd ?hash] by (simp add: hash_find_def hash_search_def hash_insert_def Let_def wr_def)
qed

lemma hash_assign_ok:
  assumes "length hash = HASH_SIZE" and "hash_search hash name = Inr (Some nd)" and "kv_match name nd'"
  shows "\<exists>hash'. hash_assign hash name nd' = Inr hash' \<and> hash_search hash' name = Inr (Some nd') \<and> length hash' = HASH_SIZE"
  using assms find_set_node [of name _ nd nd'] by (simp add: hash_assign_def hash_search_def wr_def)

section \<open>Messages that wait for a name\<close>

definition named_waiting :: "harbor \<Rightarrow> char list \<Rightarrow> harbor_msg list \<Rightarrow> bool" where
  "named_waiting h name ms \<longleftrightarrow> length (hb_map h) = HASH_SIZE \<and>
     (case hash_search (hb_map h) name of
        Inl _ \<Rightarrow> False | Inr None \<Rightarrow> ms = [] | Inr (Some nd) \<Rightarrow> kv_value nd = 0 \<and> waits (kv_queue nd) ms)"

definition name_known :: "harbor \<Rightarrow> char list \<Rightarrow> u32 \<Rightarrow> bool" where
  "name_known h name handle \<longleftrightarrow> length (hb_map h) = HASH_SIZE \<and> (\<exists>nd. hash_search (hb_map h) name = Inr (Some nd) \<and> kv_value nd = handle)"

definition to_name :: "char list \<Rightarrow> remote \<Rightarrow> harbor_message" where
  "to_name name r = Hm_remote (rm_source r) (rm_type r) (rm_session r) name 0 (rm_data r)"

definition name_msg :: "remote \<Rightarrow> harbor_msg" where
  "name_msg r =
     \<lparr>hm_header = \<lparr>rh_source = rm_source r, rh_destination = push_bit HANDLE_REMOTE_SHIFT (rm_type r), rh_session = rm_session r\<rparr>, hm_buffer = rm_data r\<rparr>"

definition query :: "harbor \<Rightarrow> char list \<Rightarrow> haction" where
  "query h name = Send_local 0 (hb_slave h) (ucast PTYPE_TEXT) 0 (bytes_of (''Q '' @ takeWhile (\<lambda>c. c \<noteq> NUL) (take GLOBALNAME_LENGTH name)))"

lemma kv_match_upd [simp]: "kv_match name (nd\<lparr>kv_queue := q\<rparr>) = kv_match name nd" "kv_match name (nd\<lparr>kv_value := v\<rparr>) = kv_match name nd"
  by (simp_all add: kv_match_def)

lemma named_waiting_find:
  assumes "named_waiting h name ms"
  obtains nd hash where "hash_find (hb_map h) name = Inr (nd, hash)" "hash_search hash name = Inr (Some nd)" "length hash = HASH_SIZE" "kv_match name nd"
    "kv_value nd = 0" "waits (kv_queue nd) ms"
proof -
  have len: "length (hb_map h) = HASH_SIZE" using assms by (simp add: named_waiting_def)
  show thesis by (rule hash_find_ok [OF len, of name]) (use assms in \<open>auto simp: named_waiting_def waits_def intro: that\<close>)
qed

lemma to_name_waiting:
  assumes "named_waiting h name ms"
  shows "\<exists>hash. mainloop sent h (to_name name r) = Inr (h\<lparr>hb_map := hash\<rparr>, [query h name]) \<and> named_waiting (h\<lparr>hb_map := hash\<rparr>) name (ms @ [name_msg r])"
proof -
  obtain nd hash where nd: "hash_find (hb_map h) name = Inr (nd, hash)" "hash_search hash name = Inr (Some nd)" "length hash = HASH_SIZE" "kv_match name nd"
    "kv_value nd = 0" "waits (kv_queue nd) ms" using assms by (rule named_waiting_find)
  obtain q where q: "push_queue (case kv_queue nd of None \<Rightarrow> new_queue | Some q \<Rightarrow> q) (rm_data r)
      \<lparr>rh_source = rm_source r, rh_destination = push_bit HANDLE_REMOTE_SHIFT (rm_type r), rh_session = rm_session r\<rparr> = Inr q"
    "waits (Some q) (ms @ [name_msg r])" using nd(6) by (rule push_queue_waits) (simp add: name_msg_def)
  obtain hash' where "hash_assign hash name (nd\<lparr>kv_queue := Some q\<rparr>) = Inr hash'" "hash_search hash' name = Inr (Some (nd\<lparr>kv_queue := Some q\<rparr>))" "length hash' = HASH_SIZE"
    using hash_assign_ok [OF nd(3,2), of "nd\<lparr>kv_queue := Some q\<rparr>"] nd(4) by auto
  then show ?thesis using nd q by (intro exI [of _ hash']) (simp add: mainloop_def to_name_def remote_send_name_def named_waiting_def query_def Let_def)
qed

lemma to_names_waiting:
  assumes "named_waiting h name ms"
  shows "\<exists>hash. harbor_run sent h (map (to_name name) rs) = Inr (h\<lparr>hb_map := hash\<rparr>, replicate (length rs) (query h name)) \<and>
    named_waiting (h\<lparr>hb_map := hash\<rparr>) name (ms @ map name_msg rs)"
  using assms
proof (induction rs arbitrary: h ms)
  case Nil
  then show ?case by (intro exI [of _ "hb_map h"]) simp
next
  case (Cons r rs)
  obtain hash where hash: "mainloop sent h (to_name name r) = Inr (h\<lparr>hb_map := hash\<rparr>, [query h name])" "named_waiting (h\<lparr>hb_map := hash\<rparr>) name (ms @ [name_msg r])"
    using to_name_waiting [OF Cons.prems] by blast
  have "query (h\<lparr>hb_map := hash\<rparr>) name = query h name" by (simp add: query_def)
  then show ?case using Cons.IH [OF hash(2)] hash(1) by auto
qed

section \<open>A name becomes known\<close>

lemma named_remote:
  assumes "length (rm_data r) + 12 < 2 ^ 24"
  shows "named_message fd handle (name_msg r) = Net_send fd (remote_bytes (r\<lparr>rm_destination := handle\<rparr>))"
  using assms by (simp add: named_message_def name_msg_def send_remote_ok remote_bytes_def remote_header_def)

lemma update_name_connected:
  assumes w: "named_waiting h name ms" and c: "connected h (unat (drop_bit HANDLE_REMOTE_SHIFT handle)) fd"
  shows "\<exists>hash. update_name h name handle = Inr (h\<lparr>hb_map := hash\<rparr>, map (named_message fd handle) ms) \<and> name_known (h\<lparr>hb_map := hash\<rparr>) name handle"
proof -
  obtain nd hash where nd: "hash_find (hb_map h) name = Inr (nd, hash)" "hash_search hash name = Inr (Some nd)" "length hash = HASH_SIZE" "kv_match name nd"
    "kv_value nd = 0" "waits (kv_queue nd) ms" using w by (rule named_waiting_find)
  let ?nd = "nd\<lparr>kv_value := handle, kv_queue := None\<rparr>"
  obtain hash' where hash': "hash_assign hash name ?nd = Inr hash'" "hash_search hash' name = Inr (Some ?nd)" "length hash' = HASH_SIZE"
    using hash_assign_ok [OF nd(3,2), of ?nd] nd(4) by auto
  show ?thesis
  proof (cases "kv_queue nd")
    case None
    then show ?thesis using nd hash' by (intro exI [of _ hash']) (simp add: update_name_def waits_def name_known_def)
  next
    case (Some q)
    then obtain q' where q': "drain_queue q = Inr (ms, q')" "hq_inv q'" using nd(6) drain_queue_ok [of q] by (auto simp: waits_def)
    then obtain ms' where "release_queue (Some q') = Inr ms'" using release_queue_ok [of "Some q'"] by auto
    then show ?thesis using nd hash' Some q' c
      by (intro exI [of _ hash']) (simp add: update_name_def dispatch_name_queue_def connected_def name_known_def Let_def)
  qed
qed

lemma name_command:
  assumes "0 < length t" and "length t < GLOBALNAME_LENGTH"
  shows "mainloop sent h (Hm_command handle (CHR ''N'' # CHR '' '' # t)) = update_name h (copy_name t) handle"
  using assms by (simp add: mainloop_def harbor_command_def copy_name_def Let_def)

lemma to_name_known:
  assumes k: "name_known h name (rm_destination r)" and d: "rm_destination r \<noteq> 0" 
  shows "mainloop sent h (to_name name r) = mainloop sent h (remote_message r)"
proof -
  have len: "length (hb_map h) = HASH_SIZE" using k by (simp add: name_known_def)
  obtain nd where "hash_find (hb_map h) name = Inr (nd, hb_map h)" "kv_value nd = rm_destination r"
    by (rule hash_find_ok [OF len, of name]) (use k in \<open>auto simp: name_known_def\<close>)
  then show ?thesis using d by (simp add: mainloop_def to_name_def remote_message_def remote_send_name_def)
qed


lemma ex_name: "named_waiting (ex_node self i fd st) name []"
  by (simp add: named_waiting_def ex_node_def harbor_create_def hash_new_def hash_search_def)


text \<open>A name whose node is not connected: the queue of the name becomes the queue of the node as it is.\<close>

lemma update_name_waiting:
  assumes w: "named_waiting h name ms" "ms \<noteq> []" and i: "waiting_node h i 0 STATUS_WAIT []" "i = unat (drop_bit HANDLE_REMOTE_SHIFT handle)"
    and q0: "sl_queue (hb_s h ! i) = None" and far: "i \<noteq> unat (drop_bit HANDLE_REMOTE_SHIFT (hb_slave h))"
  shows "\<exists>hash q. update_name h name handle = Inr (set_slave (h\<lparr>hb_map := hash\<rparr>) i ((hb_s h ! i)\<lparr>sl_queue := Some q\<rparr>), []) \<and> waits (Some q) ms"
proof -
  obtain nd hash where nd: "hash_find (hb_map h) name = Inr (nd, hash)" "hash_search hash name = Inr (Some nd)" "length hash = HASH_SIZE" "kv_match name nd"
    "kv_value nd = 0" "waits (kv_queue nd) ms" using w(1) by (rule named_waiting_find)
  obtain hash' where hash': "hash_assign hash name (nd\<lparr>kv_value := handle, kv_queue := None\<rparr>) = Inr hash'"
    using hash_assign_ok [OF nd(3,2), of "nd\<lparr>kv_value := handle, kv_queue := None\<rparr>"] nd(4) by auto
  obtain q where q: "kv_queue nd = Some q" using nd(6) w(2) by (cases "kv_queue nd") (auto simp: waits_def)
  have s: "i < length (hb_s h)" "sl_fd (hb_s h ! i) = 0" "sl_status (hb_s h ! i) = STATUS_WAIT" using i(1) by (simp_all add: waiting_node_def)
  have "dispatch_name_queue (h\<lparr>hb_map := hash\<rparr>) (kv_key nd) handle q = Inr (set_slave (h\<lparr>hb_map := hash\<rparr>) i ((hb_s h ! i)\<lparr>sl_queue := Some q\<rparr>), None, [])"
    using s q0 far unfolding i(2) by (simp add: dispatch_name_queue_def statuses Let_def)
  then show ?thesis using nd(1,6) hash' q
    by (intro exI [of _ hash'] exI [of _ q]) (simp add: update_name_def release_queue_def)
qed

text \<open>When messages for a name wait and the name becomes known before its node is connected, they are sent on the connection
  without the handle: \<^verbatim>\<open>dispatch_name_queue\<close> adds it only where it sends at once.\<close>

theorem named_messages_lose_handle:
  assumes "named_waiting h (copy_name t) []" and "0 < length t" and "length t < GLOBALNAME_LENGTH"
    and "waiting_node h i 0 STATUS_WAIT []" and "i < REMOTE_MAX" and "0 < i" and "sl_queue (hb_s h ! i) = None"
    and "i \<noteq> unat (drop_bit HANDLE_REMOTE_SHIFT (hb_slave h))" and "rs \<noteq> []" and "i = unat (drop_bit HANDLE_REMOTE_SHIFT handle)"
    and "\<forall>r\<in>set rs. length (rm_data r) + 12 < 2 ^ 24" and "NUL \<notin> set args" and "scan_connect args = (fd, int i)" and "fd \<noteq> 0"
  shows "\<exists>h1 h2 h3. harbor_run sent h (map (to_name (copy_name t)) rs) = Inr (h1, replicate (length rs) (query h (copy_name t))) \<and>
    mainloop sent h1 (Hm_command handle (CHR ''N'' # CHR '' '' # t)) = Inr (h2, []) \<and>
    mainloop sent h2 (Hm_command src (CHR ''A'' # CHR '' '' # args)) =
      Inr (h3, Net_start fd # Net_send fd [word_of_int (hb_id h)] # map (\<lambda>r. Net_send fd (remote_bytes (r\<lparr>rm_destination := 0\<rparr>))) rs)"
proof -
  obtain hash where run: "harbor_run sent h (map (to_name (copy_name t)) rs) = Inr (h\<lparr>hb_map := hash\<rparr>, replicate (length rs) (query h (copy_name t)))"
    and w: "named_waiting (h\<lparr>hb_map := hash\<rparr>) (copy_name t) (map name_msg rs)"
    using to_names_waiting [OF assms(1), of sent rs] by auto
  have "\<exists>hash' q. update_name (h\<lparr>hb_map := hash\<rparr>) (copy_name t) handle = Inr (set_slave (h\<lparr>hb_map := hash'\<rparr>) i ((hb_s h ! i)\<lparr>sl_queue := Some q\<rparr>), []) \<and>
      waits (Some q) (map name_msg rs)"
    using update_name_waiting [OF w, of i handle] assms(4,7-10) by (simp add: waiting_node_def)
  then obtain hash' q where up: "update_name (h\<lparr>hb_map := hash\<rparr>) (copy_name t) handle = Inr (set_slave (h\<lparr>hb_map := hash'\<rparr>) i ((hb_s h ! i)\<lparr>sl_queue := Some q\<rparr>), [])"
    and q: "waits (Some q) (map name_msg rs)" by blast
  have "queued_message fd (name_msg r) = Net_send fd (remote_bytes (r\<lparr>rm_destination := 0\<rparr>))" if "r \<in> set rs" for r
  proof -
    have "length (rm_data r) + 12 < 2 ^ 24" using assms(11) that by blast
    then show ?thesis by (simp add: queued_message_def name_msg_def send_remote_ok remote_bytes_def remote_header_def)
  qed
  then have "map (queued_message fd) (map name_msg rs) = map (\<lambda>r. Net_send fd (remote_bytes (r\<lparr>rm_destination := 0\<rparr>))) rs" by simp
  moreover have "i < length (hb_s h)" "sl_fd (hb_s h ! i) = 0" using assms(4) by (simp_all add: waiting_node_def)
  ultimately show ?thesis using run up name_command [OF assms(2,3)] q assms(5,6,12-14)
      connect_command [of "CHR ''A''" args fd i "set_slave (h\<lparr>hb_map := hash'\<rparr>) i ((hb_s h ! i)\<lparr>sl_queue := Some q\<rparr>)" "map name_msg rs" sent src] by simp
qed

end
