(* ===== verification/Harbor_State.thy ===== *)
theory Harbor_State
  imports Harbor_Names
begin

text \<open>
  The state of the harbor service stays well formed, whatever messages arrive. \<open>safeR P r\<close> says of a result that it is a state
  with \<open>P\<close> or that the code has read outside a message that came from elsewhere; it never fails otherwise.
\<close>

definition safeR :: "('a \<Rightarrow> bool) \<Rightarrow> 'a res \<Rightarrow> bool" where
  "safeR P r = (case r of Inl e \<Rightarrow> e = Out_of_bounds | Inr x \<Rightarrow> P x)"

lemma safeR_simps [simp]: "safeR P (Inr x) = P x" "safeR P (Inl e) \<longleftrightarrow> e = Out_of_bounds"
  by (simp_all add: safeR_def)

lemma safeR_bind:
  assumes "safeR P m" and "\<And>x. P x \<Longrightarrow> safeR Q (f x)"
  shows "safeR Q (bindR m f)"
  using assms by (cases m) simp_all

lemma safeR_mono: "safeR P m \<Longrightarrow> (\<And>x. P x \<Longrightarrow> Q x) \<Longrightarrow> safeR Q m"
  by (cases m) simp_all

lemma safeR_rd: "(i < length xs \<Longrightarrow> safeR P (f (xs ! i))) \<Longrightarrow> safeR P (bindR (rd xs i) f)"
  by (simp add: rd_def)

lemma initialised_list: "None \<notin> set xs \<Longrightarrow> \<exists>ys. xs = map Some ys"
proof (induction xs)
  case (Cons x xs)
  then obtain y ys where "x = Some y" "xs = map Some ys" by (cases x) auto
  then show ?case by (intro exI [of _ "y # ys"]) simp
qed simp

section \<open>Well-formed states\<close>

definition hqueue_ok :: "harbor_msg_queue option \<Rightarrow> bool" where
  "hqueue_ok qo = (case qo of None \<Rightarrow> True | Some q \<Rightarrow> hq_inv q)"

definition slave_ok :: "slave \<Rightarrow> bool" where
  "slave_ok s \<longleftrightarrow> length (sl_size s) = 4 \<and> hqueue_ok (sl_queue s) \<and> sl_status s \<le> STATUS_DOWN \<and> (sl_fd s = 0 \<longleftrightarrow> sl_status s = STATUS_WAIT) \<and>
     (sl_status s < STATUS_HEADER \<longrightarrow> sl_read s = 0) \<and> (sl_status s = STATUS_HEADER \<longrightarrow> sl_read s < 4) \<and>
     (sl_status s = STATUS_CONTENT \<longrightarrow> length (sl_recv_buffer s) = sl_length s \<and> (sl_read s < sl_length s \<or> sl_length s = 0 \<and> sl_read s = 0) \<and>
        None \<notin> set (take (sl_read s) (sl_recv_buffer s)))"

definition harbor_ok :: "harbor \<Rightarrow> bool" where
  "harbor_ok h \<longleftrightarrow> length (hb_s h) = REMOTE_MAX \<and> length (hb_map h) = HASH_SIZE \<and> (\<forall>s\<in>set (hb_s h). slave_ok s) \<and>
     (\<forall>ns\<in>set (hb_map h). \<forall>nd\<in>set ns. hqueue_ok (kv_queue nd))"

lemma harbor_okD: "harbor_ok h \<Longrightarrow> i < REMOTE_MAX \<Longrightarrow> slave_ok (hb_s h ! i)" "harbor_ok h \<Longrightarrow> length (hb_s h) = REMOTE_MAX" "harbor_ok h \<Longrightarrow> length (hb_map h) = HASH_SIZE"
  by (simp_all add: harbor_ok_def)

lemma harbor_ok_slave [simp]: "harbor_ok h \<Longrightarrow> slave_ok s \<Longrightarrow> harbor_ok (set_slave h i s)"
  using set_update_subset_insert [of "hb_s h" i s] by (auto simp: harbor_ok_def)

lemma hqueue_ok_simps [simp]: "hqueue_ok None" "hqueue_ok (Some q) = hq_inv q"
  by (simp_all add: hqueue_ok_def)

lemma harbor_create_ok: "harbor_ok harbor_create"
  by (simp add: harbor_ok_def harbor_create_def hash_new_def slave_ok_def no_slave_def statuses)

section \<open>Queues\<close>

lemma drain_queue_safe: "hq_inv q \<Longrightarrow> \<exists>ms q'. drain_queue q = Inr (ms, q') \<and> hq_inv q'"
  using drain_queue_ok by blast

lemma release_safe: "hqueue_ok qo \<Longrightarrow> \<exists>ms. release_queue qo = Inr ms"
  by (rule release_queue_ok) (auto simp: hqueue_ok_def)

lemma push_safe: "hqueue_ok qo \<Longrightarrow> \<exists>q. push_queue (case qo of None \<Rightarrow> new_queue | Some q \<Rightarrow> q) msg header = Inr q \<and> hq_inv q"
  using push_queue_msg_ok [of "case qo of None \<Rightarrow> new_queue | Some q \<Rightarrow> q"] by (fastforce simp: push_queue_def hqueue_ok_def split: option.splits)

lemma push_all_safe: "hq_inv q \<Longrightarrow> \<exists>q'. push_all q ms = Inr q' \<and> hq_inv q'"
proof (induction ms arbitrary: q)
  case (Cons m ms)
  obtain q1 where "push_queue_msg q m = Inr q1" "hq_inv q1" using push_queue_msg_ok [OF Cons.prems] by blast
  then show ?case using Cons.IH by simp
qed simp

section \<open>Connections\<close>

lemma close_harbor_safe:
  assumes "harbor_ok h" and "i < REMOTE_MAX" and "sl_fd (hb_s h ! i) \<noteq> 0"
  shows "\<exists>h' out. close_harbor h i = Inr (h', out) \<and> harbor_ok h'"
proof -
  have s: "slave_ok (hb_s h ! i)" using harbor_okD(1) [OF assms(1,2)] .
  then obtain ms where "release_queue (sl_queue (hb_s h ! i)) = Inr ms" using release_safe by (auto simp: slave_ok_def)
  moreover have "slave_ok ((hb_s h ! i)\<lparr>sl_status := STATUS_DOWN, sl_queue := None\<rparr>)" using s assms(3) by (simp add: slave_ok_def statuses)
  ultimately show ?thesis using assms harbor_okD(2) [OF assms(1)] by (simp add: close_harbor_def)
qed

lemma dispatch_queue_safe:
  assumes "harbor_ok h" and "i < REMOTE_MAX" and "sl_fd (hb_s h ! i) \<noteq> 0"
  shows "\<exists>out. dispatch_queue h i = Inr (set_slave h i ((hb_s h ! i)\<lparr>sl_queue := None\<rparr>), out)"
proof -
  have "hqueue_ok (sl_queue (hb_s h ! i))" using harbor_okD(1) [OF assms(1,2)] by (simp add: slave_ok_def)
  then have "waits (sl_queue (hb_s h ! i)) (case sl_queue (hb_s h ! i) of None \<Rightarrow> [] | Some q \<Rightarrow> hq_items q)"
    by (simp add: waits_def hqueue_ok_def split: option.splits)
  then show ?thesis using dispatch_queue_ok [of i h] assms harbor_okD(2) [OF assms(1)] by simp
qed

abbreviation step_ok :: "byte list \<Rightarrow> harbor \<times> haction list \<times> byte list option \<Rightarrow> bool" where
  "step_ok buffer r \<equiv> harbor_ok (fst r) \<and> (\<forall>b. snd (snd r) = Some b \<longrightarrow> length b < length buffer)"

lemma forward_safe: "safeR (\<lambda>_. True) (forward_local_messsage sent h msg sz)"
  by (simp add: forward_local_messsage_def Let_def)

lemma content_step_safe:
  assumes h: "harbor_ok h" and i: "i < REMOTE_MAX" and st: "sl_status (hb_s h ! i) = STATUS_CONTENT"
  shows "safeR (step_ok buffer) (content_step sent h i buffer)"
proof -
  let ?s = "hb_s h ! i"
  have s: "slave_ok ?s" and il: "i < length (hb_s h)" using harbor_okD [OF h] i by simp_all
  have c: "length (sl_recv_buffer ?s) = sl_length ?s" "sl_read ?s < sl_length ?s \<or> sl_length ?s = 0 \<and> sl_read ?s = 0" "None \<notin> set (take (sl_read ?s) (sl_recv_buffer ?s))"
    using s st by (simp_all add: slave_ok_def)
  let ?need = "sl_length ?s - sl_read ?s"
  show ?thesis
  proof (cases "length buffer < ?need")
    case True
    let ?recv = "take (sl_read ?s) (sl_recv_buffer ?s) @ map Some buffer @ drop (sl_read ?s + length buffer) (sl_recv_buffer ?s)"
    have "slave_ok (?s\<lparr>sl_recv_buffer := ?recv, sl_read := sl_read ?s + length buffer\<rparr>)" using s st c True by (auto simp: slave_ok_def statuses)
    then show ?thesis using True il h c by (simp add: content_step_def memcpyR_def Let_def)
  next
    case False
    let ?recv = "take (sl_read ?s) (sl_recv_buffer ?s) @ map Some (take ?need buffer)"
    have copy: "memcpyR (sl_recv_buffer ?s) (sl_read ?s) (map Some (take ?need buffer)) = Inr ?recv" using False c by (auto simp: memcpyR_def)
    have "None \<notin> set ?recv" using c(3) by auto
    then obtain msg where "?recv = map Some msg" using initialised_list by metis
    moreover have "length ?recv = sl_length ?s" using c False by auto
    ultimately have read: "read_bytes ?recv (sl_length ?s) = Inr msg" using pushlstring_prefix [of "sl_length ?s" msg "[]"] by simp
    let ?h = "set_slave h i (?s\<lparr>sl_length := 0, sl_read := 0, sl_recv_buffer := [], sl_status := STATUS_HEADER\<rparr>)"
    have ok: "harbor_ok ?h" by (rule harbor_ok_slave [OF h]) (use s st in \<open>simp add: slave_ok_def statuses\<close>)
    show ?thesis
    proof (cases "sl_length ?s < 12")
      case True
      then show ?thesis using False il copy read by (simp add: content_step_def Let_def forward_local_messsage_def HEADER_COOKIE_LENGTH_def)
    next
      case long: False
      have "safeR (step_ok buffer) (bindR (forward_local_messsage sent h msg (sl_length ?s)) (\<lambda>out. Inr (?h, out, if drop ?need buffer = [] then None else Some (drop ?need buffer))))"
        by (rule safeR_bind [OF forward_safe]) (use ok long c False in auto)
      then show ?thesis using False il copy read by (simp add: content_step_def Let_def)
    qed
  qed
qed

lemma header_step_safe:
  assumes h: "harbor_ok h" and i: "i < REMOTE_MAX" and st: "sl_status (hb_s h ! i) = STATUS_HEADER"
  shows "safeR (\<lambda>r. step_ok buffer r \<and> (snd (snd r) \<noteq> None \<longrightarrow> sl_status (hb_s (fst r) ! i) = STATUS_CONTENT)) (header_step h i buffer)"
proof -
  let ?s = "hb_s h ! i"
  have s: "slave_ok ?s" and il: "i < length (hb_s h)" using harbor_okD [OF h] i by simp_all
  have c: "length (sl_size ?s) = 4" "sl_read ?s < 4" "sl_fd ?s \<noteq> 0" using s st by (auto simp: slave_ok_def statuses)
  let ?need = "4 - sl_read ?s"
  show ?thesis
  proof (cases "length buffer < ?need")
    case True
    let ?s' = "?s\<lparr>sl_size := take (sl_read ?s) (sl_size ?s) @ buffer @ drop (sl_read ?s + length buffer) (sl_size ?s), sl_read := sl_read ?s + length buffer\<rparr>"
    have "slave_ok ?s'" using s st c True by (auto simp: slave_ok_def statuses)
    then show ?thesis using True il h c by (simp add: header_step_def memcpyR_def Let_def)
  next
    case False
    let ?sz = "take (sl_read ?s) (sl_size ?s) @ take ?need buffer"
    have copy: "memcpyR (sl_size ?s) (sl_read ?s) (take ?need buffer) = Inr ?sz" "length ?sz = 4" using False c by (auto simp: memcpyR_def)
    define sz where "sz = ?sz"
    have copy: "memcpyR (sl_size ?s) (sl_read ?s) (take ?need buffer) = Inr sz" "length sz = 4" using copy by (simp_all add: sz_def)
    show ?thesis
    proof (cases "sz ! 0 = 0")
      case True
      let ?len = "unat (sz ! 1) * 2 ^ 16 + unat (sz ! 2) * 2 ^ 8 + unat (sz ! 3)"
      let ?s' = "?s\<lparr>sl_size := sz, sl_length := ?len, sl_read := 0, sl_recv_buffer := replicate ?len None, sl_status := STATUS_CONTENT\<rparr>"
      have "slave_ok ?s'" using s copy(2) c(3) by (auto simp: slave_ok_def statuses)
      then have "harbor_ok (set_slave h i ?s')" using h by simp
      moreover have "header_step h i buffer = Inr (set_slave h i ?s', [], if drop ?need buffer = [] then None else Some (drop ?need buffer))"
        using True False il copy by (simp add: header_step_def Let_def)
      ultimately show ?thesis using il False c(2) by auto
    next
      case too_long: False
      have "slave_ok (?s\<lparr>sl_size := sz\<rparr>)" using s copy(2) by (simp add: slave_ok_def)
      then have h': "harbor_ok (set_slave h i (?s\<lparr>sl_size := sz\<rparr>))" using h by simp
      obtain h2 out where "close_harbor (set_slave h i (?s\<lparr>sl_size := sz\<rparr>)) i = Inr (h2, out)" "harbor_ok h2"
        using close_harbor_safe [OF h' i] il c(3) by auto
      then show ?thesis using False too_long il copy by (simp add: header_step_def Let_def)
    qed
  qed
qed

lemma handshake_step_safe:
  assumes h: "harbor_ok h" and i: "i < REMOTE_MAX" and st: "sl_status (hb_s h ! i) = STATUS_HANDSHAKE"
  shows "safeR (\<lambda>r. step_ok buffer r \<and> (snd (snd r) \<noteq> None \<longrightarrow> sl_status (hb_s (fst r) ! i) = STATUS_HEADER)) (handshake_step h i fd buffer)"
proof (cases buffer)
  case Nil
  then show ?thesis by (simp add: handshake_step_def rd_def)
next
  case (Cons b bs)
  let ?s = "hb_s h ! i"
  have s: "slave_ok ?s" and il: "i < length (hb_s h)" using harbor_okD [OF h] i by simp_all
  have fd: "sl_fd ?s \<noteq> 0" using s st by (auto simp: slave_ok_def statuses)
  show ?thesis
  proof (cases "unat b = i")
    case True
    have "slave_ok (?s\<lparr>sl_status := STATUS_HEADER\<rparr>)" "slave_ok (?s\<lparr>sl_status := STATUS_HEADER, sl_queue := None\<rparr>)" using s st by (simp_all add: slave_ok_def statuses)
    then have ok: "harbor_ok (set_slave h i (?s\<lparr>sl_status := STATUS_HEADER\<rparr>))" "harbor_ok (set_slave h i (?s\<lparr>sl_status := STATUS_HEADER, sl_queue := None\<rparr>))"
      using h by simp_all
    obtain out where "dispatch_queue (set_slave h i (?s\<lparr>sl_status := STATUS_HEADER\<rparr>)) i = Inr (set_slave h i (?s\<lparr>sl_status := STATUS_HEADER, sl_queue := None\<rparr>), out)"
      using dispatch_queue_safe [OF ok(1) i] il fd by auto
    then show ?thesis using True Cons il ok(2) by (simp add: handshake_step_def)
  next
    case False
    then show ?thesis using close_harbor_safe [OF h i fd] Cons by (auto simp: handshake_step_def)
  qed
qed

lemma header_case_safe:
  assumes "harbor_ok h" and "i < REMOTE_MAX" and "sl_status (hb_s h ! i) = STATUS_HEADER"
  shows "safeR (step_ok buffer) (bindR (header_step h i buffer) (\<lambda>(h, out, more).
      case more of None \<Rightarrow> Inr (h, out, None)
      | Some buffer \<Rightarrow> bindR (content_step sent h i buffer) (\<lambda>(h, out', more). Inr (h, out @ out', more))))"
proof (rule safeR_bind [OF header_step_safe [OF assms]])
  fix x :: "harbor \<times> haction list \<times> byte list option"
  assume x: "step_ok buffer x \<and> (snd (snd x) \<noteq> None \<longrightarrow> sl_status (hb_s (fst x) ! i) = STATUS_CONTENT)"
  obtain h1 out more where x1: "x = (h1, out, more)" by (cases x)
  show "safeR (step_ok buffer) (case x of (h, out, more) \<Rightarrow> case more of None \<Rightarrow> Inr (h, out, None)
      | Some buffer \<Rightarrow> bindR (content_step sent h i buffer) (\<lambda>(h, out', more). Inr (h, out @ out', more)))"
  proof (cases more)
    case (Some b)
    have "safeR (step_ok buffer) (bindR (content_step sent h1 i b) (\<lambda>(h, out', more). Inr (h, out @ out', more)))"
      using x x1 Some by (intro safeR_bind [OF content_step_safe [OF _ assms(2), of h1 b sent]]) force+
    then show ?thesis using x1 Some by simp
  qed (use x x1 in simp)
qed

lemma socket_pass_safe:
  assumes h: "harbor_ok h" and i: "i < REMOTE_MAX"
  shows "safeR (step_ok buffer) (socket_pass sent h i fd buffer)"
proof -
  have il: "i < length (hb_s h)" using harbor_okD [OF h] i by simp
  consider "sl_status (hb_s h ! i) = STATUS_HANDSHAKE" | "sl_status (hb_s h ! i) = STATUS_HEADER" | "sl_status (hb_s h ! i) = STATUS_CONTENT"
    | "sl_status (hb_s h ! i) \<notin> {STATUS_HANDSHAKE, STATUS_HEADER, STATUS_CONTENT}" by auto
  then show ?thesis
  proof cases
    case 1
    show ?thesis unfolding socket_pass_def rd_ok [OF il] bindR_Inr Let_def if_P [OF 1]
    proof (rule safeR_bind [OF handshake_step_safe [OF h i 1]])
      fix x :: "harbor \<times> haction list \<times> byte list option"
      assume x: "step_ok buffer x \<and> (snd (snd x) \<noteq> None \<longrightarrow> sl_status (hb_s (fst x) ! i) = STATUS_HEADER)"
      obtain h1 out more where x1: "x = (h1, out, more)" by (cases x)
      have "safeR (step_ok buffer) (bindR (bindR (header_step h1 i b) (\<lambda>(h, out, more).
          case more of None \<Rightarrow> Inr (h, out, None)
          | Some buffer \<Rightarrow> bindR (content_step sent h i buffer) (\<lambda>(h, out', more). Inr (h, out @ out', more))))
          (\<lambda>(h, out', more). Inr (h, out @ out', more)))" if "more = Some b" for b
        using x x1 that by (intro safeR_bind [OF header_case_safe [OF _ i, of h1 b sent]]) force+
      then show "safeR (step_ok buffer) (case x of (h, out, more) \<Rightarrow> case more of None \<Rightarrow> Inr (h, out, None)
        | Some buffer \<Rightarrow> if buffer = [] then Inr (h, out, Some []) else bindR (bindR (header_step h i buffer) (\<lambda>(h, out, more).
            case more of None \<Rightarrow> Inr (h, out, None)
            | Some buffer \<Rightarrow> bindR (content_step sent h i buffer) (\<lambda>(h, out', more). Inr (h, out @ out', more))))
            (\<lambda>(h, out', more). Inr (h, out @ out', more)))"
        using x x1 by (cases more) auto
    qed
  next
    case 2
    then show ?thesis using header_case_safe [OF h i 2, of buffer sent] il by (simp add: socket_pass_def statuses)
  next
    case 3
    then show ?thesis using content_step_safe [OF h i 3, of buffer sent] il by (simp add: socket_pass_def statuses)
  next
    case 4
    then show ?thesis using h il by (simp add: socket_pass_def)
  qed
qed

lemma socket_loop_safe:
  "harbor_ok h \<Longrightarrow> i < REMOTE_MAX \<Longrightarrow> length buffer < fuel \<Longrightarrow> safeR (\<lambda>r. harbor_ok (fst r)) (socket_loop fuel sent h i fd buffer)"
proof (induction fuel arbitrary: h buffer)
  case (Suc fuel)
  show ?case unfolding socket_loop.simps [of "Suc fuel"]
  proof (rule safeR_bind [OF socket_pass_safe [OF Suc.prems(1,2)]])
    fix x :: "harbor \<times> haction list \<times> byte list option"
    assume x: "step_ok buffer x"
    obtain h1 out more where x1: "x = (h1, out, more)" by (cases x)
    have "safeR (\<lambda>r. harbor_ok (fst r)) (bindR (socket_loop fuel sent h1 i fd b) (\<lambda>(h, out'). Inr (h, out @ out')))" if "more = Some b" for b
      using x x1 that Suc.prems by (intro safeR_bind [OF Suc.IH [of h1 b]]) auto
    then show "safeR (\<lambda>r. harbor_ok (fst r)) (case x of (h, out, more) \<Rightarrow> case more of None \<Rightarrow> Inr (h, out)
      | Some buffer \<Rightarrow> (case Suc fuel of 0 \<Rightarrow> Inl Endless_loop | Suc fuel' \<Rightarrow> bindR (socket_loop fuel' sent h i fd buffer) (\<lambda>(h, out'). Inr (h, out @ out'))))"
      using x x1 by (cases more) auto
  qed
qed simp

lemma push_socket_data_safe:
  assumes "harbor_ok h" and "ev_type e = SKYNET_SOCKET_TYPE_DATA"
  shows "safeR (\<lambda>r. harbor_ok (fst r)) (push_socket_data sent h e)"
proof (cases "find_slave h (ev_id e)")
  case None
  then show ?thesis using assms by (simp add: push_socket_data_def)
next
  case (Some i)
  then show ?thesis using assms socket_loop_safe [OF assms(1) find_slave_Some(2) [OF Some]] by (simp add: push_socket_data_def)
qed

lemma harbor_socket_safe:
  assumes "harbor_ok h"
  shows "safeR (\<lambda>r. harbor_ok (fst r)) (harbor_socket sent h e)"
proof (cases "ev_type e = SKYNET_SOCKET_TYPE_DATA")
  case True
  have "safeR (\<lambda>r. harbor_ok (fst r)) (bindR (push_socket_data sent h e) (\<lambda>(h, out). Inr (h, out @ [Free_data])))"
    by (rule safeR_bind [OF push_socket_data_safe [OF assms True]]) auto
  then show ?thesis using True by (simp add: harbor_socket_def)
next
  case False
  then show ?thesis using assms by (simp add: harbor_socket_def Let_def)
qed

section \<open>Names\<close>

lemma slave_ok_queue [simp]: "slave_ok s \<Longrightarrow> hqueue_ok q \<Longrightarrow> slave_ok (s\<lparr>sl_queue := q\<rparr>)"
  by (simp add: slave_ok_def)

lemma harbor_ok_queue [simp]: "harbor_ok h \<Longrightarrow> i < REMOTE_MAX \<Longrightarrow> hqueue_ok q \<Longrightarrow> harbor_ok (set_slave h i ((hb_s h ! i)\<lparr>sl_queue := q\<rparr>))"
  by (simp add: harbor_okD(1))

definition names_ok :: "hashmap \<Rightarrow> bool" where
  "names_ok hash \<longleftrightarrow> length hash = HASH_SIZE \<and> (\<forall>ns\<in>set hash. \<forall>nd\<in>set ns. hqueue_ok (kv_queue nd))"

lemma harbor_ok_names: "harbor_ok h \<Longrightarrow> names_ok (hb_map h)" "harbor_ok h \<Longrightarrow> names_ok hash \<Longrightarrow> harbor_ok (h\<lparr>hb_map := hash\<rparr>)"
  by (simp_all add: harbor_ok_def names_ok_def)

lemma hash_find_safe:
  assumes "names_ok hash"
  shows "\<exists>nd hash'. hash_find hash name = Inr (nd, hash') \<and> names_ok hash' \<and> hqueue_ok (kv_queue nd)"
proof (cases "find (kv_match name) (hash ! name_bucket name)")
  case (Some nd)
  then have "nd \<in> set (hash ! name_bucket name)" by (auto simp: find_Some_iff)
  then have "hqueue_ok (kv_queue nd)" using assms by (metis name_bucket_less names_ok_def nth_mem)
  then show ?thesis using Some assms by (simp add: hash_find_def hash_search_def names_ok_def)
next
  case None
  have "set (hash[name_bucket name := x]) \<subseteq> insert x (set hash)" for x by (rule set_update_subset_insert)
  moreover have "hash ! name_bucket name \<in> set hash" using assms by (simp add: names_ok_def)
  ultimately show ?thesis using None assms
    by (fastforce simp: hash_find_def hash_search_def hash_insert_def Let_def wr_def names_ok_def)
qed

lemma set_node_subset: "set (set_node name nd ns) \<subseteq> insert nd (set ns)"
  by (induction ns) auto

lemma hash_assign_safe:
  assumes "names_ok hash" and "hqueue_ok (kv_queue nd)"
  shows "\<exists>hash'. hash_assign hash name nd = Inr hash' \<and> names_ok hash'"
proof -
  let ?ns = "hash ! name_bucket name"
  have ns: "?ns \<in> set hash" using assms(1) by (simp add: names_ok_def)
  have "\<forall>n\<in>set (set_node name nd ?ns). hqueue_ok (kv_queue n)" using set_node_subset [of name nd ?ns] assms ns unfolding names_ok_def by blast
  then have "names_ok (hash[name_bucket name := set_node name nd ?ns])"
    using set_update_subset_insert [of hash "name_bucket name" "set_node name nd ?ns"] assms(1) by (auto simp: names_ok_def)
  then show ?thesis using assms(1) by (simp add: hash_assign_def names_ok_def wr_def)
qed

lemma node_less [simp]: "unat (drop_bit HANDLE_REMOTE_SHIFT (handle :: u32)) < REMOTE_MAX"
proof -
  have "unat handle < 2 ^ 32" using unsigned_less [of handle] by simp
  moreover from this have "unat (drop_bit 24 handle) = unat handle div 2 ^ 24"
    by (simp add: unsigned_drop_bit_eq) (simp add: drop_bit_eq_div take_bit_nat_eq_self)
  ultimately show ?thesis by (simp add: HANDLE_REMOTE_SHIFT_def REMOTE_MAX_def less_mult_imp_div_less)
qed

lemma dispatch_name_queue_safe:
  assumes h: "harbor_ok h" and q: "hq_inv q"
  shows "\<exists>h' l out. dispatch_name_queue h key handle q = Inr (h', l, out) \<and> harbor_ok h' \<and> hqueue_ok l"
proof -
  define i where "i = unat (drop_bit HANDLE_REMOTE_SHIFT handle)"
  let ?s = "hb_s h ! i"
  have i: "i < REMOTE_MAX" "i < length (hb_s h)" using harbor_okD(2) [OF h] by (simp_all add: i_def)
  have s: "slave_ok ?s" using harbor_okD(1) [OF h i(1)] .
  obtain ms q' where d: "drain_queue q = Inr (ms, q')" "hq_inv q'" using drain_queue_safe [OF q] by blast
  have "\<exists>sq l. (case sl_queue ?s of None \<Rightarrow> Inr (q, None)
      | Some sq \<Rightarrow> bindR (drain_queue q) (\<lambda>(ms, q). bindR (push_all sq ms) (\<lambda>sq. Inr (sq, Some q)))) = Inr (sq, l) \<and> hq_inv sq \<and> hqueue_ok l"
  proof (cases "sl_queue ?s")
    case (Some sq)
    then have "hq_inv sq" using s by (simp add: slave_ok_def)
    then show ?thesis using push_all_safe [of sq ms] d Some by auto
  qed (use q in simp)
  then obtain sq l where m: "(case sl_queue ?s of None \<Rightarrow> Inr (q, None)
      | Some sq \<Rightarrow> bindR (drain_queue q) (\<lambda>(ms, q). bindR (push_all sq ms) (\<lambda>sq. Inr (sq, Some q)))) = Inr (sq, l)" "hq_inv sq" "hqueue_ok l" by blast
  obtain ms2 q2 where "drain_queue sq = Inr (ms2, q2)" using drain_queue_safe [OF m(2)] by blast
  then show ?thesis unfolding dispatch_name_queue_def Let_def i_def [symmetric] using i h s q m d by (simp del: option.case)
qed

lemma update_name_safe:
  assumes h: "harbor_ok h"
  shows "\<exists>h' out. update_name h name handle = Inr (h', out) \<and> harbor_ok h'"
proof -
  obtain nd hash where nd: "hash_find (hb_map h) name = Inr (nd, hash)" "names_ok hash" "hqueue_ok (kv_queue nd)"
    using hash_find_safe [OF harbor_ok_names(1) [OF h]] by blast
  have h1: "harbor_ok (h\<lparr>hb_map := hash\<rparr>)" using harbor_ok_names(2) [OF h nd(2)] .
  have "\<exists>h2 out. (case kv_queue nd of None \<Rightarrow> Inr (h\<lparr>hb_map := hash\<rparr>, [])
      | Some queue \<Rightarrow> bindR (dispatch_name_queue (h\<lparr>hb_map := hash\<rparr>) (kv_key nd) handle queue) (\<lambda>(h, left_over, out).
          bindR (release_queue left_over) (\<lambda>_. Inr (h, out)))) = Inr (h2, out) \<and> harbor_ok h2"
  proof (cases "kv_queue nd")
    case (Some q)
    then obtain h2 l out where "dispatch_name_queue (h\<lparr>hb_map := hash\<rparr>) (kv_key nd) handle q = Inr (h2, l, out)" "harbor_ok h2" "hqueue_ok l"
      using dispatch_name_queue_safe [OF h1] nd(3) by fastforce
    then show ?thesis using release_safe [of l] Some by auto
  qed (use h1 in simp)
  then obtain h2 out where h2: "(case kv_queue nd of None \<Rightarrow> Inr (h\<lparr>hb_map := hash\<rparr>, [])
      | Some queue \<Rightarrow> bindR (dispatch_name_queue (h\<lparr>hb_map := hash\<rparr>) (kv_key nd) handle queue) (\<lambda>(h, left_over, out).
          bindR (release_queue left_over) (\<lambda>_. Inr (h, out)))) = Inr (h2, out)" "harbor_ok h2" by blast
  obtain hash' where "hash_assign (hb_map h2) name (nd\<lparr>kv_value := handle, kv_queue := None\<rparr>) = Inr hash'" "names_ok hash'"
    using hash_assign_safe [OF harbor_ok_names(1) [OF h2(2)], of "nd\<lparr>kv_value := handle, kv_queue := None\<rparr>"] by auto
  then show ?thesis using nd(1) h2 harbor_ok_names(2) [OF h2(2)] by (simp add: update_name_def Let_def)
qed

section \<open>Messages to other nodes\<close>

lemma remote_send_handle_safe:
  assumes h: "harbor_ok h"
  shows "\<exists>r. remote_send_handle h source destination type' session msg = Inr r \<and> harbor_ok (fst r)"
proof -
  define i where "i = unat (drop_bit HANDLE_REMOTE_SHIFT destination)"
  let ?s = "hb_s h ! i"
  let ?header = "\<lparr>rh_source = source, rh_destination = push_bit HANDLE_REMOTE_SHIFT type' OR (destination AND HANDLE_MASK), rh_session = session\<rparr>"
  have i: "i < REMOTE_MAX" "i < length (hb_s h)" using harbor_okD(2) [OF h] by (simp_all add: i_def)
  have s: "slave_ok ?s" using harbor_okD(1) [OF h i(1)] .
  obtain q where "push_queue (case sl_queue ?s of None \<Rightarrow> new_queue | Some q \<Rightarrow> q) msg ?header = Inr q" "hq_inv q"
    using push_safe [of "sl_queue ?s" msg ?header] s by (auto simp: slave_ok_def)
  then show ?thesis unfolding remote_send_handle_def Let_def i_def [symmetric] using i h s by (simp add: ex_bool_eq del: option.case)
qed

lemma remote_send_name_safe:
  assumes h: "harbor_ok h"
  shows "\<exists>r. remote_send_name h source name type' session msg = Inr r \<and> harbor_ok (fst r)"
proof -
  let ?header = "\<lparr>rh_source = source, rh_destination = push_bit HANDLE_REMOTE_SHIFT type', rh_session = session\<rparr>"
  obtain nd hash where nd: "hash_find (hb_map h) name = Inr (nd, hash)" "names_ok hash" "hqueue_ok (kv_queue nd)"
    using hash_find_safe [OF harbor_ok_names(1) [OF h]] by blast
  have h1: "harbor_ok (h\<lparr>hb_map := hash\<rparr>)" using harbor_ok_names(2) [OF h nd(2)] .
  obtain q where q: "push_queue (case kv_queue nd of None \<Rightarrow> new_queue | Some q \<Rightarrow> q) msg ?header = Inr q" "hq_inv q"
    using push_safe [OF nd(3)] by blast
  obtain hash' where "hash_assign hash name (nd\<lparr>kv_queue := Some q\<rparr>) = Inr hash'" "names_ok hash'"
    using hash_assign_safe [OF nd(2), of "nd\<lparr>kv_queue := Some q\<rparr>"] q(2) by auto
  then show ?thesis using nd(1) q remote_send_handle_safe [OF h1] harbor_ok_names(2) [OF h] by (simp add: remote_send_name_def Let_def ex_bool_eq del: option.case)
qed

section \<open>Commands\<close>

lemma harbor_connect_safe:
  assumes h: "harbor_ok h"
  shows "\<exists>r. harbor_connect h cmd buffer = Inr r \<and> harbor_ok (fst r)"
proof -
  obtain fd k where scan: "scan_connect buffer = (fd, k)" by (cases "scan_connect buffer")
  show ?thesis
  proof (cases "fd = 0 \<or> k \<le> 0 \<or> k \<ge> int REMOTE_MAX \<or> sl_fd (hb_s h ! nat k) \<noteq> 0")
    case True
    then show ?thesis using scan h harbor_okD(2) [OF h] by (auto simp: harbor_connect_def)
  next
    case False
    let ?s = "hb_s h ! nat k"
    have k: "nat k < REMOTE_MAX" "nat k < length (hb_s h)" using False harbor_okD(2) [OF h] by auto
    have s: "slave_ok ?s" using harbor_okD(1) [OF h k(1)] .
    then have st: "sl_status ?s = STATUS_WAIT" using False by (simp add: slave_ok_def)
    have "slave_ok (?s\<lparr>sl_fd := fd, sl_status := STATUS_HANDSHAKE\<rparr>)" "slave_ok (?s\<lparr>sl_fd := fd, sl_status := STATUS_HEADER\<rparr>)"
        "slave_ok (?s\<lparr>sl_fd := fd, sl_status := STATUS_HEADER, sl_queue := None\<rparr>)"
      using s st False by (simp_all add: slave_ok_def statuses)
    then have ok: "harbor_ok (set_slave h (nat k) (?s\<lparr>sl_fd := fd, sl_status := STATUS_HANDSHAKE\<rparr>))"
        "harbor_ok (set_slave h (nat k) (?s\<lparr>sl_fd := fd, sl_status := STATUS_HEADER\<rparr>))"
        "harbor_ok (set_slave h (nat k) (?s\<lparr>sl_fd := fd, sl_status := STATUS_HEADER, sl_queue := None\<rparr>))"
      using h by simp_all
    obtain out where "dispatch_queue (set_slave h (nat k) (?s\<lparr>sl_fd := fd, sl_status := STATUS_HEADER\<rparr>)) (nat k) =
        Inr (set_slave h (nat k) (?s\<lparr>sl_fd := fd, sl_status := STATUS_HEADER, sl_queue := None\<rparr>), out)"
      using dispatch_queue_safe [OF ok(2) k(1)] k False by auto
    then show ?thesis using scan False k ok by (simp add: harbor_connect_def handshake_def)
  qed
qed

lemma harbor_command_safe:
  assumes h: "harbor_ok h"
  shows "safeR (\<lambda>r. harbor_ok (fst r)) (harbor_command h msg source)"
proof -
  have text': "safeR (\<lambda>r. harbor_ok (fst r)) (bindR (cstring t) (\<lambda>t. Inr (h, f t)))" for t f using h by (simp add: cstring_def)
  have connect: "safeR (\<lambda>r. harbor_ok (fst r)) (bindR (cstring t) (\<lambda>t. harbor_connect h cmd t))" for t cmd
  proof -
    obtain r where "harbor_connect h cmd (takeWhile (\<lambda>c. c \<noteq> NUL) t) = Inr r" "harbor_ok (fst r)" using harbor_connect_safe [OF h] by blast
    then show ?thesis by (simp add: cstring_def)
  qed
  have name: "safeR (\<lambda>r. harbor_ok (fst r)) (update_name h n source)" for n using update_name_safe [OF h, of n source] by auto
  show ?thesis unfolding harbor_command_def Let_def by (rule safeR_rd) (simp only: text' connect name safeR_simps split: if_split, simp)
qed



section \<open>Nodes that are down\<close>

text \<open>Once a connection is closed, its node is down but the number of the socket stays: a message to the node is sent to the closed
  socket, and the source gets no error. The branch of \<^verbatim>\<open>remote_send_handle\<close> that reports the error is never reached.\<close>

theorem down_harbor_not_reported:
  assumes "harbor_ok h" and "to_node i r" and "sl_status (hb_s h ! i) = STATUS_DOWN" and "hb_id h \<noteq> int i"
  shows "mainloop sent h (remote_message r) = Inr (h, [Net_send (sl_fd (hb_s h ! i)) (remote_bytes r)])"
proof -
  have i: "i < REMOTE_MAX" using assms(2) by (auto simp: to_node_def)
  have "slave_ok (hb_s h ! i)" using harbor_okD(1) [OF assms(1) i] .
  then have "connected h i (sl_fd (hb_s h ! i))" using assms(3,4) i harbor_okD(2) [OF assms(1)] by (auto simp: connected_def slave_ok_def statuses)
  then show ?thesis using assms(2) by (rule remote_connected)
qed

text \<open>Data of a socket that belongs to no node is freed twice.\<close>

theorem unknown_data_freed_twice:
  assumes "find_slave h fd = None"
  shows "\<exists>text'. mainloop sent h (data_message fd d) = Inr (h, [Free_data, Log text', Free_data])"
  using assms by (simp add: mainloop_def data_message_def harbor_socket_def push_socket_data_def)

text \<open>\<^verbatim>\<open>send_remote\<close> sends messages of up to 4 GB, the other end accepts 16 MB: it closes the connection.\<close>

theorem large_message_closes:
  assumes h: "harbor_ok h" and find: "find_slave h fd = Some i" and l: "link_state (hb_s h ! i) []" and big: "2 ^ 24 \<le> length b" "length b < 2 ^ 32"
  shows "\<exists>h' text'. mainloop sent h (data_message fd (hframe b)) = Inr (h', [Log text', Net_close fd, Free_data]) \<and> sl_status (hb_s h' ! i) = STATUS_DOWN"
proof -
  have i: "i < REMOTE_MAX" "sl_fd (hb_s h ! i) = fd" "i < length (hb_s h)" using find_slave_Some [OF find] harbor_okD(2) [OF h] by simp_all
  have s: "slave_ok (hb_s h ! i)" using harbor_okD(1) [OF h i(1)] .
  have st: "sl_status (hb_s h ! i) = STATUS_HEADER" "sl_read (hb_s h ! i) = 0" "length (sl_size (hb_s h ! i)) = 4" using l by (simp_all add: link_state_def)
  then have fd: "fd \<noteq> 0" using s i(2) by (auto simp: slave_ok_def statuses)
  have "unat (drop_bit 24 (of_nat (length b) :: u32)) = length b div 2 ^ 24"
    using big(2) by (simp add: unsigned_drop_bit_eq unsigned_of_nat take_bit_nat_eq_self) (simp add: drop_bit_eq_div)
  moreover have "0 < length b div 2 ^ 24" "length b div 2 ^ 24 < 256" using big by (simp_all add: div_greater_zero_iff less_mult_imp_div_less)
  ultimately have "unat (ucast (drop_bit 24 (of_nat (length b) :: u32)) :: byte) \<noteq> 0"
    by (simp add: unsigned_ucast_eq take_bit_nat_eq_self)
  then have first: "to_bigendian (of_nat (length b)) ! 0 \<noteq> 0" by (auto simp: to_bigendian_def ucast_and_ff)
  obtain ms where "release_queue (sl_queue (hb_s h ! i)) = Inr ms" using release_safe s by (auto simp: slave_ok_def)
  moreover have "memcpyR (sl_size (hb_s h ! i)) 0 (to_bigendian (of_nat (length b))) = Inr (to_bigendian (of_nat (length b)))"
    using st(3) by (simp add: memcpyR_def)
  ultimately show ?thesis using find i st fd first
    by (simp add: mainloop_def data_message_def harbor_socket_def push_socket_data_def socket_loop.simps socket_pass_def header_step_def close_harbor_def
        hframe_def statuses Let_def)
qed

end
