(* ===== verification/Sproto_Pack.thy ===== *)
theory Sproto_Pack
  imports Service Chunk
begin

text \<open>
  The packing of zeros, \<^verbatim>\<open>sproto_pack\<close> and \<^verbatim>\<open>sproto_unpack\<close> of \<^verbatim>\<open>lualib-src/sproto/sproto.c\<close> and the functions \<^verbatim>\<open>pack\<close> and \<^verbatim>\<open>unpack\<close> of
  \<^verbatim>\<open>lsproto.c\<close>. Words of 8 bytes are packed as a byte with one bit for each byte that is not zero, followed by these bytes; runs of
  words with few zeros are copied behind \<open>0xff\<close> and the number of words.

  A pointer into a buffer is a position; a buffer may be longer than the size the function is told. The pointer \<^verbatim>\<open>ff_srcstart\<close> is the memory
  from there on, the rest of the source or the array \<^verbatim>\<open>tmp\<close>, with its position.
\<close>

section \<open>Packing\<close>

type_synonym buffer = "byte option list"

definition pack_byte :: "byte list \<Rightarrow> nat \<Rightarrow> buffer \<times> nat \<times> int \<times> nat \<times> byte \<Rightarrow> (buffer \<times> nat \<times> int \<times> nat \<times> byte) res" where
  "pack_byte src i = (\<lambda>(buf, p, sz, notzero, header).
     bindR (rd src i) (\<lambda>b.
     if b \<noteq> 0 then
       bindR (if sz > 0 then bindR (wr buf p (Some b)) (\<lambda>buf. Inr (buf, p + 1, sz - 1)) else Inr (buf, p, sz)) (\<lambda>(buf, p, sz).
       Inr (buf, p, sz, notzero + 1, header OR push_bit i 1))
     else Inr (buf, p, sz, notzero, header)))"

definition pack_seg :: "byte list \<Rightarrow> buffer \<Rightarrow> nat \<Rightarrow> int \<Rightarrow> nat \<Rightarrow> (nat \<times> buffer) res" where
  "pack_seg src buf p sz n =
     bindR (forR 8 (pack_byte src) (buf, p + 1, sz - 1, 0, 0)) (\<lambda>(buf, _, _, notzero, header).
     let notzero = (if (notzero = 7 \<or> notzero = 6) \<and> n > 0 then 8 else notzero) in
     if notzero = 8 then Inr (if n > 0 then 8 else 10, buf)
     else bindR (if sz - 1 < 0 then Inr buf else wr buf p (Some header)) (\<lambda>buf. Inr (notzero + 1, buf)))"

definition write_ff :: "byte list \<Rightarrow> buffer \<Rightarrow> nat \<Rightarrow> nat \<Rightarrow> buffer res" where
  "write_ff src buf des n =
     (let align8_n = (n + 7) div 8 * 8 in
      bindR (wr buf des (Some 0xff)) (\<lambda>buf.
      bindR (wr buf (des + 1) (Some (of_nat (align8_n div 8 - 1)))) (\<lambda>buf.
      if length src < n then Inl Out_of_bounds
      else
        bindR (memcpyR buf (des + 2) (map Some (take n src))) (\<lambda>buf.
        memcpyR buf (n + des + 2) (replicate (align8_n - n) (Some 0))))))"

record pack_state =
  pk_buf :: buffer
  pk_pos :: nat
  pk_bufsz :: int
  pk_size :: nat
  ff_start :: nat
  ff_srcstart :: "byte list"
  ff_desstart :: nat
  ff_n :: nat

definition pack_word :: "byte list \<Rightarrow> nat \<Rightarrow> byte list" where
  "pack_word src i =
     (let padding = int i + 8 - int (length src) in
      if padding > 0 then take (8 - nat padding) (drop i src) @ replicate (nat padding) 0 else drop i src)"

definition pack_pass :: "byte list \<Rightarrow> nat \<Rightarrow> pack_state \<Rightarrow> pack_state res" where
  "pack_pass srcv k s =
     (let i = 8 * k; src = pack_word srcv i in
      bindR (pack_seg src (pk_buf s) (pk_pos s) (pk_bufsz s) (ff_n s)) (\<lambda>(n, buf).
      let bufsz = pk_bufsz s - int n in
      bindR
        (if n = 10 then Inr (s\<lparr>pk_buf := buf, ff_start := i, ff_srcstart := src, ff_desstart := pk_pos s, ff_n := 1\<rparr>)
         else if n = 8 \<and> ff_n s > 0 then
           if ff_n s + 1 = 256 then
             bindR (if bufsz \<ge> 0 then write_ff (ff_srcstart s) buf (ff_desstart s) (256 * 8) else Inr buf) (\<lambda>buf. Inr (s\<lparr>pk_buf := buf, ff_n := 0\<rparr>))
           else Inr (s\<lparr>pk_buf := buf, ff_n := ff_n s + 1\<rparr>)
         else if ff_n s > 0 then
           bindR (if bufsz \<ge> 0 then write_ff (ff_srcstart s) buf (ff_desstart s) (ff_n s * 8) else Inr buf) (\<lambda>buf. Inr (s\<lparr>pk_buf := buf, ff_n := 0\<rparr>))
         else Inr (s\<lparr>pk_buf := buf\<rparr>)) (\<lambda>s.
      Inr (s\<lparr>pk_pos := pk_pos s + n, pk_bufsz := bufsz, pk_size := pk_size s + n\<rparr>))))"

definition sproto_pack :: "byte list \<Rightarrow> buffer \<Rightarrow> int \<Rightarrow> (nat \<times> buffer) res" where
  "sproto_pack srcv buf bufsz =
     bindR (forR ((length srcv + 7) div 8) (pack_pass srcv)
       \<lparr>pk_buf = buf, pk_pos = 0, pk_bufsz = bufsz, pk_size = 0, ff_start = 0, ff_srcstart = [], ff_desstart = 0, ff_n = 0\<rparr>) (\<lambda>s.
     bindR
       (if pk_bufsz s \<ge> 0 then
          if ff_n s = 1 then write_ff (ff_srcstart s) (pk_buf s) (ff_desstart s) 8
          else if ff_n s > 1 then write_ff (ff_srcstart s) (pk_buf s) (ff_desstart s) (length srcv - ff_start s)
          else Inr (pk_buf s)
        else Inr (pk_buf s)) (\<lambda>buf.
     Inr (pk_size s, buf)))"

section \<open>Unpacking\<close>

text \<open>A step also says whether the function goes on; otherwise the result is \<^verbatim>\<open>-1\<close>.\<close>

record unpack_state =
  up_src :: nat
  up_srcsz :: int
  up_buf :: buffer
  up_pos :: nat
  up_bufsz :: int
  up_size :: nat

definition put_byte :: "unpack_state \<Rightarrow> byte \<Rightarrow> unpack_state res" where
  "put_byte s b = bindR (wr (up_buf s) (up_pos s) (Some b)) (\<lambda>buf. Inr (s\<lparr>up_buf := buf, up_bufsz := up_bufsz s - 1, up_pos := up_pos s + 1\<rparr>))"

definition unpack_byte :: "byte list \<Rightarrow> byte \<Rightarrow> nat \<Rightarrow> bool \<times> unpack_state \<Rightarrow> (bool \<times> unpack_state) res" where
  "unpack_byte srcv header i = (\<lambda>(ok, s).
     if \<not> ok then Inr (False, s)
     else if bit header i then
       if up_srcsz s < 0 then Inr (False, s)
       else
         bindR (if up_bufsz s > 0 then bindR (rd srcv (up_src s)) (\<lambda>b. put_byte s b) else Inr s) (\<lambda>s.
         Inr (True, s\<lparr>up_src := up_src s + 1, up_srcsz := up_srcsz s - 1, up_size := up_size s + 1\<rparr>))
     else
       bindR (if up_bufsz s > 0 then put_byte s 0 else Inr s) (\<lambda>s.
       Inr (True, s\<lparr>up_size := up_size s + 1\<rparr>)))"

definition unpack_ff :: "byte list \<Rightarrow> unpack_state \<Rightarrow> (bool \<times> unpack_state) res" where
  "unpack_ff srcv s =
     (if up_srcsz s < 0 then Inr (False, s)
      else
        bindR (rd srcv (up_src s)) (\<lambda>b.
        let n = (unat b + 1) * 8 in
        if up_srcsz s < int n + 1 then Inr (False, s)
        else
          bindR (if up_bufsz s \<ge> int n then
                   if length srcv < up_src s + 1 + n then Inl Out_of_bounds
                   else memcpyR (up_buf s) (up_pos s) (map Some (take n (drop (up_src s + 1) srcv)))
                 else Inr (up_buf s)) (\<lambda>buf.
          Inr (True, s\<lparr>up_srcsz := up_srcsz s - (int n + 1), up_src := up_src s + 1 + n, up_buf := buf, up_bufsz := up_bufsz s - int n,
            up_pos := up_pos s + n, up_size := up_size s + n\<rparr>))))"

fun unpack_words :: "nat \<Rightarrow> byte list \<Rightarrow> unpack_state \<Rightarrow> (bool \<times> unpack_state) res" where
  "unpack_words fuel srcv s =
     (if up_srcsz s > 0 then
        (case fuel of
           0 \<Rightarrow> Inl Endless_loop
         | Suc fuel' \<Rightarrow>
             bindR (rd srcv (up_src s)) (\<lambda>header.
             let s = s\<lparr>up_srcsz := up_srcsz s - 1, up_src := up_src s + 1\<rparr> in
             bindR (if header = 0xff then unpack_ff srcv s else forR 8 (unpack_byte srcv header) (True, s)) (\<lambda>(ok, s).
             if ok then unpack_words fuel' srcv s else Inr (False, s))))
      else Inr (True, s))"

declare unpack_words.simps [simp del]

text \<open>\<open>None\<close> is the result \<^verbatim>\<open>-1\<close>.\<close>

definition sproto_unpack :: "byte list \<Rightarrow> buffer \<Rightarrow> int \<Rightarrow> (nat option \<times> buffer) res" where
  "sproto_unpack srcv buf bufsz =
     bindR (unpack_words (length srcv) srcv \<lparr>up_src = 0, up_srcsz = int (length srcv), up_buf = buf, up_pos = 0, up_bufsz = bufsz, up_size = 0\<rparr>) (\<lambda>(ok, s).
     Inr (if ok then Some (up_size s) else None, up_buf s))"

section \<open>The Lua functions\<close>

definition ENCODE_BUFFERSIZE :: nat where "ENCODE_BUFFERSIZE = 2050"
definition ENCODE_MAXSIZE :: int where "ENCODE_MAXSIZE = 0x1000000"

text \<open>The loop doubles an \<^verbatim>\<open>int\<close>: after 31 rounds it has overflown.\<close>

fun double_size :: "nat \<Rightarrow> int \<Rightarrow> int \<Rightarrow> int res" where
  "double_size fuel osz nsz =
     (if osz * 2 \<ge> 2 ^ 31 then Inl Int_overflow
      else if osz * 2 < nsz then (case fuel of 0 \<Rightarrow> Inl Endless_loop | Suc fuel' \<Rightarrow> double_size fuel' (osz * 2) nsz)
      else Inr (osz * 2))"

declare double_size.simps [simp del]

text \<open>The upvalues of the functions are the buffer and its size; the size is the length of the list.\<close>

definition expand_buffer :: "int \<Rightarrow> int \<Rightarrow> buffer res" where
  "expand_buffer osz nsz =
     bindR (double_size 31 osz nsz) (\<lambda>osz.
     if osz > ENCODE_MAXSIZE then Inl (Lua_error ''object is too large (>%d)'') else Inr (replicate (nat osz) None))"

definition pushfunction_withbuffer :: buffer where
  "pushfunction_withbuffer = replicate ENCODE_BUFFERSIZE None"

text \<open>The result of \<^verbatim>\<open>pack\<close> and \<^verbatim>\<open>unpack\<close>, with the buffer that is kept for the next call.\<close>

definition sproto_lpack :: "buffer \<Rightarrow> byte list \<Rightarrow> (byte list \<times> buffer) res" where
  "sproto_lpack output buffer =
     (let maxsz = (length buffer + 2047) div 2048 * 2 + length buffer + 2 in
      bindR (if length output < maxsz then expand_buffer (int (length output)) (int_of_long (int maxsz)) else Inr output) (\<lambda>output.
      bindR (sproto_pack buffer output (int_of_long (int maxsz))) (\<lambda>(bytes, output).
      if bytes > maxsz then Inl (Lua_error ''packing error, return size = %d'')
      else bindR (lua_pushlstring output bytes) (\<lambda>r. Inr (r, output)))))"

definition sproto_lunpack :: "buffer \<Rightarrow> byte list \<Rightarrow> (byte list \<times> buffer) res" where
  "sproto_lunpack output buffer =
     bindR (sproto_unpack buffer output (int (length output))) (\<lambda>(r, output).
     case r of
       None \<Rightarrow> Inl (Lua_error ''Invalid unpack stream'')
     | Some r \<Rightarrow>
         if r > length output then
           bindR (expand_buffer (int (length output)) (int r)) (\<lambda>output.
           bindR (sproto_unpack buffer output (int r)) (\<lambda>(r, output).
           case r of
             None \<Rightarrow> Inl (Lua_error ''Invalid unpack stream'')
           | Some r \<Rightarrow> bindR (lua_pushlstring output r) (\<lambda>t. Inr (t, output))))
         else bindR (lua_pushlstring output r) (\<lambda>t. Inr (t, output)))"

end
