(* ===== verification/Sproto_Pack_Laws.thy ===== *)
theory Sproto_Pack_Laws
  imports Sproto_Pack
begin

text \<open>
  What packing and unpacking do: the source is a list of words, and the packed text a list of blocks, single words and runs of words.
\<close>

section \<open>Words and blocks\<close>

definition zpadded :: "byte list \<Rightarrow> byte list" where
  "zpadded src = src @ replicate ((length src + 7) div 8 * 8 - length src) 0"

definition word_at :: "byte list \<Rightarrow> nat \<Rightarrow> byte list" where
  "word_at src k = take 8 (drop (8 * k) (zpadded src))"

definition words :: "byte list \<Rightarrow> byte list list" where
  "words src = map (word_at src) [0..<(length src + 7) div 8]"

definition zheader :: "byte list \<Rightarrow> byte" where
  "zheader w = fold (\<lambda>i h. if w ! i \<noteq> 0 then h OR push_bit i 1 else h) [0..<8] 0"

definition zbytes :: "byte list \<Rightarrow> byte list" where
  "zbytes w = filter (\<lambda>b. b \<noteq> 0) w"

datatype block = Word "byte list" | Run "byte list list"

fun block_enc :: "block \<Rightarrow> byte list" where
  "block_enc (Word w) = zheader w # zbytes w"
| "block_enc (Run ws) = 0xff # of_nat (length ws - 1) # concat ws"

fun block_dec :: "block \<Rightarrow> byte list" where
  "block_dec (Word w) = w"
| "block_dec (Run ws) = concat ws"

definition flush :: "byte list list \<Rightarrow> block list" where
  "flush ff = (if ff = [] then [] else [Run ff])"

fun word_step :: "block list \<times> byte list list \<Rightarrow> byte list \<Rightarrow> block list \<times> byte list list" where
  "word_step (bs, ff) w =
     (if ff = [] then if length (zbytes w) = 8 then (bs, [w]) else (bs @ [Word w], [])
      else if length (zbytes w) \<ge> 6 then if length ff + 1 = 256 then (bs @ [Run (ff @ [w])], []) else (bs, ff @ [w])
      else (bs @ [Run ff, Word w], []))"

definition blocks :: "byte list \<Rightarrow> block list" where
  "blocks src = (let (bs, ff) = foldl word_step ([], []) (words src) in bs @ flush ff)"

definition zpacked :: "byte list \<Rightarrow> byte list" where
  "zpacked src = concat (map block_enc (blocks src))"

text \<open>The last run has 256 words, and its last word is not complete.\<close>

definition pack_overread :: "byte list \<Rightarrow> bool" where
  "pack_overread src \<longleftrightarrow> length src mod 8 \<noteq> 0 \<and>
     (let ff = snd (foldl word_step ([], []) (butlast (words src))) in length ff = 255 \<and> 6 \<le> length (zbytes (last (words src))))"

lemma zpadded_length [simp]: "length (zpadded src) = (length src + 7) div 8 * 8"
  by (simp add: zpadded_def)

lemma words_length [simp]: "length (words src) = (length src + 7) div 8"
  by (simp add: words_def)

lemma word_at_length [simp]: "k < (length src + 7) div 8 \<Longrightarrow> length (word_at src k) = 8"
  by (simp add: word_at_def)

lemma words_nth [simp]: "k < (length src + 7) div 8 \<Longrightarrow> words src ! k = word_at src k"
  by (simp add: words_def)

lemma words_8: "w \<in> set (words src) \<Longrightarrow> length w = 8"
  by (auto simp: words_def)

lemma concat_words: "j + n \<le> (length src + 7) div 8 \<Longrightarrow> concat (map (word_at src) [j..<j + n]) = take (8 * n) (drop (8 * j) (zpadded src))"
proof (induction n)
  case (Suc n)
  have "take (8 * Suc n) (drop (8 * j) (zpadded src)) = take (8 * n) (drop (8 * j) (zpadded src)) @ take 8 (drop (8 * n) (drop (8 * j) (zpadded src)))"
    using take_add [of "8 * n" 8 "drop (8 * j) (zpadded src)"] by (simp add: add.commute)
  then show ?case using Suc by (simp add: word_at_def add.commute algebra_simps)
qed simp

lemma concat_all_words: "concat (words src) = zpadded src"
  using concat_words [of 0 "(length src + 7) div 8" src] by (simp add: words_def)

lemma pack_word_at:
  assumes "k < (length src + 7) div 8"
  shows "take 8 (pack_word src (8 * k)) = word_at src k" "8 \<le> length (pack_word src (8 * k))"
    and "8 * k + 8 \<le> length src \<Longrightarrow> pack_word src (8 * k) = drop (8 * k) src"
proof -
  have k: "8 * k < length src" using assms by linarith
  show "8 * k + 8 \<le> length src \<Longrightarrow> pack_word src (8 * k) = drop (8 * k) src" by (simp add: pack_word_def)
  show "take 8 (pack_word src (8 * k)) = word_at src k"
  proof (cases "8 * k + 8 \<le> length src")
    case True
    then show ?thesis by (simp add: pack_word_def word_at_def zpadded_def)
  next
    case False
    then have "(length src + 7) div 8 = k + 1" using k by (intro div_nat_eqI) simp_all
    then show ?thesis using False k by (simp add: pack_word_def word_at_def zpadded_def nat_diff_distrib)
  qed
  show "8 \<le> length (pack_word src (8 * k))" using k by (simp add: pack_word_def Let_def) linarith
qed

section \<open>One word\<close>

lemma take_write: "i < length b \<Longrightarrow> take (Suc i) (b[i := x]) = take i b @ [x]"
  by (simp add: take_Suc_conv_app_nth)

lemma zbytes_take_Suc: "i < length w \<Longrightarrow> zbytes (take (Suc i) w) = zbytes (take i w) @ (if w ! i \<noteq> 0 then [w ! i] else [])"
  by (simp add: zbytes_def take_Suc_conv_app_nth)

lemma zbytes_le: "length (zbytes w) \<le> length w"
  by (simp add: zbytes_def)

definition seg_len :: "nat \<Rightarrow> byte list \<Rightarrow> nat" where
  "seg_len n w = (let z = length (zbytes w) in if n > 0 \<and> z \<ge> 6 then 8 else if z = 8 then 10 else z + 1)"

definition zbits :: "byte list \<Rightarrow> nat \<Rightarrow> byte" where
  "zbits w i = fold (\<lambda>i h. if w ! i \<noteq> 0 then h OR push_bit i 1 else h) [0..<i] 0"

lemma zbits_simps [simp]: "zbits w 0 = 0" "zbits w (Suc i) = (if w ! i \<noteq> 0 then zbits w i OR push_bit i 1 else zbits w i)"
  by (simp_all add: zbits_def)

text \<open>The state of the loop of \<^verbatim>\<open>pack_seg\<close>: \<open>c\<close> of the bytes fit into the buffer.\<close>

definition seg_inv :: "byte list \<Rightarrow> buffer \<Rightarrow> nat \<Rightarrow> int \<Rightarrow> nat \<Rightarrow> buffer \<times> nat \<times> int \<times> nat \<times> byte \<Rightarrow> bool" where
  "seg_inv src buf p sz i t \<longleftrightarrow>
     (let z = zbytes (take i src); c = min (length z) (nat sz) in
      \<exists>b. t = (b, p + c, sz - int c, length z, zbits src i) \<and> length b = length buf \<and> take (p + c) b = take p buf @ map Some (take c z))"

lemma pack_byte_ok:
  assumes i: "i < length src" and room: "int p + sz \<le> int (length buf)" and inv: "seg_inv src buf p sz i t"
  shows "\<exists>t'. pack_byte src i t = Inr t' \<and> seg_inv src buf p sz (Suc i) t'"
proof -
  define z where "z = zbytes (take i src)"
  obtain b where b: "t = (b, p + min (length z) (nat sz), sz - int (min (length z) (nat sz)), length z, zbits src i)" "length b = length buf"
      "take (p + min (length z) (nat sz)) b = take p buf @ map Some (take (min (length z) (nat sz)) z)"
    using inv by (auto simp: seg_inv_def z_def Let_def)
  have z': "zbytes (take (Suc i) src) = z @ (if src ! i \<noteq> 0 then [src ! i] else [])" using zbytes_take_Suc [OF i] by (simp add: z_def)
  show ?thesis
  proof (cases "src ! i \<noteq> 0 \<and> length z < nat sz")
    case True
    let ?q = "p + length z"
    have c: "min (length z) (nat sz) = length z" "min (Suc (length z)) (nat sz) = Suc (length z)" "sz - int (length z) > 0" using True by auto
    have q: "?q < length b" using True room b(2) by linarith
    have "take (Suc ?q) (b[?q := Some (src ! i)]) = take p buf @ map Some (z @ [src ! i])" using take_write [OF q] b(3) c(1) by simp
    then show ?thesis using True b(1,2) i q c by (simp add: pack_byte_def seg_inv_def z' Let_def)
  next
    case False
    then have "min (length (z @ (if src ! i \<noteq> 0 then [src ! i] else []))) (nat sz) = min (length z) (nat sz)" by auto
    moreover have "\<not> (src ! i \<noteq> 0 \<and> 0 < sz - int (min (length z) (nat sz)))" using False by (cases "length z < nat sz") auto
    ultimately show ?thesis using b i False unfolding seg_inv_def z' Let_def by (auto simp: pack_byte_def)
  qed
qed

lemma pack_bytes:
  assumes "8 \<le> length src" and "int p + sz \<le> int (length buf)"
  shows "\<exists>t. forR 8 (pack_byte src) (buf, p, sz, 0, 0) = Inr t \<and> seg_inv src buf p sz 8 t"
proof (rule forR_invariant)
  show "seg_inv src buf p sz 0 (buf, p, sz, 0, 0)" by (simp add: seg_inv_def zbytes_def Let_def)
  fix i t assume "i < 8" "seg_inv src buf p sz i t"
  then show "\<exists>t'. pack_byte src i t = Inr t' \<and> seg_inv src buf p sz (Suc i) t'" using pack_byte_ok [OF _ assms(2)] assms(1) by simp
qed

lemma zbits_header: "8 \<le> length src \<Longrightarrow> zbits src 8 = zheader (take 8 src)"
proof -
  have "zbits src k = zbits (take 8 src) k" if "k \<le> 8" for k using that by (induction k) simp_all
  then show ?thesis by (simp add: zheader_def zbits_def)
qed

lemma pack_seg_ok:
  assumes len: "8 \<le> length src" and room: "int p + sz \<le> int (length buf)"
  defines "w \<equiv> take 8 src"
  shows "\<exists>b. pack_seg src buf p sz n = Inr (seg_len n w, b) \<and> length b = length buf \<and> take p b = take p buf \<and>
    (int (seg_len n w) \<le> sz \<longrightarrow> length (zbytes w) < (if n > 0 then 6 else 8) \<longrightarrow> take (p + seg_len n w) b = take p buf @ map Some (block_enc (Word w)))"
proof -
  let ?z = "zbytes w" and ?c = "min (length (zbytes w)) (nat (sz - 1))"
  obtain b0 where b0: "forR 8 (pack_byte src) (buf, p + 1, sz - 1, 0, 0) = Inr (b0, p + 1 + ?c, sz - 1 - int ?c, length ?z, zheader w)"
    "length b0 = length buf" "take (p + 1 + ?c) b0 = take (p + 1) buf @ map Some (take ?c ?z)"
    using pack_bytes [OF len, of "p + 1" "sz - 1" buf] room zbits_header [OF len] by (auto simp: seg_inv_def w_def Let_def)
  have z8: "length ?z \<le> 8" using zbytes_le [of w] len by (simp add: w_def)
  have frame: "take p b0 = take p buf"
  proof -
    have "take p b0 = take p (take (p + 1 + ?c) b0)" by simp
    also have "\<dots> = take p buf" unfolding b0(3) using room by (cases "p \<le> length buf") simp_all
    finally show ?thesis .
  qed
  show ?thesis
  proof (cases "length ?z < (if n > 0 then 6 else 8)")
    case False
    then have "pack_seg src buf p sz n = Inr (seg_len n w, b0)"
      using b0(1) z8 by (auto simp: pack_seg_def seg_len_def Let_def split: if_splits)
    then show ?thesis using b0(2) frame False by simp
  next
    case True
    then have sl: "seg_len n w = length ?z + 1" by (auto simp: seg_len_def Let_def split: if_splits)
    show ?thesis
    proof (cases "sz - 1 < 0")
      case short: True
      then have "pack_seg src buf p sz n = Inr (seg_len n w, b0)" using b0(1) True sl by (auto simp: pack_seg_def Let_def split: if_splits)
      then show ?thesis using b0(2) frame short sl by simp
    next
      case room': False
      then have p: "p < length b0" using room b0(2) by simp
      let ?b = "b0[p := Some (zheader w)]"
      have seg: "pack_seg src buf p sz n = Inr (seg_len n w, ?b)" using b0(1) True sl room' p by (auto simp: pack_seg_def Let_def split: if_splits)
      have "take (p + seg_len n w) ?b = take p buf @ map Some (block_enc (Word w))" if fit: "int (seg_len n w) \<le> sz"
      proof -
        have c: "?c = length ?z" using fit sl by simp
        have "take (p + 1 + length ?z) ?b = (take (p + 1) buf @ map Some ?z)[p := Some (zheader w)]"
          using b0(3) c by (simp add: take_update_swap)
        also have "\<dots> = take p buf @ Some (zheader w) # map Some ?z"
          using p b0(2) by (simp add: list_update_append take_Suc_conv_app_nth)
        finally show ?thesis by (simp add: sl)
      qed
      then show ?thesis using seg b0(2) frame by simp
    qed
  qed
qed

section \<open>A run\<close>

lemma write_ff_ok:
  assumes "n \<le> length src" and "des + 2 + (n + 7) div 8 * 8 \<le> length buf" and "0 < n"
  shows "write_ff src buf des n = Inr (take des buf @ map Some (0xff # of_nat ((n + 7) div 8 - 1) # take n src @ replicate ((n + 7) div 8 * 8 - n) 0) @
    drop (des + 2 + (n + 7) div 8 * 8) buf)"
proof -
  let ?a = "(n + 7) div 8 * 8"
  have a: "n \<le> ?a" by simp
  let ?b = "buf[des := Some 0xff, des + 1 := Some (of_nat ((n + 7) div 8 - 1))]"
  have b: "take (des + 2) ?b = take des buf @ [Some 0xff, Some (of_nat ((n + 7) div 8 - 1))]" "drop (des + 2 + k) ?b = drop (des + 2 + k) buf" for k
    using assms(2) by (simp_all add: take_write add.commute)
  show ?thesis using assms a b by (simp add: write_ff_def Let_def add.commute)
qed

lemma words_take_full:
  assumes "j \<le> k" and "8 * k \<le> length src"
  shows "concat (map (word_at src) [j..<k]) = take (8 * (k - j)) (drop (8 * j) src)"
proof -
  have "k \<le> (length src + 7) div 8" using assms(2) by linarith
  then have "concat (map (word_at src) [j..<k]) = take (8 * (k - j)) (drop (8 * j) (zpadded src))" using concat_words [of j "k - j" src] assms(1) by simp
  moreover have "8 * (k - j) \<le> length src - 8 * j" using assms by (simp add: diff_mult_distrib2 diff_le_mono)
  ultimately show ?thesis using assms by (simp add: zpadded_def)
qed

lemma write_run:
  assumes ff: "ff = map (word_at src) [j..<k]" "j < k" and full: "8 * k \<le> length src" and room: "des + 2 + 8 * length ff \<le> length b"
  shows "write_ff (drop (8 * j) src) b des (length ff * 8) = Inr (take des b @ map Some (block_enc (Run ff)) @ drop (des + 2 + 8 * length ff) b)"
proof -
  have len: "length ff = k - j" "length ff * 8 \<le> length (drop (8 * j) src)" using ff full by simp_all
  have "take (length ff * 8) (drop (8 * j) src) = concat ff" using words_take_full [of j k src] ff full by (simp add: len(1) mult.commute)
  then show ?thesis using write_ff_ok [of "length ff * 8" "drop (8 * j) src" des b] room ff(2) len by (simp add: mult.commute)
qed

text \<open>The last run may end with an incomplete word.\<close>

lemma write_last_run:
  assumes ff: "ff = map (word_at src) [j..<(length src + 7) div 8]" "j < (length src + 7) div 8" and room: "des + 2 + 8 * length ff \<le> length b"
  shows "write_ff (drop (8 * j) src) b des (length src - 8 * j) = Inr (take des b @ map Some (block_enc (Run ff)) @ drop (des + 2 + 8 * length ff) b)"
proof -
  let ?m = "(length src + 7) div 8" and ?n = "length src - 8 * j"
  have m: "8 * j < length src" using ff(2) by linarith
  have a: "(?n + 7) div 8 = ?m - j"
  proof -
    have "length src + 7 = (?n + 7) + 8 * j" using m by simp
    then have "?m = (?n + 7) div 8 + j" by (metis add.commute div_mult_self2 mult.commute zero_neq_numeral)
    then show ?thesis by simp
  qed
  have len: "length ff = ?m - j" using ff by simp
  have "concat ff = take (8 * (?m - j)) (drop (8 * j) (zpadded src))" using concat_words [of j "?m - j" src] ff by simp
  also have "\<dots> = drop (8 * j) (zpadded src)" by (simp add: diff_mult_distrib2 mult.commute)
  also have "\<dots> = drop (8 * j) src @ replicate ((?m - j) * 8 - ?n) 0" using m by (simp add: zpadded_def diff_mult_distrib mult.commute) 
  finally have "concat ff = drop (8 * j) src @ replicate ((?m - j) * 8 - ?n) 0" .
  moreover define n where "n = ?n"
  ultimately have c: "take n (drop (8 * j) src) @ replicate (length ff * 8 - n) 0 = concat ff" by (simp add: len)
  have n: "0 < n" "n \<le> length (drop (8 * j) src)" and e: "(n + 7) div 8 = length ff" using m a len by (simp_all add: n_def)
  have "des + 2 + length ff * 8 \<le> length b" using room by (simp add: mult.commute)
  from write_ff_ok [of n "drop (8 * j) src" des b, unfolded e c, OF n(2) this n(1)] show ?thesis by (simp only: n_def block_enc.simps mult.commute)
qed

section \<open>All words\<close>

abbreviation pack_st :: "byte list \<Rightarrow> nat \<Rightarrow> block list \<times> byte list list" where
  "pack_st src k \<equiv> foldl word_step ([], []) (take k (words src))"

fun block_ok :: "block \<Rightarrow> bool" where
  "block_ok (Word w) \<longleftrightarrow> length w = 8 \<and> length (zbytes w) < 8"
| "block_ok (Run ws) \<longleftrightarrow> ws \<noteq> [] \<and> length ws \<le> 256 \<and> (\<forall>w\<in>set ws. length w = 8)"

lemma pack_st_Suc: "k < (length src + 7) div 8 \<Longrightarrow> pack_st src (Suc k) = word_step (pack_st src k) (word_at src k)"
  by (simp add: take_Suc_conv_app_nth)

lemma pack_st_ok:
  assumes "k \<le> (length src + 7) div 8"
  shows "case pack_st src k of (bs, ff) \<Rightarrow> length ff < 256 \<and> length ff \<le> k \<and> ff = map (word_at src) [k - length ff..<k] \<and>
    (\<forall>b\<in>set bs. block_ok b) \<and> concat (map block_dec bs) @ concat ff = concat (take k (words src))"
  using assms
proof (induction k)
  case (Suc k)
  then have k: "k < (length src + 7) div 8" by simp
  obtain bs ff where st: "pack_st src k = (bs, ff)" by fastforce
  have IH: "length ff < 256" "length ff \<le> k" "ff = map (word_at src) [k - length ff..<k]" "\<forall>b\<in>set bs. block_ok b"
    "concat (map block_dec bs) @ concat ff = concat (take k (words src))" using Suc st by simp_all
  let ?w = "word_at src k"
  have w: "length ?w = 8" "length (zbytes ?w) \<le> 8" using k zbytes_le [of ?w] by simp_all
  have t: "concat (take (Suc k) (words src)) = (concat (map block_dec bs) @ concat ff) @ ?w" using k IH(5) by (simp add: take_Suc_conv_app_nth)
  have ff: "\<forall>w\<in>set ff. length w = 8" using IH(3) k by (metis (no_types, lifting) atLeastLessThan_iff imageE less_trans list.set_map set_upt word_at_length)
  have ext: "ff @ [?w] = map (word_at src) [Suc k - length (ff @ [?w])..<Suc k]" using IH(2,3) by simp
  show ?case unfolding pack_st_Suc [OF k] st
    using IH(1,2,4) w t ff ext by (auto simp: less_Suc_eq_le)
qed simp

abbreviation out_of :: "block list \<Rightarrow> byte list" where
  "out_of bs \<equiv> concat (map block_enc bs)"

definition run_size :: "byte list list \<Rightarrow> nat" where
  "run_size ff = (if ff = [] then 0 else 2 + 8 * length ff)"

text \<open>The state of the loop of \<^verbatim>\<open>sproto_pack\<close>: the blocks are in the buffer, if it is large enough, and behind them is room for the run.\<close>

definition pack_inv :: "byte list \<Rightarrow> int \<Rightarrow> nat \<Rightarrow> nat \<Rightarrow> pack_state \<Rightarrow> bool" where
  "pack_inv src B L k s \<longleftrightarrow>
     (case pack_st src k of (bs, ff) \<Rightarrow>
        ff_n s = length ff \<and> pk_pos s = length (out_of bs) + run_size ff \<and> pk_size s = pk_pos s \<and> pk_bufsz s = B - int (pk_pos s) \<and> length (pk_buf s) = L \<and>
        (ff \<noteq> [] \<longrightarrow> ff_desstart s = length (out_of bs) \<and> ff_start s = 8 * (k - length ff) \<and> ff_srcstart s = pack_word src (8 * (k - length ff))) \<and>
        (int (pk_pos s) \<le> B \<longrightarrow> take (length (out_of bs)) (pk_buf s) = map Some (out_of bs)))"

lemma take_le_eq: "take p b = take p b' \<Longrightarrow> n \<le> p \<Longrightarrow> take n b = take n b'"
  by (metis min.absorb1 take_take)

lemma pack_pass_ok:
  assumes k: "k < (length src + 7) div 8" and B: "B \<le> int L" and inv: "pack_inv src B L k s"
    and full: "length (snd (pack_st src k)) = 255 \<Longrightarrow> 6 \<le> length (zbytes (word_at src k)) \<Longrightarrow> 8 * k + 8 \<le> length src"
  shows "\<exists>s'. pack_pass src k s = Inr s' \<and> pack_inv src B L (Suc k) s'"
proof -
  obtain bs ff where st: "pack_st src k = (bs, ff)" by fastforce
  let ?w = "word_at src k" and ?n = "length (out_of bs)" and ?z = "length (zbytes (word_at src k))"
  have i: "ff_n s = length ff" "pk_pos s = ?n + run_size ff" "pk_size s = pk_pos s" "pk_bufsz s = B - int (pk_pos s)" "length (pk_buf s) = L"
    "ff \<noteq> [] \<Longrightarrow> ff_desstart s = ?n" "ff \<noteq> [] \<Longrightarrow> ff_start s = 8 * (k - length ff)" "ff \<noteq> [] \<Longrightarrow> ff_srcstart s = pack_word src (8 * (k - length ff))"
    "int (pk_pos s) \<le> B \<Longrightarrow> take ?n (pk_buf s) = map Some (out_of bs)"
    using inv by (auto simp: pack_inv_def st)
  have ff: "length ff < 256" "length ff \<le> k" "ff = map (word_at src) [k - length ff..<k]" using pack_st_ok [of k src] k by (simp_all add: st)
  have w: "take 8 (pack_word src (8 * k)) = ?w" "8 \<le> length (pack_word src (8 * k))" using pack_word_at [OF k] by simp_all
  have z8: "?z \<le> 8" using zbytes_le [of ?w] k by simp
  have room: "int (pk_pos s) + pk_bufsz s \<le> int (length (pk_buf s))" using i(4,5) B by simp
  obtain b where b: "pack_seg (pack_word src (8 * k)) (pk_buf s) (pk_pos s) (pk_bufsz s) (ff_n s) = Inr (seg_len (length ff) ?w, b)"
    "length b = L" "take (pk_pos s) b = take (pk_pos s) (pk_buf s)"
    "int (seg_len (length ff) ?w) \<le> pk_bufsz s \<Longrightarrow> ?z < (if length ff > 0 then 6 else 8) \<Longrightarrow>
       take (pk_pos s + seg_len (length ff) ?w) b = take (pk_pos s) (pk_buf s) @ map Some (block_enc (Word ?w))"
    using pack_seg_ok [OF w(2) room, of "ff_n s"] i(1,5) unfolding w(1) by (auto simp del: block_enc.simps)
  have bn: "take ?n b = map Some (out_of bs)" if "int (pk_pos s) \<le> B" using take_le_eq [OF b(3), of ?n] i(2,9) that by simp
  have src: "ff_srcstart s = drop (8 * (k - length ff)) src" "8 * k < length src" if "ff \<noteq> []"
  proof -
    show lt: "8 * k < length src" using k by linarith
    have "k - length ff < k" using that ff(2) by (cases ff) auto
    then have "8 * (k - length ff) + 8 \<le> length src" using lt by linarith
    then show "ff_srcstart s = drop (8 * (k - length ff)) src" using i(8) [OF that] pack_word_at(3) [of "k - length ff" src] k by simp
  qed
  have st': "pack_st src (Suc k) = word_step (bs, ff) ?w" using pack_st_Suc [OF k] st by simp
  consider (a) "ff = []" "?z = 8" | (b) "ff = []" "?z < 8" | (c) "ff \<noteq> []" "6 \<le> ?z" "length ff = 255" | (d) "ff \<noteq> []" "6 \<le> ?z" "length ff < 255" | (e) "ff \<noteq> []" "?z < 6"
    using z8 ff(1) by linarith
  then show ?thesis
  proof cases
    case a
    then have "seg_len (length ff) ?w = 10" by (simp add: seg_len_def)
    then show ?thesis using a b(1,2) i bn by (simp add: pack_pass_def pack_inv_def st' run_size_def Let_def)
  next
    case b': b
    then have len: "seg_len (length ff) ?w = ?z + 1" by (simp add: seg_len_def)
    then have "pack_pass src k s = Inr (s\<lparr>pk_buf := b, pk_pos := pk_pos s + (?z + 1), pk_bufsz := pk_bufsz s - int (?z + 1), pk_size := pk_size s + (?z + 1)\<rparr>)"
      using b' b(1) i(1) by (simp add: pack_pass_def Let_def)
    moreover have "take (?n + (?z + 1)) b = map Some (out_of (bs @ [Word ?w]))" if "int (pk_pos s + (?z + 1)) \<le> B"
      using b(4) b' len i that by (simp add: run_size_def)
    ultimately show ?thesis using b' i b(2) by (simp add: pack_inv_def st' run_size_def)
  next
    case c
    then have len: "seg_len (length ff) ?w = 8" by (simp add: seg_len_def)
    have fw: "8 * Suc k \<le> length src" using full c st by simp
    have run: "ff @ [?w] = map (word_at src) [k - length ff..<Suc k]" using ff(2,3) by simp
    have "length (concat (ff @ [?w])) = 8 * length (ff @ [?w])" using words_take_full [of "k - length ff" "Suc k" src] fw run c ff(2) by simp
    then have el: "length (block_enc (Run (ff @ [?w]))) = 2050" using c by simp
    show ?thesis
    proof (cases "pk_bufsz s - 8 \<ge> 0")
      case True
      have "k - length ff < Suc k" by simp
      moreover have "?n + 2 + 8 * length (ff @ [?w]) \<le> length b" using True i(2,4) b(2) B c by (simp add: run_size_def)
      ultimately have "write_ff (ff_srcstart s) b (ff_desstart s) (256 * 8) = Inr (take ?n b @ map Some (block_enc (Run (ff @ [?w]))) @ drop (?n + 2 + 2048) b)"
        using write_run [OF run _ fw] src(1) c i(6) by (simp del: block_enc.simps)
      moreover have "?n \<le> length b" "pk_pos s + 8 = ?n + 2050" "?n + 2050 \<le> L" using True i(2,4) b(2) B c by (simp_all add: run_size_def)
      ultimately show ?thesis using c len b(1,2) i bn True el
        by (simp add: pack_pass_def pack_inv_def st' run_size_def Let_def del: block_enc.simps)
    next
      case False
      then show ?thesis using c len b(1,2) i el
        by (simp add: pack_pass_def pack_inv_def st' run_size_def Let_def del: block_enc.simps)
    qed
  next
    case d
    then have "seg_len (length ff) ?w = 8" by (simp add: seg_len_def)
    then show ?thesis using d b(1,2) i bn ff(2) by (simp add: pack_pass_def pack_inv_def st' run_size_def Let_def)
  next
    case e
    then have len: "seg_len (length ff) ?w = ?z + 1" by (simp add: seg_len_def)
    have "length (concat ff) = 8 * length ff" using words_take_full [of "k - length ff" k src] src(2) ff e by simp
    then have el: "length (block_enc (Run ff)) = 2 + 8 * length ff" "length (block_enc (Word ?w)) = Suc ?z" by simp_all
    show ?thesis
    proof (cases "pk_bufsz s - int (?z + 1) \<ge> 0")
      case True
      have "k - length ff < k" using e ff(2) by (cases ff) auto
      moreover have "?n + 2 + 8 * length ff \<le> length b" "8 * k \<le> length src" using True i(2,4) b(2) B e src(2) by (simp_all add: run_size_def)
      ultimately have wr: "write_ff (ff_srcstart s) b (ff_desstart s) (length ff * 8) = Inr (take ?n b @ map Some (block_enc (Run ff)) @ drop (?n + 2 + 8 * length ff) b)"
        using write_run [OF ff(3)] src(1) e i(6) by simp
      have pos: "pk_pos s = ?n + 2 + 8 * length ff" "?n + 2 + 8 * length ff \<le> L" "?n \<le> length b" using True i(2,4) b(2) B e by (simp_all add: run_size_def)
      have "take (?z + 1) (drop (pk_pos s) b) = map Some (block_enc (Word ?w))"
      proof -
        have "take (pk_pos s + (?z + 1)) b = take (pk_pos s) (pk_buf s) @ map Some (block_enc (Word ?w))" using b(4) e len True by simp
        then have "drop (pk_pos s) (take (pk_pos s + (?z + 1)) b) = map Some (block_enc (Word ?w))" using pos i(4,5) True B by (simp del: block_enc.simps)
        then show ?thesis by (simp add: drop_take del: block_enc.simps)
      qed
      then show ?thesis using wr pos el e len b(1,2) i bn True
        by (simp add: pack_pass_def pack_inv_def st' run_size_def Let_def del: block_enc.simps)
    next
      case False
      then show ?thesis using e len b(1,2) i el
        by (simp add: pack_pass_def pack_inv_def st' run_size_def Let_def del: block_enc.simps)
    qed
  qed
qed

lemma pack_loop_ok:
  assumes "B \<le> int (length buf)" and "\<not> pack_overread src"
  shows "\<exists>s. forR ((length src + 7) div 8) (pack_pass src)
      \<lparr>pk_buf = buf, pk_pos = 0, pk_bufsz = B, pk_size = 0, ff_start = 0, ff_srcstart = [], ff_desstart = 0, ff_n = 0\<rparr> = Inr s \<and>
    pack_inv src B (length buf) ((length src + 7) div 8) s"
proof (rule forR_invariant)
  show "pack_inv src B (length buf) 0 \<lparr>pk_buf = buf, pk_pos = 0, pk_bufsz = B, pk_size = 0, ff_start = 0, ff_srcstart = [], ff_desstart = 0, ff_n = 0\<rparr>"
    by (simp add: pack_inv_def run_size_def)
  fix k s assume k: "k < (length src + 7) div 8" and inv: "pack_inv src B (length buf) k s"
  have "8 * k + 8 \<le> length src" if "length (snd (pack_st src k)) = 255" "6 \<le> length (zbytes (word_at src k))"
  proof (cases "Suc k = (length src + 7) div 8")
    case True
    then have "words src \<noteq> []" "butlast (words src) = take k (words src)" "last (words src) = word_at src k"
      using words_length [of src] by (auto simp: butlast_conv_take last_conv_nth True [symmetric] simp flip: length_0_conv)
    then have "length src mod 8 = 0" using assms(2) that by (auto simp: pack_overread_def Let_def)
    then obtain q where "length src = 8 * q" by auto
    then show ?thesis using True by simp
  next
    case False
    then show ?thesis using k by linarith
  qed
  then show "\<exists>s'. pack_pass src k s = Inr s' \<and> pack_inv src B (length buf) (Suc k) s'" by (rule pack_pass_ok [OF k assms(1) inv])
qed

lemma sproto_pack_ok:
  assumes B: "B \<le> int (length buf)" and ok: "\<not> pack_overread src"
  shows "\<exists>b. sproto_pack src buf B = Inr (length (zpacked src), b) \<and> length b = length buf \<and>
    (int (length (zpacked src)) \<le> B \<longrightarrow> take (length (zpacked src)) b = map Some (zpacked src))"
proof -
  let ?m = "(length src + 7) div 8"
  obtain s where s: "forR ?m (pack_pass src) \<lparr>pk_buf = buf, pk_pos = 0, pk_bufsz = B, pk_size = 0, ff_start = 0, ff_srcstart = [], ff_desstart = 0, ff_n = 0\<rparr> = Inr s"
    "pack_inv src B (length buf) ?m s" using pack_loop_ok [OF assms] by blast
  obtain bs ff where st: "pack_st src ?m = (bs, ff)" by fastforce
  let ?n = "length (out_of bs)"
  have i: "ff_n s = length ff" "pk_pos s = ?n + run_size ff" "pk_size s = pk_pos s" "pk_bufsz s = B - int (pk_pos s)" "length (pk_buf s) = length buf"
    "ff \<noteq> [] \<Longrightarrow> ff_desstart s = ?n" "ff \<noteq> [] \<Longrightarrow> ff_start s = 8 * (?m - length ff)" "ff \<noteq> [] \<Longrightarrow> ff_srcstart s = pack_word src (8 * (?m - length ff))"
    "int (pk_pos s) \<le> B \<Longrightarrow> take ?n (pk_buf s) = map Some (out_of bs)"
    using s(2) unfolding pack_inv_def st by auto
  have ff: "length ff \<le> ?m" "ff = map (word_at src) [?m - length ff..<?m]" using pack_st_ok [of ?m src] unfolding st by simp_all
  have cl: "length (concat ff) = 8 * length ff" using concat_words [of "?m - length ff" "length ff" src] ff by simp
  have "pack_st src ?m = foldl word_step ([], []) (words src)" by simp
  then have pk: "zpacked src = out_of bs @ out_of (flush ff)" using st by (simp add: zpacked_def blocks_def)
  have len: "length (zpacked src) = pk_pos s" using pk i(2) cl by (simp add: flush_def run_size_def)
  show ?thesis
  proof (cases "pk_bufsz s \<ge> 0 \<and> ff \<noteq> []")
    case False
    then have "sproto_pack src buf B = Inr (pk_size s, pk_buf s)" using s(1) i(1) by (simp add: sproto_pack_def)
    moreover have "take (pk_pos s) (pk_buf s) = map Some (zpacked src)" if "int (pk_pos s) \<le> B"
      using i(2,4,9) that False pk by (simp add: run_size_def flush_def)
    ultimately show ?thesis using i(3,5) len by simp
  next
    case True
    have j: "?m - length ff < ?m" using True ff(1) by (cases ff) auto
    have "run_size ff = 2 + 8 * length ff" using True by (simp add: run_size_def)
    then have room: "?n + 2 + 8 * length ff \<le> length (pk_buf s)" using True i(2,4,5) B by linarith
    have "(if ff_n s = 1 then write_ff (ff_srcstart s) (pk_buf s) (ff_desstart s) 8
          else if ff_n s > 1 then write_ff (ff_srcstart s) (pk_buf s) (ff_desstart s) (length src - ff_start s)
          else Inr (pk_buf s)) = Inr (take ?n (pk_buf s) @ map Some (block_enc (Run ff)) @ drop (?n + 2 + 8 * length ff) (pk_buf s))"
    proof (cases "length ff = 1")
      case one: True
      then have "ff = [word_at src (?m - 1)]" using ff(2) j by (simp add: upt_conv_Cons)
      then have "take 8 (ff_srcstart s) = concat ff" "8 \<le> length (ff_srcstart s)" using pack_word_at [of "?m - 1" src] i(8) one True j by simp_all
      then show ?thesis using write_ff_ok [of 8 "ff_srcstart s" ?n "pk_buf s"] room one i(1,6) True by simp
    next
      case False
      then have "1 < length ff" using True by (cases ff) auto
      moreover have "8 * (?m - length ff) + 8 \<le> length src" using calculation ff(1) by linarith
      then have "ff_srcstart s = drop (8 * (?m - length ff)) src" using i(8) True pack_word_at(3) [OF j] by simp
      ultimately show ?thesis using write_last_run [OF ff(2) j room] i(1,6,7) True by simp
    qed
    then show ?thesis using s(1) i len True pk room cl
      by (simp add: sproto_pack_def flush_def run_size_def)
  qed
qed

section \<open>Unpacking\<close>

lemma bit_zbits: "n \<le> 8 \<Longrightarrow> bit (zbits w n) i \<longleftrightarrow> i < n \<and> w ! i \<noteq> 0"
  by (induction n) (auto simp: bit_simps less_Suc_eq)

lemma bit_zheader: "bit (zheader w) i \<longleftrightarrow> i < 8 \<and> w ! i \<noteq> 0"
  using bit_zbits [of 8 w i] by (simp add: zheader_def zbits_def)

lemma zheader_ff:
  assumes "length w = 8" and "length (zbytes w) < 8"
  shows "zheader w \<noteq> 0xff"
proof
  assume ff: "zheader w = 0xff"
  then have "zheader w = mask 8" by (simp add: mask_eq_exp_minus_1)
  moreover have "bit (mask 8 :: byte) i" if "i < 8" for i using that by (simp add: bit_mask_iff possible_bit_def del: mask_numeral)
  ultimately have "w ! i \<noteq> 0" if "i < 8" for i using bit_zheader [of w i] that by simp
  then have "\<forall>b\<in>set w. b \<noteq> 0" using assms(1) by (auto simp: in_set_conv_nth)
  then have "zbytes w = w" by (simp add: zbytes_def filter_id_conv)
  then show False using assms by simp
qed

text \<open>What has been unpacked is in the buffer, if there is room for it.\<close>

definition unpack_inv :: "byte list \<Rightarrow> int \<Rightarrow> nat \<Rightarrow> nat \<Rightarrow> byte list \<Rightarrow> unpack_state \<Rightarrow> bool" where
  "unpack_inv src B L p d s \<longleftrightarrow>
     up_src s = p \<and> up_srcsz s = int (length src) - int p \<and> length (up_buf s) = L \<and> up_size s = length d \<and> int (up_pos s) + up_bufsz s \<le> B \<and>
     (int (length d) \<le> B \<longrightarrow> up_pos s = length d \<and> up_bufsz s = B - int (length d) \<and> take (length d) (up_buf s) = map Some d)"

lemma put_byte_ok:
  assumes B: "B \<le> int L" and inv: "unpack_inv src B L p d s"
  shows "\<exists>s'. (if up_bufsz s > 0 then put_byte s b else Inr s) = Inr s' \<and> up_src s' = up_src s \<and> up_srcsz s' = up_srcsz s \<and> up_size s' = up_size s \<and>
    unpack_inv src B L p (d @ [b]) (s'\<lparr>up_size := up_size s + 1\<rparr>)"
proof (cases "up_bufsz s > 0")
  case False
  then have "\<not> int (length (d @ [b])) \<le> B" using inv by (auto simp: unpack_inv_def)
  then show ?thesis using False inv by (simp add: unpack_inv_def)
next
  case True
  have p: "up_pos s < length (up_buf s)" using True inv B by (auto simp: unpack_inv_def)
  have "take (length (d @ [b])) ((up_buf s)[up_pos s := Some b]) = map Some (d @ [b])" if "int (length (d @ [b])) \<le> B"
    using inv that take_write [OF p, of "Some b"] by (simp add: unpack_inv_def)
  then show ?thesis using True p inv by (auto simp: unpack_inv_def put_byte_def)
qed

lemma unpack_byte_ok:
  assumes B: "B \<le> int L" and inv: "unpack_inv src B L p d s" and i: "i < 8"
    and nz: "w ! i \<noteq> 0 \<Longrightarrow> p < length src \<and> src ! p = w ! i"
  shows "\<exists>s'. unpack_byte src (zheader w) i (True, s) = Inr (True, s') \<and> unpack_inv src B L (if w ! i \<noteq> 0 then p + 1 else p) (d @ [w ! i]) s'"
proof -
  obtain s1 where s1: "(if up_bufsz s > 0 then put_byte s (w ! i) else Inr s) = Inr s1" "up_src s1 = up_src s" "up_srcsz s1 = up_srcsz s" "up_size s1 = up_size s"
    "unpack_inv src B L p (d @ [w ! i]) (s1\<lparr>up_size := up_size s + 1\<rparr>)" using put_byte_ok [OF B inv] by blast
  show ?thesis
  proof (cases "w ! i = 0")
    case True
    then show ?thesis using s1 by (auto simp: unpack_byte_def bit_zheader)
  next
    case False
    then have "rd src (up_src s) = Inr (w ! i)" "up_srcsz s \<ge> 0" using nz inv by (simp_all add: unpack_inv_def)
    moreover have "unpack_inv src B L (p + 1) (d @ [w ! i]) (s1\<lparr>up_src := up_src s + 1, up_srcsz := up_srcsz s - 1, up_size := up_size s + 1\<rparr>)"
      using s1(5) inv by (auto simp: unpack_inv_def)
    moreover have "bit (zheader w) i" using False i by (simp add: bit_zheader)
    ultimately show ?thesis using s1(1-4) False by (auto simp: unpack_byte_def)
  qed
qed

lemma unpack_word_ok:
  assumes B: "B \<le> int L" and inv: "unpack_inv src B L p d s" and w: "length w = 8" and src: "drop p src = zbytes w @ r"
  shows "\<exists>s'. forR 8 (unpack_byte src (zheader w)) (True, s) = Inr (True, s') \<and> unpack_inv src B L (p + length (zbytes w)) (d @ w) s'"
proof -
  have "\<exists>t. forR 8 (unpack_byte src (zheader w)) (True, s) = Inr t \<and> (\<exists>s'. t = (True, s') \<and> unpack_inv src B L (p + length (zbytes (take 8 w))) (d @ take 8 w) s')"
  proof (rule forR_invariant [where P = "\<lambda>i t. \<exists>s'. t = (True, s') \<and> unpack_inv src B L (p + length (zbytes (take i w))) (d @ take i w) s'"])
    show "\<exists>s'. (True, s) = (True, s') \<and> unpack_inv src B L (p + length (zbytes (take 0 w))) (d @ take 0 w) s'" using inv by (simp add: zbytes_def)
    fix i t assume i: "i < 8" and "\<exists>s'. t = (True, s') \<and> unpack_inv src B L (p + length (zbytes (take i w))) (d @ take i w) s'"
    then obtain s1 where s1: "t = (True, s1)" "unpack_inv src B L (p + length (zbytes (take i w))) (d @ take i w) s1" by blast
    have z: "zbytes (take (Suc i) w) = zbytes (take i w) @ (if w ! i \<noteq> 0 then [w ! i] else [])" using zbytes_take_Suc [of i w] i w by simp
    have "p + length (zbytes (take i w)) < length src \<and> src ! (p + length (zbytes (take i w))) = w ! i" if nz: "w ! i \<noteq> 0"
    proof -
      let ?k = "length (zbytes (take i w))"
      have "zbytes w = zbytes (take (Suc i) w) @ zbytes (drop (Suc i) w)" by (metis append_take_drop_id filter_append zbytes_def)
      then have "zbytes w ! ?k = w ! i" "?k < length (zbytes w)" using z nz by (simp_all add: nth_append)
      then have "drop p src ! ?k = w ! i" "?k < length (drop p src)" unfolding src by (simp_all add: nth_append)
      then show ?thesis by (simp add: less_diff_conv add.commute)
    qed
    from unpack_byte_ok [OF B s1(2) i this] obtain s2 where "unpack_byte src (zheader w) i (True, s1) = Inr (True, s2)"
      "unpack_inv src B L (if w ! i \<noteq> 0 then p + length (zbytes (take i w)) + 1 else p + length (zbytes (take i w))) ((d @ take i w) @ [w ! i]) s2" by blast
    then show "\<exists>t'. unpack_byte src (zheader w) i t = Inr t' \<and> (\<exists>s'. t' = (True, s') \<and> unpack_inv src B L (p + length (zbytes (take (Suc i) w))) (d @ take (Suc i) w) s')"
      using s1(1) i w z by (auto simp: take_Suc_conv_app_nth)
  qed
  then show ?thesis using w by auto
qed

lemma concat_8: "\<forall>w\<in>set ws. length w = 8 \<Longrightarrow> length (concat ws) = 8 * length ws"
  by (induction ws) auto

lemma unpack_run_ok:
  assumes B: "B \<le> int L" and inv: "unpack_inv src B L p d s" and ok: "block_ok (Run ws)" and src: "drop p src = of_nat (length ws - 1) # concat ws @ r"
  shows "\<exists>s'. unpack_ff src s = Inr (True, s') \<and> unpack_inv src B L (p + 1 + 8 * length ws) (d @ concat ws) s'"
proof -
  have ws: "0 < length ws" "length ws \<le> 256" using ok by auto
  have len: "length (concat ws) = 8 * length ws" using ok concat_8 [of ws] by simp
  obtain m where m: "length ws = Suc m" using ws(1) by (cases "length ws") auto
  define c :: byte where "c = of_nat (length ws - 1)"
  have c: "unat c = m" using ws m by (simp add: c_def unsigned_of_nat take_bit_nat_eq_self)
  have src: "drop p src = c # concat ws @ r" using src by (simp add: c_def)
  have p: "p < length src" using src by (metis drop_all leI list.distinct(1))
  have "length (drop p src) = 1 + 8 * length ws + length r" unfolding src using len by simp
  then have room: "p + 1 + 8 * length ws + length r = length src" using p by simp
  have first: "src ! p = c" using src p by (metis nth_Cons_0 nth_via_drop)
  have "uint c = int m" using c by (metis uint_nat)
  then have room': "int p + 9 + 8 * uint (src ! p) + int (length r) = int (length src)" using room m first by simp
  have "drop (p + 1) src = concat ws @ r" using src by (metis drop_drop drop_Suc_Cons drop0 add.commute One_nat_def)
  then have data: "take ((unat (src ! p) + 1) * 8) (drop (p + 1) src) = concat ws" using len first c m by simp
  show ?thesis
  proof (cases "up_bufsz s \<ge> 8 * int (length ws)")
    case False
    then show ?thesis using inv c m p first room room' len by (auto simp: unpack_ff_def unpack_inv_def Let_def)
  next
    case True
    have pos: "up_pos s + 8 * length ws \<le> length (up_buf s)" using True inv B by (auto simp: unpack_inv_def)
    have "memcpyR (up_buf s) (up_pos s) (map Some (concat ws)) = Inr (take (up_pos s) (up_buf s) @ map Some (concat ws) @ drop (up_pos s + 8 * length ws) (up_buf s))"
      using pos len by simp
    then show ?thesis using True inv c m p first room room' len data pos by (auto simp: unpack_ff_def unpack_inv_def Let_def)
  qed
qed

lemma unpack_words_ok:
  assumes "\<forall>b\<in>set bs. block_ok b" and "drop p src = out_of bs" and "B \<le> int L" and "unpack_inv src B L p d s" and "length (out_of bs) \<le> fuel"
  shows "\<exists>s'. unpack_words fuel src s = Inr (True, s') \<and> unpack_inv src B L (p + length (out_of bs)) (d @ concat (map block_dec bs)) s'"
  using assms
proof (induction bs arbitrary: p d s fuel)
  case Nil
  then have "up_srcsz s \<le> 0" by (simp add: unpack_inv_def)
  then show ?case using Nil by (simp add: unpack_words.simps)
next
  case (Cons b bs)
  obtain h e where block_enc: "block_enc b = h # e" by (cases b) auto
  have p: "p < length src" "src ! p = h" "drop (p + 1) src = e @ out_of bs"
  proof -
    have "drop p src = h # e @ out_of bs" using Cons.prems(2) block_enc by simp
    then show "p < length src" "src ! p = h" "drop (p + 1) src = e @ out_of bs"
      by (metis drop_all leI list.distinct(1), metis nth_via_drop, metis Suc_eq_plus1 drop_Suc nth_via_drop list.sel(3) tl_drop)
  qed
  let ?s = "s\<lparr>up_srcsz := up_srcsz s - 1, up_src := up_src s + 1\<rparr>"
  have inv: "unpack_inv src B L (p + 1) d ?s" using Cons.prems(4) by (simp add: unpack_inv_def)
  have "\<exists>s1. (if h = 0xff then unpack_ff src ?s else forR 8 (unpack_byte src h) (True, ?s)) = Inr (True, s1) \<and>
      unpack_inv src B L (p + length (block_enc b)) (d @ block_dec b) s1"
  proof (cases b)
    case (Word w)
    then have w: "h = zheader w" "e = zbytes w" "length w = 8" "length (zbytes w) < 8" using block_enc Cons.prems(1) by auto
    then show ?thesis using unpack_word_ok [OF Cons.prems(3) inv w(3)] p(3) zheader_ff [OF w(3,4)] Word by simp
  next
    case (Run ws)
    then have ws: "h = 0xff" "e = of_nat (length ws - 1) # concat ws" "block_ok (Run ws)" using block_enc Cons.prems(1) by auto
    then have "length (concat ws) = 8 * length ws" using concat_8 [of ws] by simp
    then show ?thesis using unpack_run_ok [OF Cons.prems(3) inv ws(3)] p(3) ws Run by simp
  qed
  then obtain s1 where s1: "(if h = 0xff then unpack_ff src ?s else forR 8 (unpack_byte src h) (True, ?s)) = Inr (True, s1)"
    "unpack_inv src B L (p + length (block_enc b)) (d @ block_dec b) s1" by blast
  obtain f where f: "fuel = Suc f" "length (out_of bs) \<le> f" using Cons.prems(5) block_enc by (cases fuel) auto
  have "drop (p + length (block_enc b)) src = out_of bs" using p(3) block_enc by (metis add.assoc add.commute append_eq_conv_conj drop_drop length_Cons plus_1_eq_Suc)
  then have "\<exists>s'. unpack_words f src s1 = Inr (True, s') \<and> unpack_inv src B L (p + length (block_enc b) + length (out_of bs)) ((d @ block_dec b) @ concat (map block_dec bs)) s'"
    using Cons.IH [OF _ _ Cons.prems(3) s1(2) f(2)] Cons.prems(1) by simp
  moreover have "up_srcsz s > 0" "up_src s = p" using Cons.prems(4) p(1) by (simp_all add: unpack_inv_def)
  ultimately show ?case using s1(1) p f(1) by (auto simp: unpack_words.simps [of "Suc f"] Let_def add.assoc)
qed

lemma blocks_ok: "\<forall>b\<in>set (blocks src). block_ok b" "concat (map block_dec (blocks src)) = zpadded src"
proof -
  obtain bs ff where st: "foldl word_step ([], []) (words src) = (bs, ff)" by fastforce
  then have ok: "length ff < 256" "ff = map (word_at src) [(length src + 7) div 8 - length ff..<(length src + 7) div 8]"
    "\<forall>b\<in>set bs. block_ok b" "concat (map block_dec bs) @ concat ff = concat (words src)"
    using pack_st_ok [of "(length src + 7) div 8" src] by simp_all
  have "length w = 8" if "w \<in> set ff" for w
  proof -
    from that have "w \<in> word_at src ` {(length src + 7) div 8 - length ff..<(length src + 7) div 8}" using ok(2) by (metis list.set_map set_upt)
    then show ?thesis by auto
  qed
  then show "\<forall>b\<in>set (blocks src). block_ok b" using ok st by (auto simp: blocks_def flush_def)
  show "concat (map block_dec (blocks src)) = zpadded src" using ok(4) st concat_all_words [of src] by (auto simp: blocks_def flush_def)
qed

lemma sproto_unpack_ok:
  assumes "B \<le> int (length buf)"
  shows "\<exists>b. sproto_unpack (zpacked src) buf B = Inr (Some (length (zpadded src)), b) \<and> length b = length buf \<and>
    (int (length (zpadded src)) \<le> B \<longrightarrow> take (length (zpadded src)) b = map Some (zpadded src))"
proof -
  let ?s = "\<lparr>up_src = 0, up_srcsz = int (length (zpacked src)), up_buf = buf, up_pos = 0, up_bufsz = B, up_size = 0\<rparr>"
  have "unpack_inv (zpacked src) B (length buf) 0 [] ?s" by (simp add: unpack_inv_def)
  then have "\<exists>s'. unpack_words (length (zpacked src)) (zpacked src) ?s = Inr (True, s') \<and>
      unpack_inv (zpacked src) B (length buf) (0 + length (out_of (blocks src))) ([] @ concat (map block_dec (blocks src))) s'"
    by (intro unpack_words_ok [OF blocks_ok(1) _ assms]) (simp_all add: zpacked_def)
  then show ?thesis using blocks_ok(2) [of src] by (auto simp: sproto_unpack_def unpack_inv_def)
qed

end
