(* ===== verification/Sproto_Pack_Lua.thy ===== *)
theory Sproto_Pack_Lua
  imports Sproto_Pack_Laws
begin

text \<open>
  The functions \<^verbatim>\<open>pack\<close> and \<^verbatim>\<open>unpack\<close> of \<^verbatim>\<open>lsproto.c\<close>: the buffer they provide is always large enough.
\<close>

section \<open>The size of a packed text\<close>

definition pack_total :: "block list \<times> byte list list \<Rightarrow> nat" where
  "pack_total st = length (out_of (fst st)) + run_size (snd st)"

lemma concat_pending: "block_ok (Run ff) \<Longrightarrow> length (block_enc (Run ff)) = run_size ff"
  using concat_8 [of ff] by (simp add: run_size_def)

lemma total_packed: "length (zpacked src) = pack_total (pack_st src ((length src + 7) div 8))"
proof -
  obtain bs ff where st: "foldl word_step ([], []) (words src) = (bs, ff)" by fastforce
  have "block_ok (Run ff)" if "ff \<noteq> []" using blocks_ok(1) [of src] st that by (simp add: blocks_def flush_def)
  then show ?thesis using st concat_pending [of ff] by (auto simp: zpacked_def blocks_def flush_def pack_total_def run_size_def)
qed

lemma total_step:
  assumes k: "k < (length src + 7) div 8"
  defines "ff \<equiv> snd (pack_st src k)" and "z \<equiv> length (zbytes (word_at src k))"
  shows "pack_total (pack_st src (Suc k)) = pack_total (pack_st src k) + (if ff = [] then if z = 8 then 10 else z + 1 else if z \<ge> 6 then 8 else z + 1)"
proof -
  obtain bs ff' where st: "pack_st src k = (bs, ff')" by fastforce
  have ff': "ff' = ff" "length ff < 256" "ff = map (word_at src) [k - length ff..<k]" using pack_st_ok [of k src] k st by (simp_all add: ff_def)
  have "block_ok (Run ff)" "block_ok (Run (ff @ [word_at src k]))" if "ff \<noteq> []"
  proof -
    have "length w = 8" if "w \<in> set ff" for w
    proof -
      have "w \<in> word_at src ` {k - length ff..<k}" using that ff'(3) by (metis list.set_map set_upt)
      then show ?thesis using k by auto
    qed
    then show "block_ok (Run ff)" "block_ok (Run (ff @ [word_at src k]))" using ff'(2) k \<open>ff \<noteq> []\<close> by auto
  qed
  then show ?thesis using pack_st_Suc [OF k] st ff' concat_pending [of ff] concat_pending [of "ff @ [word_at src k]"]
    by (simp add: pack_total_def run_size_def z_def del: block_enc.simps(2))
qed

lemma total_bound:
  assumes "k \<le> (length src + 7) div 8"
  shows "pack_total (pack_st src k) \<le> 8 * k + 2 * ((k - length (snd (pack_st src k))) div 256) + (if snd (pack_st src k) = [] then 0 else 2)"
  using assms
proof (induction k)
  case (Suc k)
  then have k: "k < (length src + 7) div 8" by simp
  obtain bs ff where st: "pack_st src k = (bs, ff)" by fastforce
  let ?z = "length (zbytes (word_at src k))"
  have z: "?z \<le> 8" using zbytes_le [of "word_at src k"] k by simp
  have len: "length ff < 256" "length ff \<le> k" using pack_st_ok [of k src] k st by simp_all
  have IH: "pack_total (bs, ff) \<le> 8 * k + 2 * ((k - length ff) div 256) + (if ff = [] then 0 else 2)" using Suc st by simp
  note step = total_step [OF k, unfolded st]
  have mono: "(k - length ff) div 256 \<le> Suc k div 256" by (rule div_le_mono) simp
  consider (a) "ff = []" "?z = 8" | (b) "ff = []" "?z < 8" | (c) "ff \<noteq> []" "6 \<le> ?z" "length ff = 255" | (d) "ff \<noteq> []" "6 \<le> ?z" "length ff < 255" | (e) "ff \<noteq> []" "?z < 6"
    using z len(1) by linarith
  then show ?case
  proof cases
    case c
    then have "Suc k = (k - length ff) + 256" using len(2) by simp
    then have "Suc k div 256 = (k - length ff) div 256 + 1" by simp
    then show ?thesis using IH step c pack_st_Suc [OF k] st by simp
  next
    case b
    then have "pack_total (pack_st src (Suc k)) \<le> 8 * Suc k + 2 * ((k - length ff) div 256)" "snd (pack_st src (Suc k)) = []" using IH step pack_st_Suc [OF k] st by simp_all
    then show ?thesis using mono by simp
  next
    case e
    then have "pack_total (pack_st src (Suc k)) \<le> 8 * Suc k + 2 * ((k - length ff) div 256)" "snd (pack_st src (Suc k)) = []" using IH step pack_st_Suc [OF k] st by simp_all
    then show ?thesis using mono by simp
  qed (use IH step pack_st_Suc [OF k] st in simp_all)
qed (simp add: pack_total_def run_size_def)

lemma zpacked_bound: "length (zpacked src) \<le> length src + (length src + 2047) div 2048 * 2 + 2"
proof (cases "src = []")
  case True
  then show ?thesis by (simp add: zpacked_def blocks_def words_def flush_def)
next
  case False
  obtain k where k: "(length src + 7) div 8 = Suc k" using False by (cases "(length src + 7) div 8") (auto simp: div_eq_0_iff)
  have sz: "8 * k < length src" "length src \<le> 8 * k + 8" using k by linarith+
  have c: "(length src + 2047) div 2048 = k div 256 + 1" using sz by linarith
  obtain bs ff where st: "pack_st src k = (bs, ff)" by fastforce
  let ?z = "length (zbytes (word_at src k))"
  have "word_at src k = drop (8 * k) src @ replicate (8 * k + 8 - length src) 0" using sz by (simp add: word_at_def zpadded_def k)
  then have z: "?z \<le> length src - 8 * k" by (simp add: zbytes_def) (metis length_drop length_filter_le)
  have B: "pack_total (bs, ff) \<le> 8 * k + 2 * ((k - length ff) div 256) + (if ff = [] then 0 else 2)" using total_bound [of k src] k st by simp
  define x y where "x = (k - length ff) div 256" and "y = k div 256"
  have "x \<le> y" unfolding x_def y_def by (rule div_le_mono) simp
  moreover have "?z + 8 * k \<le> length src" using z sz by linarith
  moreover have "length (zpacked src) = pack_total (bs, ff) + (if ff = [] then if ?z = 8 then 10 else ?z + 1 else if ?z \<ge> 6 then 8 else ?z + 1)"
    using total_step [of k src] total_packed [of src] k st by simp
  ultimately have "length (zpacked src) \<le> length src + (y + 1) * 2 + 2" using B sz unfolding x_def [symmetric] by (auto split: if_splits)
  then show ?thesis by (simp add: c y_def)
qed

section \<open>The buffer\<close>

lemma double_size_ok:
  assumes "0 < osz" and "osz < nsz" and "nsz \<le> 2 ^ 23" and "nsz \<le> osz * 2 ^ Suc fuel"
  shows "\<exists>n. double_size fuel osz nsz = Inr n \<and> nsz \<le> n \<and> n \<le> 2 ^ 24"
  using assms
proof (induction fuel arbitrary: osz)
  case 0
  then show ?case by (simp add: double_size.simps)
next
  case (Suc fuel)
  show ?case
  proof (cases "osz * 2 < nsz")
    case True
    then show ?thesis using Suc.IH [of "osz * 2"] Suc.prems by (simp add: double_size.simps [of "Suc fuel"])
  next
    case False
    then show ?thesis using Suc.prems by (simp add: double_size.simps)
  qed
qed

lemma expand_buffer_ok:
  assumes "0 < osz" and "osz < nsz" and "nsz \<le> 2 ^ 23"
  shows "\<exists>b. expand_buffer osz nsz = Inr b \<and> nsz \<le> int (length b) \<and> int (length b) \<le> 2 ^ 24"
proof -
  have "(2 :: int) ^ 23 \<le> osz * 2 ^ Suc 31" using assms(1) by simp
  then obtain n where "double_size 31 osz nsz = Inr n" "nsz \<le> n" "n \<le> 2 ^ 24" using double_size_ok [of osz nsz 31] assms by (meson order_trans)
  then show ?thesis using assms by (simp add: expand_buffer_def ENCODE_MAXSIZE_def)
qed

lemma pushed:
  assumes "take n b = map Some xs" and "n = length xs"
  shows "read_bytes b n = Inr xs"
proof -
  have "n \<le> length b" using assms by (metis length_map length_take min.cobounded1)
  then show ?thesis using assms by (auto simp: read_bytes_def o_def)
qed

section \<open>Packing and unpacking\<close>

lemma sproto_lpack_ok:
  assumes out: "0 < length out" and small: "length src < 2 ^ 22" and ok: "\<not> pack_overread src"
  shows "\<exists>out'. sproto_lpack out src = Inr (zpacked src, out') \<and> 0 < length out'"
proof -
  define maxsz where "maxsz = (length src + 2047) div 2048 * 2 + length src + 2"
  have m: "maxsz \<le> 2 ^ 23" using small by (simp add: maxsz_def)
  have i: "int_of_long (int maxsz) = int maxsz" using m by (simp add: int_of_long_def signed_of_nat signed_take_bit_int_eq_self)
  have "\<exists>b. (if length out < maxsz then expand_buffer (int (length out)) (int maxsz) else Inr out) = Inr b \<and> maxsz \<le> length b"
    using expand_buffer_ok [of "int (length out)" "int maxsz"] out m by auto
  then obtain b where b: "(if length out < maxsz then expand_buffer (int (length out)) (int maxsz) else Inr out) = Inr b" "maxsz \<le> length b" by blast
  obtain b' where b': "sproto_pack src b (int maxsz) = Inr (length (zpacked src), b')" "length b' = length b"
    "int (length (zpacked src)) \<le> int maxsz \<longrightarrow> take (length (zpacked src)) b' = map Some (zpacked src)"
    using sproto_pack_ok [of "int maxsz" b src] b(2) ok by auto
  have bound: "length (zpacked src) \<le> maxsz" using zpacked_bound [of src] by (simp add: maxsz_def)
  have "lua_pushlstring b' (length (zpacked src)) = Inr (zpacked src)" using b'(3) bound by (intro pushed) simp_all
  moreover have "0 < length b'" using b(2) b'(2) by (auto simp: maxsz_def)
  ultimately show ?thesis using b'(1) bound unfolding sproto_lpack_def maxsz_def [symmetric] Let_def i b(1) by simp
qed

lemma sproto_lunpack_ok:
  assumes out: "0 < length out" and small: "length src < 2 ^ 22"
  shows "\<exists>out'. sproto_lunpack out (zpacked src) = Inr (zpadded src, out') \<and> 0 < length out'"
proof -
  let ?n = "length (zpadded src)"
  obtain b where b: "sproto_unpack (zpacked src) out (int (length out)) = Inr (Some ?n, b)" "length b = length out"
    "int ?n \<le> int (length out) \<longrightarrow> take ?n b = map Some (zpadded src)" using sproto_unpack_ok [of "int (length out)" out src] by auto
  show ?thesis
  proof (cases "?n > length out")
    case False
    then have "lua_pushlstring b ?n = Inr (zpadded src)" using b(3) by (intro pushed) simp_all
    then show ?thesis using b False out by (auto simp: sproto_lunpack_def)
  next
    case True
    have "int ?n \<le> 2 ^ 23" using small by simp
    then obtain b1 where b1: "expand_buffer (int (length out)) (int ?n) = Inr b1" "int ?n \<le> int (length b1)"
      using expand_buffer_ok [of "int (length out)" "int ?n"] out True by auto
    obtain b2 where b2: "sproto_unpack (zpacked src) b1 (int ?n) = Inr (Some ?n, b2)" "length b2 = length b1" "take ?n b2 = map Some (zpadded src)"
      using sproto_unpack_ok [of "int ?n" b1 src] b1(2) by auto
    then have "lua_pushlstring b2 ?n = Inr (zpadded src)" by (intro pushed) simp_all
    moreover have "0 < length b2" using b1(2) b2(2) True by linarith
    ultimately show ?thesis using b True b1 b2 by (auto simp: sproto_lunpack_def simp del: zpadded_length)
  qed
qed

text \<open>C39. Unpacking what was packed: for every text below 4 MB, \<^verbatim>\<open>pack\<close> succeeds within the buffer it provides, and \<^verbatim>\<open>unpack\<close> gives the text back,
  filled up with zeros to a multiple of 8 bytes, whatever the buffers of the two functions were used for before. This excludes texts whose
  last, incomplete word ends a run of 256 words.\<close>

theorem sproto_pack_roundtrip:
  assumes "0 < length out" and "0 < length out'" and "length src < 2 ^ 22" and "\<not> pack_overread src"
  shows "\<exists>p out1 out2. sproto_lpack out src = Inr (p, out1) \<and> sproto_lunpack out' p = Inr (src @ replicate ((length src + 7) div 8 * 8 - length src) 0, out2)"
  using sproto_lpack_ok [OF assms(1,3,4)] sproto_lunpack_ok [OF assms(2,3)] by (auto simp: zpadded_def)


section \<open>Reading behind the end\<close>

lemma forR_from_snoc: "forR_from i (Suc n) f s = bindR (forR_from i n f s) (f (i + n))"
proof (induction n arbitrary: i s)
  case (Suc n)
  show ?case using Suc.IH [of "Suc i"] by (cases "f i s") (simp_all del: forR_from.simps(2) add: forR_from.simps(2) [of i])
qed (simp add: bindR_def split: sum.splits)

lemma forR_snoc: "forR (Suc n) f s = bindR (forR n f s) (f n)"
  using forR_from_snoc [of 0 n f s] by (simp add: forR_def)

text \<open>When the last word is not complete and ends a run of 256 words, \<^verbatim>\<open>write_ff\<close> is told to copy 2048 bytes from the source, which ends
  before: the bytes behind the source are read and packed.\<close>

theorem pack_reads_behind_source:
  assumes over: "pack_overread src" and B: "int (length src + (length src + 2047) div 2048 * 2 + 2) \<le> B" "B \<le> int (length buf)"
  shows "sproto_pack src buf B = Inl Out_of_bounds"
proof -
  have ne: "words src \<noteq> []" using over by (auto simp: pack_overread_def Let_def)
  then obtain k where k: "(length src + 7) div 8 = Suc k" by (metis length_0_conv nat.exhaust words_length)
  have last: "butlast (words src) = take k (words src)" "last (words src) = word_at src k" using ne k by (simp_all add: butlast_conv_take last_conv_nth)
  obtain bs ff where st: "pack_st src k = (bs, ff)" by fastforce
  have o: "length ff = 255" "6 \<le> length (zbytes (word_at src k))" "length src mod 8 \<noteq> 0" using over last st by (auto simp: pack_overread_def Let_def)
  have short: "length src < 8 * Suc k" "8 * k < length src"
  proof -
    have "length src \<le> 8 * k + 8" using k by linarith
    then have "length src \<le> 8 * Suc k" by simp
    moreover have "length src \<noteq> 8 * Suc k" using o(3) by auto
    ultimately show "length src < 8 * Suc k" by simp
    show "8 * k < length src" using k by linarith
  qed
  let ?s = "\<lparr>pk_buf = buf, pk_pos = 0, pk_bufsz = B, pk_size = 0, ff_start = 0, ff_srcstart = [], ff_desstart = 0, ff_n = 0\<rparr>"
  have "\<exists>s. forR k (pack_pass src) ?s = Inr s \<and> pack_inv src B (length buf) k s"
  proof (rule forR_invariant)
    show "pack_inv src B (length buf) 0 ?s" by (simp add: pack_inv_def run_size_def)
    fix j s assume "j < k" "pack_inv src B (length buf) j s"
    then show "\<exists>s'. pack_pass src j s = Inr s' \<and> pack_inv src B (length buf) (Suc j) s'" using k short(2) by (intro pack_pass_ok [OF _ B(2)]) simp_all
  qed
  then obtain s where s: "forR k (pack_pass src) ?s = Inr s" "pack_inv src B (length buf) k s" by blast
  let ?n = "length (out_of bs)"
  have ff: "ff \<noteq> []" "length ff \<le> k" using o(1) pack_st_ok [of k src] k st by auto
  have i: "ff_n s = 255" "pk_pos s = ?n + 2042" "pk_bufsz s = B - int (pk_pos s)" "length (pk_buf s) = length buf" "ff_desstart s = ?n"
    "ff_srcstart s = pack_word src (8 * (k - 255))" using s(2) ff(1) o(1) by (simp_all add: pack_inv_def st run_size_def)
  have "length (zpacked src) = ?n + 2050" using total_step [of k src] total_packed [of src] k st o ff(1) by (simp add: pack_total_def run_size_def)
  then have room: "int (pk_pos s) + 8 \<le> B" using zpacked_bound [of src] B(1) i(2) by simp
  have src: "ff_srcstart s = drop (8 * (k - 255)) src" using i(6) pack_word_at(3) [of "k - 255" src] ff(2) o(1) k short(2) by simp
  have w: "take 8 (pack_word src (8 * k)) = word_at src k" "8 \<le> length (pack_word src (8 * k))" using pack_word_at [of k src] k by simp_all
  have "seg_len 255 (word_at src k) = 8" using o(2) by (simp add: seg_len_def)
  then obtain b where b: "pack_seg (pack_word src (8 * k)) (pk_buf s) (pk_pos s) (pk_bufsz s) 255 = Inr (8, b)" "length b = length buf"
    using pack_seg_ok [OF w(2), of "pk_pos s" "pk_bufsz s" "pk_buf s" 255] i(3,4) B(2) unfolding w(1) by auto
  have "write_ff (ff_srcstart s) b ?n 2048 = Inl Out_of_bounds"
    using src short ff(2) o(1) room i(2) B(2) b(2) by (simp add: write_ff_def)
  then have "pack_pass src k s = Inl Out_of_bounds" using b(1) i room by (simp add: pack_pass_def Let_def)
  then show ?thesis using s(1) by (simp add: sproto_pack_def k forR_snoc)
qed

text \<open>A text that ends with \<open>0xff\<close> where a word is expected makes \<^verbatim>\<open>sproto_unpack\<close> read behind its end: the size is tested for being negative
  after it was decreased.\<close>

theorem unpack_reads_behind_source: "sproto_unpack [0xff] buf B = Inl Out_of_bounds"
  by (simp add: sproto_unpack_def unpack_words.simps unpack_ff_def Let_def rd_def)

section \<open>Examples\<close>

lemma ex_no_overread: "\<not> pack_overread [1, 0, 0, 2, 0, 0, 0, 0, 3]"
  by code_simp

theorem sproto_pack_roundtrip_witness:
  "\<exists>p out1 out2. sproto_lpack pushfunction_withbuffer [1, 0, 0, 2, 0, 0, 0, 0, 3] = Inr (p, out1) \<and>
    sproto_lunpack pushfunction_withbuffer p = Inr ([1, 0, 0, 2, 0, 0, 0, 0, 3, 0, 0, 0, 0, 0, 0, 0], out2)"
proof -
  have b: "0 < length pushfunction_withbuffer" by (simp add: pushfunction_withbuffer_def ENCODE_BUFFERSIZE_def)
  have "length [1, 0, 0, 2, 0, 0, 0, 0, 3 :: byte] < 2 ^ 22" by simp
  moreover have "replicate 7 0 = [0, 0, 0, 0, 0, 0, 0 :: byte]" by (simp add: numeral_eq_Suc)
  ultimately show ?thesis using sproto_pack_roundtrip [OF b b _ ex_no_overread] by simp
qed


end
