(* ===== verification/Spec2Isabelle.thy ===== *)
theory Spec2Isabelle
  imports Sched Timer Command Netpack Des Base64 Sha1 Seri_Laws Gate_Table Cluster Harbor_State Sproto_Pack_Lua
begin

text \<open>
  A model of the C core of the skynet server framework and of the Lua bindings that its game
  server uses, with the theorems that make them correct. File names are relative to \<^verbatim>\<open>src/\<close>.

  \<^bold>\<open>The program.\<close> A skynet process runs services. A service is a context with a C callback, a
  handle and a message queue. Sending a message (\<^verbatim>\<open>skynet_send\<close>) pushes it onto the queue of the
  receiver; a queue with messages is linked into the global queue, from which worker threads take
  queues and dispatch their messages (\<^verbatim>\<open>skynet_context_message_dispatch\<close>). The handle table maps
  handles and names to contexts, the module loader finds the shared objects of the services, the
  timer sends a message to a service when a timeout expires, and \<^verbatim>\<open>skynet_command\<close> gives
  services a textual interface to all of this. The Lua bindings cut the bytes of sockets into packages
  (netpack), serialise the arguments of messages (seri) and provide the cryptography of the login
  protocol (crypt). The gate service accepts the connections of clients and forwards their packages to other services; the harbor service carries
  messages between the nodes of a network.

  \<^bold>\<open>Conventions\<close> (theory \<open>Prelude\<close>). A function of the source is a function of the same name; every
  failure of the C program that the model can see - a failed \<^verbatim>\<open>assert\<close>, an access outside an array, to
  uninitialised memory, through \<^verbatim>\<open>NULL\<close> or to freed memory, a loop that does not end, a signed overflow, \<^verbatim>\<open>exit\<close>, a
  Lua error - is a value of the type \<open>fault\<close>, and results have the type \<open>fault + 'a\<close>. A theorem that a result is
  \<open>Inr x\<close> therefore says that none of this happens. Pointers are addresses of heaps (\<open>World\<close>) or
  positions, machine integers are words of their width. Code that is loaded at run time (the callbacks of
  services, \<^verbatim>\<open>dlopen\<close>) and the clocks are arguments, collected in the record \<open>ext\<close>.

  \<^bold>\<open>Theories, and what is shown.\<close>

  \<^item> \<open>Prelude\<close>, \<open>Chunk\<close>, \<open>Bytes\<close>, \<open>CString\<close>: faults, checked arrays, loops, the locales \<open>fifo\<close> and \<open>dict\<close>, the
    buffers of the Lua bindings, integers in memory, the string functions of the C library.
  \<^item> \<open>Mq\<close>, \<open>Sched\<close> (\<^verbatim>\<open>skynet-src/skynet_mq.c\<close>): the growing ring of a service queue refines a list (interpretation of
    \<open>fifo\<close>); the linked global queue; a step relation of all interleavings of the queue operations, with the
    invariants that no wakeup is lost, a queue is held by at most one thread and no operation fails.
  \<^item> \<open>Wheel\<close>, \<open>Timer\<close> (\<^verbatim>\<open>skynet-src/skynet_timer.c\<close>): the hierarchical wheel refines a map from expiry times to
    lists of events; a timer fires at exactly its tick, across the wrap-around of the 32-bit clock.
  \<^item> \<open>World\<close>, \<open>Handle\<close>, \<open>Module\<close> (\<^verbatim>\<open>skynet_server.c\<close>, \<^verbatim>\<open>skynet_handle.c\<close>, \<^verbatim>\<open>skynet_module.c\<close>): contexts and sessions; registration
    with doubling of the table, names in a sorted array (interpretation of \<open>dict\<close>), retirement; the path search
    of the loader.
  \<^item> \<open>Server\<close> (\<^verbatim>\<open>skynet_server.c\<close>, \<^verbatim>\<open>skynet_harbor.c\<close>, \<^verbatim>\<open>skynet_error.c\<close>, \<^verbatim>\<open>skynet_log.c\<close>, \<^verbatim>\<open>skynet_monitor.c\<close>, \<^verbatim>\<open>skynet_env.c\<close>): sending,
    dispatching, launching; one invariant \<open>server_inv\<close> ties the handle table, the contexts and the queues.
  \<^item> \<open>Command\<close> (\<^verbatim>\<open>skynet_server.c\<close>): the commands of \<^verbatim>\<open>skynet_command\<close>.
  \<^item> \<open>Netpack\<close> (\<^verbatim>\<open>lualib-src/lua-netpack.c\<close>): packages are handed out complete and in order however the stream is
    cut, for interleaved sockets (interpretation of \<open>fifo\<close> for the ring of packages).
  \<^item> \<open>Seri\<close>, \<open>Seri_Laws\<close> (\<^verbatim>\<open>lualib-src/lua-seri.c\<close>): packing and unpacking Lua values; the round trip; unpacking
    arbitrary bytes is safe.
  \<^item> \<open>Des\<close>, \<open>Crypt\<close>, \<open>Base64\<close>, \<open>Sha1\<close> (\<^verbatim>\<open>lualib-src/lua-crypt.c\<close>, \<^verbatim>\<open>lualib-src/lsha1.c\<close>): round trips of DES, hex and base64;
    the agreement of the key exchange; SHA-1 and HMAC against their standards.
  \<^item> \<open>Hashid\<close>, \<open>Databuffer\<close>, \<open>Gate\<close>, \<open>Gate_Laws\<close>, \<open>Gate_Table\<close> (\<^verbatim>\<open>service-src/hashid.h\<close>, \<^verbatim>\<open>databuffer.h\<close>, \<^verbatim>\<open>service_gate.c\<close>): the chained
    hash table of sockets (interpretation of \<open>dict\<close>), the buffers that share one pool of nodes, and the service on top of them,
    which refines a map from sockets to what they have sent; in every reachable state every message is handled to its end.
  \<^item> \<open>Cluster\<close> (\<^verbatim>\<open>lualib-src/lua-cluster.c\<close>): the packages of requests and responses between nodes, whole or in parts; they arrive,
    and no string that arrives can make the reader leave it.

  \<^item> \<open>Service\<close>, \<open>Harbor_Queue\<close>, \<open>Harbor\<close>, \<open>Harbor_Laws\<close>, \<open>Harbor_Net\<close>, \<open>Harbor_Names\<close>, \<open>Harbor_State\<close> (\<^verbatim>\<open>service-src/service_harbor.c\<close>): the rings of
    waiting messages (interpretation of \<open>fifo\<close>), the connections to other nodes, the table of names and the main loop. Messages
    arrive at the other node as they were sent, those to a node or name that is not there yet wait and are sent in order, and the state stays
    well formed.

  \<^item> \<open>Sproto_Pack\<close>, \<open>Sproto_Pack_Laws\<close>, \<open>Sproto_Pack_Lua\<close> (\<^verbatim>\<open>lualib-src/sproto/sproto.c\<close>, \<^verbatim>\<open>lsproto.c\<close>): the packing of zeros; the round trip, the bound on
    the size of a packed text, and the inputs for which it reads behind its source.

  \<^bold>\<open>Bounds and fuel.\<close> Loops are structural or have a measure, except: the padding loop of SHA-1 (fuel 64, it ends at
  a block border), \<^verbatim>\<open>drop_queue\<close> (one round per message that is in the queue), the loops of \<open>unpack_one\<close> (one unit per byte: each level
  and each round reads one), the walks along the chains of \<open>Hashid\<close> and \<open>Databuffer\<close> (one unit per node) and the loop of the gate's
  \<^verbatim>\<open>dispatch_message\<close> (one unit per byte: a pass reads a header, or takes a package whose header was read before), the loops that empty a
  queue of the harbor service (one unit per cell) and its loop over received data (one unit per byte, a pass takes at least one), \<^verbatim>\<open>sproto_unpack\<close> (one unit per byte) and
  the doubling of a buffer size (31, the size is an \<^verbatim>\<open>int\<close>); for each of them a lemma shows that the fuel is enough, so that \<open>Endless_loop\<close> is
  never the result. The passes of \<^verbatim>\<open>skynet_handle_retireall\<close> depend on what the released services do; their
  fuel is an argument. \<^verbatim>\<open>powmodp\<close> does not end for the exponent 0 and is an \<open>option\<close>.

  \<^bold>\<open>Not modelled.\<close> Memory allocation succeeds; freeing is modelled for the contexts and queues only. Locks are
  modelled by their effect: an operation that holds a lock for its whole body is one step. System calls (threads, sockets, files)
  are outside: \<^verbatim>\<open>socket_server.c\<close>, \<^verbatim>\<open>skynet_start.c\<close>, \<^verbatim>\<open>skynet_main.c\<close>, \<^verbatim>\<open>skynet_daemon.c\<close>, \<^verbatim>\<open>malloc_hook.c\<close>,
  \<^verbatim>\<open>service_logger.c\<close>, \<^verbatim>\<open>service_snlua.c\<close> and the bindings that only pass arguments to them. Still to do, in this order:
  the harbor service, sproto, the socket slots and write lists of \<^verbatim>\<open>socket_server.c\<close>.
\<close>

end
